(* ===== verification/Prelude.thy ===== *)
theory Prelude
  imports Main "HOL-Library.Word"
begin

text \<open>
  Vocabulary shared by all components: the machine integers of the source, byte
  strings, little-endian conversions (Rust's \<^verbatim>\<open>to_le_bytes\<close> and
  \<^verbatim>\<open>from_le_bytes\<close>), the propagation of a \<^verbatim>\<open>Result\<close> by the question mark
  operator, and the collections of facts the component proofs are run with.
\<close>

unbundle bit_operations_syntax

section \<open>Types\<close>

type_synonym u8 = "8 word"
type_synonym u16 = "16 word"
type_synonym u32 = "32 word"
type_synonym u64 = "64 word"
type_synonym bytes = "u8 list"

named_theorems le_simps \<open>little-endian round trips\<close>

section \<open>Results\<close>

definition rbind :: "'e + 'a \<Rightarrow> ('a \<Rightarrow> 'e + 'b) \<Rightarrow> 'e + 'b" where
  "rbind r f = (case r of Inl e \<Rightarrow> Inl e | Inr x \<Rightarrow> f x)"

definition ok_or :: "'a option \<Rightarrow> 'e \<Rightarrow> 'e + 'a" where
  "ok_or x e = (case x of None \<Rightarrow> Inl e | Some y \<Rightarrow> Inr y)"

section \<open>Little-endian bytes\<close>

definition le_bytes :: "nat \<Rightarrow> 'a::len word \<Rightarrow> bytes" where
  "le_bytes n w = map (\<lambda>i. ucast (drop_bit (8 * i) w)) [0..<n]"

primrec le_word :: "bytes \<Rightarrow> 'a::len word" where
  "le_word [] = 0"
| "le_word (b # bs) = ucast b OR push_bit 8 (le_word bs)"

section \<open>Slices\<close>

text \<open>The range expression \<^verbatim>\<open>&s[start..end]\<close> for bounds that are in range.\<close>

definition sub_slice :: "nat \<Rightarrow> nat \<Rightarrow> 'a list \<Rightarrow> 'a list" where
  "sub_slice i j xs = take (j - i) (drop i xs)"

text \<open>\<^verbatim>\<open>s.get(start..end)\<close>: bounds out of range give \<^verbatim>\<open>None\<close>.\<close>

definition get_range :: "'a list \<Rightarrow> nat \<Rightarrow> nat \<Rightarrow> 'a list option" where
  "get_range xs i j = (if i \<le> j \<and> j \<le> length xs then Some (sub_slice i j xs) else None)"

text \<open>\<^verbatim>\<open>buf[start..start + v.len()].copy_from_slice(v)\<close> for a range in bounds.\<close>

definition copy_at :: "nat \<Rightarrow> 'a list \<Rightarrow> 'a list \<Rightarrow> 'a list" where
  "copy_at i vs xs = take i xs @ vs @ drop (i + length vs) xs"

section \<open>Facts\<close>

lemma rbind_simps [simp]:
  "rbind (Inl e) f = Inl e"
  "rbind (Inr x) f = f x"
  by (simp_all add: rbind_def)

lemma rbind_eq_Inr [simp]:
  "rbind r f = Inr y \<longleftrightarrow> (\<exists>x. r = Inr x \<and> f x = Inr y)"
  by (cases r) auto

lemma rbind_eq_Inl:
  "rbind r f = Inl e \<longleftrightarrow> r = Inl e \<or> (\<exists>x. r = Inr x \<and> f x = Inl e)"
  by (cases r) auto

lemma ok_or_simps [simp]:
  "ok_or None e = Inl e"
  "ok_or (Some x) e = Inr x"
  by (simp_all add: ok_or_def)

lemma ok_or_eq_Inr [simp]: "ok_or x e = Inr y \<longleftrightarrow> x = Some y"
  by (cases x) auto

lemma length_le_bytes [simp]: "length (le_bytes n w) = n"
  by (simp add: le_bytes_def)

lemma nth_le_bytes [simp]: "i < n \<Longrightarrow> le_bytes n w ! i = ucast (drop_bit (8 * i) w)"
  by (simp add: le_bytes_def)

lemma bit_le_word:
  "bit (le_word bs :: 'a::len word) i \<longleftrightarrow>
     i < LENGTH('a) \<and> i div 8 < length bs \<and> bit (bs ! (i div 8)) (i mod 8)"
proof (induction bs arbitrary: i)
  case (Cons b bs)
  show ?case
  proof (cases "i < 8")
    case True
    then show ?thesis
      by (auto simp: bit_simps)
  next
    case False
    then have "i div 8 = Suc ((i - 8) div 8)" and "(i - 8) mod 8 = i mod 8"
      by (simp_all add: le_div_geq le_mod_geq)
    moreover have "\<not> bit b i"
      using False by (auto simp: bit_simps dest: bit_imp_le_length)
    ultimately show ?thesis
      using False Cons.IH [of "i - 8"] by (auto simp: bit_simps)
  qed
qed simp

lemma le_word_le_bytes [simp, le_simps]:
  fixes w :: "'a::len word"
  assumes "LENGTH('a) = 8 * n"
  shows "le_word (le_bytes n w) = w"
proof (rule bit_word_eqI)
  fix i assume i: "i < LENGTH('a)"
  then have "i div 8 < n"
    using assms by (simp add: less_mult_imp_div_less mult.commute)
  then show "bit (le_word (le_bytes n w) :: 'a word) i = bit w i"
    using i by (simp add: bit_le_word bit_simps)
qed

lemma le_bytes_le_word [simp, le_simps]:
  assumes "LENGTH('a::len) = 8 * length bs"
  shows "le_bytes (length bs) (le_word bs :: 'a word) = bs"
proof (rule nth_equalityI)
  fix i assume "i < length (le_bytes (length bs) (le_word bs :: 'a word))"
  then have i: "i < length bs" by simp
  have "ucast (drop_bit (8 * i) (le_word bs :: 'a word)) = bs ! i"
  proof (rule bit_word_eqI)
    fix k assume "k < LENGTH(8)"
    then have k: "k < 8" by simp
    then have "(8 * i + k) div 8 = i" "(8 * i + k) mod 8 = k" "8 * i + k < LENGTH('a)"
      using i assms by simp_all
    then show "bit (ucast (drop_bit (8 * i) (le_word bs :: 'a word)) :: 8 word) k = bit (bs ! i) k"
      using i k by (simp add: bit_simps bit_le_word)
  qed
  then show "le_bytes (length bs) (le_word bs :: 'a word) ! i = bs ! i"
    using i by simp
qed simp

lemma le_bytes_inject:
  fixes v w :: "'a::len word"
  assumes "LENGTH('a) = 8 * n"
  shows "le_bytes n v = le_bytes n w \<longleftrightarrow> v = w"
  using le_word_le_bytes [OF assms] by metis

lemma length_sub_slice [simp]: "length (sub_slice i j xs) = min (j - i) (length xs - i)"
  by (simp add: sub_slice_def)

lemma get_range_eq_Some [simp]:
  "get_range xs i j = Some ys \<longleftrightarrow> i \<le> j \<and> j \<le> length xs \<and> ys = sub_slice i j xs"
  by (auto simp: get_range_def)

lemma get_range_eq_None [simp]: "get_range xs i j = None \<longleftrightarrow> \<not> (i \<le> j \<and> j \<le> length xs)"
  by (auto simp: get_range_def)

lemma length_copy_at [simp]:
  "i + length vs \<le> length xs \<Longrightarrow> length (copy_at i vs xs) = length xs"
  by (simp add: copy_at_def)

lemma take_copy_at:
  "i + length vs \<le> length xs \<Longrightarrow> take (i + length vs) (copy_at i vs xs) = take i xs @ vs"
  by (simp add: copy_at_def)

lemma sub_slice_drop_take: "j \<le> k \<Longrightarrow> sub_slice j k xs = drop j (take k xs)"
  by (simp add: sub_slice_def drop_take)

lemma sub_slice_copy_at_other:
  assumes "i + length v \<le> length D" "j \<le> k" "k \<le> i \<or> i + length v \<le> j"
  shows "sub_slice j k (copy_at i v D) = sub_slice j k D"
  using assms(3)
proof
  assume "k \<le> i"
  then show ?thesis using assms by (simp add: sub_slice_drop_take copy_at_def)
next
  assume "i + length v \<le> j"
  then show ?thesis using assms by (simp add: sub_slice_def copy_at_def)
qed

lemma sub_slice_copy_at_same:
  assumes "i + length v \<le> length D"
  shows "sub_slice i (i + length v) (copy_at i v D) = v"
  using assms by (simp add: sub_slice_def copy_at_def)

lemma sub_slice_copy_at_inside:
  assumes "i + length v \<le> length D" "k + m \<le> length v"
  shows "sub_slice (i + k) (i + k + m) (copy_at i v D) = sub_slice k (k + m) v"
  using assms by (simp add: sub_slice_def copy_at_def)

lemma unat_ucast_le:
  fixes w :: "'a::len word"
  assumes "LENGTH('a) \<le> LENGTH('b::len)"
  shows "unat (ucast w :: 'b word) = unat w"
  using assms by (simp add: unsigned_ucast_eq take_bit_nat_eq_self_iff)
     (metis less_le_trans one_le_numeral power_increasing unsigned_less take_bit_nat_eq_self)

lemma unat_of_nat_small [simp]:
  "n < 2 ^ LENGTH('a::len) \<Longrightarrow> unat (of_nat n :: 'a word) = n"
  by (simp add: unsigned_of_nat take_bit_nat_eq_self)

end
