(* ===== verification/Utf8.thy ===== *)
theory Utf8
  imports Prelude
begin

text \<open>
  The part of Rust's string types the program relies on. A \<^verbatim>\<open>str\<close> or
  \<^verbatim>\<open>String\<close> is its list of bytes; \<^verbatim>\<open>utf8_valid\<close> is the check made by
  \<^verbatim>\<open>core::str::from_utf8\<close> (the well-formedness table of the Unicode standard,
  one row per lead byte); \<^verbatim>\<open>char_encode_utf8\<close> is \<^verbatim>\<open>char::encode_utf8\<close> and
  \<^verbatim>\<open>first_char\<close> is \<^verbatim>\<open>s.chars().next()\<close>. A \<^verbatim>\<open>char\<close> of Rust is the number
  of its code point, restricted by \<^verbatim>\<open>is_scalar\<close>.
\<close>

type_synonym rstr = bytes
type_synonym rchar = nat

section \<open>Definitions\<close>

definition is_scalar :: "rchar \<Rightarrow> bool" where
  "is_scalar c \<longleftrightarrow> c < 0xD800 \<or> 0xE000 \<le> c \<and> c < 0x110000"

definition in_range :: "u8 \<Rightarrow> nat \<Rightarrow> nat \<Rightarrow> bool" where
  "in_range b lo hi \<longleftrightarrow> lo \<le> unat b \<and> unat b \<le> hi"

definition is_cont :: "u8 \<Rightarrow> bool" where
  "is_cont b \<longleftrightarrow> in_range b 0x80 0xBF"

definition lead2 :: "u8 \<Rightarrow> bool" where
  "lead2 b \<longleftrightarrow> in_range b 0xC2 0xDF"

definition lead3 :: "u8 \<Rightarrow> u8 \<Rightarrow> bool" where
  "lead3 b b1 \<longleftrightarrow>
     unat b = 0xE0 \<and> in_range b1 0xA0 0xBF \<or>
     in_range b 0xE1 0xEC \<and> is_cont b1 \<or>
     unat b = 0xED \<and> in_range b1 0x80 0x9F \<or>
     in_range b 0xEE 0xEF \<and> is_cont b1"

definition lead4 :: "u8 \<Rightarrow> u8 \<Rightarrow> bool" where
  "lead4 b b1 \<longleftrightarrow>
     unat b = 0xF0 \<and> in_range b1 0x90 0xBF \<or>
     in_range b 0xF1 0xF3 \<and> is_cont b1 \<or>
     unat b = 0xF4 \<and> in_range b1 0x80 0x8F"

text \<open>The first character of a byte string and the number of bytes it takes.\<close>

definition utf8_head :: "bytes \<Rightarrow> (rchar \<times> nat) option" where
  "utf8_head bs = (case bs of
     [] \<Rightarrow> None
   | b # bs1 \<Rightarrow>
       if unat b < 0x80 then Some (unat b, 1)
       else (case bs1 of
         [] \<Rightarrow> None
       | b1 # bs2 \<Rightarrow>
           if lead2 b \<and> is_cont b1 then Some ((unat b - 0xC0) * 64 + (unat b1 - 0x80), 2)
           else (case bs2 of
             [] \<Rightarrow> None
           | b2 # bs3 \<Rightarrow>
               if lead3 b b1 \<and> is_cont b2 then
                 Some ((unat b - 0xE0) * 4096 + (unat b1 - 0x80) * 64 + (unat b2 - 0x80), 3)
               else (case bs3 of
                 [] \<Rightarrow> None
               | b3 # _ \<Rightarrow>
                   if lead4 b b1 \<and> is_cont b2 \<and> is_cont b3 then
                     Some ((unat b - 0xF0) * 262144 + (unat b1 - 0x80) * 4096
                           + (unat b2 - 0x80) * 64 + (unat b3 - 0x80), 4)
                   else None))))"

text \<open>At most one character per byte, so the length of the string bounds the scan.\<close>

primrec utf8_scan :: "nat \<Rightarrow> bytes \<Rightarrow> bool" where
  "utf8_scan 0 bs = (bs = [])"
| "utf8_scan (Suc k) bs =
     (bs = [] \<or> (case utf8_head bs of None \<Rightarrow> False | Some (_, n) \<Rightarrow> utf8_scan k (drop n bs)))"

definition utf8_valid :: "bytes \<Rightarrow> bool" where
  "utf8_valid bs = utf8_scan (length bs) bs"

definition first_char :: "rstr \<Rightarrow> rchar option" where
  "first_char s = map_option fst (utf8_head s)"

definition char_encode_utf8 :: "rchar \<Rightarrow> rstr" where
  "char_encode_utf8 c =
     (if c < 0x80 then [of_nat c]
      else if c < 0x800 then [of_nat (0xC0 + c div 64), of_nat (0x80 + c mod 64)]
      else if c < 0x10000 then
        [of_nat (0xE0 + c div 4096), of_nat (0x80 + c div 64 mod 64), of_nat (0x80 + c mod 64)]
      else
        [of_nat (0xF0 + c div 262144), of_nat (0x80 + c div 4096 mod 64),
         of_nat (0x80 + c div 64 mod 64), of_nat (0x80 + c mod 64)])"

section \<open>Facts\<close>

lemmas utf8_defs = in_range_def is_cont_def lead2_def lead3_def lead4_def

lemma utf8_head_bounds:
  "utf8_head bs = Some (c, n) \<Longrightarrow> 0 < n \<and> n \<le> length bs"
  by (auto simp: utf8_head_def split: list.splits if_splits)

lemma utf8_scan_mono:
  "utf8_scan k bs \<Longrightarrow> k \<le> m \<Longrightarrow> utf8_scan m bs"
proof (induction m arbitrary: k bs)
  case (Suc m)
  then show ?case
    by (cases k) (auto split: option.splits)
qed simp

lemma utf8_valid_Nil [simp]: "utf8_valid []"
  by (simp add: utf8_valid_def)

lemma utf8_valid_head:
  assumes "utf8_head bs = Some (c, n)"
  shows "utf8_valid bs \<longleftrightarrow> utf8_valid (drop n bs)"
proof -
  obtain m where m: "length bs = Suc m" and n: "length bs - n \<le> m"
    using utf8_head_bounds [OF assms] by (cases "length bs") auto
  have "utf8_scan m (drop n bs) = utf8_scan (length bs - n) (drop n bs)"
  proof
    assume "utf8_scan m (drop n bs)"
    then show "utf8_scan (length bs - n) (drop n bs)"
    proof -
      have shrink: "utf8_scan k xs \<Longrightarrow> utf8_scan (length xs) xs" for k xs
      proof (induction k arbitrary: xs)
        case (Suc k)
        show ?case
        proof (cases "xs = []")
          case False
          with Suc.prems obtain d i where h: "utf8_head xs = Some (d, i)" "utf8_scan k (drop i xs)"
            by (auto split: option.splits)
          then have "utf8_scan (length xs - i) (drop i xs)"
            using Suc.IH [of "drop i xs"] by simp
          then show ?thesis
            using utf8_head_bounds [OF h(1)] h(1)
            by (cases "length xs") (auto intro: utf8_scan_mono)
        qed simp
      qed simp
      show ?thesis
        using shrink [OF \<open>utf8_scan m (drop n bs)\<close>] by simp
    qed
  next
    assume "utf8_scan (length bs - n) (drop n bs)"
    then show "utf8_scan m (drop n bs)"
      using n by (rule utf8_scan_mono)
  qed
  then show ?thesis
    using m assms by (auto simp: utf8_valid_def)
qed

lemma utf8_head_cases:
  assumes "utf8_head bs = Some (c, n)"
  obtains (one) b r where "bs = b # r" "unat b < 0x80" "c = unat b" "n = 1"
  | (two) b b1 r where "bs = b # b1 # r" "lead2 b" "is_cont b1"
      "c = (unat b - 0xC0) * 64 + (unat b1 - 0x80)" "n = 2"
  | (three) b b1 b2 r where "bs = b # b1 # b2 # r" "lead3 b b1" "is_cont b2"
      "c = (unat b - 0xE0) * 4096 + (unat b1 - 0x80) * 64 + (unat b2 - 0x80)" "n = 3"
  | (four) b b1 b2 b3 r where "bs = b # b1 # b2 # b3 # r" "lead4 b b1" "is_cont b2" "is_cont b3"
      "c = (unat b - 0xF0) * 262144 + (unat b1 - 0x80) * 4096
           + (unat b2 - 0x80) * 64 + (unat b3 - 0x80)" "n = 4"
  using assms unfolding utf8_head_def by (auto split: list.splits if_splits)

lemma cont_obtain:
  assumes "is_cont b"
  obtains k where "unat b = 0x80 + k" "k < 64"
  using assms le_Suc_ex [of 128 "unat b"] by (auto simp: utf8_defs)

lemma lead3_obtain:
  assumes "lead3 b b1"
  obtains x y where "unat b = 0xE0 + x" "x < 16" "unat b1 = 0x80 + y" "y < 64"
    "x = 13 \<Longrightarrow> y < 32" "x = 0 \<Longrightarrow> 32 \<le> y"
proof -
  have "0xE0 \<le> unat b" "0x80 \<le> unat b1"
    using assms by (auto simp: utf8_defs)
  then obtain x y where "unat b = 0xE0 + x" "unat b1 = 0x80 + y"
    by (auto dest!: le_Suc_ex)
  then show thesis
    using assms that [of x y] by (auto simp: utf8_defs)
qed

lemma lead4_obtain:
  assumes "lead4 b b1"
  obtains x y where "unat b = 0xF0 + x" "x < 5" "unat b1 = 0x80 + y" "y < 64"
    "x = 4 \<Longrightarrow> y < 16" "x = 0 \<Longrightarrow> 16 \<le> y"
proof -
  have "0xF0 \<le> unat b" "0x80 \<le> unat b1"
    using assms by (auto simp: utf8_defs)
  then obtain x y where "unat b = 0xF0 + x" "unat b1 = 0x80 + y"
    by (auto dest!: le_Suc_ex)
  then show thesis
    using assms that [of x y] by (auto simp: utf8_defs)
qed

lemma utf8_head_scalar:
  assumes "utf8_head bs = Some (c, n)"
  shows "is_scalar c"
  using assms
proof (cases rule: utf8_head_cases)
  case (two b b1 r)
  then have "unat b \<le> 223" "unat b1 \<le> 191"
    by (simp_all add: utf8_defs)
  then show ?thesis
    unfolding two is_scalar_def by (intro disjI1) linarith
next
  case (three b b1 b2 r)
  obtain x y where "unat b = 0xE0 + x" "x < 16" "unat b1 = 0x80 + y" "y < 64" "x = 13 \<Longrightarrow> y < 32"
    using three(2) by (rule lead3_obtain) blast
  moreover obtain z where "unat b2 = 0x80 + z" "z < 64"
    using three(3) by (rule cont_obtain)
  ultimately show ?thesis
    unfolding three is_scalar_def by (cases "x < 13"; cases "x = 13") auto
next
  case (four b b1 b2 b3 r)
  obtain x y where "unat b = 0xF0 + x" "x < 5" "unat b1 = 0x80 + y" "y < 64"
      "x = 4 \<Longrightarrow> y < 16" "x = 0 \<Longrightarrow> 16 \<le> y"
    using four(2) by (rule lead4_obtain) blast
  moreover obtain z w where "unat b2 = 0x80 + z" "z < 64" "unat b3 = 0x80 + w" "w < 64"
    using four(3,4) by (metis cont_obtain)
  ultimately show ?thesis
    unfolding four is_scalar_def by (cases "x = 0"; cases "x = 4") auto
qed (simp add: is_scalar_def)

lemma first_char_scalar: "first_char s = Some c \<Longrightarrow> is_scalar c"
  by (auto simp: first_char_def dest: utf8_head_scalar)

lemma first_char_None: "utf8_valid s \<Longrightarrow> first_char s = None \<longleftrightarrow> s = []"
  by (cases "length s")
     (auto simp: first_char_def utf8_valid_def utf8_head_def split: option.splits)

lemma length_char_encode_utf8: "0 < length (char_encode_utf8 c) \<and> length (char_encode_utf8 c) \<le> 4"
  by (simp add: char_encode_utf8_def)

lemma utf8_head_encode2:
  assumes "0x80 \<le> c" "c < 0x800"
  shows "utf8_head (char_encode_utf8 c @ r) = Some (c, 2)"
proof -
  define x y where "x = c div 64" and "y = c mod 64"
  then have "c = x * 64 + y" "y < 64" "2 \<le> x" "x < 32"
    using assms by (simp_all add: less_mult_imp_div_less)
  moreover have "char_encode_utf8 c = [of_nat (0xC0 + x), of_nat (0x80 + y)]"
    using assms by (simp add: char_encode_utf8_def x_def y_def)
  ultimately show ?thesis
    by (simp add: utf8_head_def utf8_defs del: of_nat_add of_nat_numeral)
qed

lemma utf8_head_encode3:
  assumes "is_scalar c" "0x800 \<le> c" "c < 0x10000"
  shows "utf8_head (char_encode_utf8 c @ r) = Some (c, 3)"
proof -
  define x y z where "x = c div 4096" and "y = c div 64 mod 64" and "z = c mod 64"
  have "c div 64 = x * 64 + y"
    unfolding x_def y_def div_mult2_eq [of c 64 64, simplified] by simp
  moreover have "c = c div 64 * 64 + z"
    by (simp add: z_def)
  ultimately have c: "c = x * 4096 + y * 64 + z"
    by simp
  have b: "y < 64" "z < 64" "x < 16"
    using assms by (simp_all add: x_def y_def z_def less_mult_imp_div_less)
  have "x = 13 \<Longrightarrow> y < 32" "x = 0 \<Longrightarrow> 32 \<le> y"
    using assms b unfolding c is_scalar_def by auto
  then have "x = 0 \<and> 32 \<le> y \<or> 1 \<le> x \<and> x \<le> 12 \<or> x = 13 \<and> y < 32 \<or> 14 \<le> x"
    by linarith
  then have "lead3 (of_nat (0xE0 + x)) (of_nat (0x80 + y))"
    using b by (auto simp: utf8_defs simp del: of_nat_add of_nat_numeral)
  moreover have "char_encode_utf8 c = [of_nat (0xE0 + x), of_nat (0x80 + y), of_nat (0x80 + z)]"
    using assms by (simp add: char_encode_utf8_def x_def y_def z_def)
  moreover have "is_cont (of_nat (0x80 + z))" "\<not> lead2 (of_nat (0xE0 + x))"
    using b by (simp_all add: utf8_defs del: of_nat_add of_nat_numeral)
  ultimately show ?thesis
    using b by (simp add: utf8_head_def c del: of_nat_add of_nat_numeral)
qed

lemma utf8_head_encode4:
  assumes "is_scalar c" "0x10000 \<le> c"
  shows "utf8_head (char_encode_utf8 c @ r) = Some (c, 4)"
proof -
  define x y z w where "x = c div 262144" and "y = c div 4096 mod 64"
    and "z = c div 64 mod 64" and "w = c mod 64"
  have "c div 4096 = x * 64 + y"
    unfolding x_def y_def div_mult2_eq [of c 4096 64, simplified] by simp
  moreover have "c div 64 = c div 4096 * 64 + z"
    unfolding z_def div_mult2_eq [of c 64 64, simplified] by simp
  moreover have "c = c div 64 * 64 + w"
    by (simp add: w_def)
  ultimately have c: "c = x * 262144 + y * 4096 + z * 64 + w"
    by simp
  have b: "y < 64" "z < 64" "w < 64" "x < 5"
    using assms by (simp_all add: x_def y_def z_def w_def is_scalar_def less_mult_imp_div_less)
  have "x = 4 \<Longrightarrow> y < 16" "x = 0 \<Longrightarrow> 16 \<le> y"
    using assms b unfolding c is_scalar_def by auto
  then have "x = 0 \<and> 16 \<le> y \<or> 1 \<le> x \<and> x \<le> 3 \<or> x = 4 \<and> y < 16"
    using b by linarith
  then have "lead4 (of_nat (0xF0 + x)) (of_nat (0x80 + y))"
    using b by (auto simp: utf8_defs simp del: of_nat_add of_nat_numeral)
  moreover have "char_encode_utf8 c =
      [of_nat (0xF0 + x), of_nat (0x80 + y), of_nat (0x80 + z), of_nat (0x80 + w)]"
    using assms by (simp add: char_encode_utf8_def x_def y_def z_def w_def)
  moreover have "is_cont (of_nat (0x80 + z))" "is_cont (of_nat (0x80 + w))"
    "\<not> lead2 (of_nat (0xF0 + x))" "\<not> lead3 (of_nat (0xF0 + x)) (of_nat (0x80 + y))"
    using b by (simp_all add: utf8_defs del: of_nat_add of_nat_numeral)
  ultimately show ?thesis
    using b by (simp add: utf8_head_def c del: of_nat_add of_nat_numeral)
qed

lemma utf8_head_encode:
  assumes "is_scalar c"
  shows "utf8_head (char_encode_utf8 c @ r) = Some (c, length (char_encode_utf8 c))"
proof -
  consider "c < 0x80" | "0x80 \<le> c" "c < 0x800" | "0x800 \<le> c" "c < 0x10000" | "0x10000 \<le> c"
    by linarith
  then show ?thesis
  proof cases
    case 1
    then show ?thesis by (simp add: char_encode_utf8_def utf8_head_def)
  next
    case 2
    then show ?thesis using utf8_head_encode2 [of c r] by (simp add: char_encode_utf8_def)
  next
    case 3
    then show ?thesis using utf8_head_encode3 [of c r] assms by (simp add: char_encode_utf8_def)
  next
    case 4
    then show ?thesis using utf8_head_encode4 [of c r] assms by (simp add: char_encode_utf8_def)
  qed
qed

lemma utf8_valid_char_encode_utf8:
  "is_scalar c \<Longrightarrow> utf8_valid (char_encode_utf8 c)"
  using utf8_head_encode [of c "[]"] utf8_valid_head [of "char_encode_utf8 c" c] by simp

lemma first_char_encode_utf8:
  "is_scalar c \<Longrightarrow> first_char (char_encode_utf8 c) = Some c"
  using utf8_head_encode [of c "[]"] by (simp add: first_char_def)

end
