(* ===== verification/Encoding.thy ===== *)
theory Encoding
  imports Utf8
begin

text \<open>
  The TLV wire format of \<^verbatim>\<open>panda-abi/src/encoding.rs\<close>: the growing buffer
  \<^verbatim>\<open>Encoder\<close>, the cursor \<^verbatim>\<open>Decoder\<close> with its bounds checks, and the traits
  \<^verbatim>\<open>Encode\<close> and \<^verbatim>\<open>Decode\<close> with their instances for vectors, options and pairs.
  An encoder method takes and returns the buffer; a decoder method returns an
  error or a value with the advanced cursor (every caller in the source leaves by
  the question mark operator on an error, so the cursor is not used after one).
  The locale \<^verbatim>\<open>codec\<close> is the contract a pair of trait instances keeps; floats
  are their 64-bit patterns and signed integers are words read in two's complement.
\<close>

section \<open>Encoder\<close>

text \<open>\<^verbatim>\<open>OutOfFuel\<close> is the model's: the recursive decoder of nested values is cut
  off by a depth bound, and no input reaches the bound (theory \<^verbatim>\<open>Value\<close>).\<close>

datatype decode_error = Truncated | UnknownType | InvalidValue | InvalidUtf8 | OutOfFuel

record encoder =
  e_buf :: bytes

definition encoder_new :: encoder where
  "encoder_new = \<lparr>e_buf = []\<rparr>"

definition encoder_finish :: "encoder \<Rightarrow> bytes" where
  "encoder_finish e = e_buf e"

definition encoder_len :: "encoder \<Rightarrow> nat" where
  "encoder_len e = length (e_buf e)"

definition extend_from_slice :: "bytes \<Rightarrow> encoder \<Rightarrow> encoder" where
  "extend_from_slice bs e = e\<lparr>e_buf := e_buf e @ bs\<rparr>"

definition write_tlv_header :: "u16 \<Rightarrow> u32 \<Rightarrow> encoder \<Rightarrow> nat \<times> encoder" where
  "write_tlv_header msg_type len e =
     (let e1 = extend_from_slice (le_bytes 2 msg_type) e;
          len_pos = length (e_buf e1)
      in (len_pos, extend_from_slice (le_bytes 4 len) e1))"

definition update_length :: "nat \<Rightarrow> u32 \<Rightarrow> encoder \<Rightarrow> encoder" where
  "update_length len_pos len e = e\<lparr>e_buf := copy_at len_pos (le_bytes 4 len) (e_buf e)\<rparr>"

definition write_u8 :: "u8 \<Rightarrow> encoder \<Rightarrow> encoder" where
  "write_u8 v e = e\<lparr>e_buf := e_buf e @ [v]\<rparr>"

definition write_u16 :: "u16 \<Rightarrow> encoder \<Rightarrow> encoder" where
  "write_u16 v e = extend_from_slice (le_bytes 2 v) e"

definition write_u32 :: "u32 \<Rightarrow> encoder \<Rightarrow> encoder" where
  "write_u32 v e = extend_from_slice (le_bytes 4 v) e"

definition write_i32 :: "u32 \<Rightarrow> encoder \<Rightarrow> encoder" where
  "write_i32 v e = extend_from_slice (le_bytes 4 v) e"

definition write_i64 :: "u64 \<Rightarrow> encoder \<Rightarrow> encoder" where
  "write_i64 v e = extend_from_slice (le_bytes 8 v) e"

definition write_f64 :: "u64 \<Rightarrow> encoder \<Rightarrow> encoder" where
  "write_f64 v e = extend_from_slice (le_bytes 8 v) e"

definition write_string :: "rstr \<Rightarrow> encoder \<Rightarrow> encoder" where
  "write_string s e = extend_from_slice s (write_u16 (of_nat (length s)) e)"

definition write_bytes :: "bytes \<Rightarrow> encoder \<Rightarrow> encoder" where
  "write_bytes bs e = extend_from_slice bs e"

definition write_byte_array :: "bytes \<Rightarrow> encoder \<Rightarrow> encoder" where
  "write_byte_array bs e = extend_from_slice bs (write_u32 (of_nat (length bs)) e)"

definition write_bool :: "bool \<Rightarrow> encoder \<Rightarrow> encoder" where
  "write_bool v e = e\<lparr>e_buf := e_buf e @ [if v then 1 else 0]\<rparr>"

section \<open>Decoder\<close>

record decoder =
  d_buf :: bytes
  d_pos :: nat

type_synonym 'a dec = "decoder \<Rightarrow> decode_error + 'a \<times> decoder"

definition dret :: "'a \<Rightarrow> 'a dec" where
  "dret x d = Inr (x, d)"

definition derr :: "decode_error \<Rightarrow> 'a dec" where
  "derr e d = Inl e"

definition dbind :: "'a dec \<Rightarrow> ('a \<Rightarrow> 'b dec) \<Rightarrow> 'b dec" where
  "dbind m f d = rbind (m d) (\<lambda>(x, d'). f x d')"

definition decoder_new :: "bytes \<Rightarrow> decoder" where
  "decoder_new bs = \<lparr>d_buf = bs, d_pos = 0\<rparr>"

definition remaining :: "decoder \<Rightarrow> nat" where
  "remaining d = length (d_buf d) - d_pos d"

definition decoder_is_empty :: "decoder \<Rightarrow> bool" where
  "decoder_is_empty d \<longleftrightarrow> length (d_buf d) \<le> d_pos d"

definition remaining_slice :: "decoder \<Rightarrow> bytes" where
  "remaining_slice d = drop (d_pos d) (d_buf d)"

definition advance :: "nat \<Rightarrow> decoder \<Rightarrow> decoder" where
  "advance n d = d\<lparr>d_pos := d_pos d + n\<rparr>"

text \<open>The bytes at the cursor, read one by one as in \<^verbatim>\<open>self.buf[self.pos + i]\<close>.\<close>

definition peek_bytes :: "nat \<Rightarrow> decoder \<Rightarrow> bytes" where
  "peek_bytes n d = map (\<lambda>i. d_buf d ! (d_pos d + i)) [0..<n]"

definition read_u8 :: "u8 dec" where
  "read_u8 d = (if remaining d < 1 then Inl Truncated else Inr (d_buf d ! d_pos d, advance 1 d))"

definition read_u16 :: "u16 dec" where
  "read_u16 d = (if remaining d < 2 then Inl Truncated
                 else Inr (le_word (peek_bytes 2 d), advance 2 d))"

definition read_u32 :: "u32 dec" where
  "read_u32 d = (if remaining d < 4 then Inl Truncated
                 else Inr (le_word (peek_bytes 4 d), advance 4 d))"

definition read_i32 :: "u32 dec" where
  "read_i32 d = (if remaining d < 4 then Inl Truncated
                 else Inr (le_word (peek_bytes 4 d), advance 4 d))"

definition read_i64 :: "u64 dec" where
  "read_i64 d = (if remaining d < 8 then Inl Truncated
                 else Inr (le_word (peek_bytes 8 d), advance 8 d))"

definition read_f64 :: "u64 dec" where
  "read_f64 d = (if remaining d < 8 then Inl Truncated
                 else Inr (le_word (peek_bytes 8 d), advance 8 d))"

definition read_tlv_header :: "(u16 \<times> u32) dec" where
  "read_tlv_header = dbind read_u16 (\<lambda>msg_type. dbind read_u32 (\<lambda>len. dret (msg_type, len)))"

definition read_bytes :: "nat \<Rightarrow> bytes dec" where
  "read_bytes len d = (if remaining d < len then Inl Truncated
     else Inr (sub_slice (d_pos d) (d_pos d + len) (d_buf d), advance len d))"

definition read_string :: "rstr dec" where
  "read_string = dbind read_u16 (\<lambda>n d.
     let len = unat n in
     if remaining d < len then Inl Truncated
     else let s = sub_slice (d_pos d) (d_pos d + len) (d_buf d) in
       if \<not> utf8_valid s then Inl InvalidUtf8 else Inr (s, advance len d))"

definition read_byte_array :: "bytes dec" where
  "read_byte_array = dbind read_u32 (\<lambda>n d.
     let len = unat n in
     if remaining d < len then Inl Truncated
     else Inr (sub_slice (d_pos d) (d_pos d + len) (d_buf d), advance len d))"

definition read_bool :: "bool dec" where
  "read_bool = dbind read_u8 (\<lambda>b. dret (b \<noteq> 0))"

definition decoder_skip :: "nat \<Rightarrow> unit dec" where
  "decoder_skip len d = (if remaining d < len then Inl Truncated else Inr ((), advance len d))"

section \<open>Encode and Decode\<close>

definition to_bytes :: "('a \<Rightarrow> encoder \<Rightarrow> encoder) \<Rightarrow> 'a \<Rightarrow> bytes" where
  "to_bytes enc x = encoder_finish (enc x encoder_new)"

definition from_bytes :: "'a dec \<Rightarrow> bytes \<Rightarrow> decode_error + 'a" where
  "from_bytes dec bs = rbind (dec (decoder_new bs)) (\<lambda>(x, _). Inr x)"

definition vec_encode :: "('a \<Rightarrow> encoder \<Rightarrow> encoder) \<Rightarrow> 'a list \<Rightarrow> encoder \<Rightarrow> encoder" where
  "vec_encode enc xs e = fold enc xs (write_u16 (of_nat (length xs)) e)"

primrec repeat_decode :: "nat \<Rightarrow> 'a dec \<Rightarrow> 'a list dec" where
  "repeat_decode 0 dec = dret []"
| "repeat_decode (Suc n) dec =
     dbind dec (\<lambda>x. dbind (repeat_decode n dec) (\<lambda>xs. dret (x # xs)))"

definition vec_decode :: "'a dec \<Rightarrow> 'a list dec" where
  "vec_decode dec = dbind read_u16 (\<lambda>count. repeat_decode (unat count) dec)"

definition option_encode :: "('a \<Rightarrow> encoder \<Rightarrow> encoder) \<Rightarrow> 'a option \<Rightarrow> encoder \<Rightarrow> encoder" where
  "option_encode enc x e = (case x of
     Some v \<Rightarrow> enc v (write_u8 1 e)
   | None \<Rightarrow> write_u8 0 e)"

definition option_decode :: "'a dec \<Rightarrow> 'a option dec" where
  "option_decode dec = dbind read_u8 (\<lambda>tag.
     if tag = 0 then dret None else dbind dec (\<lambda>x. dret (Some x)))"

definition pair_encode ::
  "('a \<Rightarrow> encoder \<Rightarrow> encoder) \<Rightarrow> ('b \<Rightarrow> encoder \<Rightarrow> encoder) \<Rightarrow> 'a \<times> 'b \<Rightarrow> encoder \<Rightarrow> encoder" where
  "pair_encode enc1 enc2 p e = enc2 (snd p) (enc1 (fst p) e)"

definition pair_decode :: "'a dec \<Rightarrow> 'b dec \<Rightarrow> ('a \<times> 'b) dec" where
  "pair_decode dec1 dec2 = dbind dec1 (\<lambda>a. dbind dec2 (\<lambda>b. dret (a, b)))"

section \<open>Reasoning about decoders\<close>

text \<open>
  \<^verbatim>\<open>reads m bs x\<close>: wherever the unread input starts with \<^verbatim>\<open>bs\<close>, the decoder
  \<^verbatim>\<open>m\<close> consumes exactly \<^verbatim>\<open>bs\<close> and returns \<^verbatim>\<open>x\<close>. \<^verbatim>\<open>yields m P\<close>: every value
  returned satisfies \<^verbatim>\<open>P\<close>. \<^verbatim>\<open>lawful m\<close>: a successful run consumes a prefix of the
  unread input and depends on nothing but that prefix.
\<close>

definition reads :: "'a dec \<Rightarrow> bytes \<Rightarrow> 'a \<Rightarrow> bool" where
  "reads m bs x \<longleftrightarrow>
     (\<forall>d r. remaining_slice d = bs @ r \<longrightarrow> m d = Inr (x, advance (length bs) d))"

definition yields :: "'a dec \<Rightarrow> ('a \<Rightarrow> bool) \<Rightarrow> bool" where
  "yields m P \<longleftrightarrow> (\<forall>d x d'. m d = Inr (x, d') \<longrightarrow> P x)"

definition lawful :: "'a dec \<Rightarrow> bool" where
  "lawful m \<longleftrightarrow> (\<forall>d x d'. m d = Inr (x, d') \<longrightarrow>
     (\<exists>bs r. remaining_slice d = bs @ r \<and> d' = advance (length bs) d \<and> reads m bs x))"

named_theorems lawful_intros \<open>decoders that consume a prefix of their input\<close>
named_theorems wire \<open>bytes written by the encoders\<close>

lemma dbind_simps [simp]:
  "dbind (dret x) f = f x"
  "dbind (derr e) f = derr e"
  "dbind m f d = Inr (y, d') \<longleftrightarrow> (\<exists>x d1. m d = Inr (x, d1) \<and> f x d1 = Inr (y, d'))"
  by (auto simp: dbind_def dret_def derr_def fun_eq_iff)

lemma dret_simps [simp]:
  "dret x d = Inr (y, d') \<longleftrightarrow> y = x \<and> d' = d"
  "derr e d \<noteq> Inr z"
  by (auto simp: dret_def derr_def)

lemma advance_simps [simp]:
  "advance 0 d = d"
  "advance n (advance m d) = advance (m + n) d"
  "remaining_slice (advance n d) = drop n (remaining_slice d)"
  "remaining (advance n d) = remaining d - n"
  "d_buf (advance n d) = d_buf d"
  "d_pos (advance n d) = d_pos d + n"
  by (simp_all add: advance_def remaining_slice_def remaining_def add.commute)

lemma remaining_length: "remaining d = length (remaining_slice d)"
  by (simp add: remaining_def remaining_slice_def)

lemma remaining_slice_new [simp]: "remaining_slice (decoder_new bs) = bs"
  by (simp add: remaining_slice_def decoder_new_def)

lemma peek_bytes_take: "n \<le> remaining d \<Longrightarrow> peek_bytes n d = take n (remaining_slice d)"
  by (rule nth_equalityI) (simp_all add: peek_bytes_def remaining_def remaining_slice_def)

lemma sub_slice_take: "sub_slice (d_pos d) (d_pos d + n) (d_buf d) = take n (remaining_slice d)"
  by (simp add: sub_slice_def remaining_slice_def)

subsection \<open>Rules for reads, yields and lawful\<close>

lemma readsI:
  assumes "\<And>d r. remaining_slice d = bs @ r \<Longrightarrow> m d = Inr (x, advance (length bs) d)"
  shows "reads m bs x"
  using assms by (simp add: reads_def)

lemma readsD: "reads m bs x \<Longrightarrow> remaining_slice d = bs @ r \<Longrightarrow> m d = Inr (x, advance (length bs) d)"
  by (simp add: reads_def)

lemma reads_dret [intro]: "bs = [] \<Longrightarrow> y = x \<Longrightarrow> reads (dret y) bs x"
  by (simp add: reads_def dret_def)

lemma reads_dret_Nil [simp]: "reads (dret x) [] x"
  by (rule reads_dret) simp_all

lemma reads_dbind:
  assumes "reads m b1 x" "reads (f x) b2 y" "bs = b1 @ b2"
  shows "reads (dbind m f) bs y"
proof (rule readsI)
  fix d r assume "remaining_slice d = bs @ r"
  then have "m d = Inr (x, advance (length b1) d)"
      "f x (advance (length b1) d) = Inr (y, advance (length b2) (advance (length b1) d))"
    using assms readsD [OF assms(1), of d "b2 @ r"]
      readsD [OF assms(2), of "advance (length b1) d" r] by simp_all
  then show "dbind m f d = Inr (y, advance (length bs) d)"
    by (simp add: assms(3) add.commute)
qed

lemma reads_app: "reads m b1 x \<Longrightarrow> reads (f x) b2 y \<Longrightarrow> reads (dbind m f) (b1 @ b2) y"
  by (rule reads_dbind) simp_all

lemma reads_last: "reads m b x \<Longrightarrow> reads (f x) [] y \<Longrightarrow> reads (dbind m f) b y"
  by (rule reads_dbind [where ?b2.0 = "[]"]) simp_all

lemma yieldsI: "(\<And>d x d'. m d = Inr (x, d') \<Longrightarrow> P x) \<Longrightarrow> yields m P"
  by (auto simp: yields_def)

lemma yieldsD: "yields m P \<Longrightarrow> m d = Inr (x, d') \<Longrightarrow> P x"
  by (auto simp: yields_def)

lemma yields_dret_iff [simp]: "yields (dret x) P \<longleftrightarrow> P x"
  by (simp add: yields_def)

lemma yields_derr [intro, simp]: "yields (derr e) P"
  by (simp add: yields_def)

lemma yields_True [intro, simp]: "yields m (\<lambda>_. True)"
  by (simp add: yields_def)

lemma yields_dbind:
  "yields m P \<Longrightarrow> (\<And>x. P x \<Longrightarrow> yields (f x) Q) \<Longrightarrow> yields (dbind m f) Q"
  unfolding yields_def by simp blast

lemma lawfulD:
  assumes "lawful m" "m d = Inr (x, d')"
  obtains bs r where "remaining_slice d = bs @ r" "d' = advance (length bs) d" "reads m bs x"
  using assms unfolding lawful_def by blast

lemma lawful_remaining:
  assumes "lawful m" "m d = Inr (x, d')"
  shows "remaining d' \<le> remaining d"
  using assms by (auto elim!: lawfulD)

lemma lawful_dret [lawful_intros, intro, simp]: "lawful (dret x)"
  unfolding lawful_def by (metis advance_simps(1) append_Nil dret_simps(1) list.size(3) reads_dret)

lemma lawful_derr [lawful_intros, intro, simp]: "lawful (derr e)"
  by (simp add: lawful_def)

lemma lawful_dbind [lawful_intros]:
  assumes "lawful m" "\<And>x. lawful (f x)"
  shows "lawful (dbind m f)"
  unfolding lawful_def
proof (intro allI impI)
  fix d y d2 assume "dbind m f d = Inr (y, d2)"
  then obtain x d1 where 1: "m d = Inr (x, d1)" and 2: "f x d1 = Inr (y, d2)"
    by auto
  obtain b1 r1 where b1: "remaining_slice d = b1 @ r1" "d1 = advance (length b1) d" "reads m b1 x"
    using assms(1) 1 by (rule lawfulD)
  obtain b2 r2 where b2: "remaining_slice d1 = b2 @ r2" "d2 = advance (length b2) d1"
      "reads (f x) b2 y"
    using assms(2) 2 by (rule lawfulD)
  have "reads (dbind m f) (b1 @ b2) y"
    using b1(3) b2(3) by (rule reads_dbind) simp
  then show "\<exists>bs r. remaining_slice d = bs @ r \<and> d2 = advance (length bs) d
      \<and> reads (dbind m f) bs y"
    using b1 b2 by (intro exI [of _ "b1 @ b2"] exI [of _ r2]) simp
qed

lemma lawful_if [lawful_intros]: "lawful m \<Longrightarrow> lawful m' \<Longrightarrow> lawful (if c then m else m')"
  by simp

text \<open>A read of a number of bytes that is fixed beforehand, followed by a pure check.\<close>

lemma lawful_take:
  assumes "\<And>d. m d = (if remaining d < n then Inl Truncated
                      else rbind (g (take n (remaining_slice d))) (\<lambda>x. Inr (x, advance n d)))"
  shows "lawful m"
    and "length bs = n \<Longrightarrow> g bs = Inr x \<Longrightarrow> reads m bs x"
proof -
  show *: "length bs = n \<Longrightarrow> g bs = Inr x \<Longrightarrow> reads m bs x" for bs x
    by (rule readsI) (simp add: assms remaining_length)
  show "lawful m"
    unfolding lawful_def
  proof (intro allI impI)
    fix d x d' assume "m d = Inr (x, d')"
    then have "n \<le> remaining d" "g (take n (remaining_slice d)) = Inr x" "d' = advance n d"
      by (auto simp: assms split: if_splits)
    then show "\<exists>bs r. remaining_slice d = bs @ r \<and> d' = advance (length bs) d \<and> reads m bs x"
      using * [of "take n (remaining_slice d)" x]
      by (intro exI [of _ "take n (remaining_slice d)"] exI [of _ "drop n (remaining_slice d)"])
         (simp add: remaining_length min_def)
  qed
qed

subsection \<open>Primitive reads\<close>

lemma read_word_take:
  "(if remaining d < n then Inl Truncated else Inr (f (peek_bytes n d), advance n d)) =
   (if remaining d < n then Inl Truncated
    else rbind (Inr (f (take n (remaining_slice d)))) (\<lambda>x. Inr (x, advance n d)))"
  by (simp add: peek_bytes_take)

lemma read_u8_take:
  "read_u8 d = (if remaining d < 1 then Inl Truncated
     else rbind (Inr (hd (take 1 (remaining_slice d)))) (\<lambda>x. Inr (x, advance 1 d)))"
  by (simp add: read_u8_def remaining_def remaining_slice_def hd_drop_conv_nth)

lemmas read_u16_take = read_u16_def [unfolded read_word_take [where f = le_word]]
lemmas read_u32_take = read_u32_def [unfolded read_word_take [where f = le_word]]
lemmas read_i32_take = read_i32_def [unfolded read_word_take [where f = le_word]]
lemmas read_i64_take = read_i64_def [unfolded read_word_take [where f = le_word]]
lemmas read_f64_take = read_f64_def [unfolded read_word_take [where f = le_word]]

lemma read_bytes_take:
  "read_bytes n d = (if remaining d < n then Inl Truncated
     else rbind (Inr (take n (remaining_slice d))) (\<lambda>x. Inr (x, advance n d)))"
  by (simp add: read_bytes_def sub_slice_take)

definition check_utf8 :: "bytes \<Rightarrow> decode_error + rstr" where
  "check_utf8 s = (if utf8_valid s then Inr s else Inl InvalidUtf8)"

definition read_utf8 :: "nat \<Rightarrow> rstr dec" where
  "read_utf8 n d = (if remaining d < n then Inl Truncated
     else rbind (check_utf8 (take n (remaining_slice d))) (\<lambda>x. Inr (x, advance n d)))"

lemma read_string_utf8: "read_string = dbind read_u16 (\<lambda>n. read_utf8 (unat n))"
  unfolding read_string_def read_utf8_def check_utf8_def sub_slice_take
  by (intro arg_cong2 [where f = dbind] refl ext) (simp add: Let_def)

lemma read_byte_array_bytes: "read_byte_array = dbind read_u32 (\<lambda>n. read_bytes (unat n))"
  unfolding read_byte_array_def read_bytes_def
  by (intro arg_cong2 [where f = dbind] refl ext) (simp add: Let_def)

lemma lawful_prims [lawful_intros, simp]:
  "lawful read_u8" "lawful read_u16" "lawful read_u32" "lawful read_i32" "lawful read_i64"
  "lawful read_f64" "lawful (read_bytes n)" "lawful (read_utf8 n)"
  by (rule lawful_take(1), rule read_u8_take read_u16_take read_u32_take read_i32_take
        read_i64_take read_f64_take read_bytes_take read_utf8_def)+

lemma lawful_derived [lawful_intros, simp]:
  "lawful read_string" "lawful read_byte_array" "lawful read_bool" "lawful read_tlv_header"
  unfolding read_string_utf8 read_byte_array_bytes read_bool_def read_tlv_header_def
  by (intro lawful_intros)+

lemma reads_u8: "reads read_u8 [b] b"
  by (rule lawful_take(2) [OF read_u8_take]) simp_all

lemma reads_words:
  "reads read_u16 (le_bytes 2 v16) v16"
  "reads read_u32 (le_bytes 4 v32) v32"
  "reads read_i32 (le_bytes 4 v32) v32"
  "reads read_i64 (le_bytes 8 v64) v64"
  "reads read_f64 (le_bytes 8 v64) v64"
  by (rule lawful_take(2) [OF read_u16_take] lawful_take(2) [OF read_u32_take]
        lawful_take(2) [OF read_i32_take] lawful_take(2) [OF read_i64_take]
        lawful_take(2) [OF read_f64_take], simp, simp)+

lemma reads_bytes: "length bs = n \<Longrightarrow> reads (read_bytes n) bs bs"
  by (rule lawful_take(2) [OF read_bytes_take]) simp_all

lemma reads_utf8: "length s = n \<Longrightarrow> utf8_valid s \<Longrightarrow> reads (read_utf8 n) s s"
  by (rule lawful_take(2) [OF read_utf8_def]) (simp_all add: check_utf8_def)

lemma yields_bytes: "yields (read_bytes n) (\<lambda>bs. length bs = n)"
  by (rule yieldsI) (auto simp: read_bytes_take remaining_length split: if_splits)

lemma yields_utf8: "yields (read_utf8 n) (\<lambda>s. utf8_valid s \<and> length s = n)"
  by (rule yieldsI) (auto simp: read_utf8_def check_utf8_def remaining_length split: if_splits)

lemma reads_u8_cons: "reads (f b) bs y \<Longrightarrow> reads (dbind read_u8 f) (b # bs) y"
  by (rule reads_dbind [OF reads_u8]) simp_all

lemma reads_tlv_header:
  "reads (f (t, l)) bs y \<Longrightarrow> reads (dbind read_tlv_header f) (le_bytes 2 t @ le_bytes 4 l @ bs) y"
proof -
  assume f: "reads (f (t, l)) bs y"
  have "reads read_tlv_header (le_bytes 2 t @ le_bytes 4 l) (t, l)"
    unfolding read_tlv_header_def
    by (intro reads_app [OF reads_words(1)] reads_last [OF reads_words(2)]) auto
  from reads_app [of _ _ _ f, OF this f] show ?thesis by simp
qed

subsection \<open>Bytes written\<close>

lemma e_buf_prims [simp, wire]:
  "e_buf encoder_new = []"
  "e_buf (extend_from_slice bs e) = e_buf e @ bs"
  "e_buf (write_u8 v8 e) = e_buf e @ [v8]"
  "e_buf (write_u16 v16 e) = e_buf e @ le_bytes 2 v16"
  "e_buf (write_u32 v32 e) = e_buf e @ le_bytes 4 v32"
  "e_buf (write_i32 v32 e) = e_buf e @ le_bytes 4 v32"
  "e_buf (write_i64 v64 e) = e_buf e @ le_bytes 8 v64"
  "e_buf (write_f64 v64 e) = e_buf e @ le_bytes 8 v64"
  "e_buf (write_bytes bs e) = e_buf e @ bs"
  "e_buf (write_string bs e) = e_buf e @ le_bytes 2 (of_nat (length bs) :: u16) @ bs"
  "e_buf (write_byte_array bs e) = e_buf e @ le_bytes 4 (of_nat (length bs) :: u32) @ bs"
  "e_buf (write_bool b e) = e_buf e @ [if b then 1 else 0]"
  by (simp_all add: encoder_new_def extend_from_slice_def write_u8_def write_u16_def write_u32_def
      write_i32_def write_i64_def write_f64_def write_bytes_def write_string_def
      write_byte_array_def write_bool_def)

lemma e_buf_tlv_header [simp, wire]:
  "e_buf (snd (write_tlv_header t l e)) = e_buf e @ le_bytes 2 t @ le_bytes 4 l"
  "fst (write_tlv_header t l e) = length (e_buf e) + 2"
  by (simp_all add: write_tlv_header_def Let_def)

lemma e_buf_update_length [simp, wire]:
  "e_buf (update_length p l e) = copy_at p (le_bytes 4 l) (e_buf e)"
  by (simp add: update_length_def)

lemma to_bytes_eq: "to_bytes enc x = e_buf (enc x encoder_new)"
  by (simp add: to_bytes_def encoder_finish_def)

lemma buf_encI:
  "(\<And>e. e_buf (enc x e) = e_buf e @ bs) \<Longrightarrow> e_buf (enc x e) = e_buf e @ to_bytes enc x"
  by (simp add: to_bytes_eq)

lemma to_bytesI: "(\<And>e. e_buf (enc x e) = e_buf e @ bs) \<Longrightarrow> to_bytes enc x = bs"
  by (simp add: to_bytes_eq)

lemma prim_bytes [simp, wire]:
  "to_bytes write_u8 v8 = [v8]"
  "to_bytes write_u16 v16 = le_bytes 2 v16"
  "to_bytes write_u32 v32 = le_bytes 4 v32"
  "to_bytes write_i32 v32 = le_bytes 4 v32"
  "to_bytes write_i64 v64 = le_bytes 8 v64"
  "to_bytes write_f64 v64 = le_bytes 8 v64"
  "to_bytes write_string bs = le_bytes 2 (of_nat (length bs) :: u16) @ bs"
  "to_bytes write_byte_array bs = le_bytes 4 (of_nat (length bs) :: u32) @ bs"
  "to_bytes write_bool b = [if b then 1 else 0]"
  by (simp_all add: to_bytes_eq)

section \<open>The contract of an Encode and Decode pair\<close>

locale codec =
  fixes enc :: "'a \<Rightarrow> encoder \<Rightarrow> encoder"
    and dec :: "'a dec"
    and ok :: "'a \<Rightarrow> bool"
  assumes buf_enc: "e_buf (enc x e) = e_buf e @ to_bytes enc x"
    and reads_dec: "ok x \<Longrightarrow> reads dec (to_bytes enc x) x"
    and yields_dec: "yields dec ok"
    and lawful_dec: "lawful dec"
begin

lemma dec_enc:
  "ok x \<Longrightarrow> remaining_slice d = to_bytes enc x @ r \<Longrightarrow>
     dec d = Inr (x, advance (length (to_bytes enc x)) d)"
  using reads_dec by (rule readsD)

lemma from_to_bytes: "ok x \<Longrightarrow> from_bytes dec (to_bytes enc x @ r) = Inr x"
  by (simp add: from_bytes_def dec_enc)

lemma from_bytes_wf: "from_bytes dec bs = Inr x \<Longrightarrow> ok x"
  using yields_dec by (auto simp: from_bytes_def yields_def)

lemma redecode: "from_bytes dec bs = Inr x \<Longrightarrow> from_bytes dec (to_bytes enc x) = Inr x"
  using from_to_bytes [of x "[]"] from_bytes_wf by simp

lemma prefix_free:
  assumes "ok x" "ok y" "to_bytes enc x @ r = to_bytes enc y @ s"
  shows "x = y" "r = s"
proof -
  show "x = y"
    using from_to_bytes [OF assms(1), of r] from_to_bytes [OF assms(2), of s] assms(3) by simp
  then show "r = s" using assms(3) by simp
qed

lemma truncated_rejected:
  assumes "ok x" "n < length (to_bytes enc x)"
  shows "\<exists>e. from_bytes dec (take n (to_bytes enc x)) = Inl e"
proof (rule ccontr)
  assume "\<not> ?thesis"
  then obtain y d' where "dec (decoder_new (take n (to_bytes enc x))) = Inr (y, d')"
    by (cases "dec (decoder_new (take n (to_bytes enc x)))") (auto simp: from_bytes_def)
  with lawful_dec obtain bs r where bs: "take n (to_bytes enc x) = bs @ r" "reads dec bs y"
    by (auto elim!: lawfulD)
  have "remaining_slice (decoder_new (to_bytes enc x)) = bs @ r @ drop n (to_bytes enc x)"
    using append_take_drop_id [of n "to_bytes enc x"] bs(1) by simp
  then have "dec (decoder_new (to_bytes enc x)) = Inr (y, advance (length bs) (decoder_new (to_bytes enc x)))"
    by (rule readsD [OF bs(2)])
  moreover have "dec (decoder_new (to_bytes enc x)) =
      Inr (x, advance (length (to_bytes enc x)) (decoder_new (to_bytes enc x)))"
    by (rule dec_enc [OF assms(1), of _ "[]"]) simp
  ultimately have "length bs = length (to_bytes enc x)"
    by (simp add: advance_def decoder_new_def)
  moreover have "length bs \<le> n"
    using arg_cong [OF bs(1), of length] by simp
  ultimately show False using assms(2) by simp
qed

end

subsection \<open>Instances for primitive types\<close>

lemma codec_prim:
  assumes "\<And>x e. e_buf (enc x e) = e_buf e @ b x" "\<And>x. reads dec (b x) x" "lawful dec"
  shows "codec enc dec (\<lambda>_. True)"
  using assms by unfold_locales (simp_all add: to_bytes_eq)

interpretation u8_codec: codec write_u8 read_u8 "\<lambda>_. True"
  by (rule codec_prim [where b = "\<lambda>v. [v]"]) (simp_all add: reads_u8)

interpretation u16_codec: codec write_u16 read_u16 "\<lambda>_. True"
  by (rule codec_prim [where b = "le_bytes 2"]) (simp_all add: reads_words)

interpretation u32_codec: codec write_u32 read_u32 "\<lambda>_. True"
  by (rule codec_prim [where b = "le_bytes 4"]) (simp_all add: reads_words)

interpretation i32_codec: codec write_i32 read_i32 "\<lambda>_. True"
  by (rule codec_prim [where b = "le_bytes 4"]) (simp_all add: reads_words)

interpretation i64_codec: codec write_i64 read_i64 "\<lambda>_. True"
  by (rule codec_prim [where b = "le_bytes 8"]) (simp_all add: reads_words)

interpretation f64_codec: codec write_f64 read_f64 "\<lambda>_. True"
  by (rule codec_prim [where b = "le_bytes 8"]) (simp_all add: reads_words)

interpretation bool_codec: codec write_bool read_bool "\<lambda>_. True"
proof (rule codec_prim [where b = "\<lambda>v. [if v then 1 else 0]"])
  show "reads read_bool [if x then 1 else 0] x" for x
    unfolding read_bool_def by (rule reads_dbind [OF reads_u8]) auto
qed simp_all

text \<open>Lengths travel as a 16-bit count for strings and vectors and as a 32-bit count
  for byte arrays; the well-formed values are the ones whose length fits.\<close>

definition wf_string :: "rstr \<Rightarrow> bool" where
  "wf_string s \<longleftrightarrow> utf8_valid s \<and> length s < 2 ^ 16"

definition wf_byte_array :: "bytes \<Rightarrow> bool" where
  "wf_byte_array bs \<longleftrightarrow> length bs < 2 ^ 32"

definition wf_vec :: "('a \<Rightarrow> bool) \<Rightarrow> 'a list \<Rightarrow> bool" where
  "wf_vec P xs \<longleftrightarrow> length xs < 2 ^ 16 \<and> list_all P xs"

lemma unat_lt [simp]: "unat (n :: u16) < 65536" "unat (k :: u32) < 4294967296"
  using unsigned_less [of n] unsigned_less [of k] by simp_all

interpretation string_codec: codec write_string read_string wf_string
proof
  fix s assume "wf_string s"
  then show "reads read_string (to_bytes write_string s) s"
    unfolding read_string_utf8 to_bytes_eq
    by (intro reads_dbind [OF reads_words(1) reads_utf8]) (simp_all add: wf_string_def)
next
  show "yields read_string wf_string"
    unfolding read_string_utf8
    by (rule yields_dbind [OF yields_True], rule yieldsI)
       (auto dest: yieldsD [OF yields_utf8] simp: wf_string_def)
qed (simp_all add: to_bytes_eq)

interpretation byte_array_codec: codec write_byte_array read_byte_array wf_byte_array
proof
  fix bs assume "wf_byte_array bs"
  then show "reads read_byte_array (to_bytes write_byte_array bs) bs"
    unfolding read_byte_array_bytes to_bytes_eq
    by (intro reads_dbind [OF reads_words(2) reads_bytes]) (simp_all add: wf_byte_array_def)
next
  show "yields read_byte_array wf_byte_array"
    unfolding read_byte_array_bytes
    by (rule yields_dbind [OF yields_True], rule yieldsI)
       (auto dest: yieldsD [OF yields_bytes] simp: wf_byte_array_def)
qed (simp_all add: to_bytes_eq)

subsection \<open>Vectors, options and pairs\<close>

lemma fold_buf:
  assumes "\<And>x e. x \<in> set xs \<Longrightarrow> e_buf (enc x e) = e_buf e @ to_bytes enc x"
  shows "e_buf (fold enc xs e) = e_buf e @ concat (map (to_bytes enc) xs)"
  using assms by (induction xs arbitrary: e) simp_all

lemma vec_encode_buf:
  assumes "\<And>x e. x \<in> set xs \<Longrightarrow> e_buf (enc x e) = e_buf e @ to_bytes enc x"
  shows "e_buf (vec_encode enc xs e) =
    e_buf e @ le_bytes 2 (of_nat (length xs) :: u16) @ concat (map (to_bytes enc) xs)"
  using fold_buf [OF assms] by (simp add: vec_encode_def)

lemma lawful_repeat [lawful_intros]: "lawful dec \<Longrightarrow> lawful (repeat_decode n dec)"
  by (induction n) (auto intro!: lawful_intros)

lemma lawful_vec [lawful_intros]: "lawful dec \<Longrightarrow> lawful (vec_decode dec)"
  unfolding vec_decode_def by (intro lawful_intros)

lemma lawful_option [lawful_intros]: "lawful dec \<Longrightarrow> lawful (option_decode dec)"
  unfolding option_decode_def by (intro lawful_intros)

lemma reads_repeat:
  assumes "\<And>x. x \<in> set xs \<Longrightarrow> reads dec (b x) x"
  shows "reads (repeat_decode (length xs) dec) (concat (map b xs)) xs"
  using assms
proof (induction xs)
  case (Cons x xs)
  then have "reads (dbind (repeat_decode (length xs) dec) (\<lambda>xs. dret (x # xs)))
      (concat (map b xs)) (x # xs)"
    by (intro reads_dbind [of _ "concat (map b xs)" xs _ "[]"]) auto
  then show ?case
    using Cons.prems by (auto intro!: reads_dbind [of dec "b x" x])
qed auto

lemma yields_repeat:
  "yields dec P \<Longrightarrow> yields (repeat_decode n dec) (\<lambda>xs. length xs = n \<and> list_all P xs)"
proof (induction n)
  case (Suc n)
  then show ?case
    by (auto intro!: yields_dbind [of dec P] yields_dbind [of _ "\<lambda>xs. length xs = n \<and> list_all P xs"])
qed auto

lemma vec_codec:
  assumes "codec enc dec ok"
  shows "codec (vec_encode enc) (vec_decode dec) (wf_vec ok)"
proof -
  note c = codec.buf_enc [OF assms] codec.reads_dec [OF assms]
  note vec = vec_encode_buf [of _ enc, OF c(1)]
  show ?thesis
  proof
    fix xs assume "wf_vec ok xs"
    then show "reads (vec_decode dec) (to_bytes (vec_encode enc) xs) xs"
      unfolding vec_decode_def to_bytes_eq [of "vec_encode enc"] vec
      by (intro reads_dbind [OF reads_words(1)])
         (auto simp: wf_vec_def list_all_iff intro!: reads_repeat c)
  next
    show "yields (vec_decode dec) (wf_vec ok)"
      unfolding vec_decode_def
      by (rule yields_dbind [OF yields_True], rule yieldsI)
         (auto dest: yieldsD [OF yields_repeat [OF codec.yields_dec [OF assms]]] simp: wf_vec_def)
  qed (simp_all add: to_bytes_eq [of "vec_encode enc"] vec lawful_vec codec.lawful_dec [OF assms])
qed

lemma option_encode_buf:
  assumes "\<And>v e. x = Some v \<Longrightarrow> e_buf (enc v e) = e_buf e @ to_bytes enc v"
  shows "e_buf (option_encode enc x e) =
    e_buf e @ (case x of None \<Rightarrow> [0] | Some v \<Rightarrow> 1 # to_bytes enc v)"
  using assms by (simp add: option_encode_def split: option.splits)

lemma option_codec:
  assumes "codec enc dec ok"
  shows "codec (option_encode enc) (option_decode dec) (pred_option ok)"
proof -
  note c = codec.buf_enc [OF assms] codec.reads_dec [OF assms]
  note opt = option_encode_buf [of _ enc, OF c(1)]
  show ?thesis
  proof
    fix x assume x: "pred_option ok x"
    show "reads (option_decode dec) (to_bytes (option_encode enc) x) x"
    proof (cases x)
      case None
      then show ?thesis
        unfolding option_decode_def to_bytes_eq [of "option_encode enc"] opt
        by (auto intro!: reads_dbind [OF reads_u8, where ?b2.0 = "[]"])
    next
      case (Some v)
      then have "reads (dbind dec (\<lambda>x. dret (Some x))) (to_bytes enc v) x"
        using x by (auto intro!: reads_dbind [OF c(2)])
      then show ?thesis
        using Some unfolding option_decode_def to_bytes_eq [of "option_encode enc"] opt
        by (auto intro!: reads_dbind [OF reads_u8])
    qed
  next
    show "yields (option_decode dec) (pred_option ok)"
      unfolding option_decode_def
      by (rule yields_dbind [OF yields_True])
         (auto intro!: yields_dbind [OF codec.yields_dec [OF assms]])
  qed (simp_all add: to_bytes_eq [of "option_encode enc"] opt lawful_option
        codec.lawful_dec [OF assms])
qed

lemma pair_codec:
  assumes "codec enc1 dec1 ok1" "codec enc2 dec2 ok2"
  shows "codec (pair_encode enc1 enc2) (pair_decode dec1 dec2) (\<lambda>p. ok1 (fst p) \<and> ok2 (snd p))"
proof -
  have buf: "e_buf (pair_encode enc1 enc2 p e) =
      e_buf e @ to_bytes enc1 (fst p) @ to_bytes enc2 (snd p)" for p e
    by (simp add: pair_encode_def codec.buf_enc [OF assms(1)] codec.buf_enc [OF assms(2)])
  show ?thesis
  proof
    fix p assume "ok1 (fst p) \<and> ok2 (snd p)"
    then show "reads (pair_decode dec1 dec2) (to_bytes (pair_encode enc1 enc2) p) p"
      unfolding pair_decode_def to_bytes_eq [of "pair_encode enc1 enc2"] buf
      by (intro reads_dbind [OF codec.reads_dec [OF assms(1), of "fst p"]]
            reads_dbind [OF codec.reads_dec [OF assms(2), of "snd p"]]) auto
  next
    show "yields (pair_decode dec1 dec2) (\<lambda>p. ok1 (fst p) \<and> ok2 (snd p))"
      unfolding pair_decode_def
      by (auto intro!: yields_dbind [OF codec.yields_dec [OF assms(1)]]
            yields_dbind [OF codec.yields_dec [OF assms(2)]])
  next
    show "lawful (pair_decode dec1 dec2)"
      unfolding pair_decode_def
      by (intro lawful_intros codec.lawful_dec [OF assms(1)] codec.lawful_dec [OF assms(2)])
  qed (simp add: to_bytes_eq [of "pair_encode enc1 enc2"] buf)
qed

end
