(* ===== verification/Terminal_Style.thy ===== *)
theory Terminal_Style
  imports Encoding
begin

text \<open>
  The styling types of \<^verbatim>\<open>panda-abi/src/terminal.rs\<close> and the style helpers of
  \<^verbatim>\<open>panda-abi/src/value.rs\<close>, with their wire format. Enumerations travel as one
  byte; \<^verbatim>\<open>codec_enum\<close> is the shared argument that such a pair keeps the contract.
\<close>

section \<open>Colours and styles\<close>

datatype named_colour =
    Black | Red | Green | Yellow | Blue | Magenta | Cyan | White
  | BrightBlack | BrightRed | BrightGreen | BrightYellow
  | BrightBlue | BrightMagenta | BrightCyan | BrightWhite

primrec named_as_u8 :: "named_colour \<Rightarrow> u8" where
  "named_as_u8 Black = 0"
| "named_as_u8 Red = 1"
| "named_as_u8 Green = 2"
| "named_as_u8 Yellow = 3"
| "named_as_u8 Blue = 4"
| "named_as_u8 Magenta = 5"
| "named_as_u8 Cyan = 6"
| "named_as_u8 White = 7"
| "named_as_u8 BrightBlack = 8"
| "named_as_u8 BrightRed = 9"
| "named_as_u8 BrightGreen = 10"
| "named_as_u8 BrightYellow = 11"
| "named_as_u8 BrightBlue = 12"
| "named_as_u8 BrightMagenta = 13"
| "named_as_u8 BrightCyan = 14"
| "named_as_u8 BrightWhite = 15"

definition named_from_u8 :: "u8 \<Rightarrow> named_colour option" where
  "named_from_u8 v =
     (if v = 0 then Some Black
      else if v = 1 then Some Red
      else if v = 2 then Some Green
      else if v = 3 then Some Yellow
      else if v = 4 then Some Blue
      else if v = 5 then Some Magenta
      else if v = 6 then Some Cyan
      else if v = 7 then Some White
      else if v = 8 then Some BrightBlack
      else if v = 9 then Some BrightRed
      else if v = 10 then Some BrightGreen
      else if v = 11 then Some BrightYellow
      else if v = 12 then Some BrightBlue
      else if v = 13 then Some BrightMagenta
      else if v = 14 then Some BrightCyan
      else if v = 15 then Some BrightWhite
      else None)"

datatype colour = Named named_colour | Palette u8 | Rgb u8 u8 u8

primrec colour_encode :: "colour \<Rightarrow> encoder \<Rightarrow> encoder" where
  "colour_encode (Named c) e = write_u8 (named_as_u8 c) (write_u8 1 e)"
| "colour_encode (Palette p) e = write_u8 p (write_u8 2 e)"
| "colour_encode (Rgb r g b) e = write_u8 b (write_u8 g (write_u8 r (write_u8 3 e)))"

definition colour_decode :: "colour dec" where
  "colour_decode = dbind read_u8 (\<lambda>tag.
     if tag = 1 then dbind read_u8 (\<lambda>c.
       case named_from_u8 c of None \<Rightarrow> derr InvalidValue | Some named \<Rightarrow> dret (Named named))
     else if tag = 2 then dbind read_u8 (\<lambda>p. dret (Palette p))
     else if tag = 3 then
       dbind read_u8 (\<lambda>r. dbind read_u8 (\<lambda>g. dbind read_u8 (\<lambda>b. dret (Rgb r g b))))
     else derr InvalidValue)"

record style =
  foreground :: "colour option"
  background :: "colour option"
  bold :: bool
  italic :: bool
  underline :: bool
  strikethrough :: bool

definition style_flags :: "style \<Rightarrow> u8" where
  "style_flags s =
     (if bold s then 1 else 0) OR (if italic s then 2 else 0)
     OR (if underline s then 4 else 0) OR (if strikethrough s then 8 else 0)"

definition style_encode :: "style \<Rightarrow> encoder \<Rightarrow> encoder" where
  "style_encode s e =
     option_encode colour_encode (background s)
       (option_encode colour_encode (foreground s) (write_u8 (style_flags s) e))"

definition style_decode :: "style dec" where
  "style_decode = dbind read_u8 (\<lambda>flags.
     dbind (option_decode colour_decode) (\<lambda>fg.
     dbind (option_decode colour_decode) (\<lambda>bg.
     dret \<lparr>foreground = fg, background = bg,
           bold = (flags AND 1 \<noteq> 0), italic = (flags AND 2 \<noteq> 0),
           underline = (flags AND 4 \<noteq> 0), strikethrough = (flags AND 8 \<noteq> 0)\<rparr>)))"

section \<open>Style helpers\<close>

definition style_default :: style where
  "style_default = \<lparr>foreground = None, background = None, bold = False, italic = False,
     underline = False, strikethrough = False\<rparr>"

definition style_bold :: style where
  "style_bold = style_default\<lparr>bold := True\<rparr>"

definition style_fg :: "colour \<Rightarrow> style" where
  "style_fg c = style_default\<lparr>foreground := Some c\<rparr>"

definition style_colours :: "colour \<Rightarrow> colour \<Rightarrow> style" where
  "style_colours fg bg = style_default\<lparr>foreground := Some fg, background := Some bg\<rparr>"

definition style_italic :: style where
  "style_italic = style_default\<lparr>italic := True\<rparr>"

definition style_underline :: style where
  "style_underline = style_default\<lparr>underline := True\<rparr>"

definition option_or :: "'a option \<Rightarrow> 'a option \<Rightarrow> 'a option" where
  "option_or x y = (case x of None \<Rightarrow> y | Some _ \<Rightarrow> x)"

definition style_merge :: "style \<Rightarrow> style \<Rightarrow> style" where
  "style_merge s t = \<lparr>
     foreground = option_or (foreground s) (foreground t),
     background = option_or (background s) (background t),
     bold = (bold s \<or> bold t),
     italic = (italic s \<or> italic t),
     underline = (underline s \<or> underline t),
     strikethrough = (strikethrough s \<or> strikethrough t)\<rparr>"

section \<open>The contract\<close>

lemma codec_enum:
  assumes "\<And>x e. enc x e = write_u8 (f x) e" "dec = dbind read_u8 g"
    and "\<And>x. g (f x) = dret x" "\<And>b. lawful (g b)"
  shows "codec enc dec (\<lambda>_. True)"
  unfolding assms(2)
  by (rule codec_prim [where b = "\<lambda>x. [f x]"])
     (auto simp: assms intro!: reads_dbind [OF reads_u8] lawful_intros)

lemma named_from_as_u8 [simp]: "named_from_u8 (named_as_u8 c) = Some c"
  by (cases c) (simp_all add: named_from_u8_def)

lemma colour_encode_buf:
  "e_buf (colour_encode c e) = e_buf e @ (case c of
     Named n \<Rightarrow> [1, named_as_u8 n] | Palette p \<Rightarrow> [2, p] | Rgb r g b \<Rightarrow> [3, r, g, b])"
  by (cases c) simp_all

lemma lawful_colour [lawful_intros]: "lawful colour_decode"
  unfolding colour_decode_def by (auto intro!: lawful_intros split: option.splits)

interpretation colour_codec: codec colour_encode colour_decode "\<lambda>_. True"
proof (rule codec_prim, rule colour_encode_buf)
  show "reads colour_decode (case c of Named n \<Rightarrow> [1, named_as_u8 n] | Palette p \<Rightarrow> [2, p]
          | Rgb r g b \<Rightarrow> [3, r, g, b]) c" for c
    unfolding colour_decode_def
    by (cases c; rule reads_dbind [OF reads_u8])
       (auto intro!: reads_dbind [OF reads_u8])
qed (rule lawful_colour)

interpretation colour_opt_codec:
  codec "option_encode colour_encode" "option_decode colour_decode" "pred_option (\<lambda>_. True)"
  by (rule option_codec) (rule colour_codec.codec_axioms)

lemma style_flags_bits:
  "style_flags s AND 1 \<noteq> 0 \<longleftrightarrow> bold s"
  "style_flags s AND 2 \<noteq> 0 \<longleftrightarrow> italic s"
  "style_flags s AND 4 \<noteq> 0 \<longleftrightarrow> underline s"
  "style_flags s AND 8 \<noteq> 0 \<longleftrightarrow> strikethrough s"
  by (simp_all add: style_flags_def)

interpretation style_codec: codec style_encode style_decode "\<lambda>_. True"
proof (rule codec_prim)
  let ?b = "\<lambda>s. style_flags s # to_bytes (option_encode colour_encode) (foreground s)
                @ to_bytes (option_encode colour_encode) (background s)"
  show "e_buf (style_encode s e) = e_buf e @ ?b s" for s e
    by (simp add: style_encode_def colour_opt_codec.buf_enc)
  show "reads style_decode (?b s) s" for s
    unfolding style_decode_def
    by (rule reads_dbind [OF reads_u8], rule reads_dbind [OF colour_opt_codec.reads_dec],
        simp add: option.pred_True, rule reads_dbind [OF colour_opt_codec.reads_dec])
       (auto simp: style_flags_bits option.pred_True)
  show "lawful style_decode"
    unfolding style_decode_def by (intro lawful_intros)
qed

lemma option_or_assoc: "option_or (option_or x y) z = option_or x (option_or y z)"
  by (simp add: option_or_def split: option.splits)

lemma style_merge_assoc: "style_merge (style_merge a b) c = style_merge a (style_merge b c)"
  by (simp add: style_merge_def option_or_assoc)

end
