(* ===== verification/BTree_Map.thy ===== *)
theory BTree_Map
  imports Prelude "HOL-Library.List_Lexorder"
begin

text \<open>
  \<^verbatim>\<open>alloc::collections::BTreeMap\<close> as the list of its entries in iteration order:
  keys strictly ascending (byte strings lexicographically, as \<^verbatim>\<open>String: Ord\<close>).
  The locale \<^verbatim>\<open>ordered_map\<close> is the contract the clients rely on.
\<close>

type_synonym ('k, 'v) btree = "('k \<times> 'v) list"

fun bt_insert :: "'k::linorder \<Rightarrow> 'v \<Rightarrow> ('k, 'v) btree \<Rightarrow> ('k, 'v) btree" where
  "bt_insert k v [] = [(k, v)]"
| "bt_insert k v ((k', v') # m) =
     (if k < k' then (k, v) # (k', v') # m
      else if k = k' then (k, v) # m
      else (k', v') # bt_insert k v m)"

definition bt_get :: "('k, 'v) btree \<Rightarrow> 'k \<Rightarrow> 'v option" where
  "bt_get m k = map_of m k"

definition bt_remove :: "'k \<Rightarrow> ('k, 'v) btree \<Rightarrow> ('k, 'v) btree" where
  "bt_remove k m = filter (\<lambda>p. fst p \<noteq> k) m"

definition bt_invar :: "('k::linorder, 'v) btree \<Rightarrow> bool" where
  "bt_invar m \<longleftrightarrow> sorted_wrt (<) (map fst m)"

section \<open>The contract of an ordered map\<close>

locale ordered_map =
  fixes empty :: "'m"
    and insert :: "'k::linorder \<Rightarrow> 'v \<Rightarrow> 'm \<Rightarrow> 'm"
    and get :: "'m \<Rightarrow> 'k \<Rightarrow> 'v option"
    and remove :: "'k \<Rightarrow> 'm \<Rightarrow> 'm"
    and size_of :: "'m \<Rightarrow> nat"
    and invar :: "'m \<Rightarrow> bool"
  assumes invar_empty: "invar empty"
    and invar_insert: "invar m \<Longrightarrow> invar (insert k v m)"
    and invar_remove: "invar m \<Longrightarrow> invar (remove k m)"
    and get_empty: "get empty k = None"
    and get_insert: "invar m \<Longrightarrow> get (insert k v m) j = (if j = k then Some v else get m j)"
    and get_remove: "invar m \<Longrightarrow> get (remove k m) j = (if j = k then None else get m j)"
    and size_dom: "invar m \<Longrightarrow> finite (dom (get m)) \<and> size_of m = card (dom (get m))"
begin

lemma dom_insert: "invar m \<Longrightarrow> dom (get (insert k v m)) = Set.insert k (dom (get m))"
  by (auto simp: get_insert split: if_splits)

lemma dom_remove: "invar m \<Longrightarrow> dom (get (remove k m)) = dom (get m) - {k}"
  by (auto simp: get_remove split: if_splits)

lemma size_insert:
  "invar m \<Longrightarrow> size_of (insert k v m) = (if get m k = None then Suc (size_of m) else size_of m)"
  using size_dom [of m] size_dom [OF invar_insert, of m k v]
  by (auto simp: dom_insert card_insert_if domIff)

lemma size_remove:
  "invar m \<Longrightarrow> size_of (remove k m) = (if get m k = None then size_of m else size_of m - 1)"
  using size_dom [of m] size_dom [OF invar_remove, of m k]
  by (auto simp: dom_remove card_Diff_singleton_if domIff)

lemma size_zero: "invar m \<Longrightarrow> size_of m = 0 \<longleftrightarrow> get m = Map.empty"
  using size_dom [of m] by auto

end

section \<open>The sorted list keeps it\<close>

lemma bt_get_eq: "bt_get m = map_of m"
  by (simp add: fun_eq_iff bt_get_def)

lemma map_of_bt_insert [simp]: "map_of (bt_insert k v m) = (map_of m)(k \<mapsto> v)"
  by (induction k v m rule: bt_insert.induct) auto

lemma keys_bt_insert [simp]: "fst ` set (bt_insert k v m) = insert k (fst ` set m)"
  by (induction k v m rule: bt_insert.induct) auto

lemma bt_invar_insert: "bt_invar m \<Longrightarrow> bt_invar (bt_insert k v m)"
  unfolding bt_invar_def
proof (induction k v m rule: bt_insert.induct)
  case (2 k v k' v' m)
  have "fst p = k \<or> p \<in> set m" if "p \<in> set (bt_insert k v m)" for p
    using that by (induction m) (auto split: if_splits)
  then show ?case
    using 2 by (auto simp: less_trans not_less_iff_gr_or_eq)
qed simp

lemma map_of_bt_remove [simp]: "map_of (bt_remove k m) = (map_of m)(k := None)"
  by (induction m) (auto simp: bt_remove_def)

lemma bt_invar_remove: "bt_invar m \<Longrightarrow> bt_invar (bt_remove k m)"
  by (simp add: bt_invar_def bt_remove_def sorted_wrt_map sorted_wrt_filter)

lemma bt_invar_distinct: "bt_invar m \<Longrightarrow> distinct (map fst m)"
  by (simp add: bt_invar_def strict_sorted_iff)

interpretation bt: ordered_map "[]" bt_insert bt_get bt_remove length bt_invar
proof
  fix m :: "('a, 'b) btree" assume "bt_invar m"
  then show "finite (dom (bt_get m)) \<and> length m = card (dom (bt_get m))"
    using bt_invar_distinct [of m] distinct_card [of "map fst m"]
    by (simp add: bt_get_eq dom_map_of_conv_image_fst)
qed (simp_all add: bt_invar_insert bt_invar_remove bt_get_def, simp add: bt_invar_def)

lemma bt_insert_snoc:
  "bt_invar (m @ [(k, v)]) \<Longrightarrow> bt_insert k v m = m @ [(k, v)]"
  by (induction m) (auto simp: bt_invar_def sorted_wrt_append)

lemma set_bt_insert: "set (bt_insert k v m) \<subseteq> insert (k, v) (set m)"
  by (induction k v m rule: bt_insert.induct) auto

lemma length_bt_insert: "length (bt_insert k v m) \<le> Suc (length m)"
  by (induction k v m rule: bt_insert.induct) auto

end
