(* ===== verification/Value.thy ===== *)
theory Value
  imports Terminal_Style BTree_Map
begin

text \<open>
  The universal pipeline value of \<^verbatim>\<open>panda-abi/src/value.rs\<close>: the recursive type
  \<^verbatim>\<open>Value\<close> with its tables, its encoder and its recursive decoder. The decoder is
  cut off at a nesting depth; \<^verbatim>\<open>value_decode\<close> runs it with one more level than
  there are unread bytes, which no input exceeds (\<^verbatim>\<open>decode_value_fuelled\<close>).
  Map keys are inserted one by one, so duplicate keys on the wire collapse.
\<close>

section \<open>Values and tables\<close>

datatype "value" =
    Null
  | VBool bool
  | VInt u64
  | VFloat u64
  | VString rstr
  | VBytes bytes
  | VArray "value list"
  | VMap "(rstr \<times> value) list"
  | VStyled style "value"
  | VLink rstr "value"
  | VTable table
and table = Table (cols: u16) (headers: "value list option") (cells: "value list")

datatype table_error = InvalidHeaderCount | InvalidCellCount | ZeroColumns

definition table_new :: "u16 \<Rightarrow> value list option \<Rightarrow> value list \<Rightarrow> table_error + table" where
  "table_new c hs cs =
     (if c = 0 then Inl ZeroColumns
      else if (case hs of Some h \<Rightarrow> length h \<noteq> unat c | None \<Rightarrow> False) then Inl InvalidHeaderCount
      else if length cs mod unat c \<noteq> 0 then Inl InvalidCellCount
      else Inr (Table c hs cs))"

definition with_headers :: "value list \<Rightarrow> table_error + table" where
  "with_headers hs =
     (let c = of_nat (length hs) :: u16 in
      if c = 0 then Inl ZeroColumns else Inr (Table c (Some hs) []))"

definition table_rows :: "table \<Rightarrow> nat" where
  "table_rows t = (if cols t = 0 then 0 else length (cells t) div unat (cols t))"

definition table_get :: "table \<Rightarrow> nat \<Rightarrow> u16 \<Rightarrow> value option" where
  "table_get t row col =
     (if col < cols t \<and> row < table_rows t
      then Some (cells t ! (row * unat (cols t) + unat col)) else None)"

text \<open>\<^verbatim>\<open>slice::chunks(n)\<close>; \<^verbatim>\<open>None\<close> is its panic for a chunk size of zero.\<close>

function chunks_of :: "nat \<Rightarrow> 'a list \<Rightarrow> 'a list list" where
  "chunks_of n xs = (if n = 0 \<or> xs = [] then [] else take n xs # chunks_of n (drop n xs))"
  by auto
termination by (relation "measure (length \<circ> snd)") auto

declare chunks_of.simps [simp del]

definition row_iter :: "table \<Rightarrow> value list list option" where
  "row_iter t = (if unat (cols t) = 0 then None else Some (chunks_of (unat (cols t)) (cells t)))"

text \<open>\<^verbatim>\<open>None\<close> is the panic of the assertion on the row length.\<close>

definition push_row :: "value list \<Rightarrow> table \<Rightarrow> table option" where
  "push_row row t =
     (if length row = unat (cols t) then Some (Table (cols t) (headers t) (cells t @ row)) else None)"

definition value_bold :: "value \<Rightarrow> value" where
  "value_bold inner = VStyled style_bold inner"

definition value_coloured :: "value \<Rightarrow> colour \<Rightarrow> value" where
  "value_coloured inner c = VStyled (style_fg c) inner"

section \<open>Encoding\<close>

datatype value_tag =
    TagNull | TagBool | TagInt | TagFloat | TagString | TagBytes | TagArray | TagMap
  | TagStyled | TagLink | TagTable

primrec tag_as_u8 :: "value_tag \<Rightarrow> u8" where
  "tag_as_u8 TagNull = 0"
| "tag_as_u8 TagBool = 1"
| "tag_as_u8 TagInt = 2"
| "tag_as_u8 TagFloat = 3"
| "tag_as_u8 TagString = 4"
| "tag_as_u8 TagBytes = 5"
| "tag_as_u8 TagArray = 6"
| "tag_as_u8 TagMap = 7"
| "tag_as_u8 TagStyled = 8"
| "tag_as_u8 TagLink = 9"
| "tag_as_u8 TagTable = 10"

definition tag_from_u8 :: "u8 \<Rightarrow> value_tag option" where
  "tag_from_u8 v =
     (if v = 0 then Some TagNull
      else if v = 1 then Some TagBool
      else if v = 2 then Some TagInt
      else if v = 3 then Some TagFloat
      else if v = 4 then Some TagString
      else if v = 5 then Some TagBytes
      else if v = 6 then Some TagArray
      else if v = 7 then Some TagMap
      else if v = 8 then Some TagStyled
      else if v = 9 then Some TagLink
      else if v = 10 then Some TagTable
      else None)"

lemma vec_encode_cong [fundef_cong]:
  "xs = ys \<Longrightarrow> (\<And>y. y \<in> set ys \<Longrightarrow> f y = g y) \<Longrightarrow> vec_encode f xs = vec_encode g ys"
  by (rule ext) (simp add: vec_encode_def cong: fold_cong)

lemma option_encode_cong [fundef_cong]:
  "x = y \<Longrightarrow> (\<And>v. y = Some v \<Longrightarrow> f v = g v) \<Longrightarrow> e = e' \<Longrightarrow> option_encode f x e = option_encode g y e'"
  by (simp add: option_encode_def split: option.splits)

fun encode_value :: "value \<Rightarrow> encoder \<Rightarrow> encoder"
  and encode_table :: "table \<Rightarrow> encoder \<Rightarrow> encoder" where
  "encode_value Null e = write_u8 (tag_as_u8 TagNull) e"
| "encode_value (VBool b) e = write_bool b (write_u8 (tag_as_u8 TagBool) e)"
| "encode_value (VInt i) e = write_i64 i (write_u8 (tag_as_u8 TagInt) e)"
| "encode_value (VFloat f) e = write_f64 f (write_u8 (tag_as_u8 TagFloat) e)"
| "encode_value (VString s) e = write_string s (write_u8 (tag_as_u8 TagString) e)"
| "encode_value (VBytes b) e = write_byte_array b (write_u8 (tag_as_u8 TagBytes) e)"
| "encode_value (VArray vs) e = vec_encode encode_value vs (write_u8 (tag_as_u8 TagArray) e)"
| "encode_value (VMap m) e =
     fold (\<lambda>(k, v) e. encode_value v (write_string k e)) m
       (write_u16 (of_nat (length m)) (write_u8 (tag_as_u8 TagMap) e))"
| "encode_value (VStyled s v) e = encode_value v (style_encode s (write_u8 (tag_as_u8 TagStyled) e))"
| "encode_value (VLink url v) e = encode_value v (write_string url (write_u8 (tag_as_u8 TagLink) e))"
| "encode_value (VTable t) e = encode_table t (write_u8 (tag_as_u8 TagTable) e)"
| "encode_table (Table c hs cs) e =
     vec_encode encode_value cs
       (option_encode (vec_encode encode_value) hs (write_u16 c e))"

section \<open>Decoding\<close>

definition table_decode :: "value dec \<Rightarrow> table dec" where
  "table_decode dv = dbind read_u16 (\<lambda>c.
     dbind (option_decode (vec_decode dv)) (\<lambda>hs.
     dbind (vec_decode dv) (\<lambda>cs.
       if c = 0 \<and> cs \<noteq> [] then derr InvalidValue
       else if (case hs of Some h \<Rightarrow> length h \<noteq> unat c | None \<Rightarrow> False) then derr InvalidValue
       else if c > 0 \<and> length cs mod unat c \<noteq> 0 then derr InvalidValue
       else dret (Table c hs cs))))"

primrec map_decode :: "nat \<Rightarrow> 'v dec \<Rightarrow> (rstr, 'v) btree \<Rightarrow> (rstr, 'v) btree dec" where
  "map_decode 0 dv m = dret m"
| "map_decode (Suc n) dv m =
     dbind read_string (\<lambda>k. dbind dv (\<lambda>v. map_decode n dv (bt_insert k v m)))"

text \<open>The body of \<^verbatim>\<open>Value::decode\<close>, with the recursive calls as a parameter.\<close>

definition value_body :: "value dec \<Rightarrow> value_tag \<Rightarrow> value dec" where
  "value_body dv tag = (case tag of
     TagNull \<Rightarrow> dret Null
   | TagBool \<Rightarrow> dbind read_bool (\<lambda>b. dret (VBool b))
   | TagInt \<Rightarrow> dbind read_i64 (\<lambda>i. dret (VInt i))
   | TagFloat \<Rightarrow> dbind read_f64 (\<lambda>f. dret (VFloat f))
   | TagString \<Rightarrow> dbind read_string (\<lambda>s. dret (VString s))
   | TagBytes \<Rightarrow> dbind read_byte_array (\<lambda>b. dret (VBytes b))
   | TagArray \<Rightarrow> dbind (vec_decode dv) (\<lambda>vs. dret (VArray vs))
   | TagMap \<Rightarrow> dbind read_u16 (\<lambda>count.
       dbind (map_decode (unat count) dv []) (\<lambda>m. dret (VMap m)))
   | TagStyled \<Rightarrow> dbind style_decode (\<lambda>s. dbind dv (\<lambda>v. dret (VStyled s v)))
   | TagLink \<Rightarrow> dbind read_string (\<lambda>url. dbind dv (\<lambda>v. dret (VLink url v)))
   | TagTable \<Rightarrow> dbind (table_decode dv) (\<lambda>t. dret (VTable t)))"

primrec decode_value :: "nat \<Rightarrow> value dec" where
  "decode_value 0 = derr OutOfFuel"
| "decode_value (Suc n) = dbind read_u8 (\<lambda>b.
     case tag_from_u8 b of
       None \<Rightarrow> derr UnknownType
     | Some tag \<Rightarrow> value_body (decode_value n) tag)"

definition value_decode :: "value dec" where
  "value_decode d = decode_value (Suc (remaining d)) d"

definition value_to_bytes :: "value \<Rightarrow> bytes" where
  "value_to_bytes v = to_bytes encode_value v"

definition value_from_bytes :: "bytes \<Rightarrow> decode_error + value" where
  "value_from_bytes bs = from_bytes value_decode bs"

section \<open>Well-formed values\<close>

text \<open>What the Rust types (UTF-8 strings, ordered maps), the documented invariant of
  \<^verbatim>\<open>Table\<close> and the width of the length fields require.\<close>

lemma wf_vec_cong [fundef_cong]:
  "xs = ys \<Longrightarrow> (\<And>y. y \<in> set ys \<Longrightarrow> P y = Q y) \<Longrightarrow> wf_vec P xs = wf_vec Q ys"
  by (auto simp: wf_vec_def list_all_iff)

fun wf_value :: "value \<Rightarrow> bool" and wf_table :: "table \<Rightarrow> bool" where
  "wf_value (VString s) = wf_string s"
| "wf_value (VBytes b) = wf_byte_array b"
| "wf_value (VArray vs) = wf_vec wf_value vs"
| "wf_value (VMap m) = (bt_invar m \<and> wf_vec (\<lambda>(k, v). wf_string k \<and> wf_value v) m)"
| "wf_value (VStyled s v) = wf_value v"
| "wf_value (VLink url v) = (wf_string url \<and> wf_value v)"
| "wf_value (VTable t) = wf_table t"
| "wf_value v = True"
| "wf_table (Table c hs cs) =
     ((case hs of None \<Rightarrow> True | Some h \<Rightarrow> length h = unat c \<and> wf_vec wf_value h)
      \<and> wf_vec wf_value cs \<and> (if c = 0 then cs = [] else length cs mod unat c = 0))"

definition max_of :: "('a \<Rightarrow> nat) \<Rightarrow> 'a list \<Rightarrow> nat" where
  "max_of f xs = foldr (\<lambda>x. max (f x)) xs 0"

lemma max_of_cong [fundef_cong]:
  "xs = ys \<Longrightarrow> (\<And>y. y \<in> set ys \<Longrightarrow> f y = g y) \<Longrightarrow> max_of f xs = max_of g ys"
  by (simp add: max_of_def cong: foldr_cong)

fun value_depth :: "value \<Rightarrow> nat" and table_depth :: "table \<Rightarrow> nat" where
  "value_depth (VArray vs) = Suc (max_of value_depth vs)"
| "value_depth (VMap m) = Suc (max_of (\<lambda>(k, v). value_depth v) m)"
| "value_depth (VStyled s v) = Suc (value_depth v)"
| "value_depth (VLink url v) = Suc (value_depth v)"
| "value_depth (VTable t) = Suc (table_depth t)"
| "value_depth v = 1"
| "table_depth (Table c hs cs) =
     max (case hs of None \<Rightarrow> 0 | Some h \<Rightarrow> max_of value_depth h) (max_of value_depth cs)"

section \<open>Bytes written\<close>

lemma max_of_le [simp]: "max_of f xs \<le> n \<longleftrightarrow> (\<forall>x\<in>set xs. f x \<le> n)"
  by (induction xs) (simp_all add: max_of_def)

lemma tag_from_as_u8 [simp]: "tag_from_u8 (tag_as_u8 t) = Some t"
  by (cases t) (simp_all add: tag_from_u8_def)

lemma tag_from_u8_lits [simp]:
  "tag_from_u8 0 = Some TagNull"
  "tag_from_u8 1 = Some TagBool"
  "tag_from_u8 2 = Some TagInt"
  "tag_from_u8 3 = Some TagFloat"
  "tag_from_u8 4 = Some TagString"
  "tag_from_u8 5 = Some TagBytes"
  "tag_from_u8 6 = Some TagArray"
  "tag_from_u8 7 = Some TagMap"
  "tag_from_u8 8 = Some TagStyled"
  "tag_from_u8 9 = Some TagLink"
  "tag_from_u8 10 = Some TagTable"
  by (simp_all add: tag_from_u8_def)

definition entry_encode :: "rstr \<times> value \<Rightarrow> encoder \<Rightarrow> encoder" where
  "entry_encode = pair_encode write_string encode_value"

lemma encode_value_map:
  "encode_value (VMap m) e =
     fold entry_encode m (write_u16 (of_nat (length m)) (write_u8 (tag_as_u8 TagMap) e))"
  unfolding encode_value.simps entry_encode_def
  by (rule fold_cong) (auto simp: pair_encode_def fun_eq_iff)

lemma encode_value_buf: "e_buf (encode_value v e) = e_buf e @ to_bytes encode_value v"
  and encode_table_buf: "e_buf (encode_table t e) = e_buf e @ to_bytes encode_table t"
proof (induction v and t arbitrary: e and e)
  case (VMap m)
  have "e_buf (entry_encode p e) = e_buf e @ to_bytes entry_encode p" if "p \<in> set m" for p e
  proof (rule buf_encI)
    show "e_buf (entry_encode p e) =
        e_buf e @ to_bytes write_string (fst p) @ to_bytes encode_value (snd p)" for e
      using VMap [of p "snd p"] that
      by (simp add: entry_encode_def pair_encode_def string_codec.buf_enc snds.simps
            del: e_buf_prims(10))
  qed
  then show ?case
    by (intro buf_encI) (simp only: encode_value_map, simp add: fold_buf)
next
  case (Table c hs cs)
  have vec: "e_buf (vec_encode encode_value vs e) = e_buf e @ to_bytes (vec_encode encode_value) vs"
    if "\<And>x e. x \<in> set vs \<Longrightarrow> e_buf (encode_value x e) = e_buf e @ to_bytes encode_value x" for vs e
    by (rule buf_encI) (simp add: vec_encode_buf that)
  show ?case
    by (rule buf_encI) (simp add: option_encode_buf vec Table)
qed (rule buf_encI; simp add: vec_encode_buf style_codec.buf_enc)+

lemma entry_encode_buf: "e_buf (entry_encode p e) = e_buf e @ to_bytes entry_encode p"
  by (rule buf_encI) (simp add: entry_encode_def pair_encode_def encode_value_buf)

lemma vec_value_buf:
  "e_buf (vec_encode encode_value vs e) = e_buf e @ to_bytes (vec_encode encode_value) vs"
  by (rule buf_encI) (simp add: vec_encode_buf encode_value_buf)

lemma opt_vec_value_buf:
  "e_buf (option_encode (vec_encode encode_value) hs e) =
     e_buf e @ to_bytes (option_encode (vec_encode encode_value)) hs"
  by (rule buf_encI) (simp add: option_encode_buf vec_value_buf)

lemma value_bytes [wire]:
  "to_bytes encode_value Null = [0]"
  "to_bytes encode_value (VBool b) = 1 # to_bytes write_bool b"
  "to_bytes encode_value (VInt i) = 2 # to_bytes write_i64 i"
  "to_bytes encode_value (VFloat i) = 3 # to_bytes write_f64 i"
  "to_bytes encode_value (VString s) = 4 # to_bytes write_string s"
  "to_bytes encode_value (VBytes s) = 5 # to_bytes write_byte_array s"
  "to_bytes encode_value (VArray vs) = 6 # to_bytes (vec_encode encode_value) vs"
  "to_bytes encode_value (VMap m) =
     7 # to_bytes write_u16 (of_nat (length m)) @ concat (map (to_bytes entry_encode) m)"
  "to_bytes encode_value (VStyled st v) = 8 # to_bytes style_encode st @ to_bytes encode_value v"
  "to_bytes encode_value (VLink s v) = 9 # to_bytes write_string s @ to_bytes encode_value v"
  "to_bytes encode_value (VTable t) = 10 # to_bytes encode_table t"
  "to_bytes encode_table (Table c hs cs) = to_bytes write_u16 c
     @ to_bytes (option_encode (vec_encode encode_value)) hs @ to_bytes (vec_encode encode_value) cs"
  by (rule to_bytesI, simp add: encode_value_map vec_value_buf encode_value_buf encode_table_buf
        opt_vec_value_buf style_codec.buf_enc fold_buf entry_encode_buf del: encode_value.simps(8))+

lemma entry_bytes [wire]:
  "to_bytes entry_encode p = to_bytes write_string (fst p) @ to_bytes encode_value (snd p)"
  by (rule to_bytesI) (simp add: entry_encode_def pair_encode_def encode_value_buf)

section \<open>One level of the codec\<close>

fun value_ok :: "(value \<Rightarrow> bool) \<Rightarrow> value \<Rightarrow> bool" where
  "value_ok P (VString s) = wf_string s"
| "value_ok P (VBytes b) = wf_byte_array b"
| "value_ok P (VArray vs) = wf_vec P vs"
| "value_ok P (VMap m) = (bt_invar m \<and> wf_vec (\<lambda>p. wf_string (fst p) \<and> P (snd p)) m)"
| "value_ok P (VStyled s v) = P v"
| "value_ok P (VLink url v) = (wf_string url \<and> P v)"
| "value_ok P (VTable (Table c hs cs)) =
     (pred_option (wf_vec P) hs \<and> pred_option (\<lambda>h. length h = unat c) hs
      \<and> wf_vec P cs \<and> (if c = 0 then cs = [] else length cs mod unat c = 0))"
| "value_ok P v = True"

lemma value_ok_depth:
  "wf_value v \<and> value_depth v \<le> Suc n \<longleftrightarrow> value_ok (\<lambda>v. wf_value v \<and> value_depth v \<le> n) v"
proof (cases v)
  case (VTable t)
  then show ?thesis
    by (cases t) (auto simp: wf_vec_def list_all_iff split: option.splits)
qed (auto simp: wf_vec_def list_all_iff)

lemma reads_map:
  assumes "\<And>p. p \<in> set m \<Longrightarrow> wf_string (fst p) \<and> reads dv (to_bytes encode_value (snd p)) (snd p)"
    and "bt_invar (m0 @ m)"
  shows "reads (map_decode (length m) dv m0) (concat (map (to_bytes entry_encode) m)) (m0 @ m)"
  using assms
proof (induction m arbitrary: m0)
  case (Cons p m)
  have "bt_invar (m0 @ [p])"
    using Cons.prems(2) by (auto simp: bt_invar_def sorted_wrt_append)
  then have "bt_insert (fst p) (snd p) m0 = m0 @ [p]"
    by (simp add: bt_insert_snoc)
  moreover have "reads (map_decode (length m) dv (m0 @ [p]))
      (concat (map (to_bytes entry_encode) m)) (m0 @ p # m)"
    using Cons.IH [of "m0 @ [p]"] Cons.prems by simp
  ultimately show ?case
    using Cons.prems(1) [of p]
    by (auto simp: entry_bytes [of p] intro!: reads_dbind [OF string_codec.reads_dec, where x = "fst p"]
          reads_dbind [of dv "to_bytes encode_value (snd p)" "snd p"])
qed auto

lemma yields_map:
  assumes "yields dv P" "bt_invar m" "list_all (\<lambda>p. wf_string (fst p) \<and> P (snd p)) m"
  shows "yields (map_decode n dv m) (\<lambda>m'. bt_invar m' \<and> length m' \<le> length m + n
           \<and> list_all (\<lambda>p. wf_string (fst p) \<and> P (snd p)) m')"
  using assms(2,3)
proof (induction n arbitrary: m)
  case (Suc n)
  have "yields (map_decode n dv (bt_insert k v m)) (\<lambda>m'. bt_invar m' \<and> length m' \<le> length m + Suc n
           \<and> list_all (\<lambda>p. wf_string (fst p) \<and> P (snd p)) m')"
    if "wf_string k" "P v" for k v
  proof (rule yieldsI)
    have "list_all (\<lambda>p. wf_string (fst p) \<and> P (snd p)) (bt_insert k v m)"
      using set_bt_insert [of k v m] that Suc.prems(2) by (auto simp: list_all_iff)
    then show "bt_invar m' \<and> length m' \<le> length m + Suc n
        \<and> list_all (\<lambda>p. wf_string (fst p) \<and> P (snd p)) m'"
      if "map_decode n dv (bt_insert k v m) d = Inr (m', d')" for d m' d'
      using yieldsD [OF Suc.IH that] Suc.prems(1) length_bt_insert [of k v m]
      by (auto simp: bt_invar_insert)
  qed
  then show ?case
    by (auto intro!: yields_dbind [OF string_codec.yields_dec] yields_dbind [OF assms(1)])
qed auto

lemma lawful_map [lawful_intros]: "lawful dv \<Longrightarrow> lawful (map_decode n dv m)"
  by (induction n arbitrary: m) (auto intro!: lawful_intros)

lemma lawful_table [lawful_intros]: "lawful dv \<Longrightarrow> lawful (table_decode dv)"
  unfolding table_decode_def by (intro lawful_intros)

lemma lawful_body: "lawful dv \<Longrightarrow> lawful (value_body dv tag)"
  by (cases tag) (auto simp: value_body_def intro!: lawful_intros style_codec.lawful_dec)

lemma table_codec:
  assumes "codec encode_value dv P"
  shows "codec encode_table (table_decode dv) (\<lambda>t. value_ok P (VTable t))"
proof -
  note vec = vec_codec [OF assms]
  note opt = option_codec [OF vec]
  show ?thesis
  proof
    fix t assume "value_ok P (VTable t)"
    then show "reads (table_decode dv) (to_bytes encode_table t) t"
      unfolding table_decode_def
      by (cases t) (auto simp: value_bytes intro!: reads_dbind [OF reads_words(1), where x = "cols t"]
          reads_dbind [OF codec.reads_dec [OF opt], where x = "headers t"]
          reads_dbind [OF codec.reads_dec [OF vec], where x = "cells t"]
          split: option.splits if_splits)
  next
    show "yields (table_decode dv) (\<lambda>t. value_ok P (VTable t))"
      unfolding table_decode_def
      by (rule yields_dbind [OF yields_True], rule yields_dbind [OF codec.yields_dec [OF opt]],
          rule yields_dbind [OF codec.yields_dec [OF vec]])
         (auto split: option.splits simp: word_gt_0)
  qed (rule encode_table_buf, rule lawful_table [OF codec.lawful_dec [OF assms]])
qed

lemma map_body_reads:
  assumes "codec encode_value dv P" "value_ok P (VMap m)"
  shows "reads (value_body dv TagMap)
    (le_bytes 2 (of_nat (length m) :: u16) @ concat (map (to_bytes entry_encode) m)) (VMap m)"
  using assms(2) reads_map [of m dv "[]"] unfolding value_body_def
  by (auto simp: wf_vec_def list_all_iff codec.reads_dec [OF assms(1)]
       intro!: reads_dbind [OF reads_words(1)] reads_dbind [where ?b2.0 = "[]"])

lemma body_yields:
  assumes "codec encode_value dv P"
  shows "yields (value_body dv tag) (value_ok P)"
  unfolding value_body_def using codec.yields_dec [OF assms]
  by (cases tag) (auto intro!: yields_dbind [OF string_codec.yields_dec]
      yields_dbind [OF byte_array_codec.yields_dec] yields_dbind [OF u16_codec.yields_dec]
      yields_dbind [OF bool_codec.yields_dec] yields_dbind [OF i64_codec.yields_dec]
      yields_dbind [OF f64_codec.yields_dec] yields_dbind [OF style_codec.yields_dec]
      yields_dbind [OF codec.yields_dec [OF vec_codec [OF assms]]]
      yields_dbind [OF codec.yields_dec [OF table_codec [OF assms]]]
      yields_dbind [OF codec.yields_dec [OF assms]] yields_dbind [OF yields_map]
      simp: wf_vec_def bt.invar_empty le_less_trans [OF _ unat_lt(1)])

definition value_step :: "value dec \<Rightarrow> value dec" where
  "value_step dv = dbind read_u8 (\<lambda>b.
     case tag_from_u8 b of None \<Rightarrow> derr UnknownType | Some tag \<Rightarrow> value_body dv tag)"

lemma step_reads:
  "tag_from_u8 b = Some tag \<Longrightarrow> reads (value_body dv tag) bs v \<Longrightarrow> reads (value_step dv) (b # bs) v"
  by (auto simp: value_step_def intro!: reads_dbind [OF reads_u8])

lemma value_step_codec:
  assumes c: "codec encode_value dv P"
  shows "codec encode_value (value_step dv) (value_ok P)"
proof
  fix v assume v: "value_ok P v"
  show "reads (value_step dv) (to_bytes encode_value v) v"
  proof (cases v)
    case (VMap m)
    then show ?thesis
      using v map_body_reads [OF c] step_reads [of 7 TagMap] by (simp add: value_bytes)
  next
    case (VTable t)
    then have "reads (value_body dv TagTable) (to_bytes encode_table t) v"
      using v unfolding value_body_def
      by (auto intro!: reads_dbind [OF codec.reads_dec [OF table_codec [OF c]]])
    then show ?thesis
      using VTable step_reads [of 10 TagTable] by (simp add: value_bytes)
  qed (use v in \<open>auto simp: value_bytes value_body_def simp del: prim_bytes
       intro!: tag_from_u8_lits [THEN step_reads] reads_dbind [OF bool_codec.reads_dec]
         reads_dbind [OF i64_codec.reads_dec] reads_dbind [OF f64_codec.reads_dec]
         reads_dbind [OF string_codec.reads_dec] reads_dbind [OF byte_array_codec.reads_dec]
         reads_dbind [OF style_codec.reads_dec] reads_dbind [OF codec.reads_dec [OF c]]
         reads_dbind [OF codec.reads_dec [OF vec_codec [OF c]]]\<close>)
next
  show "yields (value_step dv) (value_ok P)"
    unfolding value_step_def using body_yields [OF c]
    by (intro yields_dbind [OF yields_True]) (auto split: option.splits)
next
  show "lawful (value_step dv)"
    unfolding value_step_def using codec.lawful_dec [OF c]
    by (auto intro!: lawful_intros lawful_body split: option.splits)
qed (rule encode_value_buf)

lemma decode_value_Suc: "decode_value (Suc n) = value_step (decode_value n)"
  by (simp add: value_step_def)

lemma depth_pos: "value_depth v \<noteq> 0"
  by (cases v) simp_all

lemma decode_value_codec:
  "codec encode_value (decode_value n) (\<lambda>v. wf_value v \<and> value_depth v \<le> n)"
proof (induction n)
  case 0
  show ?case by unfold_locales (simp_all add: depth_pos encode_value_buf)
next
  case (Suc n)
  show ?case
    using value_step_codec [OF Suc] unfolding value_ok_depth decode_value_Suc .
qed

section \<open>The depth bound is never reached\<close>

text \<open>
  \<^verbatim>\<open>dec_le\<close> is the order in which more fuel only turns \<^verbatim>\<open>OutOfFuel\<close> into an
  outcome; \<^verbatim>\<open>fuelled r m\<close> says \<^verbatim>\<open>m\<close> does not run out on at most \<^verbatim>\<open>r\<close> bytes.
\<close>

definition dec_le :: "'a dec \<Rightarrow> 'a dec \<Rightarrow> bool" where
  "dec_le m m' \<longleftrightarrow> (\<forall>d. m d = m' d \<or> m d = Inl OutOfFuel)"

definition fuelled :: "nat \<Rightarrow> 'a dec \<Rightarrow> bool" where
  "fuelled r m \<longleftrightarrow> (\<forall>d. remaining d \<le> r \<longrightarrow> m d \<noteq> Inl OutOfFuel)"

named_theorems dec_le_intros \<open>monotonicity in the fuel\<close>
named_theorems fuelled_intros \<open>decoders that do not run out of fuel\<close>

lemma dec_le_refl [dec_le_intros, simp]: "dec_le m m"
  by (simp add: dec_le_def)

lemma dec_le_dbind [dec_le_intros]:
  assumes "dec_le m m'" "\<And>x. dec_le (f x) (f' x)"
  shows "dec_le (dbind m f) (dbind m' f')"
  unfolding dec_le_def
proof
  fix d
  show "dbind m f d = dbind m' f' d \<or> dbind m f d = Inl OutOfFuel"
    using assms unfolding dec_le_def dbind_def
    by (cases "m d = m' d") (auto simp: rbind_def split: sum.splits)
qed

lemma dec_le_repeat [dec_le_intros]:
  "dec_le m m' \<Longrightarrow> dec_le (repeat_decode n m) (repeat_decode n m')"
  by (induction n) (auto intro!: dec_le_intros)

lemma dec_le_vec [dec_le_intros]: "dec_le m m' \<Longrightarrow> dec_le (vec_decode m) (vec_decode m')"
  unfolding vec_decode_def by (intro dec_le_intros)

lemma dec_le_option [dec_le_intros]: "dec_le m m' \<Longrightarrow> dec_le (option_decode m) (option_decode m')"
  unfolding option_decode_def by (auto intro!: dec_le_intros)

lemma dec_le_map [dec_le_intros]: "dec_le v v' \<Longrightarrow> dec_le (map_decode n v t) (map_decode n v' t)"
  by (induction n arbitrary: t) (auto intro!: dec_le_intros)

lemma value_step_mono: "dec_le dv dv' \<Longrightarrow> dec_le (value_step dv) (value_step dv')"
  unfolding value_step_def value_body_def table_decode_def
  by (auto intro!: dec_le_intros split: option.splits value_tag.splits)

lemma decode_value_mono: "n \<le> m \<Longrightarrow> dec_le (decode_value n) (decode_value m)"
proof (induction n arbitrary: m)
  case 0
  show ?case by (simp add: dec_le_def derr_def)
next
  case (Suc n)
  then show ?case by (cases m) (auto simp del: decode_value.simps simp: decode_value_Suc intro!: value_step_mono)
qed

lemma fuelled_prims [fuelled_intros, simp]:
  "fuelled r (dret x)" "fuelled r read_u8" "fuelled r read_u16" "fuelled r read_u32"
  "fuelled r read_i32" "fuelled r read_i64" "fuelled r read_f64" "fuelled r (read_bytes n)"
  "fuelled r (read_utf8 n)" "e \<noteq> OutOfFuel \<Longrightarrow> fuelled r (derr e)"
  by (auto simp: fuelled_def dret_def derr_def read_u8_def read_u16_def read_u32_def read_i32_def
      read_i64_def read_f64_def read_bytes_def read_utf8_def check_utf8_def)

lemma fuelled_dbind [fuelled_intros]:
  assumes "fuelled r m" "lawful m" "\<And>x. fuelled r (f x)"
  shows "fuelled r (dbind m f)"
  unfolding fuelled_def
proof (intro allI impI)
  fix d assume d: "remaining d \<le> r"
  show "dbind m f d \<noteq> Inl OutOfFuel"
  proof (cases "m d")
    case (Inl e)
    then show ?thesis using assms(1) d by (auto simp: fuelled_def dbind_def)
  next
    case (Inr p)
    then have "remaining (snd p) \<le> r"
      using lawful_remaining [OF assms(2), of d "fst p" "snd p"] d by simp
    then show ?thesis
      using Inr assms(3) by (auto simp: fuelled_def dbind_def split: prod.splits)
  qed
qed

lemma fuelled_derived [fuelled_intros, simp]:
  "fuelled r read_string" "fuelled r read_byte_array" "fuelled r read_bool"
  "fuelled r read_tlv_header"
  unfolding read_string_utf8 read_byte_array_bytes read_bool_def read_tlv_header_def
  by (intro fuelled_intros lawful_intros)+

lemma fuelled_repeat [fuelled_intros]:
  "fuelled r m \<Longrightarrow> lawful m \<Longrightarrow> fuelled r (repeat_decode n m)"
  by (induction n) (auto intro!: fuelled_intros lawful_intros)

lemma fuelled_vec [fuelled_intros]: "fuelled r m \<Longrightarrow> lawful m \<Longrightarrow> fuelled r (vec_decode m)"
  unfolding vec_decode_def by (intro fuelled_intros lawful_intros)

lemma fuelled_option [fuelled_intros]:
  "fuelled r m \<Longrightarrow> lawful m \<Longrightarrow> fuelled r (option_decode m)"
  unfolding option_decode_def by (auto intro!: fuelled_intros lawful_intros)

lemma fuelled_map [fuelled_intros]:
  "fuelled r m \<Longrightarrow> lawful m \<Longrightarrow> fuelled r (map_decode n m t)"
  by (induction n arbitrary: t) (auto intro!: fuelled_intros lawful_intros)

lemma fuelled_colour [fuelled_intros, simp]: "fuelled r colour_decode"
  unfolding colour_decode_def by (auto intro!: fuelled_intros lawful_intros split: option.splits)

lemma fuelled_style [fuelled_intros, simp]: "fuelled r style_decode"
  unfolding style_decode_def by (intro fuelled_intros lawful_intros)

lemma fuelled_table [fuelled_intros]:
  "fuelled r m \<Longrightarrow> lawful m \<Longrightarrow> fuelled r (table_decode m)"
  unfolding table_decode_def by (auto intro!: fuelled_intros lawful_intros)

lemma fuelled_body:
  "fuelled r m \<Longrightarrow> lawful m \<Longrightarrow> fuelled r (value_body m tag)"
  unfolding value_body_def
  by (cases tag) (auto intro!: fuelled_intros lawful_intros style_codec.lawful_dec)

lemma value_step_fuelled:
  assumes "fuelled r m" "lawful m"
  shows "fuelled (Suc r) (value_step m)"
  unfolding fuelled_def
proof (intro allI impI)
  fix d assume d: "remaining d \<le> Suc r"
  show "value_step m d \<noteq> Inl OutOfFuel"
    using d fuelled_body [OF assms] unfolding fuelled_def
    by (auto simp: value_step_def dbind_def read_u8_def derr_def split: option.splits)
qed

lemma decode_value_lawful: "lawful (decode_value n)"
  using codec.lawful_dec [OF decode_value_codec] .

lemma decode_value_fuelled: "fuelled n (decode_value (Suc n))"
proof (induction n)
  case 0
  show ?case
    by (auto simp: fuelled_def dbind_def read_u8_def)
next
  case (Suc n)
  then show ?case
    unfolding decode_value_Suc [of "Suc n"] by (intro value_step_fuelled decode_value_lawful)
qed

lemma value_decode_fuel:
  assumes "remaining d < n"
  shows "decode_value n d = value_decode d"
  using decode_value_mono [of "Suc (remaining d)" n] decode_value_fuelled [of "remaining d"] assms
  unfolding dec_le_def fuelled_def value_decode_def by (metis Suc_leI order_refl)

lemma decode_value_le: "dec_le (decode_value n) value_decode"
  unfolding dec_le_def
proof
  fix d
  have "dec_le (decode_value n) (decode_value (max n (Suc (remaining d))))"
    by (rule decode_value_mono) simp
  then show "decode_value n d = value_decode d \<or> decode_value n d = Inl OutOfFuel"
    using value_decode_fuel [of d "max n (Suc (remaining d))"]
    unfolding dec_le_def by (metis lessI less_max_iff_disj)
qed

lemma value_decode_unfold: "value_decode = value_step value_decode"
proof
  fix d
  have "dec_le (decode_value (Suc (remaining d))) (value_step value_decode)"
    unfolding decode_value_Suc by (rule value_step_mono) (rule decode_value_le)
  then show "value_decode d = value_step value_decode d"
    using decode_value_fuelled [of "remaining d"]
    unfolding dec_le_def fuelled_def value_decode_def by (metis order_refl)
qed

lemma reads_dec_le: "dec_le m m' \<Longrightarrow> reads m bs x \<Longrightarrow> reads m' bs x"
  unfolding dec_le_def reads_def by (metis Inl_not_Inr)

interpretation value_codec: codec encode_value value_decode wf_value
proof
  fix v assume "wf_value v"
  then show "reads value_decode (to_bytes encode_value v) v"
    using codec.reads_dec [OF decode_value_codec, of v "value_depth v"]
    by (intro reads_dec_le [OF decode_value_le]) simp
next
  show "yields value_decode wf_value"
    by (rule yieldsI) (auto simp: value_decode_def simp del: decode_value.simps
        dest: yieldsD [OF codec.yields_dec [OF decode_value_codec]])
next
  show "lawful value_decode"
    unfolding lawful_def
  proof (intro allI impI)
    fix d v d' assume "value_decode d = Inr (v, d')"
    then have "decode_value (Suc (remaining d)) d = Inr (v, d')"
      by (simp only: value_decode_def)
    then obtain bs r where "remaining_slice d = bs @ r" "d' = advance (length bs) d"
        "reads (decode_value (Suc (remaining d))) bs v"
      by (rule lawfulD [OF decode_value_lawful])
    then show "\<exists>bs r. remaining_slice d = bs @ r \<and> d' = advance (length bs) d
        \<and> reads value_decode bs v"
      using reads_dec_le [OF decode_value_le] by blast
  qed
qed (rule encode_value_buf)

lemma value_decode_fuelled [fuelled_intros]: "fuelled r value_decode"
  unfolding fuelled_def
  using decode_value_fuelled value_decode_def by (metis fuelled_def order_refl)

section \<open>Tables\<close>

definition rectangular :: "table \<Rightarrow> bool" where
  "rectangular t \<longleftrightarrow> cols t \<noteq> 0 \<and> pred_option (\<lambda>h. length h = unat (cols t)) (headers t)
     \<and> length (cells t) mod unat (cols t) = 0"

lemma unat_cols_pos: "cols t \<noteq> 0 \<Longrightarrow> 0 < unat (cols t)"
  by (simp add: unat_gt_0)

lemma nth_chunks_of:
  "0 < n \<Longrightarrow> i < length xs div n \<Longrightarrow>
     i < length (chunks_of n xs) \<and> chunks_of n xs ! i = take n (drop (i * n) xs)"
proof (induction n xs arbitrary: i rule: chunks_of.induct)
  case (1 n xs)
  then have "xs \<noteq> []" by auto
  show ?case
  proof (cases i)
    case 0
    then show ?thesis using 1 \<open>xs \<noteq> []\<close> by (simp add: chunks_of.simps [of n xs])
  next
    case (Suc j)
    have "n \<le> length xs"
      using 1(3) by (metis div_less not_le not_less_zero)
    then have "j < length (drop n xs) div n"
      using 1(2,3) Suc by (simp add: le_div_geq)
    then show ?thesis
      using 1 \<open>xs \<noteq> []\<close> Suc by (simp add: chunks_of.simps [of n xs] add.commute)
  qed
qed

lemma length_chunks_of:
  "0 < n \<Longrightarrow> length xs mod n = 0 \<Longrightarrow> length (chunks_of n xs) = length xs div n"
proof (induction n xs rule: chunks_of.induct)
  case (1 n xs)
  show ?case
  proof (cases "xs = []")
    case False
    then have "n \<le> length xs"
      using 1(3) by (metis length_0_conv mod_less not_le)
    then show ?thesis
      using 1 False by (simp add: chunks_of.simps [of n xs] le_div_geq le_mod_geq)
  qed (simp add: chunks_of.simps)
qed

lemma wf_table_rectangular: "wf_table t \<Longrightarrow> cols t \<noteq> 0 \<Longrightarrow> rectangular t"
  by (cases t) (auto simp: rectangular_def split: option.splits)

lemma table_new_eq_Inr:
  "table_new c hs cs = Inr t \<longleftrightarrow> t = Table c hs cs \<and> rectangular t"
  by (auto simp: table_new_def rectangular_def split: option.splits)

lemma table_get_row:
  assumes "rectangular t" "row < table_rows t"
  defines "rs \<equiv> chunks_of (unat (cols t)) (cells t)"
  shows "length (rs ! row) = unat (cols t)"
    and "col < cols t \<Longrightarrow> table_get t row col = Some (rs ! row ! unat col)"
proof -
  have n: "0 < unat (cols t)" and m: "length (cells t) mod unat (cols t) = 0"
    using assms(1) unat_cols_pos by (auto simp: rectangular_def)
  have row: "row < length (cells t) div unat (cols t)"
    using assms(1,2) by (simp add: table_rows_def rectangular_def)
  then have "Suc row * unat (cols t) \<le> length (cells t)"
    using m by (metis Suc_leI div_mult_mod_eq add_0_right mult_le_mono1)
  then show "length (rs ! row) = unat (cols t)"
    "col < cols t \<Longrightarrow> table_get t row col = Some (rs ! row ! unat col)"
    using nth_chunks_of [OF n row] assms(2)
    by (simp_all add: rs_def table_get_def word_less_nat_alt)
qed

section \<open>Properties\<close>

text \<open>C11: decoding the bytes of a well-formed value gives the value back, whatever bytes
  follow it: every nested array, map, style, link and table survives the wire.\<close>

theorem value_round_trip:
  "wf_value v \<Longrightarrow> value_from_bytes (value_to_bytes v @ rest) = Inr v"
  unfolding value_from_bytes_def value_to_bytes_def by (rule value_codec.from_to_bytes)

theorem value_round_trip_witness:
  "value_from_bytes (value_to_bytes
     (VMap [([97], VArray [VInt 5, VBool True]),
            ([98], VTable (Table 1 (Some [VString [72]]) [Null, VBytes [1, 2]]))]) @ [7])
   = Inr (VMap [([97], VArray [VInt 5, VBool True]),
            ([98], VTable (Table 1 (Some [VString [72]]) [Null, VBytes [1, 2]]))])"
  by (rule value_round_trip)
     (simp add: bt_invar_def wf_vec_def wf_string_def wf_byte_array_def utf8_valid_def utf8_head_def)


text \<open>C23: whatever bytes are received, a decoded value is well-formed (valid UTF-8, ordered
  distinct map keys, rectangular tables) and re-encodes to bytes that decode to it.\<close>

theorem value_decode_sound:
  "value_from_bytes bs = Inr v \<Longrightarrow> wf_value v \<and> value_from_bytes (value_to_bytes v) = Inr v"
  unfolding value_from_bytes_def value_to_bytes_def
  by (intro conjI value_codec.from_bytes_wf value_codec.redecode)

theorem value_decode_sound_witness:
  "wf_value (VArray [VBool True])
   \<and> value_from_bytes (value_to_bytes (VArray [VBool True])) = Inr (VArray [VBool True])"
  by (rule value_decode_sound [of "[6, 1, 0, 1, 9]"]) code_simp

text \<open>a message cut short anywhere is rejected, never decoded to another value.\<close>

theorem value_truncated_rejected:
  "wf_value v \<Longrightarrow> n < length (value_to_bytes v) \<Longrightarrow>
     \<exists>e. e \<noteq> OutOfFuel \<and> value_from_bytes (take n (value_to_bytes v)) = Inl e"
  using value_codec.truncated_rejected [of v n]
    value_decode_fuelled [of "remaining (decoder_new (take n (to_bytes encode_value v)))"]
  unfolding value_from_bytes_def value_to_bytes_def from_bytes_def fuelled_def
  by (auto simp: rbind_eq_Inl)

theorem value_truncated_rejected_witness:
  "\<exists>e. e \<noteq> OutOfFuel \<and> value_from_bytes (take 2 (value_to_bytes (VLink [120] Null))) = Inl e"
  by (rule value_truncated_rejected)
     (simp add: wf_string_def utf8_valid_def utf8_head_def, simp add: value_to_bytes_def value_bytes)

text \<open>in a table accepted by the validating constructor the row iterator yields as many
  full rows as \<^verbatim>\<open>rows\<close> says and indexing agrees with it; adding a row keeps the table
  acceptable.\<close>

theorem table_new_rows:
  assumes "table_new c hs cs = Inr t"
  shows "\<exists>rs. row_iter t = Some rs \<and> length rs = table_rows t
      \<and> (\<forall>row < table_rows t. length (rs ! row) = unat c
          \<and> (\<forall>col < c. table_get t row col = Some (rs ! row ! unat col)))
      \<and> (\<forall>row t'. push_row row t = Some t' \<longrightarrow> table_new c hs (cs @ row) = Inr t'
            \<and> table_rows t' = Suc (table_rows t))"
proof -
  have t: "t = Table c hs cs" "rectangular t"
    using assms by (auto simp: table_new_eq_Inr)
  have n: "0 < unat c" and m: "length cs mod unat c = 0"
    using t unat_cols_pos [of t] by (auto simp: rectangular_def)
  have "row_iter t = Some (chunks_of (unat c) cs)" "length (chunks_of (unat c) cs) = table_rows t"
    using t n m by (auto simp: row_iter_def table_rows_def length_chunks_of)
  moreover have "table_new c hs (cs @ row) = Inr t' \<and> table_rows t' = Suc (table_rows t)"
    if "push_row row t = Some t'" for row t'
    using that t n by (auto simp: push_row_def table_new_eq_Inr rectangular_def table_rows_def
        split: if_splits)
  ultimately show ?thesis
    using table_get_row [OF t(2)] t(1) by auto
qed

theorem table_new_rows_witness:
  "\<exists>rs. row_iter (Table 2 None [Null, VBool True]) = Some rs \<and> length rs = 1"
  using table_new_rows [of 2 None "[Null, VBool True]" "Table 2 None [Null, VBool True]"]
  by (auto simp: table_new_def table_rows_def)

end
