(* ===== verification/Terminal.thy ===== *)
theory Terminal
  imports "Value"
begin

text \<open>
  The terminal protocol of \<^verbatim>\<open>panda-abi/src/terminal.rs\<close>: requests of a child to
  its terminal and events of the terminal to a child, each a TLV message (type,
  length back-patched after the content, content). The styling types are in
  theory \<^verbatim>\<open>Terminal_Style\<close>. Indices of type \<^verbatim>\<open>usize\<close> are numbers.
\<close>

section \<open>Message types and small enumerations\<close>

datatype message_type =
    MtWrite | MtMoveCursor | MtClear | MtRequestInput | MtSetTitle | MtProgress | MtQuery
  | MtExit | MtError | MtWarning | MtInputResponse | MtKey | MtResize | MtSignal | MtQueryResponse

primrec message_type_as_u16 :: "message_type \<Rightarrow> u16" where
  "message_type_as_u16 MtWrite = 0x0001"
| "message_type_as_u16 MtMoveCursor = 0x0002"
| "message_type_as_u16 MtClear = 0x0003"
| "message_type_as_u16 MtRequestInput = 0x0004"
| "message_type_as_u16 MtSetTitle = 0x0005"
| "message_type_as_u16 MtProgress = 0x0006"
| "message_type_as_u16 MtQuery = 0x0007"
| "message_type_as_u16 MtExit = 0x0008"
| "message_type_as_u16 MtError = 0x0009"
| "message_type_as_u16 MtWarning = 0x000A"
| "message_type_as_u16 MtInputResponse = 0x0100"
| "message_type_as_u16 MtKey = 0x0101"
| "message_type_as_u16 MtResize = 0x0102"
| "message_type_as_u16 MtSignal = 0x0103"
| "message_type_as_u16 MtQueryResponse = 0x0104"

datatype alignment = ALeft | ACentre | ARight

primrec alignment_encode :: "alignment \<Rightarrow> encoder \<Rightarrow> encoder" where
  "alignment_encode ALeft e = write_u8 0 e"
| "alignment_encode ACentre e = write_u8 1 e"
| "alignment_encode ARight e = write_u8 2 e"

definition alignment_decode :: "alignment dec" where
  "alignment_decode = dbind read_u8 (\<lambda>b.
     if b = 0 then dret ALeft else if b = 1 then dret ACentre else if b = 2 then dret ARight
     else derr InvalidValue)"

datatype clear_region = Screen | ToEndOfScreen | ToEndOfLine | CrLine

primrec clear_region_encode :: "clear_region \<Rightarrow> encoder \<Rightarrow> encoder" where
  "clear_region_encode Screen e = write_u8 0 e"
| "clear_region_encode ToEndOfScreen e = write_u8 1 e"
| "clear_region_encode ToEndOfLine e = write_u8 2 e"
| "clear_region_encode CrLine e = write_u8 3 e"

definition clear_region_decode :: "clear_region dec" where
  "clear_region_decode = dbind read_u8 (\<lambda>b.
     if b = 0 then dret Screen else if b = 1 then dret ToEndOfScreen
     else if b = 2 then dret ToEndOfLine else if b = 3 then dret CrLine
     else derr InvalidValue)"

datatype input_kind = IkLine | IkPassword | IkChar | IkConfirm | IkChoice | IkRawKeys

primrec input_kind_encode :: "input_kind \<Rightarrow> encoder \<Rightarrow> encoder" where
  "input_kind_encode IkLine e = write_u8 0 e"
| "input_kind_encode IkPassword e = write_u8 1 e"
| "input_kind_encode IkChar e = write_u8 2 e"
| "input_kind_encode IkConfirm e = write_u8 3 e"
| "input_kind_encode IkChoice e = write_u8 4 e"
| "input_kind_encode IkRawKeys e = write_u8 5 e"

definition input_kind_decode :: "input_kind dec" where
  "input_kind_decode = dbind read_u8 (\<lambda>b.
     if b = 0 then dret IkLine else if b = 1 then dret IkPassword
     else if b = 2 then dret IkChar else if b = 3 then dret IkConfirm
     else if b = 4 then dret IkChoice else if b = 5 then dret IkRawKeys
     else derr InvalidValue)"

datatype terminal_query = TqSize | TqCapabilities | TqCursorPosition

primrec terminal_query_encode :: "terminal_query \<Rightarrow> encoder \<Rightarrow> encoder" where
  "terminal_query_encode TqSize e = write_u8 0 e"
| "terminal_query_encode TqCapabilities e = write_u8 1 e"
| "terminal_query_encode TqCursorPosition e = write_u8 2 e"

definition terminal_query_decode :: "terminal_query dec" where
  "terminal_query_decode = dbind read_u8 (\<lambda>b.
     if b = 0 then dret TqSize else if b = 1 then dret TqCapabilities
     else if b = 2 then dret TqCursorPosition else derr InvalidValue)"

datatype signal = Interrupt | Quit | Suspend

primrec signal_encode :: "signal \<Rightarrow> encoder \<Rightarrow> encoder" where
  "signal_encode Interrupt e = write_u8 0 e"
| "signal_encode Quit e = write_u8 1 e"
| "signal_encode Suspend e = write_u8 2 e"

definition signal_decode :: "signal dec" where
  "signal_decode = dbind read_u8 (\<lambda>b.
     if b = 0 then dret Interrupt else if b = 1 then dret Quit else if b = 2 then dret Suspend
     else derr InvalidValue)"

datatype colour_support = CsNone | CsBasic | CsPalette | CsTrueColour

primrec colour_support_encode :: "colour_support \<Rightarrow> encoder \<Rightarrow> encoder" where
  "colour_support_encode CsNone e = write_u8 0 e"
| "colour_support_encode CsBasic e = write_u8 1 e"
| "colour_support_encode CsPalette e = write_u8 2 e"
| "colour_support_encode CsTrueColour e = write_u8 3 e"

definition colour_support_decode :: "colour_support dec" where
  "colour_support_decode = dbind read_u8 (\<lambda>b.
     if b = 0 then dret CsNone else if b = 1 then dret CsBasic else if b = 2 then dret CsPalette
     else if b = 3 then dret CsTrueColour else derr InvalidValue)"

section \<open>Requests\<close>

record input_request =
  ir_id :: u32
  ir_kind :: input_kind
  ir_prompt :: "value option"
  ir_choices :: "rstr list"

definition input_request_encode :: "input_request \<Rightarrow> encoder \<Rightarrow> encoder" where
  "input_request_encode r e =
     vec_encode write_string (ir_choices r)
       (option_encode encode_value (ir_prompt r)
         (input_kind_encode (ir_kind r) (write_u32 (ir_id r) e)))"

definition input_request_decode :: "input_request dec" where
  "input_request_decode = dbind read_u32 (\<lambda>id.
     dbind input_kind_decode (\<lambda>kind.
     dbind (option_decode value_decode) (\<lambda>prompt.
     dbind (vec_decode read_string) (\<lambda>choices.
     dret \<lparr>ir_id = id, ir_kind = kind, ir_prompt = prompt, ir_choices = choices\<rparr>))))"

datatype request =
    ReqError "value"
  | ReqWarning "value"
  | MoveCursor u16 u16
  | Clear clear_region
  | RequestInput input_request
  | SetTitle rstr
  | Progress u32 u32 rstr
  | Query terminal_query
  | Exit u32
  | Write "value"

primrec request_type :: "request \<Rightarrow> message_type" where
  "request_type (ReqError v) = MtError"
| "request_type (ReqWarning v) = MtWarning"
| "request_type (MoveCursor row col) = MtMoveCursor"
| "request_type (Clear region) = MtClear"
| "request_type (RequestInput req) = MtRequestInput"
| "request_type (SetTitle title) = MtSetTitle"
| "request_type (Progress current tot msg) = MtProgress"
| "request_type (Query q) = MtQuery"
| "request_type (Exit code) = MtExit"
| "request_type (Write v) = MtWrite"

primrec request_content :: "request \<Rightarrow> encoder \<Rightarrow> encoder" where
  "request_content (ReqError v) e = encode_value v e"
| "request_content (ReqWarning v) e = encode_value v e"
| "request_content (MoveCursor row col) e = write_u16 col (write_u16 row e)"
| "request_content (Clear region) e = clear_region_encode region e"
| "request_content (RequestInput req) e = input_request_encode req e"
| "request_content (SetTitle title) e = write_string title e"
| "request_content (Progress current tot msg) e =
     write_string msg (write_u32 tot (write_u32 current e))"
| "request_content (Query q) e = terminal_query_encode q e"
| "request_content (Exit code) e = write_i32 code e"
| "request_content (Write v) e = encode_value v e"

definition request_encode :: "request \<Rightarrow> encoder \<Rightarrow> encoder" where
  "request_encode r e =
     (let (len_pos, e1) = write_tlv_header (message_type_as_u16 (request_type r)) 0 e;
          content_start = encoder_len e1;
          e2 = request_content r e1;
          content_len = encoder_len e2 - content_start
      in update_length len_pos (of_nat content_len) e2)"

definition request_decode :: "request dec" where
  "request_decode = dbind read_tlv_header (\<lambda>(msg_type, _).
     if msg_type = message_type_as_u16 MtError then
       dbind value_decode (\<lambda>v. dret (ReqError v))
     else if msg_type = message_type_as_u16 MtWarning then
       dbind value_decode (\<lambda>v. dret (ReqWarning v))
     else if msg_type = message_type_as_u16 MtWrite then
       dbind value_decode (\<lambda>v. dret (Write v))
     else if msg_type = message_type_as_u16 MtMoveCursor then
       dbind read_u16 (\<lambda>row. dbind read_u16 (\<lambda>col. dret (MoveCursor row col)))
     else if msg_type = message_type_as_u16 MtClear then
       dbind clear_region_decode (\<lambda>region. dret (Clear region))
     else if msg_type = message_type_as_u16 MtRequestInput then
       dbind input_request_decode (\<lambda>req. dret (RequestInput req))
     else if msg_type = message_type_as_u16 MtSetTitle then
       dbind read_string (\<lambda>title. dret (SetTitle title))
     else if msg_type = message_type_as_u16 MtProgress then
       dbind read_u32 (\<lambda>current. dbind read_u32 (\<lambda>tot.
         dbind read_string (\<lambda>msg. dret (Progress current tot msg))))
     else if msg_type = message_type_as_u16 MtQuery then
       dbind terminal_query_decode (\<lambda>q. dret (Query q))
     else if msg_type = message_type_as_u16 MtExit then
       dbind read_i32 (\<lambda>code. dret (Exit code))
     else derr UnknownType)"

definition request_to_bytes :: "request \<Rightarrow> bytes" where
  "request_to_bytes r = encoder_finish (request_encode r encoder_new)"

definition request_from_bytes :: "bytes \<Rightarrow> decode_error + request \<times> nat" where
  "request_from_bytes bs =
     rbind (request_decode (decoder_new bs)) (\<lambda>(msg, d). Inr (msg, d_pos d))"

section \<open>Events\<close>

datatype input_value = IvText rstr | IvChar rchar | IvBool bool | IvChoice nat

primrec input_value_encode :: "input_value \<Rightarrow> encoder \<Rightarrow> encoder" where
  "input_value_encode (IvText s) e = write_string s (write_u8 0 e)"
| "input_value_encode (IvChar c) e = write_string (char_encode_utf8 c) (write_u8 1 e)"
| "input_value_encode (IvBool b) e = write_bool b (write_u8 2 e)"
| "input_value_encode (IvChoice idx) e = write_u32 (of_nat idx) (write_u8 3 e)"

definition input_value_decode :: "input_value dec" where
  "input_value_decode = dbind read_u8 (\<lambda>tag.
     if tag = 0 then dbind read_string (\<lambda>s. dret (IvText s))
     else if tag = 1 then dbind read_string (\<lambda>s.
       case first_char s of None \<Rightarrow> derr InvalidValue | Some c \<Rightarrow> dret (IvChar c))
     else if tag = 2 then dbind read_bool (\<lambda>b. dret (IvBool b))
     else if tag = 3 then dbind read_u32 (\<lambda>idx. dret (IvChoice (unat idx)))
     else derr InvalidValue)"

record input_response =
  resp_id :: u32
  resp_value :: "input_value option"

definition input_response_encode :: "input_response \<Rightarrow> encoder \<Rightarrow> encoder" where
  "input_response_encode r e =
     option_encode input_value_encode (resp_value r) (write_u32 (resp_id r) e)"

definition input_response_decode :: "input_response dec" where
  "input_response_decode = dbind read_u32 (\<lambda>id.
     dbind (option_decode input_value_decode) (\<lambda>v. dret \<lparr>resp_id = id, resp_value = v\<rparr>))"

record key_modifiers =
  shift :: bool
  ctrl :: bool
  alt :: bool

record key_event =
  key_code :: u16
  modifiers :: key_modifiers
  key_value :: u8

definition key_event_encode :: "key_event \<Rightarrow> encoder \<Rightarrow> encoder" where
  "key_event_encode k e =
     (let mods = (if shift (modifiers k) then 1 else 0) OR (if ctrl (modifiers k) then 2 else 0)
                 OR (if alt (modifiers k) then 4 else 0)
      in write_u8 (key_value k) (write_u8 mods (write_u16 (key_code k) e)))"

definition key_event_decode :: "key_event dec" where
  "key_event_decode = dbind read_u16 (\<lambda>c. dbind read_u8 (\<lambda>mods. dbind read_u8 (\<lambda>v.
     dret \<lparr>key_code = c,
           modifiers = \<lparr>shift = (mods AND 1 \<noteq> 0), ctrl = (mods AND 2 \<noteq> 0), alt = (mods AND 4 \<noteq> 0)\<rparr>,
           key_value = v\<rparr>)))"

record terminal_capabilities =
  cap_colours :: colour_support
  cap_images :: bool
  cap_hyperlinks :: bool
  cap_unicode :: bool

definition capabilities_encode :: "terminal_capabilities \<Rightarrow> encoder \<Rightarrow> encoder" where
  "capabilities_encode c e =
     write_bool (cap_unicode c) (write_bool (cap_hyperlinks c) (write_bool (cap_images c)
       (colour_support_encode (cap_colours c) e)))"

definition capabilities_decode :: "terminal_capabilities dec" where
  "capabilities_decode = dbind colour_support_decode (\<lambda>cs. dbind read_bool (\<lambda>im.
     dbind read_bool (\<lambda>hl. dbind read_bool (\<lambda>un.
     dret \<lparr>cap_colours = cs, cap_images = im, cap_hyperlinks = hl, cap_unicode = un\<rparr>))))"

datatype query_response =
  QrSize u16 u16 | QrCapabilities terminal_capabilities | QrCursorPosition u16 u16

primrec query_response_encode :: "query_response \<Rightarrow> encoder \<Rightarrow> encoder" where
  "query_response_encode (QrSize c r) e = write_u16 r (write_u16 c (write_u8 0 e))"
| "query_response_encode (QrCapabilities caps) e = capabilities_encode caps (write_u8 1 e)"
| "query_response_encode (QrCursorPosition r c) e = write_u16 c (write_u16 r (write_u8 2 e))"

definition query_response_decode :: "query_response dec" where
  "query_response_decode = dbind read_u8 (\<lambda>tag.
     if tag = 0 then dbind read_u16 (\<lambda>c. dbind read_u16 (\<lambda>r. dret (QrSize c r)))
     else if tag = 1 then dbind capabilities_decode (\<lambda>caps. dret (QrCapabilities caps))
     else if tag = 2 then dbind read_u16 (\<lambda>r. dbind read_u16 (\<lambda>c. dret (QrCursorPosition r c)))
     else derr InvalidValue)"

datatype event =
    EvInput input_response
  | EvKey key_event
  | EvResize u16 u16
  | EvSignal signal
  | EvQueryResponse query_response

primrec event_type :: "event \<Rightarrow> message_type" where
  "event_type (EvInput r) = MtInputResponse"
| "event_type (EvKey k) = MtKey"
| "event_type (EvResize c r) = MtResize"
| "event_type (EvSignal s) = MtSignal"
| "event_type (EvQueryResponse r) = MtQueryResponse"

primrec event_content :: "event \<Rightarrow> encoder \<Rightarrow> encoder" where
  "event_content (EvInput r) e = input_response_encode r e"
| "event_content (EvKey k) e = key_event_encode k e"
| "event_content (EvResize c r) e = write_u16 r (write_u16 c e)"
| "event_content (EvSignal s) e = signal_encode s e"
| "event_content (EvQueryResponse r) e = query_response_encode r e"

definition event_encode :: "event \<Rightarrow> encoder \<Rightarrow> encoder" where
  "event_encode ev e =
     (let (len_pos, e1) = write_tlv_header (message_type_as_u16 (event_type ev)) 0 e;
          content_start = encoder_len e1;
          e2 = event_content ev e1;
          content_len = encoder_len e2 - content_start
      in update_length len_pos (of_nat content_len) e2)"

definition event_decode :: "event dec" where
  "event_decode = dbind read_tlv_header (\<lambda>(msg_type, _).
     if msg_type = message_type_as_u16 MtInputResponse then
       dbind input_response_decode (\<lambda>r. dret (EvInput r))
     else if msg_type = message_type_as_u16 MtKey then
       dbind key_event_decode (\<lambda>k. dret (EvKey k))
     else if msg_type = message_type_as_u16 MtResize then
       dbind read_u16 (\<lambda>c. dbind read_u16 (\<lambda>r. dret (EvResize c r)))
     else if msg_type = message_type_as_u16 MtSignal then
       dbind signal_decode (\<lambda>s. dret (EvSignal s))
     else if msg_type = message_type_as_u16 MtQueryResponse then
       dbind query_response_decode (\<lambda>r. dret (EvQueryResponse r))
     else derr UnknownType)"

definition event_to_bytes :: "event \<Rightarrow> bytes" where
  "event_to_bytes ev = encoder_finish (event_encode ev encoder_new)"

definition event_from_bytes :: "bytes \<Rightarrow> decode_error + event \<times> nat" where
  "event_from_bytes bs =
     rbind (event_decode (decoder_new bs)) (\<lambda>(msg, d). Inr (msg, d_pos d))"

section \<open>The contract for the parts\<close>

interpretation alignment_codec: codec alignment_encode alignment_decode "\<lambda>_. True"
  by (rule codec_enum [where f = "case_alignment 0 1 2", OF _ alignment_decode_def])
     (auto intro!: lawful_intros split: alignment.splits)

interpretation clear_region_codec: codec clear_region_encode clear_region_decode "\<lambda>_. True"
  by (rule codec_enum [where f = "case_clear_region 0 1 2 3", OF _ clear_region_decode_def])
     (auto intro!: lawful_intros split: clear_region.splits)

interpretation input_kind_codec: codec input_kind_encode input_kind_decode "\<lambda>_. True"
  by (rule codec_enum [where f = "case_input_kind 0 1 2 3 4 5", OF _ input_kind_decode_def])
     (auto intro!: lawful_intros split: input_kind.splits)

interpretation terminal_query_codec: codec terminal_query_encode terminal_query_decode "\<lambda>_. True"
  by (rule codec_enum [where f = "case_terminal_query 0 1 2", OF _ terminal_query_decode_def])
     (auto intro!: lawful_intros split: terminal_query.splits)

interpretation signal_codec: codec signal_encode signal_decode "\<lambda>_. True"
  by (rule codec_enum [where f = "case_signal 0 1 2", OF _ signal_decode_def])
     (auto intro!: lawful_intros split: signal.splits)

interpretation colour_support_codec: codec colour_support_encode colour_support_decode "\<lambda>_. True"
  by (rule codec_enum [where f = "case_colour_support 0 1 2 3", OF _ colour_support_decode_def])
     (auto intro!: lawful_intros split: colour_support.splits)

interpretation value_opt_codec:
  codec "option_encode encode_value" "option_decode value_decode" "pred_option wf_value"
  by (rule option_codec) (rule value_codec.codec_axioms)

interpretation strings_codec: codec "vec_encode write_string" "vec_decode read_string" "wf_vec wf_string"
  by (rule vec_codec) (rule string_codec.codec_axioms)

text \<open>What the parts read, yield and consume, in the form the record and message
  proofs use them.\<close>

lemmas part_reads = reads_u8_cons
  reads_app [OF reads_words(1)] reads_last [OF reads_words(1)]
  reads_app [OF reads_words(2)] reads_last [OF reads_words(2)]
  reads_app [OF reads_words(3)] reads_last [OF reads_words(3)]
  reads_app [OF bool_codec.reads_dec] reads_last [OF bool_codec.reads_dec]
  reads_app [OF string_codec.reads_dec] reads_last [OF string_codec.reads_dec]
  reads_app [OF clear_region_codec.reads_dec] reads_last [OF clear_region_codec.reads_dec]
  reads_app [OF input_kind_codec.reads_dec] reads_last [OF input_kind_codec.reads_dec]
  reads_app [OF terminal_query_codec.reads_dec] reads_last [OF terminal_query_codec.reads_dec]
  reads_app [OF signal_codec.reads_dec] reads_last [OF signal_codec.reads_dec]
  reads_app [OF colour_support_codec.reads_dec] reads_last [OF colour_support_codec.reads_dec]
  reads_app [OF value_codec.reads_dec] reads_last [OF value_codec.reads_dec]
  reads_app [OF value_opt_codec.reads_dec] reads_last [OF value_opt_codec.reads_dec]
  reads_app [OF strings_codec.reads_dec] reads_last [OF strings_codec.reads_dec]

lemmas part_yields =
  yields_dbind [OF u8_codec.yields_dec] yields_dbind [OF u16_codec.yields_dec]
  yields_dbind [OF u32_codec.yields_dec] yields_dbind [OF i32_codec.yields_dec]
  yields_dbind [OF bool_codec.yields_dec] yields_dbind [OF string_codec.yields_dec]
  yields_dbind [OF clear_region_codec.yields_dec] yields_dbind [OF input_kind_codec.yields_dec]
  yields_dbind [OF terminal_query_codec.yields_dec] yields_dbind [OF signal_codec.yields_dec]
  yields_dbind [OF colour_support_codec.yields_dec] yields_dbind [OF value_codec.yields_dec]
  yields_dbind [OF value_opt_codec.yields_dec] yields_dbind [OF strings_codec.yields_dec]

lemmas part_lawful [lawful_intros] =
  clear_region_codec.lawful_dec input_kind_codec.lawful_dec terminal_query_codec.lawful_dec
  signal_codec.lawful_dec colour_support_codec.lawful_dec value_codec.lawful_dec

lemmas part_bufs =
  clear_region_codec.buf_enc input_kind_codec.buf_enc terminal_query_codec.buf_enc
  signal_codec.buf_enc colour_support_codec.buf_enc value_codec.buf_enc
  value_opt_codec.buf_enc strings_codec.buf_enc

definition wf_input_request :: "input_request \<Rightarrow> bool" where
  "wf_input_request r \<longleftrightarrow> pred_option wf_value (ir_prompt r) \<and> wf_vec wf_string (ir_choices r)"

interpretation input_request_codec: codec input_request_encode input_request_decode wf_input_request
proof -
  have bytes: "e_buf (input_request_encode r e) = e_buf e @ le_bytes 4 (ir_id r)
      @ to_bytes input_kind_encode (ir_kind r) @ to_bytes (option_encode encode_value) (ir_prompt r)
      @ to_bytes (vec_encode write_string) (ir_choices r)" for r e
    by (simp add: input_request_encode_def part_bufs)
  show "codec input_request_encode input_request_decode wf_input_request"
  proof
    fix r assume "wf_input_request r"
    then show "reads input_request_decode (to_bytes input_request_encode r) r"
      unfolding input_request_decode_def to_bytesI [OF bytes] wf_input_request_def
      by (auto intro!: part_reads)
  next
    show "yields input_request_decode wf_input_request"
      unfolding input_request_decode_def
      by (auto simp: wf_input_request_def intro!: part_yields)
  next
    show "lawful input_request_decode"
      unfolding input_request_decode_def by (intro lawful_intros)
  qed (rule buf_encI, rule bytes)
qed

primrec wf_input_value :: "input_value \<Rightarrow> bool" where
  "wf_input_value (IvText s) = wf_string s"
| "wf_input_value (IvChar c) = is_scalar c"
| "wf_input_value (IvBool b) = True"
| "wf_input_value (IvChoice idx) = (idx < 2 ^ 32)"

lemma wf_string_char: "is_scalar c \<Longrightarrow> wf_string (char_encode_utf8 c)"
  using length_char_encode_utf8 [of c] by (simp add: wf_string_def utf8_valid_char_encode_utf8)

interpretation input_value_codec: codec input_value_encode input_value_decode wf_input_value
proof -
  let ?b = "case_input_value (\<lambda>s. 0 # to_bytes write_string s)
      (\<lambda>c. 1 # to_bytes write_string (char_encode_utf8 c)) (\<lambda>b. 2 # to_bytes write_bool b)
      (\<lambda>n. 3 # le_bytes 4 (of_nat n :: u32))"
  have bytes: "e_buf (input_value_encode v e) = e_buf e @ ?b v" for v e
    by (cases v) simp_all
  show "codec input_value_encode input_value_decode wf_input_value"
  proof
    fix v assume "wf_input_value v"
    then show "reads input_value_decode (to_bytes input_value_encode v) v"
      unfolding input_value_decode_def to_bytesI [OF bytes]
      by (cases v) (auto simp: wf_string_char first_char_encode_utf8 simp del: prim_bytes
          intro!: part_reads)
  next
    show "yields input_value_decode wf_input_value"
      unfolding input_value_decode_def
      by (auto intro!: part_yields split: option.splits) (erule first_char_scalar)
  next
    show "lawful input_value_decode"
      unfolding input_value_decode_def by (auto intro!: lawful_intros split: option.splits)
  qed (rule buf_encI, rule bytes)
qed

interpretation input_value_opt_codec:
  codec "option_encode input_value_encode" "option_decode input_value_decode" "pred_option wf_input_value"
  by (rule option_codec) (rule input_value_codec.codec_axioms)

definition wf_input_response :: "input_response \<Rightarrow> bool" where
  "wf_input_response r = pred_option wf_input_value (resp_value r)"

interpretation input_response_codec:
  codec input_response_encode input_response_decode wf_input_response
proof -
  have bytes: "e_buf (input_response_encode r e) = e_buf e @ le_bytes 4 (resp_id r)
      @ to_bytes (option_encode input_value_encode) (resp_value r)" for r e
    by (simp add: input_response_encode_def input_value_opt_codec.buf_enc)
  show "codec input_response_encode input_response_decode wf_input_response"
  proof
    fix r assume "wf_input_response r"
    then show "reads input_response_decode (to_bytes input_response_encode r) r"
      unfolding input_response_decode_def to_bytesI [OF bytes] wf_input_response_def
      by (auto intro!: part_reads reads_last [OF input_value_opt_codec.reads_dec])
  next
    show "yields input_response_decode wf_input_response"
      unfolding input_response_decode_def
      by (auto simp: wf_input_response_def intro!: part_yields yields_dbind [OF input_value_opt_codec.yields_dec])
  next
    show "lawful input_response_decode"
      unfolding input_response_decode_def
      by (intro lawful_intros input_value_codec.lawful_dec)
  qed (rule buf_encI, rule bytes)
qed

interpretation key_event_codec: codec key_event_encode key_event_decode "\<lambda>_. True"
proof (rule codec_prim)
  let ?m = "\<lambda>k. (if shift (modifiers k) then 1 else 0) OR (if ctrl (modifiers k) then 2 else 0)
      OR (if alt (modifiers k) then 4 else (0 :: u8))"
  show "e_buf (key_event_encode k e) = e_buf e @ le_bytes 2 (key_code k) @ [?m k, key_value k]" for k e
    by (simp add: key_event_encode_def Let_def)
  show "reads key_event_decode (le_bytes 2 (key_code k) @ [?m k, key_value k]) k" for k
    unfolding key_event_decode_def
    by (auto intro!: part_reads)
  show "lawful key_event_decode"
    unfolding key_event_decode_def by (intro lawful_intros)
qed

interpretation capabilities_codec: codec capabilities_encode capabilities_decode "\<lambda>_. True"
proof (rule codec_prim)
  let ?b = "\<lambda>c. to_bytes colour_support_encode (cap_colours c) @ to_bytes write_bool (cap_images c)
      @ to_bytes write_bool (cap_hyperlinks c) @ to_bytes write_bool (cap_unicode c)"
  show "e_buf (capabilities_encode c e) = e_buf e @ ?b c" for c e
    by (simp add: capabilities_encode_def part_bufs)
  show "reads capabilities_decode (?b c) c" for c
    unfolding capabilities_decode_def by (auto simp del: prim_bytes intro!: part_reads)
  show "lawful capabilities_decode"
    unfolding capabilities_decode_def by (intro lawful_intros)
qed

interpretation query_response_codec: codec query_response_encode query_response_decode "\<lambda>_. True"
proof (rule codec_prim)
  let ?b = "case_query_response (\<lambda>c r. 0 # le_bytes 2 c @ le_bytes 2 r)
      (\<lambda>caps. 1 # to_bytes capabilities_encode caps) (\<lambda>r c. 2 # le_bytes 2 r @ le_bytes 2 c)"
  show "e_buf (query_response_encode q e) = e_buf e @ ?b q" for q e
    by (cases q) (simp_all add: capabilities_codec.buf_enc)
  show "reads query_response_decode (?b q) q" for q
    unfolding query_response_decode_def
    by (cases q) (auto intro!: part_reads reads_last [OF capabilities_codec.reads_dec])
  show "lawful query_response_decode"
    unfolding query_response_decode_def by (intro lawful_intros capabilities_codec.lawful_dec)
qed

section \<open>Messages\<close>

text \<open>The header is written with a zero length that is patched once the content is there.\<close>

lemma tlv_patch:
  assumes "\<And>e. e_buf (f e) = e_buf e @ b"
  shows "e_buf (let (len_pos, e1) = write_tlv_header t 0 e;
          content_start = encoder_len e1;
          e2 = f e1;
          content_len = encoder_len e2 - content_start
      in update_length len_pos (of_nat content_len) e2)
    = e_buf e @ le_bytes 2 t @ le_bytes 4 (of_nat (length b) :: u32) @ b"
  by (simp add: write_tlv_header_def Let_def assms encoder_len_def copy_at_def)

lemma request_content_buf: "e_buf (request_content r e) = e_buf e @ to_bytes request_content r"
  by (cases r) (rule buf_encI; simp add: part_bufs input_request_codec.buf_enc)+

lemma event_content_buf: "e_buf (event_content r e) = e_buf e @ to_bytes event_content r"
  by (cases r) (rule buf_encI; simp add: part_bufs input_response_codec.buf_enc
      key_event_codec.buf_enc query_response_codec.buf_enc)+

lemma request_encode_buf:
  "e_buf (request_encode r e) = e_buf e @ le_bytes 2 (message_type_as_u16 (request_type r))
     @ le_bytes 4 (of_nat (length (to_bytes request_content r)) :: u32) @ to_bytes request_content r"
  unfolding request_encode_def by (rule tlv_patch) (rule request_content_buf)

lemma event_encode_buf:
  "e_buf (event_encode r e) = e_buf e @ le_bytes 2 (message_type_as_u16 (event_type r))
     @ le_bytes 4 (of_nat (length (to_bytes event_content r)) :: u32) @ to_bytes event_content r"
  unfolding event_encode_def by (rule tlv_patch) (rule event_content_buf)

lemma request_content_bytes:
  "to_bytes request_content (ReqError v) = to_bytes encode_value v"
  "to_bytes request_content (ReqWarning v) = to_bytes encode_value v"
  "to_bytes request_content (Write v) = to_bytes encode_value v"
  "to_bytes request_content (MoveCursor row col) = le_bytes 2 row @ le_bytes 2 col"
  "to_bytes request_content (Clear region) = to_bytes clear_region_encode region"
  "to_bytes request_content (RequestInput req) = to_bytes input_request_encode req"
  "to_bytes request_content (SetTitle s) = to_bytes write_string s"
  "to_bytes request_content (Progress c t s) = le_bytes 4 c @ le_bytes 4 t @ to_bytes write_string s"
  "to_bytes request_content (Query q) = to_bytes terminal_query_encode q"
  "to_bytes request_content (Exit code) = le_bytes 4 code"
  by (rule to_bytesI; simp add: part_bufs input_request_codec.buf_enc)+

lemma event_content_bytes:
  "to_bytes event_content (EvInput r) = to_bytes input_response_encode r"
  "to_bytes event_content (EvKey k) = to_bytes key_event_encode k"
  "to_bytes event_content (EvResize c w) = le_bytes 2 c @ le_bytes 2 w"
  "to_bytes event_content (EvSignal s) = to_bytes signal_encode s"
  "to_bytes event_content (EvQueryResponse q) = to_bytes query_response_encode q"
  by (rule to_bytesI; simp add: part_bufs input_response_codec.buf_enc key_event_codec.buf_enc
      query_response_codec.buf_enc)+

fun wf_request :: "request \<Rightarrow> bool" where
  "wf_request (ReqError v) = wf_value v"
| "wf_request (ReqWarning v) = wf_value v"
| "wf_request (Write v) = wf_value v"
| "wf_request (RequestInput r) = wf_input_request r"
| "wf_request (SetTitle s) = wf_string s"
| "wf_request (Progress c t s) = wf_string s"
| "wf_request r = True"

fun wf_event :: "event \<Rightarrow> bool" where
  "wf_event (EvInput r) = wf_input_response r"
| "wf_event ev = True"

interpretation request_codec: codec request_encode request_decode wf_request
proof
  fix r assume "wf_request r"
  then show "reads request_decode (to_bytes request_encode r) r"
    unfolding request_decode_def to_bytesI [OF request_encode_buf]
    by (cases r) (auto simp: request_content_bytes simp del: prim_bytes
        intro!: reads_tlv_header part_reads reads_last [OF input_request_codec.reads_dec])
next
  show "yields request_decode wf_request"
    unfolding request_decode_def
    by (rule yields_dbind [OF yields_True])
       (auto intro!: part_yields yields_dbind [OF input_request_codec.yields_dec])
next
  show "lawful request_decode"
    unfolding request_decode_def
    by (auto intro!: lawful_intros input_request_codec.lawful_dec split: prod.splits)
qed (rule buf_encI, rule request_encode_buf)

interpretation event_codec: codec event_encode event_decode wf_event
proof
  fix r assume "wf_event r"
  then show "reads event_decode (to_bytes event_encode r) r"
    unfolding event_decode_def to_bytesI [OF event_encode_buf]
    by (cases r) (auto simp: event_content_bytes simp del: prim_bytes
        intro!: reads_tlv_header part_reads reads_last [OF input_response_codec.reads_dec]
          reads_last [OF key_event_codec.reads_dec] reads_last [OF query_response_codec.reads_dec])
next
  show "yields event_decode wf_event"
    unfolding event_decode_def
    by (rule yields_dbind [OF yields_True])
       (auto intro!: part_yields yields_dbind [OF input_response_codec.yields_dec]
          yields_dbind [OF key_event_codec.yields_dec] yields_dbind [OF query_response_codec.yields_dec])
next
  show "lawful event_decode"
    unfolding event_decode_def
    by (auto intro!: lawful_intros input_response_codec.lawful_dec key_event_codec.lawful_dec
        query_response_codec.lawful_dec split: prod.splits)
qed (rule buf_encI, rule event_encode_buf)

section \<open>Properties\<close>

text \<open>C24: a request survives the wire and the number of bytes reported as consumed is
  exactly the length of its message, so that the next message starts right after it; the
  length field in the header is the number of content bytes.\<close>

theorem request_round_trip:
  assumes "wf_request r"
  shows "request_from_bytes (request_to_bytes r @ rest) = Inr (r, length (request_to_bytes r))
    \<and> request_to_bytes r = le_bytes 2 (message_type_as_u16 (request_type r))
      @ le_bytes 4 (of_nat (length (request_to_bytes r) - 6) :: u32) @ drop 6 (request_to_bytes r)"
proof
  have "request_decode (decoder_new (request_to_bytes r @ rest)) =
      Inr (r, advance (length (request_to_bytes r)) (decoder_new (request_to_bytes r @ rest)))"
    unfolding request_to_bytes_def to_bytes_def [symmetric]
    by (rule request_codec.dec_enc [OF assms, of _ rest]) simp
  then show "request_from_bytes (request_to_bytes r @ rest) = Inr (r, length (request_to_bytes r))"
    by (simp add: request_from_bytes_def decoder_new_def)
  show "request_to_bytes r = le_bytes 2 (message_type_as_u16 (request_type r))
      @ le_bytes 4 (of_nat (length (request_to_bytes r) - 6) :: u32) @ drop 6 (request_to_bytes r)"
    using request_encode_buf [of r encoder_new]
    by (simp add: request_to_bytes_def encoder_finish_def)
qed

theorem request_round_trip_witness:
  "request_from_bytes (request_to_bytes (Progress 1 3 [79, 75]) @ [1, 2])
     = Inr (Progress 1 3 [79, 75], length (request_to_bytes (Progress 1 3 [79, 75])))"
  using request_round_trip [of "Progress 1 3 [79, 75]" "[1, 2]"]
  by (simp add: wf_string_def utf8_valid_def utf8_head_def)

text \<open>an event survives the wire with the exact number of bytes consumed, and any bytes
  that decode as an event re-encode to a message for that same event.\<close>

theorem event_round_trip:
  "(wf_event ev \<longrightarrow> event_from_bytes (event_to_bytes ev @ rest) = Inr (ev, length (event_to_bytes ev)))
   \<and> (event_from_bytes bs = Inr (ev, n) \<longrightarrow>
        n \<le> length bs \<and> event_from_bytes (event_to_bytes ev) = Inr (ev, length (event_to_bytes ev)))"
proof -
  have enc: "event_from_bytes (event_to_bytes ev @ rest) = Inr (ev, length (event_to_bytes ev))"
    if "wf_event ev" for rest
  proof -
    have "event_decode (decoder_new (event_to_bytes ev @ rest)) =
        Inr (ev, advance (length (event_to_bytes ev)) (decoder_new (event_to_bytes ev @ rest)))"
      unfolding event_to_bytes_def to_bytes_def [symmetric]
      by (rule event_codec.dec_enc [OF that, of _ rest]) simp
    then show ?thesis
      by (simp add: event_from_bytes_def decoder_new_def)
  qed
  moreover have "wf_event ev \<and> n \<le> length bs" if ev: "event_from_bytes bs = Inr (ev, n)"
  proof -
    obtain d where d: "event_decode (decoder_new bs) = Inr (ev, d)" "n = d_pos d"
      using ev by (auto simp: event_from_bytes_def)
    with event_codec.lawful_dec obtain b r where "bs = b @ r" "n = length b"
      by (auto elim!: lawfulD simp: decoder_new_def remaining_slice_def)
    then show ?thesis
      using yieldsD [OF event_codec.yields_dec d(1)] by simp
  qed
  ultimately show ?thesis
    using enc [of "[]"] by auto
qed

theorem event_round_trip_witness:
  "event_from_bytes (event_to_bytes (EvInput \<lparr>resp_id = 7, resp_value = Some (IvChar 0x20AC)\<rparr>) @ [9])
     = Inr (EvInput \<lparr>resp_id = 7, resp_value = Some (IvChar 0x20AC)\<rparr>,
            length (event_to_bytes (EvInput \<lparr>resp_id = 7, resp_value = Some (IvChar 0x20AC)\<rparr>)))"
  using event_round_trip [of "EvInput \<lparr>resp_id = 7, resp_value = Some (IvChar 0x20AC)\<rparr>" "[9]" "[]" 0]
  by (simp add: wf_input_response_def is_scalar_def)

end
