(* ===== verification/Path.thy ===== *)
theory Path
  imports Prelude
begin

text \<open>
  Path canonicalisation of \<^verbatim>\<open>panda-abi/src/path.rs\<close>. A path is the list of its
  bytes as characters. The two scanning loops of \<^verbatim>\<open>is_canonical\<close> are recursive
  functions on the index; the component table of the no-alloc canonicaliser is a
  list of 64 offset/length pairs updated in place, and the output buffer is
  written piece by piece. The specification side works on lists of components:
  \<^verbatim>\<open>split_on\<close>, \<^verbatim>\<open>walk\<close> (a stack of names) and \<^verbatim>\<open>render\<close>.
\<close>

section \<open>The check for canonical form\<close>

function scan_component :: "string \<Rightarrow> nat \<Rightarrow> nat" where
  "scan_component p i =
     (if i < length p \<and> p ! i \<noteq> CHR ''/'' then scan_component p (i + 1) else i)"
  by auto
termination by (relation "measure (\<lambda>(p, i). length p - i)") auto

declare scan_component.simps [simp del]

lemma scan_component_takeWhile:
  "scan_component p i = i + length (takeWhile (\<lambda>c. c \<noteq> CHR ''/'') (drop i p))"
proof (induction p i rule: scan_component.induct)
  case (1 p i)
  show ?case
  proof (cases "i < length p")
    case True
    then show ?thesis
      using 1 by (subst scan_component.simps) (simp add: Cons_nth_drop_Suc [symmetric])
  next
    case False
    then show ?thesis by (subst scan_component.simps) simp
  qed
qed

function check_components :: "string \<Rightarrow> nat \<Rightarrow> bool" where
  "check_components p i =
     (if i < length p then
        let j = scan_component p i; component = sub_slice i j p in
        if component = [] then False
        else if component = ''.'' \<or> component = ''..'' then False
        else check_components p (j + 1)
      else True)"
  by auto
termination
  by (relation "measure (\<lambda>(p, i). length p - i)") (auto simp: scan_component_takeWhile)

declare check_components.simps [simp del]

definition is_canonical :: "string \<Rightarrow> bool" where
  "is_canonical p =
     (if p = [] \<or> hd p \<noteq> CHR ''/'' then False
      else if length p = 1 then True
      else if last p = CHR ''/'' then False
      else check_components p 1)"

section \<open>The canonicaliser\<close>

text \<open>\<^verbatim>\<open>path.split('/')\<close> as offsets and pieces.\<close>

function split_offsets :: "string \<Rightarrow> nat \<Rightarrow> (nat \<times> string) list" where
  "split_offsets p i =
     (let j = scan_component p i in
      (i, sub_slice i j p) # (if j < length p then split_offsets p (j + 1) else []))"
  by auto
termination
  by (relation "measure (\<lambda>(p, i). length p - i)") (auto simp: scan_component_takeWhile)

declare split_offsets.simps [simp del]

fun collect_components ::
  "(nat \<times> string) list \<Rightarrow> (nat \<times> nat) list \<Rightarrow> nat \<Rightarrow> ((nat \<times> nat) list \<times> nat) option" where
  "collect_components [] positions count = Some (positions, count)"
| "collect_components ((start, component) # rest) positions count =
     (if component = ''.'' then collect_components rest positions count
      else if component = ''..'' then
        collect_components rest positions (if count > 0 then count - 1 else count)
      else if count \<ge> 64 then None
      else collect_components rest (positions[count := (start, length component)]) (count + 1))"

fun write_components :: "string \<Rightarrow> (nat \<times> nat) list \<Rightarrow> string \<Rightarrow> nat \<Rightarrow> string \<times> nat" where
  "write_components p [] buf pos = (buf, pos)"
| "write_components p ((start, len) # rest) buf pos =
     write_components p rest
       (copy_at (pos + 1) (sub_slice start (start + len) p) (buf[pos := CHR ''/'']))
       (pos + 1 + len)"

definition canonicalize_path_to_buf :: "string \<Rightarrow> string \<Rightarrow> string option" where
  "canonicalize_path_to_buf p buf =
     (case collect_components (filter (\<lambda>(_, s). s \<noteq> []) (split_offsets p 0)) (replicate 64 (0, 0)) 0 of
        None \<Rightarrow> None
      | Some (positions, count) \<Rightarrow>
          if count = 0 then (if buf = [] then None else Some (take 1 (buf[0 := CHR ''/''])))
          else let needed = sum_list (map (\<lambda>i. 1 + snd (positions ! i)) [0..<count]) in
            if needed > length buf then None
            else case write_components p (take count positions) buf 0 of
              (buf', pos) \<Rightarrow> Some (take pos buf'))"

section \<open>Specification on component lists\<close>

primrec split_on :: "string \<Rightarrow> string list" where
  "split_on [] = [[]]"
| "split_on (c # s) = (if c = CHR ''/'' then [] # split_on s
     else (c # hd (split_on s)) # tl (split_on s))"

definition proper :: "string \<Rightarrow> bool" where
  "proper c \<longleftrightarrow> c \<noteq> [] \<and> CHR ''/'' \<notin> set c \<and> c \<noteq> ''.'' \<and> c \<noteq> ''..''"

definition join_slash :: "string list \<Rightarrow> string" where
  "join_slash cs = concat (map (\<lambda>c. CHR ''/'' # c) cs)"

definition render :: "string list \<Rightarrow> string" where
  "render cs = (if cs = [] then ''/'' else join_slash cs)"

text \<open>The stack of names after the components: at most 64 deep at any moment, and \<^verbatim>\<open>..\<close>
  at the root stays there.\<close>

fun walk :: "string list \<Rightarrow> string list \<Rightarrow> string list option" where
  "walk [] st = Some st"
| "walk (c # cs) st =
     (if c = [] \<or> c = ''.'' then walk cs st
      else if c = ''..'' then walk cs (butlast st)
      else if 64 \<le> length st then None
      else walk cs (st @ [c]))"

section \<open>Splitting\<close>

lemma split_on_ne [simp]: "split_on s \<noteq> []"
  by (induction s) auto

lemma split_on_takeWhile:
  "split_on s = takeWhile (\<lambda>c. c \<noteq> CHR ''/'') s
     # (case dropWhile (\<lambda>c. c \<noteq> CHR ''/'') s of [] \<Rightarrow> [] | _ # r \<Rightarrow> split_on r)"
  by (induction s) (auto split: list.splits)

lemma split_on_no_slash: "c \<in> set (split_on s) \<Longrightarrow> CHR ''/'' \<notin> set c"
proof (induction s arbitrary: c)
  case (Cons a s)
  then show ?case
    using hd_in_set [of "split_on s"] list.set_sel(2) [of "split_on s"]
    by (auto split: if_splits)
qed simp

lemma join_slash_split_on: "join_slash (split_on s) = CHR ''/'' # s"
proof (induction s)
  case (Cons a s)
  then show ?case
    by (cases "split_on s") (auto simp: join_slash_def)
qed (simp add: join_slash_def)

lemma split_on_append:
  "CHR ''/'' \<notin> set c \<Longrightarrow> split_on (c @ CHR ''/'' # s) = c # split_on s"
  by (induction c) auto

lemma split_on_append_slash: "split_on (a @ CHR ''/'' # b) = split_on a @ split_on b"
  by (induction a) auto

lemma split_on_single: "CHR ''/'' \<notin> set c \<Longrightarrow> split_on c = [c]"
  by (induction c) auto

lemma split_on_join:
  "\<forall>c\<in>set cs. CHR ''/'' \<notin> set c \<Longrightarrow> split_on (join_slash cs) = [] # cs"
proof (induction cs)
  case (Cons c cs)
  show ?case
  proof (cases cs)
    case Nil
    then show ?thesis using Cons.prems by (simp add: join_slash_def split_on_single)
  next
    case (Cons d ds)
    have "join_slash cs = CHR ''/'' # d @ join_slash ds"
      using Cons by (simp add: join_slash_def)
    moreover have "split_on (d @ join_slash ds) = cs"
      using Cons.IH Cons.prems Cons \<open>join_slash cs = _\<close> by simp
    ultimately show ?thesis
      using Cons.prems by (simp add: join_slash_def [of "c # cs"] split_on_append
          flip: join_slash_def)
  qed
qed (simp add: join_slash_def)

lemma sub_slice_scan:
  "sub_slice i (scan_component p i) p = takeWhile (\<lambda>c. c \<noteq> CHR ''/'') (drop i p)"
  by (simp add: sub_slice_def scan_component_takeWhile flip: takeWhile_eq_take)

lemma drop_scan:
  "drop (scan_component p i) p = dropWhile (\<lambda>c. c \<noteq> CHR ''/'') (drop i p)"
  by (simp add: scan_component_takeWhile dropWhile_eq_drop add.commute)

lemma split_on_scan:
  "split_on (drop i p) = sub_slice i (scan_component p i) p
     # (if scan_component p i < length p then split_on (drop (Suc (scan_component p i)) p) else [])"
proof (cases "scan_component p i < length p")
  case True
  then have "dropWhile (\<lambda>c. c \<noteq> CHR ''/'') (drop i p) =
      p ! scan_component p i # drop (Suc (scan_component p i)) p"
    by (simp add: Cons_nth_drop_Suc flip: drop_scan)
  then show ?thesis
    using True by (subst split_on_takeWhile) (simp add: sub_slice_scan)
next
  case False
  then have dw: "dropWhile (\<lambda>c. c \<noteq> CHR ''/'') (drop i p) = []"
    unfolding drop_scan [symmetric] by simp
  show ?thesis
    using False by (subst split_on_takeWhile) (simp add: sub_slice_scan dw del: dropWhile_eq_Nil_conv)
qed

lemma split_offsets_snd: "map snd (split_offsets p i) = split_on (drop i p)"
proof (induction p i rule: split_offsets.induct)
  case (1 p i)
  show ?case
    using 1 [OF refl] by (subst split_offsets.simps, subst split_on_scan) (simp add: Let_def)
qed

lemma split_offsets_slices:
  "(start, c) \<in> set (split_offsets p i) \<Longrightarrow> sub_slice start (start + length c) p = c"
proof (induction p i rule: split_offsets.induct)
  case (1 p i)
  have "sub_slice i (i + length (sub_slice i (scan_component p i) p)) p =
      sub_slice i (scan_component p i) p"
    by (simp add: sub_slice_scan) (simp add: sub_slice_def flip: takeWhile_eq_take)
  then show ?case
    using 1(1) [OF refl] 1(2) by (subst (asm) split_offsets.simps) (auto simp: Let_def split: if_splits)
qed

section \<open>Canonical form\<close>

lemma check_components_split:
  "i < length p \<Longrightarrow> last p \<noteq> CHR ''/'' \<Longrightarrow>
     check_components p i \<longleftrightarrow> (\<forall>c\<in>set (split_on (drop i p)). proper c)"
proof (induction p i rule: check_components.induct)
  case (1 p i)
  let ?j = "scan_component p i" and ?c = "sub_slice i (scan_component p i) p"
  have c: "CHR ''/'' \<notin> set ?c"
    by (auto simp: sub_slice_scan dest: set_takeWhileD)
  show ?case
  proof (cases "?j < length p")
    case True
    have "Suc ?j < length p"
    proof (rule ccontr)
      assume "\<not> Suc ?j < length p"
      then have "?j = length p - 1" using True by simp
      moreover have "p ! ?j = CHR ''/''"
        using True drop_scan [of p i] nth_drop [of ?j p 0] hd_dropWhile [of "\<lambda>c. c \<noteq> CHR ''/''" "drop i p"]
        by (metis (mono_tags, lifting) Cons_nth_drop_Suc list.distinct(1) list.sel(1))
      ultimately show False
        using 1(3) True by (metis last_conv_nth list.size(3) not_less_zero)
    qed
    then show ?thesis
      using 1 c True
      by (subst check_components.simps, subst split_on_scan) (auto simp: Let_def proper_def)
  next
    case False
    then have "check_components p (Suc ?j)"
      by (subst check_components.simps) simp
    then show ?thesis
      using 1(2) c False
      by (subst check_components.simps, subst split_on_scan) (auto simp: Let_def proper_def)
  qed
qed

lemma proper_last:
  assumes "\<forall>c\<in>set cs. proper c" "cs \<noteq> []"
  shows "last (join_slash cs) \<noteq> CHR ''/''"
proof -
  have "last cs \<in> set cs" using assms(2) by simp
  then have "proper (last cs)" using assms(1) by blast
  moreover have "last (join_slash cs) = last (last cs)"
  proof -
    have "join_slash cs = join_slash (butlast cs) @ CHR ''/'' # last cs"
      using assms(2) by (metis append_butlast_last_id join_slash_def map_append concat_append
          list.simps(8,9) concat.simps append_Nil2)
    then show ?thesis
      using \<open>proper (last cs)\<close> by (simp add: proper_def)
  qed
  ultimately show ?thesis
    by (metis last_in_set proper_def)
qed

lemma is_canonical_iff:
  "is_canonical p \<longleftrightarrow> (\<exists>cs. (\<forall>c\<in>set cs. proper c) \<and> p = render cs)"
proof
  assume p: "is_canonical p"
  then obtain r where r: "p = CHR ''/'' # r"
    by (cases p) (auto simp: is_canonical_def split: if_splits)
  show "\<exists>cs. (\<forall>c\<in>set cs. proper c) \<and> p = render cs"
  proof (cases "r = []")
    case True
    then show ?thesis using r by (intro exI [of _ "[]"]) (simp add: render_def)
  next
    case False
    then have "\<forall>c\<in>set (split_on r). proper c"
      using p r check_components_split [of 1 p] by (auto simp: is_canonical_def split: if_splits)
    then show ?thesis
      using r by (intro exI [of _ "split_on r"]) (simp add: render_def join_slash_split_on)
  qed
next
  assume "\<exists>cs. (\<forall>c\<in>set cs. proper c) \<and> p = render cs"
  then obtain cs where cs: "\<forall>c\<in>set cs. proper c" "p = render cs" by blast
  show "is_canonical p"
  proof (cases cs)
    case Nil
    then show ?thesis using cs by (simp add: render_def is_canonical_def)
  next
    case (Cons c ds)
    then have p: "p = CHR ''/'' # c @ join_slash ds" "p = join_slash cs"
      using cs(2) by (simp_all add: render_def join_slash_def)
    have "split_on (c @ join_slash ds) = cs"
      using split_on_join [of cs] cs(1) p by (auto simp: proper_def)
    then show ?thesis
      using proper_last [OF cs(1)] check_components_split [of 1 p] cs(1) Cons p
      by (auto simp: is_canonical_def proper_def)
  qed
qed

section \<open>The canonicaliser computes the walk\<close>

definition table_rel :: "string \<Rightarrow> (nat \<times> nat) list \<Rightarrow> nat \<Rightarrow> string list \<Rightarrow> bool" where
  "table_rel p positions count st \<longleftrightarrow> length positions = 64 \<and> count = length st \<and> count \<le> 64 \<and>
     (\<forall>i<count. snd (positions ! i) = length (st ! i)
        \<and> sub_slice (fst (positions ! i)) (fst (positions ! i) + length (st ! i)) p = st ! i)"

lemma collect_walk:
  assumes "\<forall>(start, c)\<in>set cs. c \<noteq> [] \<and> sub_slice start (start + length c) p = c"
    and "table_rel p positions count st"
  shows "(walk (map snd cs) st = None \<and> collect_components cs positions count = None)
    \<or> (\<exists>st' positions' count'. walk (map snd cs) st = Some st'
        \<and> collect_components cs positions count = Some (positions', count')
        \<and> table_rel p positions' count' st')"
  using assms
proof (induction cs positions count arbitrary: st rule: collect_components.induct)
  case (2 start c rest positions count)
  consider "c = ''.''" | "c = ''..''" | "c \<noteq> ''.''" "c \<noteq> ''..''" "64 \<le> count"
    | "c \<noteq> ''.''" "c \<noteq> ''..''" "\<not> 64 \<le> count" by blast
  then show ?case
  proof cases
    case 1
    then show ?thesis using 2(1) [OF 1 _ 2(5)] 2(4) by simp
  next
    case c: 2
    have "table_rel p positions (if count > 0 then count - 1 else count) (butlast st)"
      using 2(5) by (auto simp: table_rel_def nth_butlast)
    then show ?thesis using 2(2) [OF _ c] 2(4) c by simp
  next
    case 3
    then show ?thesis using 2(4,5) by (auto simp: table_rel_def)
  next
    case 4
    have "table_rel p (positions[count := (start, length c)]) (count + 1) (st @ [c])"
      using 2(4,5) 4 by (auto simp: table_rel_def nth_append nth_list_update less_Suc_eq)
    moreover have "count = length st"
      using 2(5) by (simp add: table_rel_def)
    ultimately show ?thesis
      using 2(3) [OF 4, of "st @ [c]"] 2(4) 4 by simp
  qed
qed simp

lemma write_components_spec:
  assumes "pos + sum_list (map (\<lambda>(s, l). Suc l) ps) \<le> length buf"
    and "\<forall>(s, l)\<in>set ps. length (sub_slice s (s + l) p) = l"
  shows "\<exists>buf'. write_components p ps buf pos = (buf', pos + sum_list (map (\<lambda>(s, l). Suc l) ps))
    \<and> length buf' = length buf
    \<and> take (pos + sum_list (map (\<lambda>(s, l). Suc l) ps)) buf' =
        take pos buf @ join_slash (map (\<lambda>(s, l). sub_slice s (s + l) p) ps)"
  using assms
proof (induction p ps buf pos rule: write_components.induct)
  case (2 p s l rest buf pos)
  let ?c = "sub_slice s (s + l) p"
  let ?buf = "copy_at (pos + 1) ?c (buf[pos := CHR ''/''])"
  have l: "length ?c = l" using 2(3) by simp
  have "length ?buf = length buf"
    using 2(2) l by simp
  moreover have "take (pos + 1 + l) ?buf = take pos buf @ CHR ''/'' # ?c"
    using take_copy_at [of "pos + 1" ?c "buf[pos := CHR ''/'']"] 2(2) l
    by (simp add: take_Suc_conv_app_nth)
  ultimately show ?case
    using 2(1) 2(2,3) by (auto simp: join_slash_def add.assoc)
qed (simp add: join_slash_def)

lemma table_rel_pieces:
  assumes "table_rel p positions count st"
  shows "map (\<lambda>(s, l). sub_slice s (s + l) p) (take count positions) = st"
    and "\<forall>(s, l)\<in>set (take count positions). length (sub_slice s (s + l) p) = l"
    and "map (\<lambda>(s, l). Suc l) (take count positions) = map (\<lambda>c. Suc (length c)) st"
    and "map (\<lambda>i. 1 + snd (positions ! i)) [0..<count] = map (\<lambda>c. Suc (length c)) st"
  using assms unfolding table_rel_def
  by (auto intro!: nth_equalityI simp: in_set_conv_nth case_prod_beta simp del: length_sub_slice)
     (metis fst_conv snd_conv)

lemma length_join_slash: "length (join_slash cs) = sum_list (map (\<lambda>c. Suc (length c)) cs)"
  by (induction cs) (simp_all add: join_slash_def)

lemma walk_skip_empty: "walk (filter (\<lambda>c. c \<noteq> []) cs) st = walk cs st"
  by (induction cs st rule: walk.induct) auto

lemma length_render_pos: "0 < length (render cs)"
  by (cases cs) (simp_all add: render_def join_slash_def)

lemma canonicalize_walk:
  "canonicalize_path_to_buf p buf =
     (case walk (split_on p) [] of
        None \<Rightarrow> None
      | Some st \<Rightarrow> if length (render st) \<le> length buf then Some (render st) else None)"
proof -
  let ?cs = "filter (\<lambda>(_, s). s \<noteq> []) (split_offsets p 0)"
  have snds: "map snd ?cs = filter (\<lambda>c. c \<noteq> []) (split_on p)"
    unfolding split_offsets_snd [of p 0, simplified, symmetric] filter_map
    by (simp add: o_def case_prod_unfold)
  have "\<forall>(start, c)\<in>set ?cs. c \<noteq> [] \<and> sub_slice start (start + length c) p = c"
    using split_offsets_slices [of _ _ p 0] by auto
  from collect_walk [OF this, of "replicate 64 (0, 0)" 0 "[]"]
  consider "walk (split_on p) [] = None" "collect_components ?cs (replicate 64 (0, 0)) 0 = None"
    | st ps n where "walk (split_on p) [] = Some st"
        "collect_components ?cs (replicate 64 (0, 0)) 0 = Some (ps, n)" "table_rel p ps n st"
    by (auto simp: snds walk_skip_empty table_rel_def)
  then show ?thesis
  proof cases
    case 1
    then show ?thesis by (simp add: canonicalize_path_to_buf_def)
  next
    case 2
    note pieces = table_rel_pieces [OF 2(3)]
    show ?thesis
    proof (cases "st = []")
      case True
      then have "n = 0" using 2(3) by (simp add: table_rel_def)
      then show ?thesis
        using 2 True by (cases buf) (simp_all add: canonicalize_path_to_buf_def render_def)
    next
      case False
      then have n: "n \<noteq> 0" "render st = join_slash st"
        using 2(3) by (auto simp: table_rel_def render_def)
      show ?thesis
      proof (cases "length (join_slash st) \<le> length buf")
        case True
        then show ?thesis
          using write_components_spec [of 0 "take n ps" buf p] pieces 2 n
          by (auto simp: canonicalize_path_to_buf_def length_join_slash)
      next
        case False
        then show ?thesis
          using pieces(4) 2 n by (simp add: canonicalize_path_to_buf_def length_join_slash)
      qed
    qed
  qed
qed

lemma walk_proper:
  assumes "walk cs st = Some st'" "\<forall>c\<in>set cs. CHR ''/'' \<notin> set c" "\<forall>c\<in>set st. proper c"
  shows "\<forall>c\<in>set st'. proper c"
  using assms
proof (induction cs st rule: walk.induct)
  case (2 c cs st)
  consider "c = [] \<or> c = ''.''" | "c \<noteq> []" "c = ''..''" | "proper c"
    using 2(5) by (auto simp: proper_def)
  then show ?case
  proof cases
    case 1
    then show ?thesis using 2(1,4,5,6) by simp
  next
    case c: 2
    then show ?thesis using 2(2,4,5,6) by (auto dest: in_set_butlastD)
  next
    case 3
    then have "\<not> (c = [] \<or> c = ''.'')" "c \<noteq> ''..''"
      by (simp_all add: proper_def)
    then show ?thesis using 3 2(3,4,5,6) by (simp split: if_splits)
  qed
qed simp

lemma walk_proper_id:
  "\<forall>c\<in>set cs. proper c \<Longrightarrow> length st + length cs \<le> 64 \<Longrightarrow> walk cs st = Some (st @ cs)"
  by (induction cs arbitrary: st) (auto simp: proper_def)

lemma canonicalize_is_canonical:
  "canonicalize_path_to_buf p buf = Some q \<Longrightarrow> is_canonical q"
  using walk_proper [of "split_on p" "[]"] split_on_no_slash [of _ p]
  by (auto simp: canonicalize_walk is_canonical_iff split: option.splits if_splits)

lemma walk_length: "walk cs st = Some st' \<Longrightarrow> length st \<le> 64 \<Longrightarrow> length st' \<le> 64"
  by (induction cs st rule: walk.induct) (auto split: if_splits)

lemma walk_split_render:
  assumes "\<forall>c\<in>set cs. proper c" "length cs \<le> 64"
  shows "walk (split_on (render cs)) [] = Some cs"
proof (cases "cs = []")
  case False
  then show ?thesis
    using assms split_on_join [of cs] walk_proper_id [of cs "[]"]
    by (simp add: render_def proper_def)
qed (simp add: render_def)

section \<open>Properties\<close>

text \<open>the loop of \<^verbatim>\<open>is_canonical\<close> accepts exactly the documented form: \<^verbatim>\<open>/\<close>, or a
  sequence of slash-prefixed names that are non-empty and neither \<^verbatim>\<open>.\<close> nor \<^verbatim>\<open>..\<close>.\<close>

theorem is_canonical_spec:
  "is_canonical p = (\<exists>cs. list_all proper cs \<and> p = render cs)"
  by (simp add: is_canonical_iff list_all_iff)

text \<open>C13: the in-place canonicaliser computes the stack walk over the components: \<^verbatim>\<open>..\<close> pops,
  \<^verbatim>\<open>.\<close> and empty components are skipped, \<^verbatim>\<open>..\<close> at the root is clamped, and it gives up
  exactly when a 65th component would be pushed or the result does not fit the buffer.\<close>

theorem canonicalize_path_to_buf_spec:
  "canonicalize_path_to_buf p buf =
     (case walk (split_on p) [] of
        None \<Rightarrow> None
      | Some st \<Rightarrow> if length (render st) \<le> length buf then Some (render st) else None)"
  by (rule canonicalize_walk)

text \<open>whatever the input, a produced path is canonical (no traversal component is left)
  and canonicalising it again returns it unchanged.\<close>

theorem canonicalize_path_canonical:
  assumes "canonicalize_path_to_buf p buf = Some q"
  shows "is_canonical q \<and> canonicalize_path_to_buf q buf = Some q"
proof -
  obtain st where st: "walk (split_on p) [] = Some st" "q = render st" "length q \<le> length buf"
    using assms by (auto simp: canonicalize_walk split: option.splits if_splits)
  have "\<forall>c\<in>set st. proper c" "length st \<le> 64"
    using walk_proper [OF st(1)] split_on_no_slash [of _ p] walk_length [OF st(1)] by auto
  then show ?thesis
    using st canonicalize_is_canonical [OF assms] by (simp add: canonicalize_walk walk_split_render)
qed

theorem canonicalize_path_canonical_witness:
  "is_canonical ''/a/c'' \<and>
   canonicalize_path_to_buf ''/a/c'' (replicate 8 CHR ''x'') = Some ''/a/c''"
  by (rule canonicalize_path_canonical [where p = "''/../a/./b/..//c/''"])
     (simp add: canonicalize_walk render_def join_slash_def numeral_eq_Suc)

end
