(* ===== verification/Vfs.thy ===== *)
theory Vfs
  imports Path BTree_Map "HOL-Library.Char_ord"
begin

text \<open>
  The virtual file system switch of \<^verbatim>\<open>panda-kernel/src/vfs/mod.rs\<close> (the mount table,
  path resolution and the forwarding of every operation), the read-only archive
  file system of \<^verbatim>\<open>vfs/tarfs.rs\<close> and the block device file. A mounted
  \<^verbatim>\<open>dyn Filesystem\<close> is the table of its methods. The futures of the source are ready at
  once, so an asynchronous function is its result. A pointer and length into the
  archive is the byte list it denotes.
\<close>

section \<open>Types\<close>

datatype seek_from = SeekStart u64 | SeekCurrent u64 | SeekEnd u64

datatype fs_error =
    NotFound | InvalidOffset | NotReadable | NotWritable | NotSeekable | NoSpace
  | AlreadyExists | NotEmpty | IsDirectory | NotDirectory | ReadOnlyFs | IoError

datatype block_error = BlkInvalidOffset | BlkNotReadable | BlkNotWritable | BlkIoError

primrec fs_error_from :: "block_error \<Rightarrow> fs_error" where
  "fs_error_from BlkInvalidOffset = InvalidOffset"
| "fs_error_from BlkNotWritable = NotWritable"
| "fs_error_from BlkNotReadable = NotReadable"
| "fs_error_from BlkIoError = IoError"

record file_stat =
  st_size :: u64
  st_is_dir :: bool
  st_mode :: u16
  st_inode :: u64
  st_nlinks :: u64
  st_mtime :: u64
  st_ctime :: u64
  st_atime :: u64

record dir_entry =
  de_name :: string
  de_is_dir :: bool

text \<open>A \<^verbatim>\<open>dyn Filesystem\<close> is its table of methods, with the trait's default methods for
  file systems that cannot be written.\<close>

record 'file filesystem =
  fs_open :: "string \<Rightarrow> fs_error + 'file"
  fs_stat :: "string \<Rightarrow> fs_error + file_stat"
  fs_readdir :: "string \<Rightarrow> fs_error + dir_entry list"
  fs_create :: "string \<Rightarrow> u16 \<Rightarrow> fs_error + 'file"
  fs_unlink :: "string \<Rightarrow> fs_error + unit"
  fs_mkdir :: "string \<Rightarrow> u16 \<Rightarrow> fs_error + unit"
  fs_rmdir :: "string \<Rightarrow> fs_error + unit"
  fs_truncate :: "string \<Rightarrow> u64 \<Rightarrow> fs_error + unit"
  fs_sync :: "fs_error + unit"

definition read_only_filesystem ::
  "(string \<Rightarrow> fs_error + 'file) \<Rightarrow> (string \<Rightarrow> fs_error + file_stat)
     \<Rightarrow> (string \<Rightarrow> fs_error + dir_entry list) \<Rightarrow> 'file filesystem" where
  "read_only_filesystem opn stt rdd = \<lparr>
     fs_open = opn, fs_stat = stt, fs_readdir = rdd,
     fs_create = (\<lambda>p mode. Inl ReadOnlyFs),
     fs_unlink = (\<lambda>p. Inl ReadOnlyFs),
     fs_mkdir = (\<lambda>p mode. Inl ReadOnlyFs),
     fs_rmdir = (\<lambda>p. Inl ReadOnlyFs),
     fs_truncate = (\<lambda>p sz. Inl ReadOnlyFs),
     fs_sync = Inl ReadOnlyFs\<rparr>"

section \<open>The mount table\<close>

record 'fs mount =
  mount_path :: string
  mount_fs :: 'fs

definition canonicalize :: "string \<Rightarrow> string" where
  "canonicalize input =
     (if is_canonical input then input
      else case canonicalize_path_to_buf input (replicate 4096 (CHR 0x00)) of
        Some s \<Rightarrow> s
      | None \<Rightarrow> ''/'')"

definition mount_at :: "string \<Rightarrow> 'fs \<Rightarrow> 'fs mount list \<Rightarrow> 'fs mount list" where
  "mount_at p fs mounts = mounts @ [\<lparr>mount_path = p, mount_fs = fs\<rparr>]"

definition mount_matches :: "string \<Rightarrow> string \<Rightarrow> bool" where
  "mount_matches mp p \<longleftrightarrow> take (length mp) p = mp
     \<and> (length p = length mp \<or> (length mp < length p \<and> p ! length mp = CHR ''/''))"

fun best_mount :: "string \<Rightarrow> (nat \<times> 'fs mount) list \<Rightarrow> (nat \<times> nat) option \<Rightarrow> (nat \<times> nat) option" where
  "best_mount p [] best = best"
| "best_mount p ((index, mnt) # rest) best =
     best_mount p rest
       (if mount_matches (mount_path mnt) p then
          (case best of
             None \<Rightarrow> Some (length (mount_path mnt), index)
           | Some (best_len, _) \<Rightarrow>
               if length (mount_path mnt) > best_len then Some (length (mount_path mnt), index)
               else best)
        else best)"

definition resolve_path :: "'fs mount list \<Rightarrow> string \<Rightarrow> (nat \<times> string) option" where
  "resolve_path mounts p =
     map_option (\<lambda>(mount_len, index).
         (index, if length p > mount_len then drop (mount_len + 1) p else ''''))
       (best_mount p (enumerate 0 mounts) None)"

definition resolve_mount :: "'fs mount list \<Rightarrow> string \<Rightarrow> fs_error + 'fs \<times> string" where
  "resolve_mount mounts p =
     rbind (ok_or (resolve_path mounts (canonicalize p)) NotFound)
       (\<lambda>(index, relative). Inr (mount_fs (mounts ! index), relative))"

text \<open>The operations on absolute paths: resolve, then call the method of the file system
  with the relative path; \<^verbatim>\<open>sync\<close> drops the relative path.\<close>

definition vfs_open :: "'file filesystem mount list \<Rightarrow> string \<Rightarrow> fs_error + 'file" where
  "vfs_open mounts p = rbind (resolve_mount mounts p) (\<lambda>(fs, relative). fs_open fs relative)"

definition vfs_stat :: "'file filesystem mount list \<Rightarrow> string \<Rightarrow> fs_error + file_stat" where
  "vfs_stat mounts p = rbind (resolve_mount mounts p) (\<lambda>(fs, relative). fs_stat fs relative)"

definition vfs_readdir :: "'file filesystem mount list \<Rightarrow> string \<Rightarrow> fs_error + dir_entry list" where
  "vfs_readdir mounts p = rbind (resolve_mount mounts p) (\<lambda>(fs, relative). fs_readdir fs relative)"

definition vfs_create :: "'file filesystem mount list \<Rightarrow> string \<Rightarrow> u16 \<Rightarrow> fs_error + 'file" where
  "vfs_create mounts p a = rbind (resolve_mount mounts p) (\<lambda>(fs, relative). fs_create fs relative a)"

definition vfs_unlink :: "'file filesystem mount list \<Rightarrow> string \<Rightarrow> fs_error + unit" where
  "vfs_unlink mounts p = rbind (resolve_mount mounts p) (\<lambda>(fs, relative). fs_unlink fs relative)"

definition vfs_mkdir :: "'file filesystem mount list \<Rightarrow> string \<Rightarrow> u16 \<Rightarrow> fs_error + unit" where
  "vfs_mkdir mounts p a = rbind (resolve_mount mounts p) (\<lambda>(fs, relative). fs_mkdir fs relative a)"

definition vfs_rmdir :: "'file filesystem mount list \<Rightarrow> string \<Rightarrow> fs_error + unit" where
  "vfs_rmdir mounts p = rbind (resolve_mount mounts p) (\<lambda>(fs, relative). fs_rmdir fs relative)"

definition vfs_truncate :: "'file filesystem mount list \<Rightarrow> string \<Rightarrow> u64 \<Rightarrow> fs_error + unit" where
  "vfs_truncate mounts p a = rbind (resolve_mount mounts p) (\<lambda>(fs, relative). fs_truncate fs relative a)"

definition vfs_sync :: "'file filesystem mount list \<Rightarrow> string \<Rightarrow> fs_error + unit" where
  "vfs_sync mounts p = rbind (resolve_mount mounts p) (\<lambda>(fs, _). fs_sync fs)"

section \<open>The archive file system\<close>

datatype tar_fs_error = InvalidArchive | InvalidFilename

record tar_fs =
  tar_files :: "(string, bytes) btree"

fun trim_dot_slash :: "string \<Rightarrow> string" where
  "trim_dot_slash (a # b # s) =
     (if a = CHR ''.'' \<and> b = CHR ''/'' then trim_dot_slash s else a # b # s)"
| "trim_dot_slash s = s"

fun load_entries ::
  "(string option \<times> bytes) list \<Rightarrow> (string, bytes) btree \<Rightarrow> tar_fs_error + (string, bytes) btree" where
  "load_entries [] files = Inr files"
| "load_entries ((None, data) # rest) files = Inl InvalidFilename"
| "load_entries ((Some name, data) # rest) files =
     (if name = [] then load_entries rest files
      else let normalized = trim_dot_slash name in
        if list_ex (\<lambda>c. c = ''..'' \<or> c = ''.'') (split_on normalized) then load_entries rest files
        else load_entries rest (bt_insert normalized data files))"

text \<open>The archive reader is a library: its result is the list of entries, a name being
  \<^verbatim>\<open>None\<close> when it is not UTF-8, or nothing when the archive is malformed.\<close>

definition from_tar_data :: "(string option \<times> bytes) list option \<Rightarrow> tar_fs_error + tar_fs" where
  "from_tar_data archive =
     rbind (ok_or archive InvalidArchive) (\<lambda>entries.
     rbind (load_entries entries []) (\<lambda>files. Inr \<lparr>tar_files = files\<rparr>))"

record tar_file =
  tf_data :: bytes
  tf_len :: nat
  tf_pos :: nat

definition tar_open :: "tar_fs \<Rightarrow> string \<Rightarrow> fs_error + tar_file" where
  "tar_open fs p = rbind (ok_or (bt_get (tar_files fs) p) NotFound)
     (\<lambda>data. Inr \<lparr>tf_data = data, tf_len = length data, tf_pos = 0\<rparr>)"

definition strip_dir_prefix :: "string \<Rightarrow> string \<Rightarrow> string option" where
  "strip_dir_prefix key p =
     (if p = [] then Some key
      else if take (length p) key = p then
        (case drop (length p) key of
           c # rest \<Rightarrow> if c = CHR ''/'' then Some rest else None
         | [] \<Rightarrow> None)
      else None)"

definition plain_stat :: "u64 \<Rightarrow> bool \<Rightarrow> u16 \<Rightarrow> file_stat" where
  "plain_stat sz is_dir mode = \<lparr>st_size = sz, st_is_dir = is_dir, st_mode = mode, st_inode = 0,
     st_nlinks = 1, st_mtime = 0, st_ctime = 0, st_atime = 0\<rparr>"

definition tar_stat :: "tar_fs \<Rightarrow> string \<Rightarrow> fs_error + file_stat" where
  "tar_stat fs p =
     (case bt_get (tar_files fs) p of
        Some data \<Rightarrow> Inr (plain_stat (of_nat (length data)) False 0x1A4)
      | None \<Rightarrow>
          if list_ex (\<lambda>key. strip_dir_prefix key p \<noteq> None) (map fst (tar_files fs))
          then Inr (plain_stat 0 True 0x1ED) else Inl NotFound)"

fun list_keys ::
  "string \<Rightarrow> string list \<Rightarrow> (string, unit) btree \<Rightarrow> dir_entry list \<Rightarrow> dir_entry list" where
  "list_keys p [] seen_dirs entries = entries"
| "list_keys p (key # rest) seen_dirs entries =
     (case strip_dir_prefix key p of
        None \<Rightarrow> list_keys p rest seen_dirs entries
      | Some relative \<Rightarrow>
          let name = takeWhile (\<lambda>c. c \<noteq> CHR ''/'') relative;
              is_dir = (CHR ''/'' \<in> set relative)
          in if name = [] then list_keys p rest seen_dirs entries
             else if is_dir \<and> bt_get seen_dirs name \<noteq> None then list_keys p rest seen_dirs entries
             else list_keys p rest
               (if is_dir then bt_insert name () seen_dirs else seen_dirs)
               (entries @ [\<lparr>de_name = name, de_is_dir = is_dir\<rparr>]))"

definition tar_readdir :: "tar_fs \<Rightarrow> string \<Rightarrow> fs_error + dir_entry list" where
  "tar_readdir fs p =
     (let entries = list_keys p (map fst (tar_files fs)) [] [] in
      if entries = [] \<and> p \<noteq> [] then Inl NotFound else Inr entries)"

definition tar_filesystem :: "tar_fs \<Rightarrow> tar_file filesystem" where
  "tar_filesystem fs = read_only_filesystem (tar_open fs) (tar_stat fs) (tar_readdir fs)"

text \<open>\<^verbatim>\<open>read\<close> is given the length of the caller's buffer and returns the bytes put at its
  start. In \<^verbatim>\<open>seek\<close> the sums of 64-bit signed numbers are checked: \<^verbatim>\<open>None\<close> is the overflow
  panic of the checked build.\<close>

definition tar_read :: "nat \<Rightarrow> tar_file \<Rightarrow> fs_error + bytes \<times> tar_file" where
  "tar_read buf_len f =
     (let remaining = tf_len f - tf_pos f;
          to_read = min buf_len remaining
      in if to_read > 0
         then Inr (take to_read (drop (tf_pos f) (tf_data f)), f\<lparr>tf_pos := tf_pos f + to_read\<rparr>)
         else Inr ([], f))"

definition checked_add_i64 :: "int \<Rightarrow> int \<Rightarrow> int option" where
  "checked_add_i64 a b = (if - (2 ^ 63) \<le> a + b \<and> a + b < 2 ^ 63 then Some (a + b) else None)"

definition tar_seek :: "seek_from \<Rightarrow> tar_file \<Rightarrow> (fs_error + u64 \<times> tar_file) option" where
  "tar_seek pos f =
     map_option (\<lambda>new_pos.
         if new_pos < 0 \<or> nat new_pos > tf_len f then Inl InvalidOffset
         else Inr (of_int new_pos, f\<lparr>tf_pos := nat new_pos\<rparr>))
       (case pos of
          SeekStart offset \<Rightarrow> Some (sint offset)
        | SeekCurrent offset \<Rightarrow> checked_add_i64 (sint (of_nat (tf_pos f) :: u64)) (sint offset)
        | SeekEnd offset \<Rightarrow> checked_add_i64 (sint (of_nat (tf_len f) :: u64)) (sint offset))"

definition tar_file_stat :: "tar_file \<Rightarrow> fs_error + file_stat" where
  "tar_file_stat f = Inr (plain_stat (of_nat (tf_len f)) False 0x1A4)"

section \<open>The block device file\<close>

record 'dev block_device_file =
  bd_device :: 'dev
  bd_pos :: u64

definition block_device_file_new :: "'dev \<Rightarrow> 'dev block_device_file" where
  "block_device_file_new dev = \<lparr>bd_device = dev, bd_pos = 0\<rparr>"

definition block_file_read ::
  "('dev \<Rightarrow> u64 \<Rightarrow> nat \<Rightarrow> block_error + bytes) \<Rightarrow> nat \<Rightarrow> 'dev block_device_file
     \<Rightarrow> fs_error + bytes \<times> 'dev block_device_file" where
  "block_file_read read_at buf_len f =
     (case read_at (bd_device f) (bd_pos f) buf_len of
        Inl e \<Rightarrow> Inl (fs_error_from e)
      | Inr bs \<Rightarrow> Inr (bs, f\<lparr>bd_pos := bd_pos f + of_nat (length bs)\<rparr>))"

definition block_file_write ::
  "('dev \<Rightarrow> u64 \<Rightarrow> bytes \<Rightarrow> block_error + nat \<times> 'dev) \<Rightarrow> bytes \<Rightarrow> 'dev block_device_file
     \<Rightarrow> fs_error + nat \<times> 'dev block_device_file" where
  "block_file_write write_at buf f =
     (case write_at (bd_device f) (bd_pos f) buf of
        Inl e \<Rightarrow> Inl (fs_error_from e)
      | Inr (n, dev) \<Rightarrow> Inr (n, f\<lparr>bd_device := dev, bd_pos := bd_pos f + of_nat n\<rparr>))"

definition block_file_seek ::
  "('dev \<Rightarrow> u64) \<Rightarrow> seek_from \<Rightarrow> 'dev block_device_file \<Rightarrow> (fs_error + u64 \<times> 'dev block_device_file) option" where
  "block_file_seek dev_size pos f =
     map_option (\<lambda>new_pos.
         if new_pos < 0 then Inl InvalidOffset
         else Inr (of_int new_pos, f\<lparr>bd_pos := of_int new_pos\<rparr>))
       (case pos of
          SeekStart n \<Rightarrow> Some (sint n)
        | SeekCurrent n \<Rightarrow> checked_add_i64 (sint (bd_pos f)) (sint n)
        | SeekEnd n \<Rightarrow> checked_add_i64 (sint (dev_size (bd_device f))) (sint n))"

definition block_file_stat :: "('dev \<Rightarrow> u64) \<Rightarrow> 'dev block_device_file \<Rightarrow> fs_error + file_stat" where
  "block_file_stat dev_size f = Inr (plain_stat (dev_size (bd_device f)) False 0x1B0)"

section \<open>Resolution\<close>

lemma canonicalize_canonical: "is_canonical (canonicalize p)"
proof (cases "canonicalize_path_to_buf p (replicate 4096 (CHR 0x00))")
  case None
  have "is_canonical ''/''" by (simp add: is_canonical_def)
  then show ?thesis using None by (simp only: canonicalize_def option.simps) simp
next
  case (Some q)
  then show ?thesis
    using canonicalize_is_canonical [OF Some] by (simp only: canonicalize_def option.simps) simp
qed

definition best_so_far :: "string \<Rightarrow> (nat \<times> 'fs mount) list \<Rightarrow> (nat \<times> nat) option \<Rightarrow> bool" where
  "best_so_far p ms best \<longleftrightarrow> (case best of
     None \<Rightarrow> \<forall>(i, m)\<in>set ms. \<not> mount_matches (mount_path m) p
   | Some (len, index) \<Rightarrow>
       (\<exists>m. (index, m) \<in> set ms \<and> mount_matches (mount_path m) p \<and> len = length (mount_path m))
       \<and> (\<forall>(i, m)\<in>set ms. mount_matches (mount_path m) p \<longrightarrow> length (mount_path m) \<le> len))"

lemma best_so_far_step:
  assumes "best_so_far p seen best"
  shows "best_so_far p (seen @ [(index, mnt)])
    (if mount_matches (mount_path mnt) p then
       (case best of
          None \<Rightarrow> Some (length (mount_path mnt), index)
        | Some (best_len, _) \<Rightarrow>
            if length (mount_path mnt) > best_len then Some (length (mount_path mnt), index)
            else best)
     else best)"
proof (cases best)
  case None
  then show ?thesis
    using assms by (auto simp: best_so_far_def)
next
  case (Some b)
  obtain len i where b: "b = (len, i)" by force
  obtain m where m: "(i, m) \<in> set seen" "mount_matches (mount_path m) p" "len = length (mount_path m)"
    and max: "\<forall>(i, m)\<in>set seen. mount_matches (mount_path m) p \<longrightarrow> length (mount_path m) \<le> len"
    using assms Some b by (auto simp: best_so_far_def)
  show ?thesis
  proof (cases "mount_matches (mount_path mnt) p \<and> len < length (mount_path mnt)")
    case True
    then have "\<forall>(i, m)\<in>set seen. mount_matches (mount_path m) p \<longrightarrow>
        length (mount_path m) \<le> length (mount_path mnt)"
      using max by fastforce
    then show ?thesis using Some b True by (auto simp: best_so_far_def)
  next
    case False
    then show ?thesis using Some b m max by (auto simp: best_so_far_def)
  qed
qed

lemma best_mount_best:
  "best_so_far p seen best \<Longrightarrow> best_so_far p (seen @ ms) (best_mount p ms best)"
proof (induction p ms best arbitrary: seen rule: best_mount.induct)
  case (2 p index mnt rest best)
  show ?case
    using 2(1) [OF best_so_far_step [OF 2(2), of index mnt]] by simp
qed simp

lemma resolve_path_best:
  "best_so_far p (enumerate 0 ms) (best_mount p (enumerate 0 ms) None)"
  using best_mount_best [of p "[]" None "enumerate 0 ms"] by (simp add: best_so_far_def)

lemma in_enumerate: "(i, m) \<in> set (enumerate 0 ms) \<longleftrightarrow> i < length ms \<and> ms ! i = m"
  by (auto simp: in_set_enumerate_eq)

lemma ball_enumerate: "(\<forall>(i, m)\<in>set (enumerate 0 ms). P m) \<longleftrightarrow> (\<forall>m\<in>set ms. P m)"
proof -
  have "set ms = snd ` set (enumerate 0 ms)"
    by (metis list.set_map map_snd_enumerate)
  then show ?thesis by auto
qed

lemma proper_suffix:
  assumes "is_canonical p" "p = mp @ CHR ''/'' # rel"
  shows "rel = [] \<or> list_all proper (split_on rel)"
proof -
  obtain cs where cs: "\<forall>c\<in>set cs. proper c" "p = render cs"
    using assms(1) by (auto simp: is_canonical_iff)
  show ?thesis
  proof (cases "cs = []")
    case True
    then show ?thesis using cs(2) assms(2) by (cases mp) (simp_all add: render_def)
  next
    case False
    have "\<forall>c\<in>set cs. CHR ''/'' \<notin> set c"
      using cs(1) by (simp add: proper_def)
    from split_on_join [OF this] have "split_on p = [] # cs"
      using cs(2) False by (simp add: render_def)
    then have "split_on mp @ split_on rel = [] # cs"
      unfolding assms(2) split_on_append_slash .
    then have "set (split_on rel) \<subseteq> set cs"
      by (cases "split_on mp") auto
    then show ?thesis
      using cs(1) by (auto simp: list_all_iff)
  qed
qed

lemma mount_matches_iff:
  "mount_matches mp p \<longleftrightarrow> p = mp \<or> (\<exists>r. p = mp @ CHR ''/'' # r)"
proof
  assume m: "mount_matches mp p"
  then have p: "p = mp @ drop (length mp) p"
    by (metis append_take_drop_id mount_matches_def)
  show "p = mp \<or> (\<exists>r. p = mp @ CHR ''/'' # r)"
  proof (cases "length p = length mp")
    case True
    then show ?thesis using p by simp
  next
    case False
    then have "drop (length mp) p = CHR ''/'' # drop (Suc (length mp)) p"
      using m by (metis Cons_nth_drop_Suc mount_matches_def)
    then show ?thesis using p by metis
  qed
qed (auto simp: mount_matches_def)

lemma resolve_path_Some:
  assumes "resolve_path ms p = Some (index, rel)"
  shows "index < length ms"
    and "p = mount_path (ms ! index) \<and> rel = [] \<or> p = mount_path (ms ! index) @ CHR ''/'' # rel"
    and "\<forall>m\<in>set ms. mount_matches (mount_path m) p \<longrightarrow>
           length (mount_path m) \<le> length (mount_path (ms ! index))"
proof -
  obtain len where len: "best_mount p (enumerate 0 ms) None = Some (len, index)"
      "rel = (if length p > len then drop (len + 1) p else [])"
    using assms by (auto simp: resolve_path_def)
  have best: "index < length ms" "mount_matches (mount_path (ms ! index)) p"
      "len = length (mount_path (ms ! index))"
      "\<forall>(i, m)\<in>set (enumerate 0 ms). mount_matches (mount_path m) p \<longrightarrow> length (mount_path m) \<le> len"
    using resolve_path_best [of p ms] len(1) by (auto simp: best_so_far_def in_enumerate)
  show "index < length ms" by (rule best)
  show "p = mount_path (ms ! index) \<and> rel = [] \<or> p = mount_path (ms ! index) @ CHR ''/'' # rel"
    using best(2,3) len(2) by (auto simp: mount_matches_iff)
  show "\<forall>m\<in>set ms. mount_matches (mount_path m) p \<longrightarrow>
           length (mount_path m) \<le> length (mount_path (ms ! index))"
    using best(3,4) by (simp add: ball_enumerate)
qed

lemma resolve_path_None:
  "resolve_path ms p = None \<longleftrightarrow> (\<forall>m\<in>set ms. \<not> mount_matches (mount_path m) p)"
proof
  assume "resolve_path ms p = None"
  then show "\<forall>m\<in>set ms. \<not> mount_matches (mount_path m) p"
    using resolve_path_best [of p ms]
    by (simp add: resolve_path_def best_so_far_def ball_enumerate)
next
  assume a: "\<forall>m\<in>set ms. \<not> mount_matches (mount_path m) p"
  show "resolve_path ms p = None"
  proof (rule ccontr)
    assume "resolve_path ms p \<noteq> None"
    then obtain len i where "best_mount p (enumerate 0 ms) None = Some (len, i)"
      by (auto simp: resolve_path_def)
    then show False
      using resolve_path_best [of p ms] a by (auto simp: best_so_far_def in_enumerate)
  qed
qed

section \<open>The archive\<close>

definition tar_key_ok :: "string \<Rightarrow> bool" where
  "tar_key_ok key \<longleftrightarrow> list_all (\<lambda>c. c \<noteq> ''..'' \<and> c \<noteq> ''.'') (split_on key)"

lemma load_entries_invar:
  "load_entries es files = Inr files' \<Longrightarrow> bt_invar files \<Longrightarrow> list_all tar_key_ok (map fst files) \<Longrightarrow>
     bt_invar files' \<and> list_all tar_key_ok (map fst files')"
proof (induction es files rule: load_entries.induct)
  case (3 name data rest files)
  let ?n = "trim_dot_slash name"
  consider "name = []" | "name \<noteq> []" "list_ex (\<lambda>c. c = ''..'' \<or> c = ''.'') (split_on ?n)"
    | "name \<noteq> []" "\<not> list_ex (\<lambda>c. c = ''..'' \<or> c = ''.'') (split_on ?n)" by blast
  then show ?case
  proof cases
    case 1
    then show ?thesis using 3(1,4,5,6) by simp
  next
    case 2
    then show ?thesis using 3(2) [OF 2(1) refl 2(2)] 3(4,5,6) by (simp add: Let_def)
  next
    case c: 3
    then have "tar_key_ok ?n"
      by (auto simp: tar_key_ok_def list_all_iff list_ex_iff)
    then have "list_all tar_key_ok (map fst (bt_insert ?n data files))"
      using 3(6) keys_bt_insert [of ?n data files] by (simp add: list_all_iff del: keys_bt_insert)
    then show ?thesis
      using 3(3) [OF c(1) refl c(2)] 3(4,5) c by (simp add: Let_def bt_invar_insert)
  qed
qed simp_all

definition entry_of :: "string \<Rightarrow> dir_entry" where
  "entry_of rel = \<lparr>de_name = takeWhile (\<lambda>c. c \<noteq> CHR ''/'') rel, de_is_dir = (CHR ''/'' \<in> set rel)\<rparr>"

definition children :: "string \<Rightarrow> string list \<Rightarrow> string set" where
  "children p keys = {rel. (\<exists>k\<in>set keys. strip_dir_prefix k p = Some rel) \<and> de_name (entry_of rel) \<noteq> []}"

lemma strip_dir_prefix_iff:
  "strip_dir_prefix k p = Some rel \<longleftrightarrow> k = (if p = [] then rel else p @ CHR ''/'' # rel)"
proof -
  have "take (length p) k = p \<longleftrightarrow> (\<exists>r. k = p @ r)"
    by (metis append_eq_conv_conj append_take_drop_id)
  then show ?thesis
    by (auto simp: strip_dir_prefix_def split: list.splits if_splits)
qed

lemma children_Cons:
  "children p (k # ks) = (case strip_dir_prefix k p of
     None \<Rightarrow> children p ks
   | Some rel \<Rightarrow> if de_name (entry_of rel) = [] then children p ks else insert rel (children p ks))"
  by (auto simp: children_def split: option.splits)

definition seen_ok :: "(string, unit) btree \<Rightarrow> dir_entry list \<Rightarrow> bool" where
  "seen_ok seen entries \<longleftrightarrow> (\<forall>n. bt_get seen n \<noteq> None \<longleftrightarrow> \<lparr>de_name = n, de_is_dir = True\<rparr> \<in> set entries)"

lemma takeWhile_no_slash: "CHR ''/'' \<notin> set s \<Longrightarrow> takeWhile (\<lambda>c. c \<noteq> CHR ''/'') s = s"
  by (induction s) auto

lemma list_keys_entries:
  assumes "seen_ok seen entries" "distinct keys" "distinct entries"
    and "\<forall>rel\<in>children p keys. CHR ''/'' \<notin> set rel \<longrightarrow> entry_of rel \<notin> set entries"
  shows "set (list_keys p keys seen entries) = set entries \<union> entry_of ` children p keys
    \<and> distinct (list_keys p keys seen entries)"
  using assms
proof (induction keys arbitrary: seen entries)
  case (Cons k ks)
  have sub: "children p ks \<subseteq> children p (k # ks)"
    by (auto simp: children_def)
  show ?case
  proof (cases "\<exists>rel. strip_dir_prefix k p = Some rel \<and> de_name (entry_of rel) \<noteq> []")
    case False
    then have "children p (k # ks) = children p ks"
        "list_keys p (k # ks) seen entries = list_keys p ks seen entries"
      by (auto simp: children_Cons entry_of_def split: option.splits)
    then show ?thesis using Cons by simp
  next
    case True
    then obtain rel where rel: "strip_dir_prefix k p = Some rel" "de_name (entry_of rel) \<noteq> []" by blast
    define seen' where "seen' = (if de_is_dir (entry_of rel) then bt_insert (de_name (entry_of rel)) () seen else seen)"
    have ch: "children p (k # ks) = insert rel (children p ks)"
      using rel by (simp add: children_Cons)
    show ?thesis
    proof (cases "de_is_dir (entry_of rel) \<and> bt_get seen (de_name (entry_of rel)) \<noteq> None")
      case True
      then have "entry_of rel \<in> set entries"
        using Cons.prems(1) by (auto simp: seen_ok_def entry_of_def)
      moreover have "list_keys p (k # ks) seen entries = list_keys p ks seen entries"
        using rel True by (simp add: entry_of_def Let_def)
      ultimately show ?thesis
        using Cons.IH [OF Cons.prems(1)] Cons.prems(2,3,4) ch by auto
    next
      case False
      have new: "entry_of rel \<notin> set entries"
        using False Cons.prems(1,4) ch
        by (cases "CHR ''/'' \<in> set rel") (auto simp: seen_ok_def entry_of_def)
      have "seen_ok seen' (entries @ [entry_of rel])"
        using Cons.prems(1) by (auto simp: seen_ok_def seen'_def entry_of_def bt_get_eq)
      moreover have "entry_of r \<notin> set (entries @ [entry_of rel])"
        if r: "r \<in> children p ks" "CHR ''/'' \<notin> set r" for r
      proof -
        have "r \<noteq> rel"
          using r(1) rel(1) Cons.prems(2) by (auto simp: children_def strip_dir_prefix_iff)
        then have "entry_of r \<noteq> entry_of rel"
          using r(2) by (cases "CHR ''/'' \<in> set rel") (simp_all add: entry_of_def takeWhile_no_slash)
        then show ?thesis using Cons.prems(4) sub r by auto
      qed
      moreover have "list_keys p (k # ks) seen entries = list_keys p ks seen' (entries @ [entry_of rel])"
        using rel False by (simp add: entry_of_def Let_def seen'_def)
      ultimately show ?thesis
        using Cons.IH [of seen' "entries @ [entry_of rel]"] Cons.prems(2,3) new ch by auto
    qed
  qed
qed (simp add: children_def)

section \<open>Open archive files\<close>

definition tar_file_ok :: "tar_file \<Rightarrow> bool" where
  "tar_file_ok f \<longleftrightarrow> tf_len f = length (tf_data f) \<and> tf_pos f \<le> tf_len f"

lemma tar_read_ok:
  "tar_file_ok f \<Longrightarrow> tar_read n f =
     Inr (take n (drop (tf_pos f) (tf_data f)), f\<lparr>tf_pos := min (tf_pos f + n) (tf_len f)\<rparr>)"
  by (auto simp: tar_read_def tar_file_ok_def Let_def min_def)

section \<open>Properties\<close>

text \<open>C12: path resolution confines a lookup to one mount: the canonical form of the path is the
  mount point of the file system called followed by the relative path handed to it, the
  relative path has no empty, \<^verbatim>\<open>.\<close> or \<^verbatim>\<open>..\<close> component, and no other mount point that
  matches is longer.\<close>

theorem resolve_mount_confined:
  assumes "resolve_mount ms p = Inr (fs, rel)"
  shows "\<exists>i < length ms. mount_fs (ms ! i) = fs
    \<and> (canonicalize p = mount_path (ms ! i) \<and> rel = []
       \<or> canonicalize p = mount_path (ms ! i) @ CHR ''/'' # rel)
    \<and> (rel = [] \<or> list_all proper (split_on rel))
    \<and> (\<forall>m\<in>set ms. mount_matches (mount_path m) (canonicalize p) \<longrightarrow>
         length (mount_path m) \<le> length (mount_path (ms ! i)))"
proof -
  obtain i where i: "resolve_path ms (canonicalize p) = Some (i, rel)" "mount_fs (ms ! i) = fs"
    using assms by (auto simp: resolve_mount_def)
  note r = resolve_path_Some [OF i(1)]
  have "rel = [] \<or> list_all proper (split_on rel)"
    using r(2) proper_suffix [OF canonicalize_canonical [of p]] by blast
  then show ?thesis using r i(2) by blast
qed

theorem resolve_mount_confined_witness:
  "\<exists>i < length [\<lparr>mount_path = ''/initrd'', mount_fs = 1\<rparr>, \<lparr>mount_path = ''/disk'', mount_fs = 2 :: nat\<rparr>].
     mount_fs ([\<lparr>mount_path = ''/initrd'', mount_fs = 1\<rparr>, \<lparr>mount_path = ''/disk'', mount_fs = 2 :: nat\<rparr>] ! i) = 2"
proof -
  let ?ms = "[\<lparr>mount_path = ''/initrd'', mount_fs = 1\<rparr>, \<lparr>mount_path = ''/disk'', mount_fs = 2 :: nat\<rparr>]"
  have "resolve_mount ?ms ''/disk/x'' = Inr (2, ''x'')"
    by (simp add: resolve_mount_def canonicalize_def is_canonical_def resolve_path_def
        mount_matches_def check_components.simps scan_component_takeWhile sub_slice_def)
  from resolve_mount_confined [OF this] show ?thesis by blast
qed

text \<open>a lookup fails only because no mount point matches the canonical path, and then with
  \<^verbatim>\<open>NotFound\<close> in every operation of the switch.\<close>

theorem resolve_mount_not_found:
  "resolve_mount ms p = Inl e \<longleftrightarrow>
     e = NotFound \<and> list_all (\<lambda>m. \<not> mount_matches (mount_path m) (canonicalize p)) ms"
  using resolve_path_None [of ms "canonicalize p"]
  by (cases "resolve_path ms (canonicalize p)") (auto simp: resolve_mount_def list_all_iff)

text \<open>an archive that loads has ordered keys without \<^verbatim>\<open>.\<close> or \<^verbatim>\<open>..\<close> components, and every
  listing of a directory of it shows each child exactly once: the first component of each key
  below the directory, marked as a directory when more components follow.\<close>

theorem tar_readdir_children:
  assumes "from_tar_data archive = Inr fs" "tar_readdir fs p = Inr es"
  shows "bt_invar (tar_files fs) \<and> list_all tar_key_ok (map fst (tar_files fs))
    \<and> distinct es \<and> set es = entry_of ` children p (map fst (tar_files fs))"
proof -
  have inv: "bt_invar (tar_files fs)" "list_all tar_key_ok (map fst (tar_files fs))"
    using assms(1) load_entries_invar [of _ "[]"] by (auto simp: from_tar_data_def bt_invar_def)
  have "es = list_keys p (map fst (tar_files fs)) [] []"
    using assms(2) by (auto simp: tar_readdir_def Let_def split: if_splits)
  then show ?thesis
    using list_keys_entries [of "[]" "[]" "map fst (tar_files fs)" p] bt_invar_distinct [OF inv(1)] inv
    by (simp add: seen_ok_def bt_get_def)
qed

theorem tar_readdir_children_witness:
  "set [\<lparr>de_name = ''a'', de_is_dir = True\<rparr>, \<lparr>de_name = ''b'', de_is_dir = False\<rparr>]
     = entry_of ` children [] [''a/x'', ''a/y'', ''b'']"
  using tar_readdir_children [of "Some [(Some ''./b'', [1]), (Some ''a/y'', [2]), (Some ''../c'', []), (Some ''a/x'', [])]"
     "\<lparr>tar_files = [(''a/x'', []), (''a/y'', [2]), (''b'', [1])]\<rparr>" "[]"
     "[\<lparr>de_name = ''a'', de_is_dir = True\<rparr>, \<lparr>de_name = ''b'', de_is_dir = False\<rparr>]"]
  by (simp add: from_tar_data_def tar_readdir_def strip_dir_prefix_def bt_get_def Let_def less_list_code)

text \<open>reading an archive file in two chunks returns the same bytes and leaves the same
  position as reading it in one, and no read or successful seek moves past the end.\<close>

theorem tar_read_chunks:
  assumes "tar_file_ok f" "tar_read n f = Inr (b1, f1)" "tar_read m f1 = Inr (b2, f2)"
  shows "tar_read (n + m) f = Inr (b1 @ b2, f2) \<and> tar_file_ok f2
    \<and> (\<forall>pos q f3. tar_seek pos f2 = Some (Inr (q, f3)) \<longrightarrow> tar_file_ok f3)"
proof -
  have f1: "tar_file_ok f1"
    using assms(1,2) by (auto simp: tar_read_ok tar_file_ok_def)
  then have "tar_file_ok f2"
    using assms(3) by (auto simp: tar_read_ok tar_file_ok_def)
  moreover have "tar_file_ok f3" if "tar_seek pos f2 = Some (Inr (q, f3))" for pos q f3
    using \<open>tar_file_ok f2\<close> that by (auto simp: tar_seek_def tar_file_ok_def split: if_splits)
  moreover have "tar_read (n + m) f = Inr (b1 @ b2, f2)"
  proof -
    have "b1 = take n (drop (tf_pos f) (tf_data f))" "f1 = f\<lparr>tf_pos := min (tf_pos f + n) (tf_len f)\<rparr>"
      using assms(1,2) by (simp_all add: tar_read_ok)
    moreover have "b2 = take m (drop (tf_pos f1) (tf_data f1))"
        "f2 = f1\<lparr>tf_pos := min (tf_pos f1 + m) (tf_len f1)\<rparr>"
      using assms(3) f1 by (simp_all add: tar_read_ok)
    moreover have "drop (min (tf_pos f + n) (tf_len f)) (tf_data f) = drop n (drop (tf_pos f) (tf_data f))"
      using assms(1) by (simp add: tar_file_ok_def min_def add.commute)
    ultimately show ?thesis
      using assms(1) by (simp add: tar_read_ok take_add min_def add.assoc)
  qed
  ultimately show ?thesis by blast
qed

theorem tar_read_chunks_witness:
  "tar_read 5 \<lparr>tf_data = [1, 2, 3, 4], tf_len = 4, tf_pos = 1\<rparr>
     = Inr ([2, 3, 4], \<lparr>tf_data = [1, 2, 3, 4], tf_len = 4, tf_pos = 4\<rparr>)"
  using tar_read_chunks [of "\<lparr>tf_data = [1, 2, 3, 4], tf_len = 4, tf_pos = 1\<rparr>" 2 "[2, 3]"
      "\<lparr>tf_data = [1, 2, 3, 4], tf_len = 4, tf_pos = 3\<rparr>" 3 "[4]"
      "\<lparr>tf_data = [1, 2, 3, 4], tf_len = 4, tf_pos = 4\<rparr>"]
  by (simp add: tar_file_ok_def tar_read_def)

end
