(* ===== verification/Ring_Buffer.thy ===== *)
theory Ring_Buffer
  imports Prelude
begin

text \<open>
  The fixed-capacity ring buffer of \<^verbatim>\<open>crates/ring-buffer/src/lib.rs\<close>. Operations
  that assert or index out of range return \<^verbatim>\<open>None\<close>. The abstraction of a buffer is the
  list of its live entries, oldest first.
\<close>

section \<open>Operations\<close>

record 'a ring_buffer =
  buf :: "'a list"
  cap :: nat
  head :: nat
  len :: nat

definition ring_new :: "nat \<Rightarrow> 'a ring_buffer option" where
  "ring_new c = (if c > 0 then Some \<lparr>buf = [], cap = c, head = 0, len = 0\<rparr> else None)"

definition ring_is_empty :: "'a ring_buffer \<Rightarrow> bool" where
  "ring_is_empty rb \<longleftrightarrow> len rb = 0"

definition ring_is_full :: "'a ring_buffer \<Rightarrow> bool" where
  "ring_is_full rb \<longleftrightarrow> len rb = cap rb"

definition ring_push :: "'a \<Rightarrow> 'a ring_buffer \<Rightarrow> 'a option \<times> 'a ring_buffer" where
  "ring_push item rb =
     (if length (buf rb) < cap rb then
        let buf' = buf rb @ [item] in
        (None, rb\<lparr>buf := buf', head := length buf' mod cap rb, len := length buf'\<rparr>)
      else
        let old = buf rb ! head rb in
        (Some old, rb\<lparr>buf := (buf rb)[head rb := item], head := (head rb + 1) mod cap rb\<rparr>))"

definition next_evictable :: "'a ring_buffer \<Rightarrow> 'a option" where
  "next_evictable rb = (if ring_is_full rb then Some (buf rb ! head rb) else None)"

text \<open>Writing through the reference that \<^verbatim>\<open>next_evictable\<close> returns.\<close>

definition write_evictable :: "'a \<Rightarrow> 'a ring_buffer \<Rightarrow> 'a ring_buffer" where
  "write_evictable v rb = (if ring_is_full rb then rb\<lparr>buf := (buf rb)[head rb := v]\<rparr> else rb)"

definition advance_head :: "'a ring_buffer \<Rightarrow> 'a ring_buffer option" where
  "advance_head rb = (if ring_is_full rb then Some (rb\<lparr>head := (head rb + 1) mod cap rb\<rparr>) else None)"

text \<open>The closure gets the slot, if there is one, and gives its new contents and its result.\<close>

definition push_or_recycle ::
  "('a option \<Rightarrow> 'a option \<times> 'a option) \<Rightarrow> 'a ring_buffer \<Rightarrow> 'a ring_buffer" where
  "push_or_recycle recycle rb =
     (if ring_is_full rb then
        let (slot, result) = recycle (Some (buf rb ! head rb));
            buf1 = (case slot of Some v \<Rightarrow> (buf rb)[head rb := v] | None \<Rightarrow> buf rb);
            buf2 = (case result of Some new_item \<Rightarrow> buf1[head rb := new_item] | None \<Rightarrow> buf1)
        in rb\<lparr>buf := buf2, head := (head rb + 1) mod cap rb\<rparr>
      else case snd (recycle None) of
        Some item \<Rightarrow>
          let buf' = buf rb @ [item] in rb\<lparr>buf := buf', head := length buf' mod cap rb, len := length buf'\<rparr>
      | None \<Rightarrow> rb)"

definition ring_index :: "'a ring_buffer \<Rightarrow> nat \<Rightarrow> nat" where
  "ring_index rb index = (if ring_is_full rb then (head rb + index) mod cap rb else index)"

definition ring_get :: "'a ring_buffer \<Rightarrow> nat \<Rightarrow> 'a option" where
  "ring_get rb index =
     (if index \<ge> len rb then None else Some (buf rb ! ring_index rb index))"

text \<open>\<^verbatim>\<open>get_mut\<close> followed by a write through the reference.\<close>

definition ring_set :: "nat \<Rightarrow> 'a \<Rightarrow> 'a ring_buffer \<Rightarrow> 'a ring_buffer option" where
  "ring_set index v rb =
     (if index \<ge> len rb then None else Some (rb\<lparr>buf := (buf rb)[ring_index rb index := v]\<rparr>))"

definition ring_last :: "'a ring_buffer \<Rightarrow> 'a option" where
  "ring_last rb = (if len rb = 0 then None else ring_get rb (len rb - 1))"

definition ring_set_last :: "'a \<Rightarrow> 'a ring_buffer \<Rightarrow> 'a ring_buffer option" where
  "ring_set_last v rb = (if len rb = 0 then None else ring_set (len rb - 1) v rb)"

text \<open>The iterator: \<^verbatim>\<open>next\<close> from an index, and the entries it yields until it ends.\<close>

definition iter_next :: "'a ring_buffer \<Rightarrow> nat \<Rightarrow> ('a \<times> nat) option" where
  "iter_next rb index = map_option (\<lambda>item. (item, index + 1)) (ring_get rb index)"

function iter_from :: "'a ring_buffer \<Rightarrow> nat \<Rightarrow> 'a list" where
  "iter_from rb index = (case iter_next rb index of
     None \<Rightarrow> [] | Some (item, index') \<Rightarrow> item # iter_from rb index')"
  by pat_completeness auto
termination
  by (relation "measure (\<lambda>(rb, index). len rb - index)")
    (auto simp: iter_next_def ring_get_def split: if_splits)

declare iter_from.simps [simp del]

definition ring_iter :: "'a ring_buffer \<Rightarrow> 'a list" where
  "ring_iter rb = iter_from rb 0"

definition ring_clear :: "'a ring_buffer \<Rightarrow> 'a ring_buffer" where
  "ring_clear rb = rb\<lparr>buf := [], head := 0, len := 0\<rparr>"

section \<open>Abstraction\<close>

definition ring_ok :: "'a ring_buffer \<Rightarrow> bool" where
  "ring_ok rb \<longleftrightarrow> 0 < cap rb \<and> len rb = length (buf rb) \<and> len rb \<le> cap rb
     \<and> (if len rb < cap rb then head rb = len rb else head rb < cap rb)"

definition entries :: "'a ring_buffer \<Rightarrow> 'a list" where
  "entries rb = (if ring_is_full rb then rotate (head rb) (buf rb) else buf rb)"

lemma length_entries: "ring_ok rb \<Longrightarrow> length (entries rb) = len rb"
  by (simp add: entries_def ring_ok_def)

lemma nth_entries:
  "ring_ok rb \<Longrightarrow> i < len rb \<Longrightarrow> entries rb ! i = buf rb ! ring_index rb i"
  by (auto simp: entries_def ring_ok_def ring_index_def ring_is_full_def nth_rotate)

lemma ring_index_less: "ring_ok rb \<Longrightarrow> i < len rb \<Longrightarrow> ring_index rb i < length (buf rb)"
  by (auto simp: ring_ok_def ring_index_def ring_is_full_def)

lemma mod_shift_inj:
  fixes a i j n :: nat
  assumes "i < n" "j < n" "(a + i) mod n = (a + j) mod n"
  shows "i = j"
proof -
  have undo: "((a + k) mod n + (n - a mod n)) mod n = k" if "k < n" for k
  proof -
    have "a mod n + k + (n - a mod n) = k + n" using that by (simp add: less_imp_le_nat)
    moreover have "(a + k) mod n = (a mod n + k) mod n" by (simp add: mod_add_left_eq)
    moreover have "((a mod n + k) mod n + (n - a mod n)) mod n = (a mod n + k + (n - a mod n)) mod n"
      by (rule mod_add_left_eq)
    ultimately show ?thesis using that by simp
  qed
  show ?thesis
    by (rule trans [OF undo [OF assms(1), symmetric, unfolded assms(3)] undo [OF assms(2)]])
qed

lemma ring_index_inj:
  "ring_ok rb \<Longrightarrow> i < len rb \<Longrightarrow> j < len rb \<Longrightarrow> ring_index rb i = ring_index rb j \<Longrightarrow> i = j"
  by (auto simp: ring_index_def ring_is_full_def ring_ok_def intro: mod_shift_inj split: if_splits)

lemma rotate_push:
  assumes "h < length xs"
  shows "rotate ((h + 1) mod length xs) (xs[h := x]) = tl (rotate h xs) @ [x]"
proof (rule nth_equalityI)
  show "length (rotate ((h + 1) mod length xs) (xs[h := x])) = length (tl (rotate h xs) @ [x])"
    using assms by simp
next
  fix i assume "i < length (rotate ((h + 1) mod length xs) (xs[h := x]))"
  then have i: "i < length xs" by simp
  have e: "((h + 1) mod length xs + i) mod length xs = (h + (i + 1)) mod length xs"
    by (simp add: mod_simps)
  show "rotate ((h + 1) mod length xs) (xs[h := x]) ! i = (tl (rotate h xs) @ [x]) ! i"
  proof (cases "i + 1 < length xs")
    case True
    have "(h + (i + 1)) mod length xs \<noteq> h"
    proof (cases "h + (i + 1) < length xs")
      case False
      then have "(h + (i + 1)) mod length xs = h + (i + 1) - length xs"
        using assms True by (simp add: mod_if)
      then show ?thesis using False True by simp
    qed simp
    then show ?thesis
      using True i e by (simp add: nth_rotate nth_append nth_tl less_diff_conv)
  next
    case False
    then have "i + 1 = length xs" using i by simp
    then have "(h + (i + 1)) mod length xs = h" "i - (length xs - Suc 0) = 0"
      "\<not> i < length xs - Suc 0" using assms by simp_all
    then show ?thesis
      using i e assms by (simp add: nth_rotate nth_append)
  qed
qed

lemma hd_rotate: "h < length xs \<Longrightarrow> hd (rotate h xs) = xs ! h"
  by (subst hd_rotate_conv_nth) auto

lemma ring_push_entries:
  assumes "ring_ok rb"
  shows "ring_ok (snd (ring_push x rb))"
    and "cap (snd (ring_push x rb)) = cap rb"
    and "entries (snd (ring_push x rb)) = (if ring_is_full rb then tl (entries rb) else entries rb) @ [x]"
    and "fst (ring_push x rb) = (if ring_is_full rb then Some (hd (entries rb)) else None)"
proof -
  show "ring_ok (snd (ring_push x rb))"
    using assms by (auto simp: ring_ok_def ring_push_def Let_def)
  show "cap (snd (ring_push x rb)) = cap rb"
    by (simp add: ring_push_def Let_def)
  show "entries (snd (ring_push x rb)) = (if ring_is_full rb then tl (entries rb) else entries rb) @ [x]"
    using assms rotate_push [of "head rb" "buf rb" x]
    by (auto simp: ring_ok_def ring_push_def Let_def entries_def ring_is_full_def)
  show "fst (ring_push x rb) = (if ring_is_full rb then Some (hd (entries rb)) else None)"
    using assms by (auto simp: ring_ok_def ring_push_def Let_def entries_def ring_is_full_def hd_rotate)
qed

section \<open>Logs of the most recent entries\<close>

lemma drop_last_snoc:
  assumes "0 < c" "c \<le> length e"
  shows "tl (drop (length e - c) e) @ [x] = drop (length (e @ [x]) - c) (e @ [x])"
proof -
  have "length (e @ [x]) - c = Suc (length e - c)" using assms by (simp add: Suc_diff_le)
  moreover have "Suc (length e - c) \<le> length e" using assms by linarith
  ultimately show ?thesis by (simp add: drop_Suc tl_drop)
qed

locale recent_log =
  fixes push :: "'a \<Rightarrow> 's \<Rightarrow> 's" and entries_of :: "'s \<Rightarrow> 'a list" and ok :: "nat \<Rightarrow> 's \<Rightarrow> bool"
  assumes ok_push: "ok c s \<Longrightarrow> ok c (push x s)"
    and bound: "ok c s \<Longrightarrow> length (entries_of s) \<le> c"
    and push: "ok c s \<Longrightarrow>
      entries_of (push x s) = (if length (entries_of s) = c then tl (entries_of s) else entries_of s) @ [x]"
begin

lemma push_all:
  assumes "ok c s" "0 < c"
  shows "ok c (fold push xs s)
    \<and> entries_of (fold push xs s) = drop (length (entries_of s @ xs) - c) (entries_of s @ xs)"
  using assms
proof (induction xs rule: rev_induct)
  case Nil
  then show ?case using bound [of c s] by simp
next
  case (snoc x xs)
  let ?e = "entries_of s @ xs"
  have ok: "ok c (fold push xs s)" and e: "entries_of (fold push xs s) = drop (length ?e - c) ?e"
    using snoc by simp_all
  have "entries_of (push x (fold push xs s)) = drop (length (?e @ [x]) - c) (?e @ [x])"
  proof (cases "c \<le> length ?e")
    case True
    then have "length (drop (length ?e - c) ?e) = c" by simp
    then show ?thesis
      using push [OF ok, of x] e drop_last_snoc [OF assms(2) True, of x] by simp
  next
    case False
    then show ?thesis using push [OF ok, of x] e by simp
  qed
  then show ?case using ok ok_push by simp
qed

end

definition ring_ok_cap :: "nat \<Rightarrow> 'a ring_buffer \<Rightarrow> bool" where
  "ring_ok_cap c rb \<longleftrightarrow> ring_ok rb \<and> cap rb = c"

lemma length_entries_full: "ring_ok_cap c rb \<Longrightarrow> length (entries rb) = c \<longleftrightarrow> ring_is_full rb"
  by (simp add: ring_ok_cap_def length_entries ring_is_full_def)

interpretation ring: recent_log "\<lambda>x rb. snd (ring_push x rb)" entries ring_ok_cap
proof
  fix c and rb :: "'a ring_buffer" and x
  assume ok: "ring_ok_cap c rb"
  then show "ring_ok_cap c (snd (ring_push x rb))"
    by (simp add: ring_ok_cap_def ring_push_entries)
  show "length (entries rb) \<le> c"
    using ok by (simp add: ring_ok_cap_def length_entries) (simp add: ring_ok_def)
  show "entries (snd (ring_push x rb)) = (if length (entries rb) = c then tl (entries rb) else entries rb) @ [x]"
    using ok length_entries_full [OF ok] by (simp add: ring_ok_cap_def ring_push_entries)
qed

lemma ring_get_entries:
  "ring_ok rb \<Longrightarrow> ring_get rb i = (if i < length (entries rb) then Some (entries rb ! i) else None)"
  by (auto simp: ring_get_def length_entries nth_entries)

lemma iter_from_entries: "ring_ok rb \<Longrightarrow> iter_from rb i = drop i (entries rb)"
proof (induction "length (entries rb) - i" arbitrary: i)
  case 0
  then show ?case
    by (subst iter_from.simps) (simp add: iter_next_def ring_get_entries)
next
  case (Suc n)
  then have i: "i < length (entries rb)" by linarith
  then show ?case
    using Suc(1) [of "i + 1"] Suc(2,3)
    by (subst iter_from.simps) (simp add: iter_next_def ring_get_entries Cons_nth_drop_Suc)
qed

lemma ring_set_entries:
  assumes "ring_ok rb" "i < len rb"
  shows "entries (rb\<lparr>buf := (buf rb)[ring_index rb i := v]\<rparr>) = (entries rb)[i := v]"
proof (rule nth_equalityI)
  let ?rb = "rb\<lparr>buf := (buf rb)[ring_index rb i := v]\<rparr>"
  have ok: "ring_ok ?rb" and len: "len ?rb = len rb" using assms(1) by (simp_all add: ring_ok_def)
  show "length (entries ?rb) = length ((entries rb)[i := v])"
    using ok assms(1) by (simp add: length_entries)
  fix j assume "j < length (entries ?rb)"
  then have j: "j < len rb" using ok by (simp add: length_entries)
  have "ring_index rb j \<noteq> ring_index rb i" if "j \<noteq> i"
    using that j assms ring_index_inj [OF assms(1) j assms(2)] by blast
  moreover have "ring_index ?rb j = ring_index rb j" by (simp add: ring_index_def ring_is_full_def)
  ultimately show "entries ?rb ! j = (entries rb)[i := v] ! j"
    using j assms len ring_index_less [OF assms]
    by (cases "j = i") (simp_all add: nth_entries [OF ok] nth_entries [OF assms(1)] length_entries)
qed

section \<open>Properties\<close>



text \<open>The remaining operations refine operations on the list of entries: writing through an index
  is a list update, the last entry is the last of the list, recycling behaves as a push that
  hands out the evicted slot, and clearing empties; each keeps the representation valid.\<close>

theorem ring_operations_refine:
  assumes "ring_ok rb"
  shows "(case ring_set i v rb of None \<Rightarrow> length (entries rb) \<le> i
           | Some rb' \<Rightarrow> i < length (entries rb) \<and> ring_ok rb' \<and> entries rb' = (entries rb)[i := v])
    \<and> ring_last rb = (if entries rb = [] then None else Some (last (entries rb)))
    \<and> next_evictable rb = (if ring_is_full rb then Some (hd (entries rb)) else None)
    \<and> push_or_recycle (\<lambda>_. (None, Some v)) rb = snd (ring_push v rb)
    \<and> (ring_is_full rb = (push_or_recycle (\<lambda>slot. (map_option f slot, None)) rb = snd (ring_push (f (hd (entries rb))) rb)
          \<and> advance_head (write_evictable v rb) = Some (snd (ring_push v rb))))
    \<and> ring_ok (ring_clear rb) \<and> entries (ring_clear rb) = []"
proof -
  have full: "len rb = cap rb \<Longrightarrow> head rb < length (buf rb)" "len rb = length (buf rb)" "len rb \<le> cap rb"
    using assms by (auto simp: ring_ok_def)
  have hd: "ring_is_full rb \<Longrightarrow> hd (entries rb) = buf rb ! head rb"
    using full by (simp add: entries_def ring_is_full_def hd_rotate)
  show ?thesis
  proof (intro conjI)
    show "case ring_set i v rb of None \<Rightarrow> length (entries rb) \<le> i
           | Some rb' \<Rightarrow> i < length (entries rb) \<and> ring_ok rb' \<and> entries rb' = (entries rb)[i := v]"
      using assms by (auto simp: ring_set_def length_entries ring_set_entries) (simp add: ring_ok_def)
    show "ring_last rb = (if entries rb = [] then None else Some (last (entries rb)))"
      using assms length_entries [OF assms] by (auto simp: ring_last_def ring_get_entries last_conv_nth)
    show "next_evictable rb = (if ring_is_full rb then Some (hd (entries rb)) else None)"
      by (simp add: next_evictable_def hd)
    show "push_or_recycle (\<lambda>_. (None, Some v)) rb = snd (ring_push v rb)"
      using full by (auto simp: push_or_recycle_def ring_push_def Let_def ring_is_full_def)
    show "ring_is_full rb = (push_or_recycle (\<lambda>slot. (map_option f slot, None)) rb = snd (ring_push (f (hd (entries rb))) rb)
          \<and> advance_head (write_evictable v rb) = Some (snd (ring_push v rb)))"
      using full hd
      by (auto simp: push_or_recycle_def ring_push_def Let_def ring_is_full_def advance_head_def write_evictable_def)
    show "ring_ok (ring_clear rb)" "entries (ring_clear rb) = []"
      using assms by (auto simp: ring_ok_def ring_clear_def entries_def)
  qed
qed

theorem ring_operations_refine_witness:
  "ring_last (snd (ring_push (7 :: nat) (the (ring_new 2)))) = Some 7"
  using ring_operations_refine [of "snd (ring_push (7 :: nat) (the (ring_new 2)))" 0 0 "\<lambda>x. x"]
  by (simp add: ring_new_def ring_push_def ring_ok_def entries_def ring_is_full_def Let_def)

end
