(* ===== verification/Abi.thy ===== *)
theory Abi
  imports Prelude
begin

text \<open>
  Numeric parts of the system call interface in \<^verbatim>\<open>panda-abi/src/lib.rs\<close>: operation
  codes, error codes, channel and event flags and the packing of a key event into
  event flags. \<^verbatim>\<open>isize\<close> is a 64-bit word read in two's complement.
\<close>

section \<open>Operation codes\<close>

datatype operation =
    OpFileRead | OpFileWrite | OpFileSeek | OpFileStat | OpFileClose | OpFileReaddir
  | OpProcessYield | OpProcessExit | OpProcessGetPid | OpProcessWait | OpProcessSignal
  | OpProcessBrk | OpProcessSleep | OpEnvironmentOpen | OpEnvironmentSpawn | OpEnvironmentLog
  | OpEnvironmentTime | OpEnvironmentOpendir | OpEnvironmentMount | OpEnvironmentConnect
  | OpDirectoryCreateFile | OpDirectoryUnlinkFile | OpDirectoryMkdir | OpDirectoryRmdir
  | OpBufferAlloc | OpBufferMap | OpBufferResize | OpBufferFree | OpFileReadBuffer
  | OpFileWriteBuffer | OpDisplayInfo | OpDisplayMap | OpDisplayFlush | OpMailboxCreate
  | OpMailboxWait | OpMailboxPoll | OpChannelCreate | OpChannelSend | OpChannelRecv
  | OpSchemeRegister

primrec op_as_u32 :: "operation \<Rightarrow> u32" where
  "op_as_u32 OpFileRead = 0x10000"
| "op_as_u32 OpFileWrite = 0x10001"
| "op_as_u32 OpFileSeek = 0x10002"
| "op_as_u32 OpFileStat = 0x10003"
| "op_as_u32 OpFileClose = 0x10004"
| "op_as_u32 OpFileReaddir = 0x10005"
| "op_as_u32 OpProcessYield = 0x20000"
| "op_as_u32 OpProcessExit = 0x20001"
| "op_as_u32 OpProcessGetPid = 0x20002"
| "op_as_u32 OpProcessWait = 0x20003"
| "op_as_u32 OpProcessSignal = 0x20004"
| "op_as_u32 OpProcessBrk = 0x20005"
| "op_as_u32 OpProcessSleep = 0x20006"
| "op_as_u32 OpEnvironmentOpen = 0x30000"
| "op_as_u32 OpEnvironmentSpawn = 0x30001"
| "op_as_u32 OpEnvironmentLog = 0x30002"
| "op_as_u32 OpEnvironmentTime = 0x30003"
| "op_as_u32 OpEnvironmentOpendir = 0x30004"
| "op_as_u32 OpEnvironmentMount = 0x30005"
| "op_as_u32 OpEnvironmentConnect = 0x30006"
| "op_as_u32 OpDirectoryCreateFile = 0x80000"
| "op_as_u32 OpDirectoryUnlinkFile = 0x80001"
| "op_as_u32 OpDirectoryMkdir = 0x80002"
| "op_as_u32 OpDirectoryRmdir = 0x80003"
| "op_as_u32 OpBufferAlloc = 0x40000"
| "op_as_u32 OpBufferMap = 0x40001"
| "op_as_u32 OpBufferResize = 0x40002"
| "op_as_u32 OpBufferFree = 0x40003"
| "op_as_u32 OpFileReadBuffer = 0x50000"
| "op_as_u32 OpFileWriteBuffer = 0x50001"
| "op_as_u32 OpDisplayInfo = 0x61000"
| "op_as_u32 OpDisplayMap = 0x61001"
| "op_as_u32 OpDisplayFlush = 0x61002"
| "op_as_u32 OpMailboxCreate = 0x70000"
| "op_as_u32 OpMailboxWait = 0x70001"
| "op_as_u32 OpMailboxPoll = 0x70002"
| "op_as_u32 OpChannelCreate = 0x71000"
| "op_as_u32 OpChannelSend = 0x71001"
| "op_as_u32 OpChannelRecv = 0x71002"
| "op_as_u32 OpSchemeRegister = 0x90000"

definition op_from_u32 :: "u32 \<Rightarrow> operation option" where
  "op_from_u32 v =
     (if v = 0x10000 then Some OpFileRead
      else if v = 0x10001 then Some OpFileWrite
      else if v = 0x10002 then Some OpFileSeek
      else if v = 0x10003 then Some OpFileStat
      else if v = 0x10004 then Some OpFileClose
      else if v = 0x10005 then Some OpFileReaddir
      else if v = 0x20000 then Some OpProcessYield
      else if v = 0x20001 then Some OpProcessExit
      else if v = 0x20002 then Some OpProcessGetPid
      else if v = 0x20003 then Some OpProcessWait
      else if v = 0x20004 then Some OpProcessSignal
      else if v = 0x20005 then Some OpProcessBrk
      else if v = 0x20006 then Some OpProcessSleep
      else if v = 0x30000 then Some OpEnvironmentOpen
      else if v = 0x30001 then Some OpEnvironmentSpawn
      else if v = 0x30002 then Some OpEnvironmentLog
      else if v = 0x30003 then Some OpEnvironmentTime
      else if v = 0x30004 then Some OpEnvironmentOpendir
      else if v = 0x30005 then Some OpEnvironmentMount
      else if v = 0x30006 then Some OpEnvironmentConnect
      else if v = 0x80000 then Some OpDirectoryCreateFile
      else if v = 0x80001 then Some OpDirectoryUnlinkFile
      else if v = 0x80002 then Some OpDirectoryMkdir
      else if v = 0x80003 then Some OpDirectoryRmdir
      else if v = 0x40000 then Some OpBufferAlloc
      else if v = 0x40001 then Some OpBufferMap
      else if v = 0x40002 then Some OpBufferResize
      else if v = 0x40003 then Some OpBufferFree
      else if v = 0x50000 then Some OpFileReadBuffer
      else if v = 0x50001 then Some OpFileWriteBuffer
      else if v = 0x61000 then Some OpDisplayInfo
      else if v = 0x61001 then Some OpDisplayMap
      else if v = 0x61002 then Some OpDisplayFlush
      else if v = 0x70000 then Some OpMailboxCreate
      else if v = 0x70001 then Some OpMailboxWait
      else if v = 0x70002 then Some OpMailboxPoll
      else if v = 0x71000 then Some OpChannelCreate
      else if v = 0x71001 then Some OpChannelSend
      else if v = 0x71002 then Some OpChannelRecv
      else if v = 0x90000 then Some OpSchemeRegister
      else None)"

section \<open>Error codes\<close>

datatype error_code =
    EcOk | EcNotFound | EcInvalidOffset | EcNotReadable | EcNotWritable | EcNotSeekable
  | EcNotSupported | EcPermissionDenied | EcIoError | EcWouldBlock | EcInvalidArgument
  | EcProtocol | EcInvalidHandle | EcTooManyHandles | EcChannelClosed | EcMessageTooLarge
  | EcBufferTooSmall | EcAlreadyExists | EcNoSpace | EcNotEmpty | EcIsDirectory
  | EcNotDirectory | EcBusy

primrec error_as_u32 :: "error_code \<Rightarrow> u32" where
  "error_as_u32 EcOk = 0"
| "error_as_u32 EcNotFound = 1"
| "error_as_u32 EcInvalidOffset = 2"
| "error_as_u32 EcNotReadable = 3"
| "error_as_u32 EcNotWritable = 4"
| "error_as_u32 EcNotSeekable = 5"
| "error_as_u32 EcNotSupported = 6"
| "error_as_u32 EcPermissionDenied = 7"
| "error_as_u32 EcIoError = 8"
| "error_as_u32 EcWouldBlock = 9"
| "error_as_u32 EcInvalidArgument = 10"
| "error_as_u32 EcProtocol = 11"
| "error_as_u32 EcInvalidHandle = 12"
| "error_as_u32 EcTooManyHandles = 13"
| "error_as_u32 EcChannelClosed = 14"
| "error_as_u32 EcMessageTooLarge = 15"
| "error_as_u32 EcBufferTooSmall = 16"
| "error_as_u32 EcAlreadyExists = 17"
| "error_as_u32 EcNoSpace = 18"
| "error_as_u32 EcNotEmpty = 19"
| "error_as_u32 EcIsDirectory = 20"
| "error_as_u32 EcNotDirectory = 21"
| "error_as_u32 EcBusy = 22"

definition to_isize :: "error_code \<Rightarrow> u64" where
  "to_isize e = - ucast (error_as_u32 e)"

definition from_isize :: "u64 \<Rightarrow> error_code option" where
  "from_isize value =
     (let discriminant = ucast (- value) :: u32 in
      if discriminant = 0 then Some EcOk
      else if discriminant = 1 then Some EcNotFound
      else if discriminant = 2 then Some EcInvalidOffset
      else if discriminant = 3 then Some EcNotReadable
      else if discriminant = 4 then Some EcNotWritable
      else if discriminant = 5 then Some EcNotSeekable
      else if discriminant = 6 then Some EcNotSupported
      else if discriminant = 7 then Some EcPermissionDenied
      else if discriminant = 8 then Some EcIoError
      else if discriminant = 9 then Some EcWouldBlock
      else if discriminant = 10 then Some EcInvalidArgument
      else if discriminant = 11 then Some EcProtocol
      else if discriminant = 12 then Some EcInvalidHandle
      else if discriminant = 13 then Some EcTooManyHandles
      else if discriminant = 14 then Some EcChannelClosed
      else if discriminant = 15 then Some EcMessageTooLarge
      else if discriminant = 16 then Some EcBufferTooSmall
      else if discriminant = 17 then Some EcAlreadyExists
      else if discriminant = 18 then Some EcNoSpace
      else if discriminant = 19 then Some EcNotEmpty
      else if discriminant = 20 then Some EcIsDirectory
      else if discriminant = 21 then Some EcNotDirectory
      else if discriminant = 22 then Some EcBusy
      else None)"

section \<open>Flags\<close>

definition MAX_MESSAGE_SIZE :: nat where "MAX_MESSAGE_SIZE = 4096"
definition DEFAULT_QUEUE_CAPACITY :: nat where "DEFAULT_QUEUE_CAPACITY = 16"
definition MAX_MAILBOX_EVENTS :: nat where "MAX_MAILBOX_EVENTS = 256"

definition CHANNEL_NONBLOCK :: u32 where "CHANNEL_NONBLOCK = push_bit 0 1"

definition EVENT_CHANNEL_READABLE :: u32 where "EVENT_CHANNEL_READABLE = push_bit 0 1"
definition EVENT_CHANNEL_WRITABLE :: u32 where "EVENT_CHANNEL_WRITABLE = push_bit 1 1"
definition EVENT_CHANNEL_CLOSED :: u32 where "EVENT_CHANNEL_CLOSED = push_bit 2 1"
definition EVENT_PROCESS_EXITED :: u32 where "EVENT_PROCESS_EXITED = push_bit 3 1"
definition EVENT_KEYBOARD_KEY :: u32 where "EVENT_KEYBOARD_KEY = push_bit 4 1"
definition EVENT_DISPLAY_CHANGED :: u32 where "EVENT_DISPLAY_CHANGED = push_bit 5 1"

definition flags_contains :: "u32 \<Rightarrow> u32 \<Rightarrow> bool" where
  "flags_contains flags other \<longleftrightarrow> flags AND other \<noteq> 0"

definition flags_contains_all :: "u32 \<Rightarrow> u32 \<Rightarrow> bool" where
  "flags_contains_all flags other \<longleftrightarrow> flags AND other = other"

definition flags_or :: "u32 \<Rightarrow> u32 \<Rightarrow> u32" where
  "flags_or flags other = flags OR other"

section \<open>Key events\<close>

definition encode_key_event :: "u16 \<Rightarrow> u8 \<Rightarrow> u32" where
  "encode_key_event code value =
     EVENT_KEYBOARD_KEY OR push_bit 8 (ucast code) OR push_bit 24 (ucast value AND 0x3)"

definition decode_key_code :: "u32 \<Rightarrow> u16" where
  "decode_key_code flags = ucast (drop_bit 8 flags AND 0xFFFF)"

definition decode_key_value :: "u32 \<Rightarrow> u8" where
  "decode_key_value flags = ucast (drop_bit 24 flags AND 0x3)"

section \<open>Facts\<close>

lemma op_from_as_u32 [simp]: "op_from_u32 (op_as_u32 op) = Some op"
  by (cases op) (simp_all add: op_from_u32_def)

lemma op_from_u32_SomeD: "op_from_u32 v = Some op \<Longrightarrow> v = op_as_u32 op"
  unfolding op_from_u32_def by (auto split: if_splits)

lemma error_from_to_isize [simp]: "from_isize (to_isize e) = Some e"
  by (cases e) (simp_all add: from_isize_def to_isize_def)

lemma mask_lits: "(0x3 :: 'a::len word) = mask 2" "(0xFFFF :: 'a::len word) = mask 16"
  by (simp_all add: mask_eq_exp_minus_1)

lemma decode_key_code_encode: "decode_key_code (encode_key_event code value) = code"
  unfolding decode_key_code_def encode_key_event_def EVENT_KEYBOARD_KEY_def mask_lits
  by (rule bit_word_eqI) (auto simp: bit_simps)

lemma decode_key_value_encode: "decode_key_value (encode_key_event code value) = value AND 0x3"
  unfolding decode_key_value_def encode_key_event_def EVENT_KEYBOARD_KEY_def mask_lits
  by (rule bit_word_eqI) (auto simp: bit_simps dest: bit_imp_le_length)

lemma key_event_flag: "flags_contains (encode_key_event code v) EVENT_KEYBOARD_KEY"
proof -
  have "bit (encode_key_event code v AND EVENT_KEYBOARD_KEY) 4"
    by (simp add: encode_key_event_def EVENT_KEYBOARD_KEY_def bit_simps)
  then show ?thesis
    by (auto simp: flags_contains_def)
qed

lemma key_event_other:
  "encode_key_event code v AND (EVENT_CHANNEL_READABLE OR EVENT_CHANNEL_WRITABLE
      OR EVENT_CHANNEL_CLOSED OR EVENT_PROCESS_EXITED OR EVENT_DISPLAY_CHANGED) = 0"
  unfolding encode_key_event_def EVENT_KEYBOARD_KEY_def EVENT_CHANNEL_READABLE_def
    EVENT_CHANNEL_WRITABLE_def EVENT_CHANNEL_CLOSED_def EVENT_PROCESS_EXITED_def EVENT_DISPLAY_CHANGED_def
  by (rule bit_word_eqI) (auto simp: bit_simps simp del: push_bit_of_1)

section \<open>Properties\<close>

text \<open>an operation code is accepted exactly when it is the code of an operation, and then as
  that operation: codes are unambiguous and no other number reaches a handler.\<close>

theorem op_from_u32_exact: "op_from_u32 v = Some op \<longleftrightarrow> v = op_as_u32 op"
  using op_from_u32_SomeD by auto

text \<open>every error code survives the trip through a system call result, where it is a negative
  number (zero for \<^verbatim>\<open>Ok\<close>) and so never mistaken for a success value.\<close>

theorem error_code_round_trip:
  "from_isize (to_isize e) = Some e \<and> - 23 < sint (to_isize e) \<and> sint (to_isize e) \<le> 0
   \<and> (sint (to_isize e) = 0 \<longleftrightarrow> e = EcOk)"
  by (cases e) (simp_all add: from_isize_def to_isize_def)

text \<open>a key event packed into event flags yields its key code and the low two bits of its value
  again, and it is seen as a keyboard event and as no other kind.\<close>

theorem key_event_round_trip:
  "decode_key_code (encode_key_event code v) = code
   \<and> decode_key_value (encode_key_event code v) = v AND 0x3
   \<and> flags_contains (encode_key_event code v) EVENT_KEYBOARD_KEY
   \<and> encode_key_event code v AND (EVENT_CHANNEL_READABLE OR EVENT_CHANNEL_WRITABLE
        OR EVENT_CHANNEL_CLOSED OR EVENT_PROCESS_EXITED OR EVENT_DISPLAY_CHANGED) = 0"
  by (simp add: decode_key_code_encode decode_key_value_encode key_event_flag key_event_other)

end
