(* ===== verification/Mailbox.thy ===== *)
theory Mailbox
  imports Abi BTree_Map
begin

text \<open>
  Wakers of \<^verbatim>\<open>panda-kernel/src/process/waker.rs\<close> and mailboxes of
  \<^verbatim>\<open>panda-kernel/src/resource/mailbox.rs\<close>. A call of \<^verbatim>\<open>scheduler::wake_process\<close> is
  an output: operations that may wake processes return the list of those woken.
  The locks of the source protect each operation as a whole, so an operation is
  one state transformation. A weak reference to a mailbox is its number in a store
  in which dropped mailboxes are absent.
\<close>

type_synonym pid = nat
type_synonym handle_id = u64

section \<open>Wakers\<close>

record io_waker =
  signaled :: bool
  waiting :: "pid option"

definition waker_new :: io_waker where
  "waker_new = \<lparr>signaled = False, waiting = None\<rparr>"

definition wake :: "io_waker \<Rightarrow> pid list \<times> io_waker" where
  "wake w = (case waiting w of Some p \<Rightarrow> [p] | None \<Rightarrow> [], w\<lparr>signaled := True, waiting := None\<rparr>)"

definition is_signaled :: "io_waker \<Rightarrow> bool" where
  "is_signaled w = signaled w"

definition waker_clear :: "io_waker \<Rightarrow> io_waker" where
  "waker_clear w = w\<lparr>signaled := False\<rparr>"

definition set_waiting :: "pid \<Rightarrow> io_waker \<Rightarrow> io_waker" where
  "set_waiting p w = w\<lparr>waiting := Some p\<rparr>"

section \<open>Mailboxes\<close>

record mailbox =
  attached :: "(handle_id, u32) btree"
  pending :: "(handle_id \<times> u32) list"
  mb_waker :: io_waker

definition mailbox_new :: mailbox where
  "mailbox_new = \<lparr>attached = [], pending = [], mb_waker = waker_new\<rparr>"

definition mailbox_attach :: "handle_id \<Rightarrow> u32 \<Rightarrow> mailbox \<Rightarrow> mailbox" where
  "mailbox_attach h event_mask m = m\<lparr>attached := bt_insert h event_mask (attached m)\<rparr>"

definition mailbox_detach :: "handle_id \<Rightarrow> mailbox \<Rightarrow> mailbox" where
  "mailbox_detach h m = m\<lparr>attached := bt_remove h (attached m),
     pending := filter (\<lambda>(k, _). k \<noteq> h) (pending m)\<rparr>"

text \<open>The search for an entry to merge into: \<^verbatim>\<open>None\<close> when the handle has none.\<close>

fun coalesce :: "handle_id \<Rightarrow> u32 \<Rightarrow> (handle_id \<times> u32) list \<Rightarrow> (handle_id \<times> u32) list option" where
  "coalesce h events [] = None"
| "coalesce h events ((k, f) # rest) =
     (if k = h then Some ((k, f OR events) # rest)
      else map_option (Cons (k, f)) (coalesce h events rest))"

definition push_event_bounded ::
  "(handle_id \<times> u32) list \<Rightarrow> handle_id \<Rightarrow> u32 \<Rightarrow> (handle_id \<times> u32) list" where
  "push_event_bounded q h events =
     (case coalesce h events q of
        Some q' \<Rightarrow> q'
      | None \<Rightarrow> (if length q \<ge> MAX_MAILBOX_EVENTS then tl q else q) @ [(h, events)])"

definition post_event :: "handle_id \<Rightarrow> u32 \<Rightarrow> mailbox \<Rightarrow> pid list \<times> mailbox" where
  "post_event h events m =
     (case bt_get (attached m) h of
        None \<Rightarrow> ([], m)
      | Some msk \<Rightarrow>
          if events AND msk \<noteq> 0 then
            let (woken, w) = wake (mb_waker m) in
            (woken, m\<lparr>pending := push_event_bounded (pending m) h events, mb_waker := w\<rparr>)
          else ([], m))"

definition mailbox_wait :: "mailbox \<Rightarrow> (handle_id \<times> u32) option \<times> mailbox" where
  "mailbox_wait m = (case pending m of
     [] \<Rightarrow> (None, m) | ev # rest \<Rightarrow> (Some ev, m\<lparr>pending := rest\<rparr>))"

definition mailbox_poll :: "mailbox \<Rightarrow> (handle_id \<times> u32) option \<times> mailbox" where
  "mailbox_poll m = (case pending m of
     [] \<Rightarrow> (None, m) | ev # rest \<Rightarrow> (Some ev, m\<lparr>pending := rest\<rparr>))"

definition has_pending :: "mailbox \<Rightarrow> bool" where
  "has_pending m \<longleftrightarrow> pending m \<noteq> []"

definition clear_waker :: "mailbox \<Rightarrow> mailbox" where
  "clear_waker m = m\<lparr>mb_waker := waker_clear (mb_waker m)\<rparr>"

text \<open>The blocking wait of \<^verbatim>\<open>syscall/mailbox.rs\<close> after the handle is resolved: take an event,
  or register as waiting and look again; no event then means the process blocks.\<close>

definition wait_poll :: "pid \<Rightarrow> mailbox \<Rightarrow> (handle_id \<times> u32) option \<times> mailbox" where
  "wait_poll p m = (case mailbox_wait m of
     (Some ev, m') \<Rightarrow> (Some ev, m')
   | (None, m') \<Rightarrow> mailbox_wait (m'\<lparr>mb_waker := set_waiting p (mb_waker m')\<rparr>))"

section \<open>References held by resources\<close>

record mailbox_ref =
  ref_mailbox :: nat
  ref_handle :: handle_id

record ipc =
  mailboxes :: "nat \<Rightarrow> mailbox option"
  woken :: "pid list"

definition ref_post_event :: "mailbox_ref \<Rightarrow> u32 \<Rightarrow> ipc \<Rightarrow> ipc" where
  "ref_post_event r events s =
     (case mailboxes s (ref_mailbox r) of
        None \<Rightarrow> s
      | Some m \<Rightarrow>
          let (ps, m') = post_event (ref_handle r) events m in
          s\<lparr>mailboxes := (mailboxes s)(ref_mailbox r \<mapsto> m'), woken := woken s @ ps\<rparr>)"

section \<open>The invariant\<close>

definition mailbox_ok :: "mailbox \<Rightarrow> bool" where
  "mailbox_ok m \<longleftrightarrow> bt_invar (attached m) \<and> distinct (map fst (pending m))
     \<and> length (pending m) \<le> MAX_MAILBOX_EVENTS
     \<and> set (map fst (pending m)) \<subseteq> set (map fst (attached m))"

lemma coalesce_None: "coalesce h events q = None \<longleftrightarrow> h \<notin> fst ` set q"
  by (induction q rule: coalesce.induct) (auto split: if_splits)

lemma coalesce_Some:
  "coalesce h events q = Some q' \<Longrightarrow> map fst q' = map fst q
     \<and> map_of q' = (\<lambda>k. if k = h then map_option (\<lambda>f. f OR events) (map_of q h) else map_of q k)"
  by (induction q arbitrary: q') (auto simp: fun_eq_iff)

lemma push_keys:
  "fst ` set (push_event_bounded q h events) \<subseteq> insert h (fst ` set q)"
proof (cases "coalesce h events q")
  case None
  then show ?thesis by (cases q) (auto simp: push_event_bounded_def)
next
  case (Some q')
  then have "fst ` set q' = fst ` set q"
    using coalesce_Some [OF Some] by (metis list.set_map)
  then show ?thesis using Some by (auto simp: push_event_bounded_def)
qed

lemma push_ok:
  assumes "distinct (map fst q)" "length q \<le> MAX_MAILBOX_EVENTS"
  shows "distinct (map fst (push_event_bounded q h events))"
    and "length (push_event_bounded q h events) \<le> MAX_MAILBOX_EVENTS"
proof -
  have "distinct (map fst (push_event_bounded q h events))
      \<and> length (push_event_bounded q h events) \<le> MAX_MAILBOX_EVENTS"
  proof (cases "coalesce h events q")
    case None
    then have "h \<notin> fst ` set q" by (simp add: coalesce_None)
    moreover have "h \<notin> fst ` set (tl q)"
      using calculation by (cases q) auto
    ultimately show ?thesis
      using assms None by (cases q) (auto simp: push_event_bounded_def MAX_MAILBOX_EVENTS_def)
  next
    case (Some q')
    then show ?thesis
      using assms coalesce_Some [OF Some] by (simp add: push_event_bounded_def) (metis length_map)
  qed
  then show "distinct (map fst (push_event_bounded q h events))"
    "length (push_event_bounded q h events) \<le> MAX_MAILBOX_EVENTS" by blast+
qed

lemma map_of_push:
  assumes "h \<in> fst ` set q \<or> length q < MAX_MAILBOX_EVENTS"
  shows "map_of (push_event_bounded q h events) k =
    (if k = h then Some (case map_of q h of None \<Rightarrow> events | Some f \<Rightarrow> f OR events) else map_of q k)"
proof (cases "coalesce h events q")
  case None
  then have h: "h \<notin> fst ` set q" by (simp add: coalesce_None)
  then have "map_of q h = None" by (simp add: map_of_eq_None_iff)
  then show ?thesis
    using None assms h
    by (auto simp: push_event_bounded_def map_add_def split: option.splits)
next
  case (Some q')
  then have "map_of q h \<noteq> None"
    using coalesce_None [of h events q] by (simp add: map_of_eq_None_iff)
  then show ?thesis
    using coalesce_Some [OF Some] Some by (auto simp: push_event_bounded_def)
qed

lemma mailbox_ok_new: "mailbox_ok mailbox_new"
  by (simp add: mailbox_ok_def mailbox_new_def bt.invar_empty)

lemma mailbox_ok_attach: "mailbox_ok m \<Longrightarrow> mailbox_ok (mailbox_attach h msk m)"
  by (auto simp: mailbox_ok_def mailbox_attach_def bt_invar_insert)

lemma mailbox_ok_detach: "mailbox_ok m \<Longrightarrow> mailbox_ok (mailbox_detach h m)"
  using bt_invar_remove [of "attached m" h]
  by (auto simp: mailbox_ok_def mailbox_detach_def bt_remove_def case_prod_unfold
      distinct_map_filter intro: order_trans [OF length_filter_le])

lemma mailbox_ok_post:
  assumes "mailbox_ok m"
  shows "mailbox_ok (snd (post_event h events m))"
proof (cases "bt_get (attached m) h")
  case None
  then show ?thesis using assms by (simp add: post_event_def)
next
  case (Some msk)
  then have "h \<in> fst ` set (attached m)"
    by (auto simp: bt_get_def dest!: map_of_SomeD intro: rev_image_eqI)
  then show ?thesis
    using assms Some push_ok [of "pending m" h events] push_keys [of "pending m" h events]
    by (auto simp: mailbox_ok_def post_event_def Let_def wake_def)
qed

lemma mailbox_ok_wait: "mailbox_ok m \<Longrightarrow> mailbox_ok (snd (mailbox_wait m))"
  by (cases "pending m") (simp_all add: mailbox_ok_def mailbox_wait_def)

lemma mailbox_ok_waker: "mailbox_ok (m\<lparr>mb_waker := w\<rparr>) \<longleftrightarrow> mailbox_ok m"
  by (simp add: mailbox_ok_def)

lemma mailbox_ok_wait_poll: "mailbox_ok m \<Longrightarrow> mailbox_ok (snd (wait_poll p m))"
  using mailbox_ok_wait [of m]
    mailbox_ok_wait [of "(snd (mailbox_wait m))\<lparr>mb_waker := set_waiting p (mb_waker (snd (mailbox_wait m)))\<rparr>"]
  by (auto simp: wait_poll_def mailbox_ok_waker split: prod.splits option.splits)

lemma pending_room:
  assumes "mailbox_ok m" "bt_get (attached m) h = Some msk"
  shows "h \<in> fst ` set (pending m) \<or> length (pending m) < length (attached m)"
proof (rule disjCI)
  let ?A = "fst ` set (attached m)"
  assume "\<not> length (pending m) < length (attached m)"
  then have "card ?A \<le> card (fst ` set (pending m))"
    using assms(1) distinct_card [of "map fst (pending m)"] card_length [of "map fst (attached m)"]
    by (simp add: mailbox_ok_def)
  then have "fst ` set (pending m) = ?A"
    using assms(1) by (intro card_seteq) (auto simp: mailbox_ok_def)
  then show "h \<in> fst ` set (pending m)"
    using assms(2) by (auto simp: bt_get_def dest!: map_of_SomeD intro: rev_image_eqI)
qed

section \<open>Histories\<close>

datatype mailbox_op =
    MAttach handle_id u32
  | MDetach handle_id
  | MPost handle_id u32
  | MPoll
  | MWait pid
  | MClear

fun mailbox_step :: "mailbox_op \<Rightarrow> mailbox \<Rightarrow> mailbox" where
  "mailbox_step (MAttach h msk) m = mailbox_attach h msk m"
| "mailbox_step (MDetach h) m = mailbox_detach h m"
| "mailbox_step (MPost h events) m = snd (post_event h events m)"
| "mailbox_step MPoll m = snd (mailbox_poll m)"
| "mailbox_step (MWait p) m = snd (wait_poll p m)"
| "mailbox_step MClear m = clear_waker m"

definition mailbox_run :: "mailbox_op list \<Rightarrow> mailbox" where
  "mailbox_run ops = fold mailbox_step ops mailbox_new"

lemma mailbox_poll_eq: "mailbox_poll = mailbox_wait"
  by (simp add: fun_eq_iff mailbox_poll_def mailbox_wait_def)

lemma mailbox_ok_step: "mailbox_ok m \<Longrightarrow> mailbox_ok (mailbox_step p m)"
  by (cases p) (simp_all add: mailbox_ok_attach mailbox_ok_detach mailbox_ok_post mailbox_ok_wait
      mailbox_ok_wait_poll mailbox_poll_eq clear_waker_def mailbox_ok_waker)

lemma mailbox_ok_fold: "mailbox_ok m \<Longrightarrow> mailbox_ok (fold mailbox_step ops m)"
  by (induction ops arbitrary: m) (simp_all add: mailbox_ok_step)

lemma post_event_accepted:
  assumes "bt_get (attached m) h = Some msk" "events AND msk \<noteq> 0"
  shows "post_event h events m = (fst (wake (mb_waker m)),
    m\<lparr>pending := push_event_bounded (pending m) h events, mb_waker := snd (wake (mb_waker m))\<rparr>)"
  using assms by (simp add: post_event_def case_prod_unfold Let_def)

lemma encode_key_event_or:
  "encode_key_event c1 v1 OR encode_key_event c2 v2 = encode_key_event (c1 OR c2) (v1 OR v2)"
  unfolding encode_key_event_def by (rule bit_word_eqI) (auto simp: bit_simps)

lemma key_event_masked:
  assumes "encode_key_event c v AND msk = 0"
  shows "msk AND EVENT_KEYBOARD_KEY = 0"
proof -
  have "\<not> bit (encode_key_event c v AND msk) 4" using assms by simp
  then have "\<not> bit msk 4" by (simp add: encode_key_event_def EVENT_KEYBOARD_KEY_def bit_simps)
  then show ?thesis
    by (intro bit_word_eqI) (auto simp: EVENT_KEYBOARD_KEY_def bit_simps simp del: push_bit_of_1)
qed

section \<open>Properties\<close>

text \<open>C25: Whatever sequence of attach, detach, post, poll, wait and clear a mailbox sees, its
  queue holds at most 256 events, at most one per handle, and only for attached handles.\<close>

theorem mailbox_run_bounded:
  "length (pending (mailbox_run ops)) \<le> 256
   \<and> distinct (map fst (pending (mailbox_run ops)))
   \<and> fst ` set (pending (mailbox_run ops)) \<subseteq> dom (bt_get (attached (mailbox_run ops)))"
  using mailbox_ok_fold [OF mailbox_ok_new, of ops]
  by (simp add: mailbox_ok_def mailbox_run_def MAX_MAILBOX_EVENTS_def bt_get_eq dom_map_of_conv_image_fst)

text \<open>C15: As long as no more than 256 handles are attached, posting never loses an event: an
  accepted event is merged into what is pending for its handle, and the events pending for
  every other handle stay as they are.\<close>

theorem post_event_no_loss:
  assumes "mailbox_ok m" "length (attached m) \<le> 256"
    and "bt_get (attached m) h = Some msk" "events AND msk \<noteq> 0"
  shows "map_of (pending (snd (post_event h events m))) k =
    (if k = h then Some (case map_of (pending m) h of None \<Rightarrow> events | Some f \<Rightarrow> f OR events)
     else map_of (pending m) k)"
proof -
  have "h \<in> fst ` set (pending m) \<or> length (pending m) < MAX_MAILBOX_EVENTS"
    using pending_room [OF assms(1,3)] assms(2) by (auto simp: MAX_MAILBOX_EVENTS_def)
  then show ?thesis
    using map_of_push by (simp add: post_event_accepted [OF assms(3,4)])
qed

theorem post_event_no_loss_witness:
  "map_of (pending (snd (post_event 5 2 (mailbox_run [MAttach 5 3, MAttach 6 1, MPost 5 1, MPost 6 1])))) 5
     = Some 3"
  using post_event_no_loss [of "mailbox_run [MAttach 5 3, MAttach 6 1, MPost 5 1, MPost 6 1]" 5 3 2 5]
    mailbox_ok_fold [OF mailbox_ok_new, of "[MAttach 5 3, MAttach 6 1, MPost 5 1, MPost 6 1]"]
  by (simp add: mailbox_run_def mailbox_new_def mailbox_attach_def post_event_def bt_get_def
      push_event_bounded_def wake_def waker_new_def MAX_MAILBOX_EVENTS_def)

text \<open>C26: A process that blocks in a mailbox wait is not forgotten. Blocking leaves it registered
  with no event pending; the next accepted event wakes exactly that process, and its
  renewed wait then returns that event.\<close>

theorem wait_no_lost_wakeup:
  assumes "wait_poll p m = (None, m')"
    and "bt_get (attached m') h = Some msk" "events AND msk \<noteq> 0"
    and "post_event h events m' = (ps, m'')"
  shows "pending m' = [] \<and> ps = [p] \<and> fst (wait_poll p m'') = Some (h, events)"
proof -
  have "pending m' = [] \<and> waiting (mb_waker m') = Some p"
    using assms(1) by (auto simp: wait_poll_def mailbox_wait_def set_waiting_def split: list.splits)
  then show ?thesis
    using assms(4) by (auto simp: post_event_accepted [OF assms(2,3)] wake_def
        push_event_bounded_def MAX_MAILBOX_EVENTS_def wait_poll_def mailbox_wait_def)
qed

theorem wait_no_lost_wakeup_witness:
  "fst (post_event 5 1 (mailbox_run [MAttach 5 1, MWait 7])) = [7]"
  using wait_no_lost_wakeup [of 7 "mailbox_run [MAttach 5 1]" "mailbox_run [MAttach 5 1, MWait 7]" 5 1 1
      "fst (post_event 5 1 (mailbox_run [MAttach 5 1, MWait 7]))"
      "snd (post_event 5 1 (mailbox_run [MAttach 5 1, MWait 7]))"]
  by (simp add: mailbox_run_def mailbox_new_def mailbox_attach_def wait_poll_def mailbox_wait_def
      bt_get_def)

text \<open>C27: Two key events posted for one handle before the process looks are merged by OR like
  level-triggered flags: a single event is delivered and the key code it carries is the OR of the
  two codes, in general neither of them.\<close>

theorem key_events_merged:
  assumes "bt_get (attached m) h = Some msk" "msk AND EVENT_KEYBOARD_KEY \<noteq> 0" "pending m = []"
  shows "fst (mailbox_poll (snd (post_event h (encode_key_event c2 v2)
      (snd (post_event h (encode_key_event c1 v1) m)))))
    = Some (h, encode_key_event (c1 OR c2) (v1 OR v2))"
proof -
  have a: "encode_key_event c v AND msk \<noteq> 0" for c v
    using assms(2) key_event_masked [of c v msk] by auto
  show ?thesis
    using assms(1,3)
    by (simp add: post_event_accepted [OF _ a] push_event_bounded_def mailbox_poll_def
        MAX_MAILBOX_EVENTS_def encode_key_event_or)
qed

theorem key_events_merged_witness:
  "fst (mailbox_poll (snd (post_event 5 (encode_key_event 17 1)
      (snd (post_event 5 (encode_key_event 32 1) (mailbox_run [MAttach 5 EVENT_KEYBOARD_KEY]))))))
    = Some (5, encode_key_event 49 1)"
  using key_events_merged [of "mailbox_run [MAttach 5 EVENT_KEYBOARD_KEY]" 5 EVENT_KEYBOARD_KEY 17 1 32 1]
  by (simp add: mailbox_run_def mailbox_new_def mailbox_attach_def bt_get_def EVENT_KEYBOARD_KEY_def)

end
