(* ===== verification/Fifo.thy ===== *)
theory Fifo
  imports Prelude
begin

text \<open>
  The contract of a first-in first-out queue that is driven by a sequence of
  operations: each operation may put items in and may hand items out. Clients get
  the order and no-loss theorem for whole histories, and with a capacity the
  back-pressure bound.
\<close>

primrec runs :: "('op \<Rightarrow> 's \<Rightarrow> 's) \<Rightarrow> 'op list \<Rightarrow> 's \<Rightarrow> 's" where
  "runs step [] s = s"
| "runs step (p # ps) s = runs step ps (step p s)"

text \<open>What the operations of a history emit, each observed in the state it runs in.\<close>

primrec trace ::
  "('op \<Rightarrow> 's \<Rightarrow> 's) \<Rightarrow> ('op \<Rightarrow> 's \<Rightarrow> 'm list) \<Rightarrow> 'op list \<Rightarrow> 's \<Rightarrow> 'm list" where
  "trace step obs [] s = []"
| "trace step obs (p # ps) s = obs p s @ trace step obs ps (step p s)"

locale fifo =
  fixes step :: "'op \<Rightarrow> 's \<Rightarrow> 's"
    and contents :: "'s \<Rightarrow> 'm list"
    and puts :: "'op \<Rightarrow> 's \<Rightarrow> 'm list"
    and gets :: "'op \<Rightarrow> 's \<Rightarrow> 'm list"
  assumes step_fifo: "contents s @ puts p s = gets p s @ contents (step p s)"
begin

lemma run_fifo: "contents s @ trace step puts ps s = trace step gets ps s @ contents (runs step ps s)"
proof (induction ps arbitrary: s)
  case (Cons p ps)
  have "contents s @ trace step puts (p # ps) s = gets p s @ contents (step p s) @ trace step puts ps (step p s)"
    using step_fifo [of s p] by (metis trace.simps(2) append_assoc)
  then show ?case using Cons.IH [of "step p s"] by simp
qed simp

end

locale bounded_fifo = fifo step contents puts gets
  for step :: "'op \<Rightarrow> 's \<Rightarrow> 's" and contents :: "'s \<Rightarrow> 'm list" and puts gets +
  fixes ok :: "'s \<Rightarrow> bool" and cap :: nat
  assumes ok_step: "ok s \<Longrightarrow> ok (step p s)"
    and ok_bound: "ok s \<Longrightarrow> length (contents s) \<le> cap"
begin

lemma ok_run: "ok s \<Longrightarrow> ok (runs step ps s)"
  by (induction ps arbitrary: s) (simp_all add: ok_step)

lemma run_bounded: "ok s \<Longrightarrow> length (contents (runs step ps s)) \<le> cap"
  by (simp add: ok_run ok_bound)

lemma backpressure:
  assumes "ok s" "contents s = []"
  shows "length (trace step puts ps s) \<le> length (trace step gets ps s) + cap"
  using run_fifo [of s ps] run_bounded [OF assms(1), of ps] assms(2)
  by (metis append_Nil length_append add_le_cancel_left)

end

end
