(* ===== verification/Channel.thy ===== *)
theory Channel
  imports Mailbox Fifo
begin

text \<open>
  Message channels of \<^verbatim>\<open>panda-kernel/src/resource/channel.rs\<close>: the two halves, the
  operations of an endpoint, the notification of the peer's waker and mailbox, and
  their correctness. The attached resource is a type parameter. The lock of the
  shared state makes each operation atomic; an endpoint is its side, and dropping
  it is the operation that closes it.
\<close>

section \<open>State\<close>

datatype channel_error =
  MessageTooLarge | BufferTooSmall | QueueFull | QueueEmpty | PeerClosed

datatype side = SideA | SideB

record 'r channel_message =
  msg_data :: bytes
  attachment :: "'r option"

record 'r channel_half =
  queue :: "'r channel_message list"
  closed :: bool
  ch_waker :: io_waker
  ch_mailbox :: "mailbox_ref option"

definition half_new :: "'r channel_half" where
  "half_new = \<lparr>queue = [], closed = False, ch_waker = waker_new, ch_mailbox = None\<rparr>"

record 'r channel_shared =
  half_a :: "'r channel_half"
  half_b :: "'r channel_half"
  capacity :: nat

definition shared_new :: "'r channel_shared" where
  "shared_new = \<lparr>half_a = half_new, half_b = half_new, capacity = DEFAULT_QUEUE_CAPACITY\<rparr>"

fun halves :: "side \<Rightarrow> 'r channel_shared \<Rightarrow> 'r channel_half \<times> 'r channel_half" where
  "halves SideA s = (half_a s, half_b s)"
| "halves SideB s = (half_b s, half_a s)"

text \<open>Writing through the references that \<^verbatim>\<open>halves\<close> returns.\<close>

fun put_halves ::
  "side \<Rightarrow> 'r channel_half \<times> 'r channel_half \<Rightarrow> 'r channel_shared \<Rightarrow> 'r channel_shared" where
  "put_halves SideA (ours, peer) s = s\<lparr>half_a := ours, half_b := peer\<rparr>"
| "put_halves SideB (ours, peer) s = s\<lparr>half_b := ours, half_a := peer\<rparr>"

fun other :: "side \<Rightarrow> side" where
  "other SideA = SideB"
| "other SideB = SideA"

section \<open>Operations\<close>

text \<open>Wake the half's waiter and post an event to its mailbox.\<close>

definition notify :: "u32 \<Rightarrow> 'r channel_half \<Rightarrow> ipc \<Rightarrow> 'r channel_half \<times> ipc" where
  "notify events half w =
     (let (ps, wk) = wake (ch_waker half);
          w1 = w\<lparr>woken := woken w @ ps\<rparr>
      in (half\<lparr>ch_waker := wk\<rparr>,
          case ch_mailbox half of None \<Rightarrow> w1 | Some r \<Rightarrow> ref_post_event r events w1))"

definition attach_mailbox ::
  "side \<Rightarrow> mailbox_ref \<Rightarrow> 'r channel_shared \<Rightarrow> 'r channel_shared" where
  "attach_mailbox sd r s =
     (let (ours, peer) = halves sd s in put_halves sd (ours\<lparr>ch_mailbox := Some r\<rparr>, peer) s)"

definition send_with_attachment ::
  "side \<Rightarrow> bytes \<Rightarrow> 'r option \<Rightarrow> 'r channel_shared \<Rightarrow> ipc
   \<Rightarrow> (channel_error + unit) \<times> 'r channel_shared \<times> ipc" where
  "send_with_attachment sd msg att s w =
     (if length msg > MAX_MESSAGE_SIZE then (Inl MessageTooLarge, s, w)
      else let (ours, peer) = halves sd s in
        if closed peer then (Inl PeerClosed, s, w)
        else if length (queue ours) \<ge> capacity s then (Inl QueueFull, s, w)
        else let ours' = ours\<lparr>queue := queue ours @ [\<lparr>msg_data = msg, attachment = att\<rparr>]\<rparr>;
                 (peer', w') = notify EVENT_CHANNEL_READABLE peer w
             in (Inr (), put_halves sd (ours', peer') s, w'))"

definition channel_send ::
  "side \<Rightarrow> bytes \<Rightarrow> 'r channel_shared \<Rightarrow> ipc \<Rightarrow> (channel_error + unit) \<times> 'r channel_shared \<times> ipc" where
  "channel_send sd msg s w = send_with_attachment sd msg None s w"

definition would_block_send :: "side \<Rightarrow> 'r channel_shared \<Rightarrow> bool" where
  "would_block_send sd s = (let (ours, _) = halves sd s in length (queue ours) \<ge> capacity s)"

text \<open>The result is the length and the attachment, the second component the buffer.\<close>

definition recv_with_attachment ::
  "side \<Rightarrow> bytes \<Rightarrow> 'r channel_shared \<Rightarrow> ipc
   \<Rightarrow> (channel_error + nat \<times> 'r option) \<times> bytes \<times> 'r channel_shared \<times> ipc" where
  "recv_with_attachment sd buf s w =
     (let (ours, peer) = halves sd s in
      case queue peer of
        msg # rest \<Rightarrow>
          if length buf < length (msg_data msg) then (Inl BufferTooSmall, buf, s, w)
          else
            let len = length (msg_data msg);
                buf' = copy_at 0 (msg_data msg) buf;
                peer1 = peer\<lparr>queue := rest\<rparr>;
                was_full = length rest + 1 \<ge> capacity s;
                (peer2, w') = (if was_full then notify EVENT_CHANNEL_WRITABLE peer1 w else (peer1, w))
            in (Inr (len, attachment msg), buf', put_halves sd (ours, peer2) s, w')
      | [] \<Rightarrow> if closed peer then (Inl PeerClosed, buf, s, w) else (Inl QueueEmpty, buf, s, w))"

definition channel_recv ::
  "side \<Rightarrow> bytes \<Rightarrow> 'r channel_shared \<Rightarrow> ipc \<Rightarrow> (channel_error + nat) \<times> bytes \<times> 'r channel_shared \<times> ipc" where
  "channel_recv sd buf s w =
     (let (r, rest) = recv_with_attachment sd buf s w in (map_sum (\<lambda>e. e) fst r, rest))"

definition peek_has_attachment :: "side \<Rightarrow> 'r channel_shared \<Rightarrow> bool option" where
  "peek_has_attachment sd s =
     (let (_, peer) = halves sd s in
      case queue peer of [] \<Rightarrow> None | msg # _ \<Rightarrow> Some (attachment msg \<noteq> None))"

definition would_block_recv :: "side \<Rightarrow> 'r channel_shared \<Rightarrow> bool" where
  "would_block_recv sd s = (let (_, peer) = halves sd s in queue peer = [] \<and> \<not> closed peer)"

definition is_peer_closed :: "side \<Rightarrow> 'r channel_shared \<Rightarrow> bool" where
  "is_peer_closed sd s = (let (_, peer) = halves sd s in closed peer)"

definition poll_events :: "side \<Rightarrow> 'r channel_shared \<Rightarrow> u32" where
  "poll_events sd s =
     (let (ours, peer) = halves sd s;
          e1 = (if queue peer \<noteq> [] then 0 OR EVENT_CHANNEL_READABLE else 0);
          e2 = (if length (queue ours) < capacity s then e1 OR EVENT_CHANNEL_WRITABLE else e1)
      in if closed peer then e2 OR EVENT_CHANNEL_CLOSED else e2)"

definition channel_set_waiting :: "side \<Rightarrow> pid \<Rightarrow> 'r channel_shared \<Rightarrow> 'r channel_shared" where
  "channel_set_waiting sd p s =
     (let (ours, peer) = halves sd s in
      put_halves sd (ours\<lparr>ch_waker := set_waiting p (ch_waker ours)\<rparr>, peer) s)"

definition channel_close :: "side \<Rightarrow> 'r channel_shared \<Rightarrow> ipc \<Rightarrow> 'r channel_shared \<times> ipc" where
  "channel_close sd s w =
     (let (ours, peer) = halves sd s;
          (peer', w') = notify EVENT_CHANNEL_CLOSED peer w
      in (put_halves sd (ours\<lparr>closed := True\<rparr>, peer') s, w'))"

section \<open>Histories\<close>

text \<open>Operations of both endpoints and the registrations of blocked processes, in any order. A
  receive is given a zeroed buffer of the stated length.\<close>

type_synonym 'r chan_state = "'r channel_shared \<times> ipc"

datatype 'r chan_op =
    CSend side bytes "'r option"
  | CRecv side nat
  | CClose side
  | CAttach side mailbox_ref
  | CWait side pid

fun chan_step :: "'r chan_op \<Rightarrow> 'r chan_state \<Rightarrow> 'r chan_state" where
  "chan_step (CSend sd msg att) (s, w) = snd (send_with_attachment sd msg att s w)"
| "chan_step (CRecv sd n) (s, w) = snd (snd (recv_with_attachment sd (replicate n 0) s w))"
| "chan_step (CClose sd) (s, w) = channel_close sd s w"
| "chan_step (CAttach sd r) (s, w) = (attach_mailbox sd r s, w)"
| "chan_step (CWait sd p) (s, w) = (channel_set_waiting sd p s, w)"

definition in_flight :: "side \<Rightarrow> 'r chan_state \<Rightarrow> (bytes \<times> 'r option) list" where
  "in_flight sd st = map (\<lambda>m. (msg_data m, attachment m)) (queue (fst (halves sd (fst st))))"

text \<open>What side \<^verbatim>\<open>sd\<close> got accepted, and what its peer was handed out of it: the bytes at the
  start of the receiver's buffer, as many as the returned length, and the attachment.\<close>

fun accepted :: "side \<Rightarrow> 'r chan_op \<Rightarrow> 'r chan_state \<Rightarrow> (bytes \<times> 'r option) list" where
  "accepted sd (CSend sd' msg att) (s, w) =
     (if sd' = sd \<and> fst (send_with_attachment sd' msg att s w) = Inr () then [(msg, att)] else [])"
| "accepted sd _ _ = []"

fun delivered :: "side \<Rightarrow> 'r chan_op \<Rightarrow> 'r chan_state \<Rightarrow> (bytes \<times> 'r option) list" where
  "delivered sd (CRecv sd' n) (s, w) =
     (case recv_with_attachment sd' (replicate n 0) s w of
        (Inr (len, att), buf, _, _) \<Rightarrow> if sd' = other sd then [(take len buf, att)] else []
      | (Inl _, _, _, _) \<Rightarrow> [])"
| "delivered sd _ _ = []"

definition half_ok :: "'r channel_half \<Rightarrow> bool" where
  "half_ok h \<longleftrightarrow> length (queue h) \<le> DEFAULT_QUEUE_CAPACITY
     \<and> list_all (\<lambda>m. length (msg_data m) \<le> MAX_MESSAGE_SIZE) (queue h)"

definition chan_ok :: "'r chan_state \<Rightarrow> bool" where
  "chan_ok st \<longleftrightarrow> capacity (fst st) = DEFAULT_QUEUE_CAPACITY
     \<and> half_ok (half_a (fst st)) \<and> half_ok (half_b (fst st))"

section \<open>Lemmas\<close>

lemma notify_simps [simp]:
  "queue (fst (notify events h w)) = queue h"
  "closed (fst (notify events h w)) = closed h"
  "ch_mailbox (fst (notify events h w)) = ch_mailbox h"
  "ch_waker (fst (notify events h w)) = snd (wake (ch_waker h))"
  by (simp_all add: notify_def Let_def case_prod_unfold)

lemma other_other [simp]: "other (other sd) = sd" "other sd \<noteq> sd" "sd \<noteq> other sd"
  by (cases sd; simp)+

lemma side_cases: "sd' = sd \<or> sd' = other sd"
  by (cases sd; cases sd') simp_all

lemma halves_put [simp]:
  "halves sd (put_halves sd hs s) = hs"
  "halves (other sd) (put_halves sd hs s) = prod.swap hs"
  "capacity (put_halves sd hs s) = capacity s"
  by (cases sd; cases hs; simp)+

lemma halves_put_other [simp]: "halves sd (put_halves (other sd) hs s) = prod.swap hs"
  by (cases sd; cases hs; simp)

lemma halves_other: "halves (other sd) s = prod.swap (halves sd s)"
  by (cases sd) simp_all

lemma chan_step_fifo:
  "in_flight sd st @ accepted sd p st = delivered sd p st @ in_flight sd (chan_step p st)"
proof (cases st)
  case (Pair s w)
  obtain ours peer where h: "halves sd s = (ours, peer)" by fastforce
  show ?thesis
  proof (cases p)
    case (CSend sd' msg att)
    then show ?thesis
      using Pair h side_cases [of sd' sd]
      by (auto simp: in_flight_def send_with_attachment_def Let_def case_prod_unfold halves_other)
  next
    case (CRecv sd' n)
    then show ?thesis
      using Pair h side_cases [of sd' sd]
      by (auto simp: in_flight_def recv_with_attachment_def Let_def case_prod_unfold halves_other
          copy_at_def split: list.splits)
  next
    case (CClose sd')
    then show ?thesis
      using Pair by (cases sd; cases sd')
        (simp_all add: in_flight_def channel_close_def Let_def case_prod_unfold)
  next
    case (CAttach sd' r)
    then show ?thesis
      using Pair by (cases sd; cases sd') (simp_all add: in_flight_def attach_mailbox_def Let_def)
  next
    case (CWait sd' q)
    then show ?thesis
      using Pair by (cases sd; cases sd') (simp_all add: in_flight_def channel_set_waiting_def Let_def)
  qed
qed

lemma chan_ok_iff: "chan_ok (s, w) \<longleftrightarrow> capacity s = DEFAULT_QUEUE_CAPACITY
    \<and> half_ok (fst (halves sd s)) \<and> half_ok (snd (halves sd s))"
  by (cases sd) (auto simp: chan_ok_def half_ok_def)

lemma half_ok_tl: "half_ok h \<Longrightarrow> queue h = m # rest \<Longrightarrow> half_ok (h\<lparr>queue := rest\<rparr>)"
  by (simp add: half_ok_def)

lemma half_ok_notify [simp]: "half_ok (fst (notify events h w)) = half_ok h"
  by (simp add: half_ok_def)

lemma half_ok_updates [simp]:
  "half_ok (h\<lparr>closed := b\<rparr>) = half_ok h"
  "half_ok (h\<lparr>ch_mailbox := mb\<rparr>) = half_ok h"
  "half_ok (h\<lparr>ch_waker := wk\<rparr>) = half_ok h"
  by (simp_all add: half_ok_def)

lemma chan_ok_step: "chan_ok st \<Longrightarrow> chan_ok (chan_step p st)"
proof (cases st)
  case (Pair s w)
  assume ok: "chan_ok st"
  have put: "chan_ok (put_halves sd hs s, w')"
    if "half_ok (fst hs)" "half_ok (snd hs)" for sd hs w'
    using that ok Pair by (simp add: chan_ok_iff [of _ _ sd])
  have hs: "half_ok (fst (halves sd s))" "half_ok (snd (halves sd s))" "capacity s = DEFAULT_QUEUE_CAPACITY" for sd
    using ok Pair by (simp_all add: chan_ok_iff [of _ _ sd])
  show ?thesis
  proof (cases p)
    case (CSend sd msg att)
    then show ?thesis
      using Pair ok hs(1,2) [of sd] hs(3)
      by (auto simp: send_with_attachment_def Let_def case_prod_unfold intro!: put)
        (auto simp: half_ok_def)
  next
    case (CRecv sd n)
    then show ?thesis
      using Pair ok hs(1,2) [of sd] hs(3)
      by (auto simp: recv_with_attachment_def Let_def case_prod_unfold intro!: put
          intro: half_ok_tl split: list.splits)
  qed (use Pair hs in \<open>auto simp: channel_close_def attach_mailbox_def channel_set_waiting_def Let_def
      case_prod_unfold intro!: put\<close>)
qed

lemma chan_ok_new: "chan_ok (shared_new, w)"
  by (simp add: chan_ok_def shared_new_def half_new_def half_ok_def)

interpretation chan: bounded_fifo chan_step "in_flight sd" "accepted sd" "delivered sd"
  chan_ok DEFAULT_QUEUE_CAPACITY for sd
proof
  show "in_flight sd st @ accepted sd p st = delivered sd p st @ in_flight sd (chan_step p st)" for st p
    by (rule chan_step_fifo)
  show "chan_ok (chan_step p st)" if "chan_ok st" for st :: "'a chan_state" and p
    using that by (rule chan_ok_step)
  show "length (in_flight sd st) \<le> DEFAULT_QUEUE_CAPACITY" if "chan_ok st" for st :: "'a chan_state"
    using that chan_ok_iff [of "fst st" "snd st" sd] by (simp add: in_flight_def half_ok_def)
qed

lemma delivered_small:
  "chan_ok st \<Longrightarrow> list_all (\<lambda>m. length (fst m) \<le> MAX_MESSAGE_SIZE) (in_flight sd st)"
  using chan_ok_iff [of "fst st" "snd st" sd] by (auto simp: in_flight_def half_ok_def list_all_iff)

lemma recv_Cons:
  assumes "queue (fst (halves sd s)) = m # rest" "length (msg_data m) \<le> n"
  shows "\<exists>s' w'. recv_with_attachment (other sd) (replicate n 0) s w
      = (Inr (length (msg_data m), attachment m), copy_at 0 (msg_data m) (replicate n 0), s', w')
    \<and> queue (fst (halves sd s')) = rest \<and> closed (fst (halves sd s')) = closed (fst (halves sd s))"
  using assms
  by (auto simp: recv_with_attachment_def Let_def case_prod_unfold halves_other)

lemma drain:
  assumes "chan_ok st" "closed (fst (halves sd (fst st)))" "in_flight sd st = ms"
  shows "let recvs = replicate (length ms) (CRecv (other sd) MAX_MESSAGE_SIZE)
    in trace chan_step (delivered sd) recvs st = ms
      \<and> in_flight sd (runs chan_step recvs st) = []
      \<and> closed (fst (halves sd (fst (runs chan_step recvs st))))"
  using assms
proof (induction ms arbitrary: st)
  case (Cons x ms)
  obtain s w where st: "st = (s, w)" by fastforce
  obtain m rest where q: "queue (fst (halves sd s)) = m # rest"
    and x: "x = (msg_data m, attachment m)" "ms = map (\<lambda>m. (msg_data m, attachment m)) rest"
    using Cons.prems(3) st by (auto simp: in_flight_def)
  then have "length (msg_data m) \<le> MAX_MESSAGE_SIZE"
    using Cons.prems(1) st by (simp add: chan_ok_iff [of _ _ sd] half_ok_def)
  from recv_Cons [OF q this, of w] obtain s' w' where
    r: "recv_with_attachment (other sd) (replicate MAX_MESSAGE_SIZE 0) s w
      = (Inr (length (msg_data m), attachment m),
         copy_at 0 (msg_data m) (replicate MAX_MESSAGE_SIZE 0), s', w')"
    and q': "queue (fst (halves sd s')) = rest"
      "closed (fst (halves sd s')) = closed (fst (halves sd s))" by blast
  have "chan_ok (s', w')"
    using chan_ok_step [OF Cons.prems(1), of "CRecv (other sd) MAX_MESSAGE_SIZE"] st r by simp
  then show ?case
    using Cons.IH [of "(s', w')"] Cons.prems(2) q' x st r
    by (simp add: Let_def in_flight_def copy_at_def)
qed (simp add: Let_def)

definition no_ipc :: ipc where
  "no_ipc = \<lparr>mailboxes = Map.empty, woken = []\<rparr>"

definition runs_ab :: "'r chan_op list \<Rightarrow> 'r channel_shared" where
  "runs_ab ops = fst (runs chan_step ops (shared_new, no_ipc))"

section \<open>Properties\<close>

text \<open>C8: Channels are reliable and ordered in each direction. For any history of operations of the
  two endpoints, the messages in flight at the start followed by the accepted ones are exactly the
  received ones followed by those still in flight: nothing is lost, duplicated, altered or
  reordered, and each message arrives with its own attachment. Failed and opposite-direction
  operations, closing and blocking do not disturb this.\<close>

theorem channel_fifo:
  "in_flight sd st @ trace chan_step (accepted sd) ops st
   = trace chan_step (delivered sd) ops st @ in_flight sd (runs chan_step ops st)"
  by (rule chan.run_fifo)

text \<open>C28: A new channel never holds more than sixteen messages per direction, none larger than the
  message limit, so a sender is at most sixteen messages ahead of its receiver.\<close>

theorem channel_bounded:
  fixes ops :: "'r chan_op list"
  shows "length (in_flight sd (runs chan_step ops (shared_new, w))) \<le> 16
   \<and> list_all (\<lambda>m. length (fst m) \<le> MAX_MESSAGE_SIZE) (in_flight sd (runs chan_step ops (shared_new, w)))
   \<and> length (trace chan_step (accepted sd) ops (shared_new, w))
       \<le> length (trace chan_step (delivered sd) ops (shared_new, w)) + 16"
proof -
  have ok: "chan_ok (shared_new :: 'r channel_shared, w)" by (rule chan_ok_new)
  have "in_flight sd (shared_new :: 'r channel_shared, w) = []"
    by (cases sd) (simp_all add: in_flight_def shared_new_def half_new_def)
  then show ?thesis
    using chan.run_bounded [OF ok, of sd ops] chan.backpressure [OF ok, of sd ops]
      delivered_small [OF chan.ok_run [OF ok, of ops], of sd]
    by (simp add: DEFAULT_QUEUE_CAPACITY_def)
qed





text \<open>The readiness flags and the would-block tests tell the truth. An endpoint is readable
  exactly when a receive with a full-size buffer returns a message, and such a receive reports
  an empty queue exactly when it would block; it is writable exactly when a send would not
  block; it is flagged closed exactly when the peer has closed; and the outcome of
  sending an admissible message is determined by these tests.\<close>

theorem poll_events_exact:
  assumes "chan_ok (s, w)" "length msg \<le> MAX_MESSAGE_SIZE"
  shows "flags_contains (poll_events sd s) EVENT_CHANNEL_READABLE
      = (\<exists>r. fst (recv_with_attachment sd (replicate MAX_MESSAGE_SIZE 0) s w) = Inr r)
    \<and> would_block_recv sd s
      = (fst (recv_with_attachment sd (replicate MAX_MESSAGE_SIZE 0) s w) = Inl QueueEmpty)
    \<and> flags_contains (poll_events sd s) EVENT_CHANNEL_WRITABLE = (\<not> would_block_send sd s)
    \<and> flags_contains (poll_events sd s) EVENT_CHANNEL_CLOSED = is_peer_closed sd s
    \<and> fst (send_with_attachment sd msg att s w)
      = (if is_peer_closed sd s then Inl PeerClosed
         else if would_block_send sd s then Inl QueueFull else Inr ())"
proof -
  have m: "msg_data m \<in> {d. length d \<le> MAX_MESSAGE_SIZE}" if "queue (snd (halves sd s)) = m # rest" for m rest
    using assms(1) that by (simp add: chan_ok_iff [of _ _ sd] half_ok_def)
  show ?thesis
    using assms(2) m
    by (auto simp: poll_events_def would_block_recv_def would_block_send_def is_peer_closed_def
        recv_with_attachment_def send_with_attachment_def Let_def case_prod_unfold
        flags_contains_def EVENT_CHANNEL_READABLE_def EVENT_CHANNEL_WRITABLE_def
        EVENT_CHANNEL_CLOSED_def not_less split: list.splits)
qed

theorem poll_events_exact_witness:
  "flags_contains (poll_events SideB (runs_ab [CSend SideA [1] (None :: unit option)]))
     EVENT_CHANNEL_READABLE = (\<exists>r. fst (recv_with_attachment SideB (replicate MAX_MESSAGE_SIZE 0)
       (runs_ab [CSend SideA [1] (None :: unit option)]) no_ipc) = Inr r)"
  using poll_events_exact [of "runs_ab [CSend SideA [1] (None :: unit option)]" no_ipc "[]" SideB None]
    chan_ok_iff [of "runs_ab [CSend SideA [1] (None :: unit option)]" no_ipc SideA]
  by (simp add: runs_ab_def no_ipc_def send_with_attachment_def Let_def shared_new_def half_new_def
      DEFAULT_QUEUE_CAPACITY_def MAX_MESSAGE_SIZE_def notify_def wake_def waker_new_def half_ok_def)

end
