(* ===== verification/Handle.thy ===== *)
theory Handle
  imports BTree_Map
begin

text \<open>
  Tagged handles of \<^verbatim>\<open>panda-abi/src/lib.rs\<close> and the per-process handle table of
  \<^verbatim>\<open>panda-kernel/src/handle.rs\<close>. A handle value is a 64-bit word with the type in
  its high byte; the table is a \<^verbatim>\<open>BTreeMap\<close> with a counter. A resource is a value of
  a type parameter, together with the tag its \<^verbatim>\<open>handle_type\<close> method reports.
\<close>

section \<open>Handle types\<close>

datatype handle_type =
    HtInvalid | HtFile | HtDirectory | HtChannel | HtProcess | HtMailbox | HtBuffer | HtDisplay
  | HtDeviceSubscription

primrec handle_type_as_u8 :: "handle_type \<Rightarrow> u8" where
  "handle_type_as_u8 HtInvalid = 0x00"
| "handle_type_as_u8 HtFile = 0x01"
| "handle_type_as_u8 HtDirectory = 0x02"
| "handle_type_as_u8 HtChannel = 0x10"
| "handle_type_as_u8 HtProcess = 0x11"
| "handle_type_as_u8 HtMailbox = 0x20"
| "handle_type_as_u8 HtBuffer = 0x31"
| "handle_type_as_u8 HtDisplay = 0x32"
| "handle_type_as_u8 HtDeviceSubscription = 0x40"

definition ID_MASK :: u64 where
  "ID_MASK = push_bit 56 1 - 1"

definition MAX_ID :: u64 where
  "MAX_ID = ID_MASK"

definition make_handle :: "handle_type \<Rightarrow> u64 \<Rightarrow> u64" where
  "make_handle t hid = push_bit 56 (ucast (handle_type_as_u8 t)) OR (hid AND ID_MASK)"

definition from_handle :: "u64 \<Rightarrow> u8" where
  "from_handle h = ucast (drop_bit 56 h)"

definition id_from_handle :: "u64 \<Rightarrow> u64" where
  "id_from_handle h = h AND ID_MASK"

definition from_tag :: "u8 \<Rightarrow> handle_type option" where
  "from_tag tag =
     (if tag = 0x00 then Some HtInvalid
      else if tag = 0x01 then Some HtFile
      else if tag = 0x02 then Some HtDirectory
      else if tag = 0x10 then Some HtChannel
      else if tag = 0x11 then Some HtProcess
      else if tag = 0x20 then Some HtMailbox
      else if tag = 0x31 then Some HtBuffer
      else if tag = 0x32 then Some HtDisplay
      else if tag = 0x40 then Some HtDeviceSubscription
      else None)"

definition is_compatible_with :: "handle_type \<Rightarrow> handle_type \<Rightarrow> bool" where
  "is_compatible_with t expected =
     (if handle_type_as_u8 t = handle_type_as_u8 expected then True
      else if handle_type_as_u8 t = handle_type_as_u8 HtProcess
        \<and> handle_type_as_u8 expected = handle_type_as_u8 HtChannel then True
      else False)"

text \<open>The well-known handles, in the order of their ids.\<close>

definition STDIN :: u64 where "STDIN = make_handle HtChannel 0"
definition STDOUT :: u64 where "STDOUT = make_handle HtChannel 1"
definition STDERR :: u64 where "STDERR = make_handle HtChannel 2"
definition PROCESS :: u64 where "PROCESS = make_handle HtProcess 3"
definition ENVIRONMENT :: u64 where "ENVIRONMENT = 4"
definition MAILBOX :: u64 where "MAILBOX = make_handle HtMailbox 5"
definition PARENT :: u64 where "PARENT = make_handle HtChannel 6"

section \<open>The handle table\<close>

definition MAX_HANDLES_PER_PROCESS :: nat where
  "MAX_HANDLES_PER_PROCESS = 4096"

datatype handle_error = IdSpaceExhausted | TooManyHandles

record 'res handle =
  h_resource :: 'res
  h_offset :: u64

definition handle_new :: "'res \<Rightarrow> 'res handle" where
  "handle_new r = \<lparr>h_resource = r, h_offset = 0\<rparr>"

definition set_offset :: "u64 \<Rightarrow> 'res handle \<Rightarrow> 'res handle" where
  "set_offset off h = h\<lparr>h_offset := off\<rparr>"

definition replace_resource :: "'res \<Rightarrow> 'res handle \<Rightarrow> 'res handle" where
  "replace_resource r h = h\<lparr>h_resource := r\<rparr>"

record 'res handle_table =
  handles :: "(u64, 'res handle) btree"
  next_id :: u64

definition table_empty :: "'res handle_table" where
  "table_empty = \<lparr>handles = [], next_id = 7\<rparr>"

definition insert_at :: "u64 \<Rightarrow> 'res \<Rightarrow> 'res handle_table \<Rightarrow> 'res handle_table" where
  "insert_at hid r t = t\<lparr>handles := bt_insert hid (handle_new r) (handles t)\<rparr>"

definition insert_typed ::
  "handle_type \<Rightarrow> 'res \<Rightarrow> 'res handle_table \<Rightarrow> (handle_error + u64) \<times> 'res handle_table" where
  "insert_typed ty r t =
     (if length (handles t) \<ge> MAX_HANDLES_PER_PROCESS then (Inl TooManyHandles, t)
      else let hid = next_id t in
        if hid > MAX_ID then (Inl IdSpaceExhausted, t)
        else let tagged_id = make_handle ty hid in
          (Inr tagged_id,
           t\<lparr>next_id := next_id t + 1, handles := bt_insert tagged_id (handle_new r) (handles t)\<rparr>))"

definition handle_insert ::
  "('res \<Rightarrow> handle_type) \<Rightarrow> 'res \<Rightarrow> 'res handle_table \<Rightarrow> (handle_error + u64) \<times> 'res handle_table" where
  "handle_insert type_of r t = insert_typed (type_of r) r t"

definition handle_get :: "'res handle_table \<Rightarrow> u64 \<Rightarrow> 'res handle option" where
  "handle_get t hid = bt_get (handles t) hid"

text \<open>\<^verbatim>\<open>get_mut\<close> followed by an update of the handle it returns.\<close>

definition handle_modify ::
  "u64 \<Rightarrow> ('res handle \<Rightarrow> 'res handle) \<Rightarrow> 'res handle_table \<Rightarrow> 'res handle_table option" where
  "handle_modify hid f t =
     map_option (\<lambda>h. t\<lparr>handles := bt_insert hid (f h) (handles t)\<rparr>) (bt_get (handles t) hid)"

definition handle_remove :: "u64 \<Rightarrow> 'res handle_table \<Rightarrow> 'res handle option \<times> 'res handle_table" where
  "handle_remove hid t = (bt_get (handles t) hid, t\<lparr>handles := bt_remove hid (handles t)\<rparr>)"

definition table_len :: "'res handle_table \<Rightarrow> nat" where
  "table_len t = length (handles t)"

definition table_is_empty :: "'res handle_table \<Rightarrow> bool" where
  "table_is_empty t \<longleftrightarrow> handles t = []"

definition table_is_full :: "'res handle_table \<Rightarrow> bool" where
  "table_is_full t \<longleftrightarrow> length (handles t) \<ge> MAX_HANDLES_PER_PROCESS"

section \<open>Facts about tagged handles\<close>

lemma ID_MASK_eq: "ID_MASK = mask 56"
  by (simp add: ID_MASK_def mask_eq_exp_minus_1)

lemma from_handle_make [simp]: "from_handle (make_handle t hid) = handle_type_as_u8 t"
  by (rule bit_word_eqI) (auto simp: from_handle_def make_handle_def ID_MASK_eq bit_simps)

lemma id_from_handle_make: "id_from_handle (make_handle t hid) = hid AND ID_MASK"
  by (rule bit_word_eqI) (auto simp: id_from_handle_def make_handle_def ID_MASK_eq bit_simps)

lemma le_MAX_ID_mask: "hid \<le> MAX_ID \<Longrightarrow> hid AND ID_MASK = hid"
proof -
  assume "hid \<le> MAX_ID"
  then have "unat hid < 2 ^ 56"
    by (simp add: MAX_ID_def ID_MASK_def word_le_nat_alt)
  then have "take_bit 56 hid = hid"
    by (simp add: word_unat_eq_iff unsigned_take_bit_eq take_bit_nat_eq_self)
  then show ?thesis
    by (simp add: ID_MASK_eq flip: take_bit_eq_mask)
qed

lemma id_from_handle_make_le [simp]: "hid \<le> MAX_ID \<Longrightarrow> id_from_handle (make_handle t hid) = hid"
  by (simp add: id_from_handle_make le_MAX_ID_mask)

lemma from_tag_as_u8 [simp]: "from_tag (handle_type_as_u8 t) = Some t"
  by (cases t) (simp_all add: from_tag_def)

lemma is_compatible_with_iff:
  "is_compatible_with t u \<longleftrightarrow> t = u \<or> t = HtProcess \<and> u = HtChannel"
  by (cases t; cases u) (simp_all add: is_compatible_with_def)

section \<open>The table invariant\<close>

text \<open>Keys in order, ids of open handles below the counter, the counter at most one past the
  largest id.\<close>

definition table_ok :: "'res handle_table \<Rightarrow> bool" where
  "table_ok t \<longleftrightarrow> bt_invar (handles t) \<and> 7 \<le> next_id t \<and> next_id t \<le> MAX_ID + 1
     \<and> list_all (\<lambda>k. id_from_handle k < next_id t) (map fst (handles t))"

lemma MAX_ID_less: "hid \<le> MAX_ID \<Longrightarrow> hid < hid + 1" "hid \<le> MAX_ID \<Longrightarrow> hid + 1 \<le> MAX_ID + 1"
  by (simp_all add: MAX_ID_def ID_MASK_def word_less_nat_alt word_le_nat_alt unat_word_ariths)

lemma table_ok_empty: "table_ok table_empty"
  by (simp add: table_ok_def table_empty_def bt.invar_empty MAX_ID_def ID_MASK_def)

lemma table_ok_keys:
  "table_ok t \<Longrightarrow> bt_get (handles t) k = Some h \<Longrightarrow> id_from_handle k < next_id t"
  by (auto simp: table_ok_def list_all_iff bt_get_def dest!: map_of_SomeD)

lemma table_ok_set:
  "bt_invar hs \<Longrightarrow> 7 \<le> n \<Longrightarrow> n \<le> MAX_ID + 1 \<Longrightarrow>
     (\<And>k. k \<in> fst ` set hs \<Longrightarrow> id_from_handle k < n) \<Longrightarrow> table_ok \<lparr>handles = hs, next_id = n\<rparr>"
  by (auto simp: table_ok_def list_all_iff)

lemma insert_typed_cases:
  assumes "insert_typed ty r t = (res, t')"
  obtains (full) "res = Inl TooManyHandles" "t' = t" "MAX_HANDLES_PER_PROCESS \<le> length (handles t)"
  | (exhausted) "res = Inl IdSpaceExhausted" "t' = t" "MAX_ID < next_id t"
      "length (handles t) < MAX_HANDLES_PER_PROCESS"
  | (ok) "res = Inr (make_handle ty (next_id t))" "next_id t \<le> MAX_ID"
      "length (handles t) < MAX_HANDLES_PER_PROCESS"
      "t' = \<lparr>handles = bt_insert (make_handle ty (next_id t)) (handle_new r) (handles t),
             next_id = next_id t + 1\<rparr>"
  using assms by (cases t) (auto simp: insert_typed_def Let_def split: if_splits)

lemma insert_typed_ok:
  assumes "table_ok t" "insert_typed ty r t = (res, t')"
  shows "table_ok t'" "next_id t \<le> next_id t'"
    "length (handles t) \<le> MAX_HANDLES_PER_PROCESS \<Longrightarrow> length (handles t') \<le> MAX_HANDLES_PER_PROCESS"
proof -
  have "table_ok t' \<and> next_id t \<le> next_id t' \<and>
    (length (handles t) \<le> MAX_HANDLES_PER_PROCESS \<longrightarrow> length (handles t') \<le> MAX_HANDLES_PER_PROCESS)"
    using assms(2)
  proof (cases rule: insert_typed_cases)
    case ok
    have "7 \<le> next_id t + 1"
      by (rule order_trans [OF _ less_imp_le [OF MAX_ID_less(1) [OF ok(2)]]])
         (use assms(1) in \<open>simp add: table_ok_def\<close>)
    moreover have "id_from_handle k < next_id t + 1"
      if "k \<in> fst ` set (bt_insert (make_handle ty (next_id t)) (handle_new r) (handles t))" for k
      using that assms(1) ok(2) MAX_ID_less(1) [OF ok(2)]
      by (auto simp: table_ok_def list_all_iff intro: less_trans)
    ultimately have "table_ok t'"
      using assms(1) MAX_ID_less(2) [OF ok(2)] unfolding ok(4)
      by (intro table_ok_set) (auto simp: table_ok_def bt_invar_insert)
    moreover have "length (handles t') \<le> Suc (length (handles t))"
      unfolding ok(4) by (simp add: length_bt_insert)
    ultimately show ?thesis
      using ok(3,4) MAX_ID_less(1) [OF ok(2)] by simp
  qed (use assms(1) in simp_all)
  then show "table_ok t'" "next_id t \<le> next_id t'"
    "length (handles t) \<le> MAX_HANDLES_PER_PROCESS \<Longrightarrow> length (handles t') \<le> MAX_HANDLES_PER_PROCESS"
    by blast+
qed

lemma handle_remove_ok:
  assumes "table_ok t"
  shows "table_ok (snd (handle_remove hid t))"
  using assms
  by (auto simp: table_ok_def handle_remove_def bt_invar_remove [unfolded bt_remove_def]
      bt_remove_def list_all_iff)

lemma handle_get_remove:
  "table_ok t \<Longrightarrow> handle_get (snd (handle_remove hid t)) k = (if k = hid then None else handle_get t k)"
  by (simp add: handle_get_def handle_remove_def bt.get_remove table_ok_def)

lemma handle_get_insert_typed:
  assumes "table_ok t" "insert_typed ty r t = (Inr hid, t')"
  shows "handle_get t' k = (if k = hid then Some (handle_new r) else handle_get t k)"
    and "handle_get t hid = None"
proof -
  have ok: "hid = make_handle ty (next_id t)" "next_id t \<le> MAX_ID"
      "t' = \<lparr>handles = bt_insert hid (handle_new r) (handles t), next_id = next_id t + 1\<rparr>"
    using assms(2) by (auto elim!: insert_typed_cases)
  show "handle_get t' k = (if k = hid then Some (handle_new r) else handle_get t k)"
    using assms(1) ok(3) by (simp add: handle_get_def bt.get_insert table_ok_def)
  show "handle_get t hid = None"
    using table_ok_keys [OF assms(1), of hid] ok(1,2)
    by (cases "bt_get (handles t) hid") (auto simp: handle_get_def)
qed

section \<open>Sequences of operations\<close>

datatype 'res table_op = OpInsert handle_type 'res | OpRemove u64

fun table_step :: "'res table_op \<Rightarrow> 'res handle_table \<Rightarrow> u64 list \<times> 'res handle_table" where
  "table_step (OpInsert ty r) t = (case insert_typed ty r t of
     (Inl e, t') \<Rightarrow> ([], t') | (Inr hid, t') \<Rightarrow> ([hid], t'))"
| "table_step (OpRemove hid) t = ([], snd (handle_remove hid t))"

text \<open>The handles issued by a sequence of operations, and the table it leaves.\<close>

fun table_run :: "'res table_op list \<Rightarrow> 'res handle_table \<Rightarrow> u64 list \<times> 'res handle_table" where
  "table_run [] t = ([], t)"
| "table_run (x # xs) t =
     (let (is1, t1) = table_step x t; (is2, t2) = table_run xs t1 in (is1 @ is2, t2))"

lemma table_step_ok:
  assumes "table_ok t" "table_step x t = (is, t')"
  shows "table_ok t' \<and> next_id t \<le> next_id t' \<and> length is \<le> 1
    \<and> (\<forall>k\<in>set is. next_id t \<le> id_from_handle k \<and> id_from_handle k < next_id t')
    \<and> (length (handles t) \<le> MAX_HANDLES_PER_PROCESS \<longrightarrow> length (handles t') \<le> MAX_HANDLES_PER_PROCESS)"
proof (cases x)
  case (OpInsert ty r)
  obtain res where res: "insert_typed ty r t = (res, t')"
    using assms(2) OpInsert by (auto split: prod.splits sum.splits)
  have is_eq: "is = (case res of Inl _ \<Rightarrow> [] | Inr h \<Rightarrow> [h])"
    using assms(2) OpInsert res by (auto split: sum.splits)
  have "\<forall>k\<in>set is. next_id t \<le> id_from_handle k \<and> id_from_handle k < next_id t'"
    unfolding is_eq using res by (cases rule: insert_typed_cases) (auto simp: MAX_ID_less)
  moreover have "length is \<le> 1"
    unfolding is_eq by (simp split: sum.splits)
  ultimately show ?thesis
    using insert_typed_ok [OF assms(1) res] by blast
next
  case (OpRemove hid)
  then have "is = []" "t' = snd (handle_remove hid t)"
    using assms(2) by auto
  moreover have "length (bt_remove hid (handles t)) \<le> length (handles t)"
    by (simp add: bt_remove_def)
  ultimately show ?thesis
    using handle_remove_ok [OF assms(1), of hid] by (simp add: handle_remove_def)
qed

lemma table_run_ok:
  assumes "table_ok t" "table_run xs t = (is, t')"
  shows "table_ok t' \<and> next_id t \<le> next_id t' \<and> distinct (map id_from_handle is)
    \<and> (\<forall>k\<in>set is. next_id t \<le> id_from_handle k \<and> id_from_handle k < next_id t')
    \<and> (length (handles t) \<le> MAX_HANDLES_PER_PROCESS \<longrightarrow> length (handles t') \<le> MAX_HANDLES_PER_PROCESS)"
  using assms
proof (induction xs t arbitrary: "is" rule: table_run.induct)
  case (2 x xs t)
  obtain is1 t1 where s: "table_step x t = (is1, t1)" by force
  obtain is2 where r: "table_run xs t1 = (is2, t')" "is = is1 @ is2"
    using 2(3) s by (auto simp: Let_def split: prod.splits)
  note step = table_step_ok [OF 2(2) s]
  note rest = 2(1) [OF s [symmetric] refl _ r(1)]
  have "distinct (map id_from_handle is1)"
    using step by (cases is1) auto
  moreover have "id_from_handle k1 \<noteq> id_from_handle k2" if "k1 \<in> set is1" "k2 \<in> set is2" for k1 k2
    using step rest that by force
  ultimately show ?case
    using step rest r(2) by (auto intro: order_trans less_le_trans)
qed auto

section \<open>Properties\<close>

text \<open>a tagged handle carries its type and its id without loss for every id the table can
  issue, and a process handle passes where a channel is expected but not the converse.\<close>

theorem make_handle_round_trip:
  "from_tag (from_handle (make_handle t hid)) = Some t
   \<and> id_from_handle (make_handle t hid) = hid AND ID_MASK
   \<and> is_compatible_with t t \<and> (is_compatible_with t u = (t = u \<or> t = HtProcess \<and> u = HtChannel))"
  by (simp add: id_from_handle_make is_compatible_with_iff)

text \<open>inserting a resource issues a handle that was not open, after which exactly that handle
  also resolves, to a handle on the resource at offset zero; it fails, leaving the table as it
  was, exactly when the table is full or the ids are used up, in that order.\<close>

theorem insert_typed_fresh:
  assumes "table_ok t"
  shows "(case insert_typed ty r t of
     (Inr hid, t') \<Rightarrow> handle_get t hid = None \<and> from_handle hid = handle_type_as_u8 ty
        \<and> handle_get t' = (handle_get t)(hid \<mapsto> handle_new r) \<and> table_ok t' \<and> \<not> table_is_full t
   | (Inl e, t') \<Rightarrow> t' = t \<and> (table_is_full t \<and> e = TooManyHandles
        \<or> \<not> table_is_full t \<and> MAX_ID < next_id t \<and> e = IdSpaceExhausted))"
proof -
  obtain res t' where i: "insert_typed ty r t = (res, t')" by force
  then show ?thesis
  proof (cases rule: insert_typed_cases)
    case ok
    then show ?thesis
      using i handle_get_insert_typed [OF assms, of ty r] insert_typed_ok(1) [OF assms i]
      by (auto simp: table_is_full_def fun_eq_iff)
  qed (use i in \<open>auto simp: table_is_full_def\<close>)
qed

theorem insert_typed_fresh_witness:
  "case insert_typed HtFile (42 :: nat) table_empty of
     (Inr hid, t') \<Rightarrow> handle_get (table_empty :: nat handle_table) hid = None
   | (Inl e, t') \<Rightarrow> False"
  using insert_typed_fresh [of table_empty HtFile "42 :: nat"] table_ok_empty
  by (auto simp: insert_typed_def table_empty_def Let_def MAX_HANDLES_PER_PROCESS_def MAX_ID_def
      ID_MASK_def)

text \<open>C14: over any sequence of insertions and removals from the initial table no handle id is ever
  issued twice, so a closed handle never comes back to life as another resource, well-known ids
  are never issued, and the number of open handles stays within the limit.\<close>

theorem table_run_no_reuse:
  assumes "table_run ops table_empty = (issued, t)"
  shows "distinct (map id_from_handle issued) \<and> (\<forall>k\<in>set issued. 7 \<le> id_from_handle k)
    \<and> table_ok t \<and> table_len t \<le> MAX_HANDLES_PER_PROCESS"
  using table_run_ok [OF table_ok_empty assms]
  by (auto simp: table_empty_def table_len_def MAX_HANDLES_PER_PROCESS_def)

theorem table_run_no_reuse_witness:
  "distinct (map id_from_handle (fst (table_run
     [OpInsert HtFile (), OpRemove (make_handle HtFile 7), OpInsert HtChannel ()] table_empty)))"
  using table_run_no_reuse [of "[OpInsert HtFile (), OpRemove (make_handle HtFile 7), OpInsert HtChannel ()]"]
  by (metis prod.collapse)

end
