(* ===== verification/User_Ptr.thy ===== *)
theory User_Ptr
  imports Abi
begin

text \<open>
  Access to user memory, \<^verbatim>\<open>panda-kernel/src/syscall/user_ptr.rs\<close>, and the result of
  a system call. The memory that an address denotes under the active page table is
  a function from 64-bit addresses to bytes; the hardware check of the page tables
  and the SMAP bracket around each access are not part of the model.
\<close>

type_synonym memory = "u64 \<Rightarrow> u8"

definition USER_ADDR_MAX :: u64 where
  "USER_ADDR_MAX = 0x00007fffffffffff"

record user_slice =
  us_addr :: u64
  us_len :: u64

definition user_slice_new :: "u64 \<Rightarrow> u64 \<Rightarrow> user_slice" where
  "user_slice_new a n = \<lparr>us_addr = a, us_len = n\<rparr>"

datatype syscall_error = BadUserPointer | InvalidHandle

primrec to_error_code :: "syscall_error \<Rightarrow> error_code" where
  "to_error_code BadUserPointer = EcInvalidArgument"
| "to_error_code InvalidHandle = EcInvalidHandle"

definition checked_add_usize :: "u64 \<Rightarrow> u64 \<Rightarrow> u64 option" where
  "checked_add_usize a b = (if unat a + unat b < 2 ^ 64 then Some (a + b) else None)"

definition ua_validate :: "user_slice \<Rightarrow> syscall_error + unit" where
  "ua_validate s =
     (if us_len s = 0 then Inr ()
      else rbind (ok_or (checked_add_usize (us_addr s) (us_len s)) BadUserPointer)
        (\<lambda>end. if end - 1 > USER_ADDR_MAX then Inl BadUserPointer else Inr ()))"

text \<open>Raw slices of memory.\<close>

definition load_bytes :: "memory \<Rightarrow> u64 \<Rightarrow> nat \<Rightarrow> bytes" where
  "load_bytes mem a n = map (\<lambda>i. mem (a + of_nat i)) [0..<n]"

definition store_bytes :: "memory \<Rightarrow> u64 \<Rightarrow> bytes \<Rightarrow> memory" where
  "store_bytes mem a bs = (\<lambda>x. if unat (x - a) < length bs then bs ! unat (x - a) else mem x)"

definition ua_read :: "user_slice \<Rightarrow> memory \<Rightarrow> syscall_error + bytes" where
  "ua_read src mem = rbind (ua_validate src)
     (\<lambda>_. Inr (load_bytes mem (us_addr src) (unat (us_len src))))"

definition ua_write :: "user_slice \<Rightarrow> bytes \<Rightarrow> memory \<Rightarrow> (syscall_error + nat) \<times> memory" where
  "ua_write dst data mem =
     (case ua_validate dst of
        Inl e \<Rightarrow> (Inl e, mem)
      | Inr _ \<Rightarrow> let n = min (length data) (unat (us_len dst)) in
                (Inr n, store_bytes mem (us_addr dst) (take n data)))"

text \<open>A \<^verbatim>\<open>Copy\<close> structure is its bytes, in the layout of the C representation.\<close>

definition ua_read_user :: "u64 \<Rightarrow> nat \<Rightarrow> memory \<Rightarrow> syscall_error + bytes" where
  "ua_read_user ptr size_of_t mem = rbind (ua_validate (user_slice_new ptr (of_nat size_of_t)))
     (\<lambda>_. Inr (load_bytes mem ptr size_of_t))"

definition ua_write_user :: "u64 \<Rightarrow> bytes \<Rightarrow> memory \<Rightarrow> (syscall_error + unit) \<times> memory" where
  "ua_write_user ptr value mem =
     (case ua_validate (user_slice_new ptr (of_nat (length value))) of
        Inl e \<Rightarrow> (Inl e, mem)
      | Inr _ \<Rightarrow> (Inr (), store_bytes mem ptr value))"

section \<open>Results of system calls\<close>

record syscall_result =
  sr_code :: u64
  writeback :: "(bytes \<times> user_slice) option"
  handle_writeback :: "(u64 \<times> u64) option"

definition result_ok :: "u64 \<Rightarrow> syscall_result" where
  "result_ok code = \<lparr>sr_code = code, writeback = None, handle_writeback = None\<rparr>"

definition result_err :: "error_code \<Rightarrow> syscall_result" where
  "result_err e = \<lparr>sr_code = to_isize e, writeback = None, handle_writeback = None\<rparr>"

definition write_back :: "u64 \<Rightarrow> bytes \<Rightarrow> user_slice \<Rightarrow> syscall_result" where
  "write_back code data dst = \<lparr>sr_code = code, writeback = Some (data, dst), handle_writeback = None\<rparr>"

definition write_back_with_handle ::
  "u64 \<Rightarrow> bytes \<Rightarrow> user_slice \<Rightarrow> u64 \<Rightarrow> u64 \<Rightarrow> syscall_result" where
  "write_back_with_handle code data dst handle_ptr handle_value =
     \<lparr>sr_code = code, writeback = Some (data, dst),
      handle_writeback = Some (handle_ptr, handle_value)\<rparr>"

section \<open>Lemmas\<close>

lemma ua_validate_Inr:
  "ua_validate s = Inr () \<longleftrightarrow> us_len s = 0 \<or> unat (us_addr s) + unat (us_len s) \<le> 2 ^ 47"
proof (cases "us_len s = 0")
  case False
  then have n: "0 < unat (us_len s)" by (simp add: unat_gt_0)
  show ?thesis
  proof (cases "unat (us_addr s) + unat (us_len s) < 2 ^ 64")
    case True
    then have "unat (us_addr s + us_len s - 1) = unat (us_addr s) + unat (us_len s) - 1"
      using n by (simp add: unat_sub_if' unat_word_ariths word_le_nat_alt)
    then show ?thesis
      using True False n
      by (auto simp: ua_validate_def checked_add_usize_def USER_ADDR_MAX_def word_less_nat_alt)
  next
    case False
    then show ?thesis using n by (auto simp: ua_validate_def checked_add_usize_def)
  qed
qed (simp add: ua_validate_def)

lemma store_outside:
  assumes "unat a + length bs \<le> 2 ^ 47" "2 ^ 47 \<le> unat x"
  shows "store_bytes mem a bs x = mem x"
proof -
  have "unat (x - a) = unat x - unat a"
    using assms by (simp add: unat_sub_if' word_le_nat_alt)
  then have "\<not> unat (x - a) < length bs" using assms by linarith
  then show ?thesis by (simp add: store_bytes_def)
qed

lemma load_store:
  assumes "length bs \<le> 2 ^ 47"
  shows "load_bytes (store_bytes mem a bs) a (length bs) = bs"
  using assms by (intro nth_equalityI) (simp_all add: load_bytes_def store_bytes_def)

lemma load_upd_outside:
  assumes "unat a + n \<le> 2 ^ 47" "2 ^ 47 \<le> unat x"
  shows "load_bytes (mem(x := b)) a n = load_bytes mem a n"
proof -
  have "unat (a + of_nat i) = unat a + i" if "i < n" for i
    using that assms(1) by (simp add: unat_word_ariths)
  then have "a + of_nat i \<noteq> x" if "i < n" for i
    using that assms by fastforce
  then show ?thesis by (auto simp: load_bytes_def)
qed

lemma length_load [simp]: "length (load_bytes mem a n) = n"
  by (simp add: load_bytes_def)

section \<open>Properties\<close>

text \<open>C9: Access checks confine the kernel to user memory. Whatever slice a process passes, a write
  changes no byte at or above the end of the user half, a rejected access changes nothing, and an
  accepted read covers addresses of the user half only, so that it does not depend on any
  other byte.\<close>

theorem user_access_confined:
  assumes "2 ^ 47 \<le> unat x" "length value < 2 ^ 64"
  shows "snd (ua_write dst data mem) x = mem x
    \<and> snd (ua_write_user ptr value mem) x = mem x
    \<and> (\<forall>e. fst (ua_write dst data mem) = Inl e \<longrightarrow> snd (ua_write dst data mem) = mem)
    \<and> ua_read src (mem(x := b)) = ua_read src mem"
proof (intro conjI)
  show "snd (ua_write dst data mem) x = mem x"
  proof (cases "ua_validate dst")
    case (Inr u)
    then have v: "us_len dst = 0 \<or> unat (us_addr dst) + unat (us_len dst) \<le> 2 ^ 47"
      using ua_validate_Inr [of dst] by simp
    then have "store_bytes mem (us_addr dst) (take (min (length data) (unat (us_len dst))) data) x = mem x"
    proof
      assume "unat (us_addr dst) + unat (us_len dst) \<le> 2 ^ 47"
      then show ?thesis by (intro store_outside assms(1)) simp
    qed (simp add: store_bytes_def)
    then show ?thesis
      using Inr by (simp add: ua_write_def Let_def)
  qed (simp add: ua_write_def)
  show "snd (ua_write_user ptr value mem) x = mem x"
  proof (cases "ua_validate (user_slice_new ptr (of_nat (length value)))")
    case (Inr u)
    then have "value = [] \<or> unat ptr + length value \<le> 2 ^ 47"
      using ua_validate_Inr [of "user_slice_new ptr (of_nat (length value))"] assms(2)
      by (auto simp: user_slice_new_def word_unat_eq_iff)
    then have "store_bytes mem ptr value x = mem x"
    proof
      assume "unat ptr + length value \<le> 2 ^ 47"
      then show ?thesis by (intro store_outside assms(1)) simp
    qed (simp add: store_bytes_def)
    then show ?thesis
      using Inr by (simp add: ua_write_user_def)
  qed (simp add: ua_write_user_def)
  show "\<forall>e. fst (ua_write dst data mem) = Inl e \<longrightarrow> snd (ua_write dst data mem) = mem"
    by (auto simp: ua_write_def Let_def split: sum.splits)
  show "ua_read src (mem(x := b)) = ua_read src mem"
  proof (cases "ua_validate src")
    case (Inr u)
    then have "us_len src = 0 \<or> unat (us_addr src) + unat (us_len src) \<le> 2 ^ 47"
      using ua_validate_Inr [of src] by simp
    then have "load_bytes (mem(x := b)) (us_addr src) (unat (us_len src))
        = load_bytes mem (us_addr src) (unat (us_len src))"
    proof
      assume "unat (us_addr src) + unat (us_len src) \<le> 2 ^ 47"
      then show ?thesis by (intro load_upd_outside assms(1))
    qed (simp add: load_bytes_def)
    then show ?thesis
      using Inr by (simp add: ua_read_def)
  qed (simp add: ua_read_def)
qed

theorem user_access_confined_witness:
  "snd (ua_write (user_slice_new 0x00007ffffffffff0 32) [1, 2, 3] (\<lambda>_. 0)) 0x0000800000000000 = 0"
  using user_access_confined [of "0x0000800000000000" "[]" "user_slice_new 0x00007ffffffffff0 32"
      "[1, 2, 3]" "\<lambda>_. 0"] by simp

end
