(* ===== verification/Ipc_Syscalls.thy ===== *)
theory Ipc_Syscalls
  imports Channel Handle User_Ptr
begin

text \<open>
  The system calls on channels and mailboxes, \<^verbatim>\<open>syscall/channel.rs\<close>,
  \<^verbatim>\<open>syscall/mailbox.rs\<close> and \<^verbatim>\<open>syscall/helpers.rs\<close>, with the two places that
  complete a call: \<^verbatim>\<open>poll_and_dispatch\<close> for a call that finishes at once and
  \<^verbatim>\<open>poll_pending_syscall\<close> with \<^verbatim>\<open>dispatch_completed_syscall\<close> for one that blocked.
  A future is the data its closure captures, and polling it is a function on the
  kernel state. Channels and mailboxes live in stores; a resource holds a number.
\<close>

section \<open>Resources\<close>

text \<open>The resources that provide one of the interfaces used here; the others only have a type.\<close>

datatype resource =
    ResChannel nat side
  | ResSpawnHandle nat side
  | ResMailbox nat
  | ResSharedBuffer nat
  | ResOther handle_type

primrec res_handle_type :: "resource \<Rightarrow> handle_type" where
  "res_handle_type (ResChannel c sd) = HtChannel"
| "res_handle_type (ResSpawnHandle c sd) = HtProcess"
| "res_handle_type (ResMailbox n) = HtMailbox"
| "res_handle_type (ResSharedBuffer n) = HtBuffer"
| "res_handle_type (ResOther ty) = ty"

fun as_channel :: "resource \<Rightarrow> (nat \<times> side) option" where
  "as_channel (ResChannel c sd) = Some (c, sd)"
| "as_channel (ResSpawnHandle c sd) = Some (c, sd)"
| "as_channel _ = None"

fun as_mailbox :: "resource \<Rightarrow> nat option" where
  "as_mailbox (ResMailbox n) = Some n"
| "as_mailbox _ = None"

fun as_shared_buffer :: "resource \<Rightarrow> nat option" where
  "as_shared_buffer (ResSharedBuffer n) = Some n"
| "as_shared_buffer _ = None"

definition is_transferable :: "resource \<Rightarrow> bool" where
  "is_transferable r = (case res_handle_type r of
     HtBuffer \<Rightarrow> as_shared_buffer r \<noteq> None
   | HtChannel \<Rightarrow> as_channel r \<noteq> None
   | _ \<Rightarrow> False)"

section \<open>Kernel state\<close>

datatype syscall_future =
    FutReady syscall_result
  | FutSend "resource option" bytes "resource option" u32
  | FutRecv "resource option" user_slice u32 "u64 option"
  | FutWait "resource option" user_slice

record process_state =
  p_handles :: "resource handle_table"
  p_mem :: memory
  p_pending :: "syscall_future option"

record kernel =
  procs :: "pid \<Rightarrow> process_state option"
  current :: pid
  channels :: "nat \<Rightarrow> resource channel_shared"
  next_channel :: nat
  k_ipc :: ipc
  next_mailbox :: nat

text \<open>The current process; that it exists is an invariant the source checks with \<^verbatim>\<open>expect\<close>.\<close>

definition cur :: "kernel \<Rightarrow> process_state" where
  "cur k = the (procs k (current k))"

definition set_cur :: "process_state \<Rightarrow> kernel \<Rightarrow> kernel" where
  "set_cur p k = k\<lparr>procs := (procs k)(current k \<mapsto> p)\<rparr>"

definition set_cur_handles :: "resource handle_table \<Rightarrow> kernel \<Rightarrow> kernel" where
  "set_cur_handles t k = set_cur ((cur k)\<lparr>p_handles := t\<rparr>) k"

definition set_cur_mem :: "memory \<Rightarrow> kernel \<Rightarrow> kernel" where
  "set_cur_mem mem k = set_cur ((cur k)\<lparr>p_mem := mem\<rparr>) k"

text \<open>A resource keeps its mailbox alive, so the entry it names is present.\<close>

definition mailbox_at :: "nat \<Rightarrow> kernel \<Rightarrow> mailbox" where
  "mailbox_at n k = the (mailboxes (k_ipc k) n)"

definition set_mailbox :: "nat \<Rightarrow> mailbox \<Rightarrow> kernel \<Rightarrow> kernel" where
  "set_mailbox n mb k = k\<lparr>k_ipc := (k_ipc k)\<lparr>mailboxes := (mailboxes (k_ipc k))(n \<mapsto> mb)\<rparr>\<rparr>"

definition chan_send :: "nat \<Rightarrow> side \<Rightarrow> bytes \<Rightarrow> resource option \<Rightarrow> kernel \<Rightarrow> (channel_error + unit) \<times> kernel" where
  "chan_send c sd msg att k =
     (let (r, s, w) = send_with_attachment sd msg att (channels k c) (k_ipc k)
      in (r, k\<lparr>channels := (channels k)(c := s), k_ipc := w\<rparr>))"

definition chan_recv ::
  "nat \<Rightarrow> side \<Rightarrow> bytes \<Rightarrow> kernel \<Rightarrow> (channel_error + nat \<times> resource option) \<times> bytes \<times> kernel" where
  "chan_recv c sd buf k =
     (let (r, buf', s, w) = recv_with_attachment sd buf (channels k c) (k_ipc k)
      in (r, buf', k\<lparr>channels := (channels k)(c := s), k_ipc := w\<rparr>))"

definition chan_register :: "nat \<Rightarrow> side \<Rightarrow> kernel \<Rightarrow> kernel" where
  "chan_register c sd k =
     k\<lparr>channels := (channels k)(c := channel_set_waiting sd (current k) (channels k c))\<rparr>"

definition chan_drop :: "nat \<Rightarrow> side \<Rightarrow> kernel \<Rightarrow> kernel" where
  "chan_drop c sd k =
     (let (s, w) = channel_close sd (channels k c) (k_ipc k)
      in k\<lparr>channels := (channels k)(c := s), k_ipc := w\<rparr>)"

section \<open>Helpers\<close>

definition resolve_resource :: "u64 \<Rightarrow> (resource \<Rightarrow> bool) \<Rightarrow> kernel \<Rightarrow> resource option" where
  "resolve_resource hid check k =
     (case handle_get (p_handles (cur k)) hid of
        None \<Rightarrow> None
      | Some h \<Rightarrow> if check (h_resource h) then Some (h_resource h) else None)"

definition downcast_or_invalid :: "resource option \<Rightarrow> (resource \<Rightarrow> 'a option) \<Rightarrow> 'a option" where
  "downcast_or_invalid r as_iface = Option.bind r as_iface"

definition attach_to_mailbox :: "u64 \<Rightarrow> u64 \<Rightarrow> u32 \<Rightarrow> kernel \<Rightarrow> nat option \<times> kernel" where
  "attach_to_mailbox mailbox_handle hid event_mask k =
     (if mailbox_handle = 0 then (None, k)
      else case handle_get (p_handles (cur k)) mailbox_handle of
        None \<Rightarrow> (None, k)
      | Some h \<Rightarrow> (case as_mailbox (h_resource h) of
          None \<Rightarrow> (None, k)
        | Some n \<Rightarrow> (Some n, set_mailbox n (mailbox_attach hid event_mask (mailbox_at n k)) k)))"

section \<open>Channel calls\<close>

definition channel_create :: "u64 \<Rightarrow> kernel \<Rightarrow> syscall_future \<times> kernel" where
  "channel_create out_handles_ptr k =
     (let c = next_channel k;
          k0 = k\<lparr>channels := (channels k)(c := shared_new), next_channel := Suc c\<rparr>
      in case insert_typed HtChannel (ResChannel c SideA) (p_handles (cur k0)) of
           (Inl _, t) \<Rightarrow>
             (FutReady (result_err EcTooManyHandles), chan_drop c SideB (chan_drop c SideA (set_cur_handles t k0)))
         | (Inr handle_a, t) \<Rightarrow>
             let k1 = set_cur_handles t k0
             in case insert_typed HtChannel (ResChannel c SideB) (p_handles (cur k1)) of
                  (Inl _, t') \<Rightarrow>
                    let k2 = chan_drop c SideB (set_cur_handles t' k1);
                        k3 = chan_drop c SideA (set_cur_handles (snd (handle_remove handle_a (p_handles (cur k2)))) k2)
                    in (FutReady (result_err EcTooManyHandles), k3)
                | (Inr handle_b, t') \<Rightarrow>
                    let k2 = set_cur_handles t' k1;
                        (r, mem) = ua_write_user out_handles_ptr (le_bytes 8 handle_a @ le_bytes 8 handle_b) (p_mem (cur k2));
                        code = (case r of Inr _ \<Rightarrow> 0 | Inl _ \<Rightarrow> - 1)
                    in (FutReady (result_ok code), set_cur_mem mem k2))"

definition channel_send_call ::
  "u64 \<Rightarrow> u64 \<Rightarrow> u64 \<Rightarrow> u64 \<Rightarrow> u64 \<Rightarrow> kernel \<Rightarrow> syscall_error + syscall_future" where
  "channel_send_call hid buf_ptr buf_len flags attach_handle k =
     rbind (ua_read (user_slice_new buf_ptr buf_len) (p_mem (cur k))) (\<lambda>msg.
     rbind (if attach_handle = 0 then Inr None
            else case handle_get (p_handles (cur k)) attach_handle of
                   Some h \<Rightarrow> if is_transferable (h_resource h) then Inr (Some (h_resource h)) else Inl InvalidHandle
                 | None \<Rightarrow> Inl InvalidHandle) (\<lambda>att.
     Inr (FutSend (resolve_resource hid (\<lambda>r. as_channel r \<noteq> None) k) msg att (ucast flags))))"

function send_loop ::
  "bool \<Rightarrow> nat \<Rightarrow> side \<Rightarrow> bytes \<Rightarrow> resource option \<Rightarrow> u32 \<Rightarrow> kernel \<Rightarrow> syscall_result option \<times> kernel" where
  "send_loop registered c sd msg att flags k =
     (case chan_send c sd msg att k of
        (Inr _, k') \<Rightarrow> (Some (result_ok 0), k')
      | (Inl e, k') \<Rightarrow> (case e of
          QueueFull \<Rightarrow>
            if flags AND CHANNEL_NONBLOCK \<noteq> 0 then (Some (result_err EcWouldBlock), k')
            else if registered then (None, k')
            else send_loop True c sd msg att flags (chan_register c sd k')
        | MessageTooLarge \<Rightarrow> (Some (result_err EcMessageTooLarge), k')
        | PeerClosed \<Rightarrow> (Some (result_err EcChannelClosed), k')
        | _ \<Rightarrow> (Some (result_err EcIoError), k')))"
  by pat_completeness auto
termination by (relation "measure (\<lambda>(registered, _). if registered then 0 else 1)") auto

definition channel_recv_call :: "u64 \<Rightarrow> u64 \<Rightarrow> u64 \<Rightarrow> u64 \<Rightarrow> u64 \<Rightarrow> kernel \<Rightarrow> syscall_future" where
  "channel_recv_call hid buf_ptr buf_len flags out_handle_ptr k =
     FutRecv (resolve_resource hid (\<lambda>r. as_channel r \<noteq> None) k) (user_slice_new buf_ptr buf_len) (ucast flags)
       (if out_handle_ptr \<noteq> 0 then Some out_handle_ptr else None)"

text \<open>Installing the attachment of a received message in the receiver's table.\<close>

definition install_attachment :: "resource option \<Rightarrow> kernel \<Rightarrow> u64 \<times> kernel" where
  "install_attachment att k =
     (case att of
        None \<Rightarrow> (0, k)
      | Some r \<Rightarrow> (case handle_insert res_handle_type r (p_handles (cur k)) of
          (Inr hid, t) \<Rightarrow> (hid, set_cur_handles t k)
        | (Inl _, t) \<Rightarrow> (0, set_cur_handles t k)))"

function recv_loop ::
  "bool \<Rightarrow> nat \<Rightarrow> side \<Rightarrow> user_slice \<Rightarrow> u32 \<Rightarrow> u64 option \<Rightarrow> kernel \<Rightarrow> syscall_result option \<times> kernel" where
  "recv_loop registered c sd dst flags out k =
     (if peek_has_attachment sd (channels k c) = Some True \<and> table_is_full (p_handles (cur k))
      then (Some (result_err EcTooManyHandles), k)
      else
        let alloc_len = min (unat (us_len dst)) MAX_MESSAGE_SIZE in
        case chan_recv c sd (replicate alloc_len 0) k of
          (Inr (len, att), kernel_buf, k') \<Rightarrow>
            let (received_handle, k'') = install_attachment att k' in
            (case out of
               Some ptr \<Rightarrow> (Some (write_back_with_handle (of_nat len) (take len kernel_buf) dst ptr received_handle), k'')
             | None \<Rightarrow> (Some (write_back (of_nat len) (take len kernel_buf) dst), k''))
        | (Inl e, _, k') \<Rightarrow> (case e of
            QueueEmpty \<Rightarrow>
              if flags AND CHANNEL_NONBLOCK \<noteq> 0 then (Some (result_err EcWouldBlock), k')
              else if registered then (None, k')
              else recv_loop True c sd dst flags out (chan_register c sd k')
          | BufferTooSmall \<Rightarrow> (Some (result_err EcBufferTooSmall), k')
          | PeerClosed \<Rightarrow> (Some (result_err EcChannelClosed), k')
          | _ \<Rightarrow> (Some (result_err EcIoError), k')))"
  by pat_completeness auto
termination by (relation "measure (\<lambda>(registered, _). if registered then 0 else 1)") auto

declare send_loop.simps [simp del] recv_loop.simps [simp del]

section \<open>Mailbox calls\<close>

definition mailbox_create_call :: "kernel \<Rightarrow> syscall_future \<times> kernel" where
  "mailbox_create_call k =
     (let n = next_mailbox k;
          k0 = k\<lparr>next_mailbox := Suc n\<rparr>
      in case insert_typed HtMailbox (ResMailbox n) (p_handles (cur k0)) of
           (Inr hid, t) \<Rightarrow> (FutReady (result_ok hid), set_mailbox n mailbox_new (set_cur_handles t k0))
         | (Inl _, t) \<Rightarrow> (FutReady (result_err EcTooManyHandles), set_cur_handles t k0))"

text \<open>The bytes of \<^verbatim>\<open>MailboxEventResult\<close>.\<close>

definition event_result_bytes :: "u64 \<Rightarrow> u32 \<Rightarrow> bytes" where
  "event_result_bytes hid events = le_bytes 8 hid @ le_bytes 4 events @ le_bytes 4 (0 :: u32)"

definition mailbox_wait_call :: "u64 \<Rightarrow> u64 \<Rightarrow> kernel \<Rightarrow> syscall_future" where
  "mailbox_wait_call mailbox_handle out_ptr k =
     (if out_ptr = 0 then FutReady (result_err EcInvalidArgument)
      else FutWait (resolve_resource mailbox_handle (\<lambda>r. as_mailbox r \<noteq> None) k) (user_slice_new out_ptr 16))"

definition mailbox_poll_call :: "u64 \<Rightarrow> u64 \<Rightarrow> kernel \<Rightarrow> syscall_future \<times> kernel" where
  "mailbox_poll_call mailbox_handle out_ptr k =
     (if out_ptr = 0 then (FutReady (result_err EcInvalidArgument), k)
      else case Option.bind (handle_get (p_handles (cur k)) mailbox_handle) (\<lambda>h. as_mailbox (h_resource h)) of
        None \<Rightarrow> (FutReady (result_err EcInvalidHandle), k)
      | Some n \<Rightarrow>
          let (ev, mb) = mailbox_poll (mailbox_at n k); k1 = set_mailbox n mb k in
          (case ev of
             None \<Rightarrow> (FutReady (result_ok 0), k1)
           | Some (hid, events) \<Rightarrow> (case ua_write_user out_ptr (event_result_bytes hid events) (p_mem (cur k1)) of
               (Inr _, mem) \<Rightarrow> (FutReady (result_ok 1), set_cur_mem mem k1)
             | (Inl _, mem) \<Rightarrow> (FutReady (result_err EcInvalidArgument), set_cur_mem mem k1))))"

section \<open>Completion\<close>

fun fut_poll :: "syscall_future \<Rightarrow> kernel \<Rightarrow> syscall_result option \<times> kernel" where
  "fut_poll (FutReady r) k = (Some r, k)"
| "fut_poll (FutSend res msg att flags) k =
     (case downcast_or_invalid res as_channel of
        None \<Rightarrow> (Some (result_err EcInvalidHandle), k)
      | Some (c, sd) \<Rightarrow> send_loop False c sd msg att flags k)"
| "fut_poll (FutRecv res dst flags out) k =
     (case downcast_or_invalid res as_channel of
        None \<Rightarrow> (Some (result_err EcInvalidHandle), k)
      | Some (c, sd) \<Rightarrow> recv_loop False c sd dst flags out k)"
| "fut_poll (FutWait res dst) k =
     (case downcast_or_invalid res as_mailbox of
        None \<Rightarrow> (Some (result_err EcInvalidHandle), k)
      | Some n \<Rightarrow>
          let (ev, mb) = wait_poll (current k) (mailbox_at n k); k1 = set_mailbox n mb k in
          (case ev of
             Some (hid, events) \<Rightarrow> (Some (write_back 0 (event_result_bytes hid events) dst), k1)
           | None \<Rightarrow> (None, k1)))"

definition copy_out_data :: "syscall_result \<Rightarrow> kernel \<Rightarrow> kernel" where
  "copy_out_data r k = (case writeback r of
     None \<Rightarrow> k
   | Some (data, dst) \<Rightarrow> set_cur_mem (snd (ua_write dst data (p_mem (cur k)))) k)"

definition copy_out_handle :: "syscall_result \<Rightarrow> kernel \<Rightarrow> kernel" where
  "copy_out_handle r k = (case handle_writeback r of
     None \<Rightarrow> k
   | Some (ptr, value) \<Rightarrow> set_cur_mem (snd (ua_write_user ptr (le_bytes 8 value) (p_mem (cur k)))) k)"

text \<open>The result is the code given back to the process, or none when it is suspended.\<close>

definition poll_and_dispatch :: "syscall_future \<Rightarrow> kernel \<Rightarrow> u64 option \<times> kernel" where
  "poll_and_dispatch fut k =
     (case fut_poll fut k of
        (Some r, k') \<Rightarrow> (Some (sr_code r), copy_out_handle r (copy_out_data r k'))
      | (None, k') \<Rightarrow> (None, set_cur ((cur k')\<lparr>p_pending := Some fut\<rparr>) k'))"

datatype pending_outcome = Completed syscall_result | Blocked | NoPending

definition poll_pending_syscall :: "pid \<Rightarrow> kernel \<Rightarrow> pending_outcome option \<times> kernel" where
  "poll_pending_syscall p k =
     (case procs k p of
        None \<Rightarrow> (None, k)
      | Some ps \<Rightarrow>
          let k1 = (k\<lparr>current := p\<rparr>)\<lparr>procs := (procs k)(p \<mapsto> ps\<lparr>p_pending := None\<rparr>)\<rparr> in
          (case p_pending ps of
             None \<Rightarrow> (Some NoPending, k1)
           | Some fut \<Rightarrow> (case fut_poll fut k1 of
               (None, k2) \<Rightarrow> (Some Blocked, (case procs k2 p of
                   Some ps2 \<Rightarrow> k2\<lparr>procs := (procs k2)(p \<mapsto> ps2\<lparr>p_pending := Some fut\<rparr>)\<rparr>
                 | None \<Rightarrow> k2))
             | (Some r, k2) \<Rightarrow> (Some (Completed r), k2))))"

definition dispatch_completed_syscall :: "pid \<Rightarrow> syscall_result \<Rightarrow> kernel \<Rightarrow> u64 option \<times> kernel" where
  "dispatch_completed_syscall p r k =
     (case procs k p of
        None \<Rightarrow> (None, k)
      | Some _ \<Rightarrow> (Some (sr_code r), copy_out_data r (k\<lparr>current := p\<rparr>)))"

section \<open>Lemmas\<close>

text \<open>The messages in flight from a side of a channel of the kernel.\<close>

definition k_in_flight :: "nat \<Rightarrow> side \<Rightarrow> kernel \<Rightarrow> (bytes \<times> resource option) list" where
  "k_in_flight c sd k = in_flight sd (channels k c, k_ipc k)"

lemma cur_simps [simp]:
  "cur (set_cur p k) = p" "current (set_cur p k) = current k"
  "channels (set_cur p k) = channels k" "k_ipc (set_cur p k) = k_ipc k"
  by (simp_all add: cur_def set_cur_def)

lemma cur_upd [simp]:
  "cur (k\<lparr>channels := cs\<rparr>) = cur k" "cur (k\<lparr>k_ipc := w\<rparr>) = cur k"
  "cur (k\<lparr>next_channel := n\<rparr>) = cur k" "cur (k\<lparr>next_mailbox := n\<rparr>) = cur k"
  by (simp_all add: cur_def)

lemma cur_handles_simps [simp]:
  "cur (set_cur_handles t k) = (cur k)\<lparr>p_handles := t\<rparr>" "current (set_cur_handles t k) = current k"
  "channels (set_cur_handles t k) = channels k" "k_ipc (set_cur_handles t k) = k_ipc k"
  "cur (set_cur_mem mem k) = (cur k)\<lparr>p_mem := mem\<rparr>" "current (set_cur_mem mem k) = current k"
  "channels (set_cur_mem mem k) = channels k" "k_ipc (set_cur_mem mem k) = k_ipc k"
  by (simp_all add: set_cur_handles_def set_cur_mem_def)

lemma procs_set_cur [simp]:
  "procs (set_cur p k) = (procs k)(current k \<mapsto> p)"
  "procs (set_cur_handles t k) = (procs k)(current k \<mapsto> (cur k)\<lparr>p_handles := t\<rparr>)"
  "procs (set_cur_mem mem k) = (procs k)(current k \<mapsto> (cur k)\<lparr>p_mem := mem\<rparr>)"
  by (simp_all add: set_cur_def set_cur_handles_def set_cur_mem_def)

lemma procs_set_mailbox [simp]:
  "procs (set_mailbox n mb k) = procs k" "current (set_mailbox n mb k) = current k"
  "cur (set_mailbox n mb k) = cur k" "channels (set_mailbox n mb k) = channels k"
  by (simp_all add: set_mailbox_def)

lemma register_simps [simp]:
  "procs (chan_register c sd k) = procs k" "current (chan_register c sd k) = current k"
  "cur (chan_register c sd k) = cur k" "k_ipc (chan_register c sd k) = k_ipc k"
  "k_in_flight c' sd' (chan_register c sd k) = k_in_flight c' sd' k"
proof -
  show "k_in_flight c' sd' (chan_register c sd k) = k_in_flight c' sd' k"
    by (cases sd; cases sd')
      (simp_all add: k_in_flight_def chan_register_def in_flight_def channel_set_waiting_def)
qed (simp_all add: chan_register_def cur_def)

lemma chan_send_error:
  "chan_send c sd msg att k = (Inl e, k') \<Longrightarrow> k' = k"
  by (auto simp: chan_send_def send_with_attachment_def Let_def case_prod_unfold split: if_splits)

lemma chan_recv_error:
  "chan_recv c sd buf k = (Inl e, buf', k') \<Longrightarrow> k' = k"
  by (auto simp: chan_recv_def recv_with_attachment_def Let_def case_prod_unfold
      split: if_splits list.splits)

lemma chan_recv_Cons:
  assumes "queue (snd (halves sd (channels k c))) = m # rest" "length (msg_data m) \<le> n"
  obtains k' where "chan_recv c sd (replicate n 0) k
      = (Inr (length (msg_data m), attachment m), copy_at 0 (msg_data m) (replicate n 0), k')"
    "procs k' = procs k" "current k' = current k" "cur k' = cur k"
    "k_in_flight c (other sd) k' = map (\<lambda>m. (msg_data m, attachment m)) rest"
proof -
  have "queue (fst (halves (other sd) (channels k c))) = m # rest"
    using assms(1) by (simp add: halves_other)
  from recv_Cons [OF this assms(2), of "k_ipc k"] obtain s' w' where
    r: "recv_with_attachment sd (replicate n 0) (channels k c) (k_ipc k)
      = (Inr (length (msg_data m), attachment m), copy_at 0 (msg_data m) (replicate n 0), s', w')"
      "queue (fst (halves (other sd) s')) = rest" by auto
  let ?k = "k\<lparr>channels := (channels k)(c := s'), k_ipc := w'\<rparr>"
  show ?thesis
    by (rule that [of ?k])
      (use r in \<open>simp_all add: chan_recv_def cur_def k_in_flight_def in_flight_def\<close>)
qed

lemma chan_recv_Nil:
  assumes "queue (snd (halves sd (channels k c))) = []"
  shows "chan_recv c sd buf k
    = (Inl (if closed (snd (halves sd (channels k c))) then PeerClosed else QueueEmpty), buf, k)"
  using assms by (simp add: chan_recv_def recv_with_attachment_def Let_def case_prod_unfold)

lemma recv_loop_Cons:
  assumes "queue (snd (halves sd (channels k c))) = m # rest"
    and "length (msg_data m) \<le> min (unat (us_len dst)) MAX_MESSAGE_SIZE"
    and "attachment m = None \<or> \<not> table_is_full (p_handles (cur k))"
  obtains k' where "procs k' = procs k" "current k' = current k" "cur k' = cur k"
    "k_in_flight c (other sd) k' = map (\<lambda>m. (msg_data m, attachment m)) rest"
    "recv_loop reg c sd dst flags out k =
      (let (hid, k'') = install_attachment (attachment m) k' in
       (Some (case out of
          Some ptr \<Rightarrow> write_back_with_handle (of_nat (length (msg_data m))) (msg_data m) dst ptr hid
        | None \<Rightarrow> write_back (of_nat (length (msg_data m))) (msg_data m) dst), k''))"
proof -
  have np: "\<not> (peek_has_attachment sd (channels k c) = Some True \<and> table_is_full (p_handles (cur k)))"
    using assms(1,3) by (auto simp: peek_has_attachment_def case_prod_unfold)
  have loop: "recv_loop reg c sd dst flags out k =
      (let (hid, k'') = install_attachment (attachment m) k' in
       (Some (case out of
          Some ptr \<Rightarrow> write_back_with_handle (of_nat (length (msg_data m))) (msg_data m) dst ptr hid
        | None \<Rightarrow> write_back (of_nat (length (msg_data m))) (msg_data m) dst), k''))"
    if "chan_recv c sd (replicate (min (unat (us_len dst)) MAX_MESSAGE_SIZE) 0) k
      = (Inr (length (msg_data m), attachment m),
         copy_at 0 (msg_data m) (replicate (min (unat (us_len dst)) MAX_MESSAGE_SIZE) 0), k')" for k'
    using that
    by (subst recv_loop.simps, subst if_not_P [OF np])
      (simp add: copy_at_def case_prod_unfold Let_def split: option.splits)
  obtain k' where k': "chan_recv c sd (replicate (min (unat (us_len dst)) MAX_MESSAGE_SIZE) 0) k
      = (Inr (length (msg_data m), attachment m),
         copy_at 0 (msg_data m) (replicate (min (unat (us_len dst)) MAX_MESSAGE_SIZE) 0), k')"
    "procs k' = procs k" "current k' = current k" "cur k' = cur k"
    "k_in_flight c (other sd) k' = map (\<lambda>m. (msg_data m, attachment m)) rest"
    by (rule chan_recv_Cons [OF assms(1,2)])
  show ?thesis
    by (rule that [OF k'(2-5) loop [OF k'(1)]])
qed

lemma register_half:
  "queue (snd (halves sd (channels (chan_register c sd k) c))) = queue (snd (halves sd (channels k c)))"
  "closed (snd (halves sd (channels (chan_register c sd k) c))) = closed (snd (halves sd (channels k c)))"
  "snd (halves sd (channels (chan_register c sd k) c)) = snd (halves sd (channels k c))"
  "waiting (ch_waker (fst (halves sd (channels (chan_register c sd k) c)))) = Some (current k)"
  "closed (fst (halves sd (channels (chan_register c sd k) c))) = closed (fst (halves sd (channels k c)))"
  "queue (fst (halves sd (channels (chan_register c sd k) c))) = queue (fst (halves sd (channels k c)))"
  "capacity (channels (chan_register c sd k) c) = capacity (channels k c)"
  by (simp_all add: chan_register_def channel_set_waiting_def Let_def case_prod_unfold set_waiting_def)

lemma recv_loop_Nil_registered:
  assumes "queue (snd (halves sd (channels k c))) = []"
  shows "recv_loop True c sd dst flags out k =
    (if closed (snd (halves sd (channels k c))) then (Some (result_err EcChannelClosed), k)
     else if flags AND CHANNEL_NONBLOCK \<noteq> 0 then (Some (result_err EcWouldBlock), k) else (None, k))"
  using assms
  by (subst recv_loop.simps)
    (simp add: peek_has_attachment_def case_prod_unfold chan_recv_Nil Let_def)

lemma recv_loop_Nil:
  assumes "queue (snd (halves sd (channels k c))) = []"
  shows "recv_loop False c sd dst flags out k =
    (if closed (snd (halves sd (channels k c))) then (Some (result_err EcChannelClosed), k)
     else if flags AND CHANNEL_NONBLOCK \<noteq> 0 then (Some (result_err EcWouldBlock), k)
     else (None, chan_register c sd k))"
  using assms
  by (subst recv_loop.simps)
    (simp add: peek_has_attachment_def case_prod_unfold chan_recv_Nil Let_def
      recv_loop_Nil_registered register_half)

lemma recv_loop_rejected:
  assumes "queue (snd (halves sd (channels k c))) = m # rest"
  shows "attachment m \<noteq> None \<Longrightarrow> table_is_full (p_handles (cur k)) \<Longrightarrow>
      recv_loop reg c sd dst flags out k = (Some (result_err EcTooManyHandles), k)"
    and "attachment m = None \<or> \<not> table_is_full (p_handles (cur k)) \<Longrightarrow>
      min (unat (us_len dst)) MAX_MESSAGE_SIZE < length (msg_data m) \<Longrightarrow>
      recv_loop reg c sd dst flags out k = (Some (result_err EcBufferTooSmall), k)"
  using assms
  by (subst recv_loop.simps,
      auto simp: peek_has_attachment_def case_prod_unfold chan_recv_def recv_with_attachment_def Let_def)+

lemma install_attachment_Some:
  assumes "table_ok (p_handles (cur k))" "\<not> table_is_full (p_handles (cur k))"
    "next_id (p_handles (cur k)) \<le> MAX_ID" "install_attachment (Some r) k = (hid, k')"
  shows "handle_get (p_handles (cur k)) hid = None
    \<and> handle_get (p_handles (cur k')) = (handle_get (p_handles (cur k)))(hid \<mapsto> handle_new r)
    \<and> channels k' = channels k \<and> k_ipc k' = k_ipc k \<and> current k' = current k
    \<and> cur k' = (cur k)\<lparr>p_handles := p_handles (cur k')\<rparr>
    \<and> procs k' = (procs k)(current k \<mapsto> cur k') \<and> from_handle hid = handle_type_as_u8 (res_handle_type r)"
proof -
  obtain res t where i: "insert_typed (res_handle_type r) r (p_handles (cur k)) = (res, t)" by fastforce
  from this show ?thesis
  proof (cases rule: insert_typed_cases)
    case ok
    then have "insert_typed (res_handle_type r) r (p_handles (cur k)) = (Inr hid, t)"
      and k': "k' = set_cur_handles t k"
      using assms(4) i by (auto simp: install_attachment_def handle_insert_def)
    then show ?thesis
      using handle_get_insert_typed [OF assms(1)] ok k' assms(4) i
      by (auto simp: install_attachment_def handle_insert_def)
  qed (use assms in \<open>auto simp: table_is_full_def\<close>)
qed

lemma woken_ref_post: "\<exists>ps. woken (ref_post_event r events w) = woken w @ ps"
  by (auto simp: ref_post_event_def Let_def case_prod_unfold split: option.splits)

lemma woken_notify:
  assumes "waiting (ch_waker h) = Some p"
  shows "\<exists>ps. woken (snd (notify events h w)) = woken w @ p # ps"
proof (cases "ch_mailbox h")
  case None
  then show ?thesis using assms by (simp add: notify_def wake_def Let_def)
next
  case (Some r)
  then show ?thesis
    using assms woken_ref_post [of r events "w\<lparr>woken := woken w @ [p]\<rparr>"]
    by (auto simp: notify_def wake_def Let_def)
qed

lemma chan_send_ok:
  assumes "length msg \<le> MAX_MESSAGE_SIZE" "\<not> closed (snd (halves sd (channels k c)))"
    "length (queue (fst (halves sd (channels k c)))) < capacity (channels k c)"
  obtains k' where "chan_send c sd msg att k = (Inr (), k')"
    "procs k' = procs k" "current k' = current k"
    "queue (fst (halves sd (channels k' c)))
      = queue (fst (halves sd (channels k c))) @ [\<lparr>msg_data = msg, attachment = att\<rparr>]"
    "\<And>p. waiting (ch_waker (snd (halves sd (channels k c)))) = Some p \<Longrightarrow>
      \<exists>ps. woken (k_ipc k') = woken (k_ipc k) @ p # ps"
proof -
  let ?h = "halves sd (channels k c)"
  let ?n = "notify EVENT_CHANNEL_READABLE (snd ?h) (k_ipc k)"
  let ?s = "put_halves sd ((fst ?h)\<lparr>queue := queue (fst ?h) @ [\<lparr>msg_data = msg, attachment = att\<rparr>]\<rparr>, fst ?n) (channels k c)"
  let ?k = "k\<lparr>channels := (channels k)(c := ?s), k_ipc := snd ?n\<rparr>"
  have "chan_send c sd msg att k = (Inr (), ?k)"
    using assms by (simp add: chan_send_def send_with_attachment_def Let_def case_prod_unfold)
  then show ?thesis
    by (rule that) (simp_all add: woken_notify)
qed

lemma send_loop_ok:
  "chan_send c sd msg att k = (Inr (), k') \<Longrightarrow> send_loop reg c sd msg att flags k = (Some (result_ok 0), k')"
  by (subst send_loop.simps) simp

lemma recv_loop_not_blocked:
  assumes "queue (snd (halves sd (channels k c))) = m # rest"
  shows "fst (recv_loop reg c sd dst flags out k) \<noteq> None"
proof (cases "attachment m = None \<or> \<not> table_is_full (p_handles (cur k))")
  case True
  show ?thesis
  proof (cases "length (msg_data m) \<le> min (unat (us_len dst)) MAX_MESSAGE_SIZE")
    case small: True
    show ?thesis
      by (rule recv_loop_Cons [OF assms small True, of reg flags out])
        (simp add: case_prod_unfold Let_def)
  next
    case False
    then have "min (unat (us_len dst)) MAX_MESSAGE_SIZE < length (msg_data m)" by (simp only: not_le)
    then show ?thesis by (simp add: recv_loop_rejected(2) [OF assms True])
  qed
next
  case False
  then show ?thesis using recv_loop_rejected(1) [OF assms] by simp
qed

lemma chan_send_Inr:
  assumes "chan_send c sd msg att k = (Inr (), k')"
  shows "length msg \<le> MAX_MESSAGE_SIZE" "procs k' = procs k" "current k' = current k"
    "queue (fst (halves sd (channels k' c)))
      = queue (fst (halves sd (channels k c))) @ [\<lparr>msg_data = msg, attachment = att\<rparr>]"
    "waiting (ch_waker (snd (halves sd (channels k c)))) = Some p \<Longrightarrow>
      \<exists>ps. woken (k_ipc k') = woken (k_ipc k) @ p # ps"
proof -
  show m: "length msg \<le> MAX_MESSAGE_SIZE"
    using assms by (auto simp: chan_send_def send_with_attachment_def Let_def case_prod_unfold split: if_splits)
  have "\<not> closed (snd (halves sd (channels k c)))"
    "length (queue (fst (halves sd (channels k c)))) < capacity (channels k c)"
    using assms by (auto simp: chan_send_def send_with_attachment_def Let_def case_prod_unfold split: if_splits)
  note ok = chan_send_ok [OF m this, of att, unfolded assms prod.inject]
  show "procs k' = procs k" "current k' = current k"
    "queue (fst (halves sd (channels k' c)))
      = queue (fst (halves sd (channels k c))) @ [\<lparr>msg_data = msg, attachment = att\<rparr>]"
    by (rule ok; simp)+
  show "\<exists>ps. woken (k_ipc k') = woken (k_ipc k) @ p # ps"
    if "waiting (ch_waker (snd (halves sd (channels k c)))) = Some p"
    by (rule ok) (use that in simp)
qed

lemma recv_woken_by_send:
  assumes "queue (snd (halves sd (channels k c))) = []" "\<not> closed (snd (halves sd (channels k c)))"
    and "chan_send c (other sd) msg att ((chan_register c sd k)\<lparr>current := q\<rparr>) = (Inr (), k2)"
    and "length msg \<le> unat (us_len dst)" "\<not> table_is_full (p_handles (cur k))"
  shows "(\<exists>ps. woken (k_ipc k2) = woken (k_ipc k) @ current k # ps)
    \<and> (\<exists>r k3. recv_loop False c sd dst flags out (k2\<lparr>current := current k\<rparr>) = (Some r, k3)
          \<and> writeback r = Some (msg, dst))"
proof -
  let ?k = "(chan_register c sd k)\<lparr>current := q\<rparr>" and ?m = "\<lparr>msg_data = msg, attachment = att\<rparr>"
  have h: "fst (halves (other sd) (channels ?k c)) = snd (halves sd (channels k c))"
    "waiting (ch_waker (snd (halves (other sd) (channels ?k c)))) = Some (current k)"
    by (simp_all add: halves_other register_half)
  have k2: "procs k2 = procs k" "queue (fst (halves (other sd) (channels k2 c))) = [?m]"
    "\<exists>ps. woken (k_ipc k2) = woken (k_ipc k) @ current k # ps" "length msg \<le> MAX_MESSAGE_SIZE"
    using chan_send_Inr [OF assms(3)] h assms(1) by simp_all
  let ?k2 = "k2\<lparr>current := current k\<rparr>"
  have cur: "cur ?k2 = cur k" using k2(1) by (simp add: cur_def)
  have q2: "queue (snd (halves sd (channels ?k2 c))) = [?m]"
    using k2(2) by (simp add: halves_other)
  have small: "length (msg_data ?m) \<le> min (unat (us_len dst)) MAX_MESSAGE_SIZE"
    "attachment ?m = None \<or> \<not> table_is_full (p_handles (cur ?k2))"
    using k2(4) assms(4,5) cur by simp_all
  have "\<exists>r k3. recv_loop False c sd dst flags out ?k2 = (Some r, k3) \<and> writeback r = Some (msg, dst)"
    by (rule recv_loop_Cons [OF q2 small, of False flags out])
      (simp add: case_prod_unfold Let_def write_back_def write_back_with_handle_def split: option.splits)
  then show ?thesis using k2(3) by blast
qed

lemma recv_woken_by_drop:
  assumes "queue (snd (halves sd (channels k c))) = []" "\<not> closed (snd (halves sd (channels k c)))"
  shows "(\<exists>ps. woken (k_ipc (chan_drop c (other sd) ((chan_register c sd k)\<lparr>current := q\<rparr>)))
        = woken (k_ipc k) @ current k # ps)
    \<and> recv_loop False c sd dst flags out ((chan_drop c (other sd) ((chan_register c sd k)\<lparr>current := q\<rparr>))\<lparr>current := current k\<rparr>)
      = (Some (result_err EcChannelClosed), (chan_drop c (other sd) ((chan_register c sd k)\<lparr>current := q\<rparr>))\<lparr>current := current k\<rparr>)"
proof -
  let ?k = "(chan_register c sd k)\<lparr>current := q\<rparr>"
  have "waiting (ch_waker (snd (halves (other sd) (channels ?k c)))) = Some (current k)"
    by (simp add: halves_other register_half)
  from woken_notify [OF this, of EVENT_CHANNEL_CLOSED "k_ipc k"]
  have w: "\<exists>ps. woken (k_ipc (chan_drop c (other sd) ?k)) = woken (k_ipc k) @ current k # ps"
    by (simp add: chan_drop_def channel_close_def Let_def case_prod_unfold)
  let ?d = "(chan_drop c (other sd) ?k)\<lparr>current := current k\<rparr>"
  have "queue (snd (halves sd (channels ?d c))) = []" "closed (snd (halves sd (channels ?d c)))"
    using assms(1)
    by (simp_all add: chan_drop_def channel_close_def Let_def case_prod_unfold halves_other register_half)
  then show ?thesis using w by (simp add: recv_loop_Nil)
qed

text \<open>A small kernel: process 1 holds one end of channel 0 and a shared buffer, process 2 the other end.\<close>

definition demo_kernel :: kernel where
  "demo_kernel = \<lparr>
     procs = [1 \<mapsto> \<lparr>p_handles = insert_at 2 (ResSharedBuffer 5) (insert_at 1 (ResChannel 0 SideA) table_empty),
                p_mem = (\<lambda>_. 0), p_pending = None\<rparr>,
              2 \<mapsto> \<lparr>p_handles = insert_at 1 (ResChannel 0 SideB) table_empty, p_mem = (\<lambda>_. 0), p_pending = None\<rparr>],
     current = 1, channels = (\<lambda>_. shared_new), next_channel = 1, k_ipc = no_ipc, next_mailbox = 0\<rparr>"

lemma demo_tables_ok:
  "table_ok (p_handles (the (procs demo_kernel p))) \<and> \<not> table_is_full (p_handles (the (procs demo_kernel p)))
   \<and> next_id (p_handles (the (procs demo_kernel p))) \<le> MAX_ID" if "p = 1 \<or> p = 2"
  using that
  by (auto simp: demo_kernel_def insert_at_def table_empty_def table_ok_def table_is_full_def
      MAX_HANDLES_PER_PROCESS_def bt_invar_def id_from_handle_def ID_MASK_def MAX_ID_def)

section \<open>Properties\<close>



text \<open>C7: Handle transfer works end to end. When a process sends a message with a transferable
  handle attached and the peer process then receives it with an out-pointer, the send returns zero and
  leaves the sender's table as it was, the receive returns the length, the receiver's
  table gains exactly one handle, for the same resource, and its id is what the receiver finds
  at its out-pointer.\<close>

theorem transfer_end_to_end:
  assumes "p \<noteq> q" "current k = p" "procs k p = Some P" "procs k q = Some Q"
    and "handle_get (p_handles P) h = Some hs" "as_channel (h_resource hs) = Some (c, sd)"
    and "a \<noteq> 0" "handle_get (p_handles P) a = Some ha" "is_transferable (h_resource ha)"
    and "ua_read (user_slice_new buf len) (p_mem P) = Inr msg" "length msg \<le> MAX_MESSAGE_SIZE"
    and "queue (fst (halves sd (channels k c))) = []" "\<not> closed (snd (halves sd (channels k c)))"
    and "0 < capacity (channels k c)"
    and "handle_get (p_handles Q) h' = Some hr" "as_channel (h_resource hr) = Some (c, other sd)"
    and "table_ok (p_handles Q)" "\<not> table_is_full (p_handles Q)" "next_id (p_handles Q) \<le> MAX_ID"
    and "length msg \<le> unat len'" "out \<noteq> 0" "unat out + 8 \<le> 2 ^ 47"
  shows "\<exists>fut k1 k2 hid.
    channel_send_call h buf len flags a k = Inr fut
    \<and> poll_and_dispatch fut k = (Some 0, k1) \<and> procs k1 = procs k
    \<and> poll_and_dispatch (channel_recv_call h' buf' len' flags' out (k1\<lparr>current := q\<rparr>)) (k1\<lparr>current := q\<rparr>)
      = (Some (of_nat (length msg)), k2)
    \<and> procs k2 p = Some P
    \<and> handle_get (p_handles Q) hid = None
    \<and> handle_get (p_handles (cur k2)) = (handle_get (p_handles Q))(hid \<mapsto> handle_new (h_resource ha))
    \<and> load_bytes (p_mem (cur k2)) out 8 = le_bytes 8 hid"
proof -
  have curP: "cur k = P" using assms(2,3) by (simp add: cur_def)
  let ?r = "h_resource ha"
  let ?fut = "FutSend (Some (h_resource hs)) msg (Some ?r) (ucast flags)"
  have fut: "channel_send_call h buf len flags a k = Inr ?fut"
    using assms(5-10) curP by (simp add: channel_send_call_def resolve_resource_def)
  obtain k1 where k1: "chan_send c sd msg (Some ?r) k = (Inr (), k1)" "procs k1 = procs k" "current k1 = current k"
    "queue (fst (halves sd (channels k1 c))) = [\<lparr>msg_data = msg, attachment = Some ?r\<rparr>]"
    using chan_send_ok [OF assms(11,13), of "Some ?r"] assms(12,14) by (metis append_Nil list.size(3))
  have send: "poll_and_dispatch ?fut k = (Some 0, k1)"
    using assms(6) send_loop_ok [OF k1(1)]
    by (simp add: poll_and_dispatch_def downcast_or_invalid_def result_ok_def copy_out_handle_def copy_out_data_def)
  let ?k = "k1\<lparr>current := q\<rparr>" and ?m = "\<lparr>msg_data = msg, attachment = Some ?r\<rparr>"
  have curQ: "cur ?k = Q" using assms(4) k1(2) by (simp add: cur_def)
  let ?dst = "user_slice_new buf' len'"
  have rfut: "channel_recv_call h' buf' len' flags' out ?k = FutRecv (Some (h_resource hr)) ?dst (ucast flags') (Some out)"
    using assms(15,16,21) curQ by (simp add: channel_recv_call_def resolve_resource_def)
  have q: "queue (snd (halves (other sd) (channels ?k c))) = [?m]"
    using k1(4) by (simp add: halves_other)
  obtain k2 where k2: "procs k2 = procs ?k" "current k2 = current ?k" "cur k2 = cur ?k"
    "recv_loop False c (other sd) ?dst (ucast flags') (Some out) ?k =
      (let (hid, k'') = install_attachment (attachment ?m) k2 in
       (Some (case Some out of
          Some ptr \<Rightarrow> write_back_with_handle (of_nat (length (msg_data ?m))) (msg_data ?m) ?dst ptr hid
        | None \<Rightarrow> write_back (of_nat (length (msg_data ?m))) (msg_data ?m) ?dst), k''))"
    by (rule recv_loop_Cons [OF q, of ?dst False "ucast flags'" "Some out"])
      (use assms(11,18,20) curQ in \<open>simp_all add: user_slice_new_def\<close>)
  obtain hid k3 where k3: "install_attachment (Some ?r) k2 = (hid, k3)" by fastforce
  then have i: "handle_get (p_handles Q) hid = None"
      "handle_get (p_handles (cur k3)) = (handle_get (p_handles Q))(hid \<mapsto> handle_new ?r)"
      "current k3 = q" "procs k3 = (procs k)(q \<mapsto> cur k3)"
    using install_attachment_Some [of k2 ?r hid k3] assms(17-19) k2 curQ k1(2) by simp_all
  let ?res = "write_back_with_handle (of_nat (length msg)) msg ?dst out hid"
  let ?k4 = "copy_out_handle ?res (copy_out_data ?res k3)"
  have recv: "poll_and_dispatch (channel_recv_call h' buf' len' flags' out ?k) ?k
      = (Some (of_nat (length msg)), ?k4)"
    using k2(4) k3 assms(16) rfut
    by (simp add: poll_and_dispatch_def downcast_or_invalid_def write_back_with_handle_def)
  have v: "ua_validate (user_slice_new out 8) = Inr ()"
    using assms(22) by (simp add: ua_validate_Inr user_slice_new_def)
  have k4: "procs ?k4 p = Some P" "p_handles (cur ?k4) = p_handles (cur k3)"
    "load_bytes (p_mem (cur ?k4)) out 8 = le_bytes 8 hid"
    using i(3,4) assms(1,3) v load_store [of "le_bytes 8 hid" _ out]
    by (simp_all add: copy_out_handle_def copy_out_data_def write_back_with_handle_def ua_write_user_def)
  show ?thesis
    using fut send k1(2) recv k4 i by metis
qed

theorem transfer_end_to_end_witness:
  "\<exists>fut k1 k2 hid. channel_send_call 1 0 3 0 2 demo_kernel = Inr fut
    \<and> poll_and_dispatch fut demo_kernel = (Some 0, k1)
    \<and> poll_and_dispatch (channel_recv_call 1 64 8 0 128 (k1\<lparr>current := 2\<rparr>)) (k1\<lparr>current := 2\<rparr>) = (Some 3, k2)
    \<and> handle_get (p_handles (cur k2)) hid = Some (handle_new (ResSharedBuffer 5))
    \<and> load_bytes (p_mem (cur k2)) 128 8 = le_bytes 8 hid"
proof -
  let ?P = "the (procs demo_kernel 1)" and ?Q = "the (procs demo_kernel 2)"
  have f: "(1 :: pid) \<noteq> 2" "current demo_kernel = 1" "procs demo_kernel 1 = Some ?P" "procs demo_kernel 2 = Some ?Q"
    "handle_get (p_handles ?P) 1 = Some (handle_new (ResChannel 0 SideA))"
    "as_channel (h_resource (handle_new (ResChannel 0 SideA))) = Some (0, SideA)"
    "(2 :: u64) \<noteq> 0" "handle_get (p_handles ?P) 2 = Some (handle_new (ResSharedBuffer 5))"
    "is_transferable (h_resource (handle_new (ResSharedBuffer 5)))"
    "ua_read (user_slice_new 0 3) (p_mem ?P) = Inr [0, 0, 0]" "length [0 :: u8, 0, 0] \<le> MAX_MESSAGE_SIZE"
    "queue (fst (halves SideA (channels demo_kernel 0))) = []"
    "\<not> closed (snd (halves SideA (channels demo_kernel 0)))" "0 < capacity (channels demo_kernel 0)"
    "handle_get (p_handles ?Q) 1 = Some (handle_new (ResChannel 0 SideB))"
    "as_channel (h_resource (handle_new (ResChannel 0 SideB))) = Some (0, other SideA)"
    by (simp_all add: demo_kernel_def handle_get_def insert_at_def bt_get_def table_empty_def handle_new_def
        is_transferable_def ua_read_def ua_validate_def user_slice_new_def checked_add_usize_def
        USER_ADDR_MAX_def load_bytes_def MAX_MESSAGE_SIZE_def shared_new_def half_new_def
        DEFAULT_QUEUE_CAPACITY_def upt_rec)
  have g: "length [0 :: u8, 0, 0] \<le> unat (8 :: u64)" "(128 :: u64) \<noteq> 0" "unat (128 :: u64) + 8 \<le> 2 ^ 47"
    by simp_all
  have t: "table_ok (p_handles ?Q)" "\<not> table_is_full (p_handles ?Q)" "next_id (p_handles ?Q) \<le> MAX_ID"
    using demo_tables_ok [of 2] by simp_all
  have n: "of_nat (length [0 :: u8, 0, 0]) = (3 :: u64)" by simp
  show ?thesis
    using transfer_end_to_end [OF f t g, of 0 64 0] unfolding n
    by (elim exE conjE) (metis fun_upd_same handle.select_convs(1) handle_new_def)
qed



text \<open>C32: A blocked call that completes later loses the id of a transferred handle. When the future of a
  blocked receive with an out-pointer completes with a message that carries a handle, the handle is
  installed in the receiver's table, yet the only change of the receiver's memory is the message
  payload: the id is not written to the out-pointer, unlike in the path for calls that complete at once.\<close>

theorem deferred_recv_loses_handle_id:
  assumes "procs k q = Some Q" "p_pending Q = Some (FutRecv (Some res) dst flags (Some out))"
    and "as_channel res = Some (c, sd)"
    and "queue (snd (halves sd (channels k c))) = m # rest" "attachment m = Some r"
    and "length (msg_data m) \<le> min (unat (us_len dst)) MAX_MESSAGE_SIZE"
    and "table_ok (p_handles Q)" "\<not> table_is_full (p_handles Q)" "next_id (p_handles Q) \<le> MAX_ID"
  shows "\<exists>sr k1 k2 hid. poll_pending_syscall q k = (Some (Completed sr), k1)
    \<and> handle_writeback sr = Some (out, hid)
    \<and> dispatch_completed_syscall q sr k1 = (Some (of_nat (length (msg_data m))), k2)
    \<and> handle_get (p_handles Q) hid = None
    \<and> handle_get (p_handles (cur k2)) = (handle_get (p_handles Q))(hid \<mapsto> handle_new r)
    \<and> p_mem (cur k2) = snd (ua_write dst (msg_data m) (p_mem Q))"
proof -
  let ?Q = "Q\<lparr>p_pending := None\<rparr>"
  let ?k = "(k\<lparr>current := q\<rparr>)\<lparr>procs := (procs k)(q \<mapsto> ?Q)\<rparr>"
  have cur: "cur ?k = ?Q" by (simp add: cur_def)
  have q: "queue (snd (halves sd (channels ?k c))) = m # rest" using assms(4) by simp
  obtain k2 where k2: "procs k2 = procs ?k" "current k2 = current ?k" "cur k2 = cur ?k"
    "recv_loop False c sd dst flags (Some out) ?k =
      (let (hid, k'') = install_attachment (attachment m) k2 in
       (Some (case Some out of
          Some ptr \<Rightarrow> write_back_with_handle (of_nat (length (msg_data m))) (msg_data m) dst ptr hid
        | None \<Rightarrow> write_back (of_nat (length (msg_data m))) (msg_data m) dst), k''))"
    by (rule recv_loop_Cons [OF q assms(6), of False flags "Some out"]) (use assms(8) cur in simp_all)
  obtain hid k3 where k3: "install_attachment (Some r) k2 = (hid, k3)" by fastforce
  then have i: "handle_get (p_handles Q) hid = None"
      "handle_get (p_handles (cur k3)) = (handle_get (p_handles Q))(hid \<mapsto> handle_new r)"
      "current k3 = q" "procs k3 = (procs k)(q \<mapsto> cur k3)" "p_mem (cur k3) = p_mem Q"
    using install_attachment_Some [of k2 r hid k3] assms(7-9) k2 cur
    by (simp_all, metis process_state.select_convs(2) process_state.surjective process_state.update_convs(1,3))
  let ?res = "write_back_with_handle (of_nat (length (msg_data m))) (msg_data m) dst out hid"
  have p: "poll_pending_syscall q k = (Some (Completed ?res), k3)"
    using assms(1-3,5) k2(4) k3 by (simp add: poll_pending_syscall_def downcast_or_invalid_def Let_def)
  let ?k4 = "copy_out_data ?res k3"
  have kk: "k3\<lparr>current := q\<rparr> = k3" using i(3) by simp
  have d: "dispatch_completed_syscall q ?res k3 = (Some (of_nat (length (msg_data m))), ?k4)"
    unfolding dispatch_completed_syscall_def kk using i(4) by (simp add: write_back_with_handle_def)
  show ?thesis
    by (rule exI [of _ ?res], rule exI [of _ k3], rule exI [of _ ?k4], rule exI [of _ hid])
      (use p d i in \<open>simp add: copy_out_data_def write_back_with_handle_def\<close>)
qed

text \<open>The kernel in which process 2 has blocked in a receive and process 1 has then sent a message with
  its shared buffer attached.\<close>

definition demo_blocked :: kernel where
  "demo_blocked = snd (poll_and_dispatch (channel_recv_call 1 64 8 0 128 (demo_kernel\<lparr>current := 2\<rparr>)) (demo_kernel\<lparr>current := 2\<rparr>))"

definition demo_sent :: kernel where
  "demo_sent = snd (chan_send 0 SideA [7] (Some (ResSharedBuffer 5)) (demo_blocked\<lparr>current := 1\<rparr>))"

lemma demo_blocked_eq:
  "demo_blocked = (let k = chan_register 0 SideB (demo_kernel\<lparr>current := 2\<rparr>) in
     set_cur ((cur k)\<lparr>p_pending := Some (FutRecv (Some (ResChannel 0 SideB)) (user_slice_new 64 8) 0 (Some 128))\<rparr>) k)"
  by (simp add: demo_blocked_def poll_and_dispatch_def channel_recv_call_def resolve_resource_def
      demo_kernel_def cur_def handle_get_def insert_at_def table_empty_def bt_get_def handle_new_def
      downcast_or_invalid_def recv_loop_Nil shared_new_def half_new_def Let_def)

theorem deferred_recv_loses_handle_id_witness:
  "\<exists>sr k1 k2 hid. poll_pending_syscall 2 demo_sent = (Some (Completed sr), k1)
    \<and> handle_writeback sr = Some (128, hid)
    \<and> dispatch_completed_syscall 2 sr k1 = (Some 1, k2)
    \<and> handle_get (p_handles (cur k2)) hid = Some (handle_new (ResSharedBuffer 5))
    \<and> p_mem (cur k2) 128 = 0"
proof -
  have s: "procs demo_sent 2 = Some ((the (procs demo_kernel 2))\<lparr>p_pending :=
      Some (FutRecv (Some (ResChannel 0 SideB)) (user_slice_new 64 8) 0 (Some 128))\<rparr>)"
    "queue (snd (halves SideB (channels demo_sent 0))) = [\<lparr>msg_data = [7], attachment = Some (ResSharedBuffer 5)\<rparr>]"
    by (simp_all add: demo_sent_def demo_blocked_eq chan_send_def send_with_attachment_def Let_def
        chan_register_def channel_set_waiting_def demo_kernel_def cur_def set_cur_def shared_new_def half_new_def
        MAX_MESSAGE_SIZE_def DEFAULT_QUEUE_CAPACITY_def notify_def wake_def set_waiting_def)
  show ?thesis
    using deferred_recv_loses_handle_id [OF s(1) _ _ s(2), of "ResChannel 0 SideB" "user_slice_new 64 8" 0 128 "ResSharedBuffer 5"]
    by (auto simp: demo_kernel_def insert_at_def table_empty_def table_ok_def table_is_full_def
        MAX_HANDLES_PER_PROCESS_def MAX_MESSAGE_SIZE_def user_slice_new_def bt_invar_def id_from_handle_def ID_MASK_def MAX_ID_def
        ua_write_def ua_validate_def checked_add_usize_def USER_ADDR_MAX_def store_bytes_def)
qed

end
