(* ===== verification/Frame.thy ===== *)
theory Frame
  imports Prelude "HOL-Library.Monad_Syntax"
begin

text \<open>
  Fixed-layout message frames, the style shared by the scheme provider protocol and
  the compositor protocol: an encoder writes fields at constant offsets of a
  caller's buffer, a decoder reads them back with checked ranges. The locale
  \<^verbatim>\<open>frame_codec\<close> is the contract of such a pair.
\<close>

section \<open>Writing and reading fields\<close>

text \<open>A sequence of \<^verbatim>\<open>buf[i..i + n].copy_from_slice(v)\<close>.\<close>

definition put_all :: "(nat \<times> bytes) list \<Rightarrow> bytes \<Rightarrow> bytes" where
  "put_all fields buf = fold (\<lambda>(i, v) b. copy_at i v b) fields buf"

definition u8_at :: "bytes \<Rightarrow> nat \<Rightarrow> u8 option" where
  "u8_at buf i = (if i < length buf then Some (buf ! i) else None)"

definition u16_at :: "bytes \<Rightarrow> nat \<Rightarrow> u16 option" where
  "u16_at buf i = map_option le_word (get_range buf i (i + 2))"

definition u32_at :: "bytes \<Rightarrow> nat \<Rightarrow> u32 option" where
  "u32_at buf i = map_option le_word (get_range buf i (i + 4))"

definition u64_at :: "bytes \<Rightarrow> nat \<Rightarrow> u64 option" where
  "u64_at buf i = map_option le_word (get_range buf i (i + 8))"

text \<open>The shape of an encoder arm: a length check, the writes, the length.\<close>

definition sized :: "nat \<Rightarrow> (bytes \<Rightarrow> bytes) \<Rightarrow> bytes \<Rightarrow> nat option \<times> bytes" where
  "sized n fill buf = (if length buf < n then (None, buf) else (Some n, fill buf))"

section \<open>Facts\<close>

fun contiguous :: "nat \<Rightarrow> (nat \<times> bytes) list \<Rightarrow> bool" where
  "contiguous n [] = True"
| "contiguous n ((i, v) # fields) \<longleftrightarrow> i = n \<and> contiguous (n + length v) fields"

lemma put_contiguous:
  assumes "contiguous n fields" "length p = n"
  shows "put_all fields (p @ q) =
    p @ concat (map snd fields) @ drop (length (concat (map snd fields))) q"
  using assms
proof (induction n fields arbitrary: p q rule: contiguous.induct)
  case (2 n i v fields)
  have "copy_at i v (p @ q) = (p @ v) @ drop (length v) q"
    using 2 by (simp add: copy_at_def)
  then show ?case
    using 2(1) [of "p @ v" "drop (length v) q"] 2(2,3) by (simp add: put_all_def add.commute)
qed (simp add: put_all_def)

lemma put_fields:
  "contiguous 0 fields \<Longrightarrow>
   put_all fields buf = concat (map snd fields) @ drop (length (concat (map snd fields))) buf"
  using put_contiguous [of 0 fields "[]" buf] by simp

lemma take_frame: "n = length xs \<Longrightarrow> take n (xs @ ys) = xs"
  by simp

lemma put_all_append: "put_all ys (put_all xs buf) = put_all (xs @ ys) buf"
  by (simp add: put_all_def)

lemma sized_fields:
  assumes "contiguous 0 fields" "n = length (concat (map snd fields))"
  shows "sized n (put_all fields) buf =
    (if length (concat (map snd fields)) \<le> length buf
     then (Some (length (concat (map snd fields))),
           concat (map snd fields) @ drop (length (concat (map snd fields))) buf)
     else (None, buf))"
  using put_fields [OF assms(1), of buf] assms(2) by (auto simp: sized_def)

lemma u8_at_simps [simp]:
  "u8_at [] i = None" "u8_at (b # bs) 0 = Some b" "u8_at (b # bs) (Suc i) = u8_at bs i"
  by (simp_all add: u8_at_def)

lemma u8_at_numeral [simp]: "u8_at (b # bs) (numeral k) = u8_at bs (pred_numeral k)"
  by (simp add: u8_at_def nth_Cons')

lemma u8_at_append: "u8_at (a @ b) i = (if i < length a then Some (a ! i) else u8_at b (i - length a))"
  by (auto simp: u8_at_def nth_append)

lemma get_range_skip:
  "length a \<le> i \<Longrightarrow> i \<le> j \<Longrightarrow> get_range (a @ b) i j = get_range b (i - length a) (j - length a)"
  by (auto simp: get_range_def sub_slice_def)

lemma get_range_front: "length a = n \<Longrightarrow> get_range (a @ b) 0 n = Some a"
  by (simp add: get_range_def sub_slice_def)

lemma field_at:
  "u16_at (a @ le_bytes 2 x @ b) (length a) = Some x"
  "u32_at (a @ le_bytes 4 y @ b) (length a) = Some y"
  "u64_at (a @ le_bytes 8 z @ b) (length a) = Some z"
  by (simp_all add: u16_at_def u32_at_def u64_at_def get_range_skip get_range_front)

lemma get_range_Cons: "0 < i \<Longrightarrow> i \<le> j \<Longrightarrow> get_range (b # bs) i j = get_range bs (i - 1) (j - 1)"
  using get_range_skip [of "[b]" i j bs] by (simp add: Suc_le_eq)

lemma at_skip:
  assumes "length a \<le> i"
  shows "u8_at (a @ b) i = u8_at b (i - length a)"
    and "u16_at (a @ b) i = u16_at b (i - length a)"
    and "u32_at (a @ b) i = u32_at b (i - length a)"
    and "u64_at (a @ b) i = u64_at b (i - length a)"
proof -
  have "i + n - length a = i - length a + n" for n using assms by simp
  then have "get_range (a @ b) i (i + n) = get_range b (i - length a) (i - length a + n)" for n
    using assms by (simp add: get_range_skip)
  then show "u16_at (a @ b) i = u16_at b (i - length a)" "u32_at (a @ b) i = u32_at b (i - length a)"
    "u64_at (a @ b) i = u64_at b (i - length a)"
    by (simp_all only: u16_at_def u32_at_def u64_at_def)
  show "u8_at (a @ b) i = u8_at b (i - length a)"
    using assms by (auto simp: u8_at_def nth_append)
qed

lemma at_Cons:
  "0 < i \<Longrightarrow> u8_at (x # b) i = u8_at b (i - 1)"
  "0 < i \<Longrightarrow> u16_at (x # b) i = u16_at b (i - 1)"
  "0 < i \<Longrightarrow> u32_at (x # b) i = u32_at b (i - 1)"
  "0 < i \<Longrightarrow> u64_at (x # b) i = u64_at b (i - 1)"
  using at_skip [of "[x]" i b] by (simp_all add: Suc_le_eq)

lemma at_front:
  "u16_at (le_bytes 2 x @ b) 0 = Some x"
  "u32_at (le_bytes 4 y @ b) 0 = Some y"
  "u64_at (le_bytes 8 z @ b) 0 = Some z"
  using field_at [of "[]"] by simp_all

lemma at_exact:
  "u16_at (le_bytes 2 x) 0 = Some x"
  "u32_at (le_bytes 4 y) 0 = Some y"
  "u64_at (le_bytes 8 z) 0 = Some z"
  using at_front [where b = "[]"] by simp_all

lemma get_range_exact: "length a = n \<Longrightarrow> get_range a 0 n = Some a"
  using get_range_front [of a n "[]"] by simp

lemmas frame_simps = at_Cons at_skip at_front at_exact get_range_exact get_range_Cons get_range_skip get_range_front

lemma get_range_mono:
  "get_range xs i j = Some v \<Longrightarrow> get_range (xs @ ys) i j = Some v"
  by (auto simp: get_range_def sub_slice_def split: if_splits)

lemma at_mono:
  "u8_at xs i = Some a \<Longrightarrow> u8_at (xs @ ys) i = Some a"
  "u16_at xs i = Some b \<Longrightarrow> u16_at (xs @ ys) i = Some b"
  "u32_at xs i = Some c \<Longrightarrow> u32_at (xs @ ys) i = Some c"
  "u64_at xs i = Some d \<Longrightarrow> u64_at (xs @ ys) i = Some d"
  by (auto simp: u8_at_def u16_at_def u32_at_def u64_at_def nth_append simp del: get_range_eq_Some
      dest: get_range_mono split: if_splits)

lemma at_bound:
  "u8_at xs i = Some a \<Longrightarrow> i + 1 \<le> length xs"
  "u16_at xs i = Some b \<Longrightarrow> i + 2 \<le> length xs"
  "u32_at xs i = Some c \<Longrightarrow> i + 4 \<le> length xs"
  "u64_at xs i = Some d \<Longrightarrow> i + 8 \<le> length xs"
  by (auto simp: u8_at_def u16_at_def u32_at_def u64_at_def split: if_splits)

section \<open>The contract of a frame format\<close>

locale frame_codec =
  fixes enc :: "'a \<Rightarrow> bytes \<Rightarrow> nat option \<times> bytes"
    and dec :: "bytes \<Rightarrow> 'a option"
    and frame :: "'a \<Rightarrow> bytes"
    and wf_frame :: "'a \<Rightarrow> bool"
  assumes enc_frame: "wf_frame x \<Longrightarrow> enc x buf =
      (if length (frame x) \<le> length buf
       then (Some (length (frame x)), frame x @ drop (length (frame x)) buf) else (None, buf))"
    and dec_frame: "wf_frame x \<Longrightarrow> dec (frame x @ rest) = Some x"
    and dec_sound: "dec bs = Some x \<Longrightarrow> length (frame x) \<le> length bs"
    and dec_mono: "dec bs = Some x \<Longrightarrow> dec (bs @ rest) = Some x"
begin

lemma round_trip:
  assumes "wf_frame x" "enc x buf = (Some n, buf')"
  shows "dec (take n buf') = Some x" and "n = length (frame x)" and "drop n buf' = drop n buf"
  using assms enc_frame [OF assms(1), of buf] dec_frame [OF assms(1), of "[]"]
  by (auto split: if_splits)

lemma short_buffer:
  "wf_frame x \<Longrightarrow> enc x buf = (None, buf') \<Longrightarrow> buf' = buf \<and> length buf < length (frame x)"
  using enc_frame [of x buf] by (auto split: if_splits)

lemma truncated_rejected:
  assumes "wf_frame x" "n < length (frame x)"
  shows "dec (take n (frame x)) = None"
proof (rule ccontr)
  assume "dec (take n (frame x)) \<noteq> None"
  then obtain y where y: "dec (take n (frame x)) = Some y" by blast
  then have "dec (take n (frame x) @ drop n (frame x)) = Some y" by (rule dec_mono)
  then have "y = x" using dec_frame [OF assms(1), of "[]"] by simp
  then show False using dec_sound [OF y] assms(2) by simp
qed

lemma unambiguous: "wf_frame x \<Longrightarrow> wf_frame y \<Longrightarrow> frame x @ r = frame y @ s \<Longrightarrow> x = y"
  using dec_frame [of x r] dec_frame [of y s] by simp

end

end
