(* ===== verification/Compositor_Protocol.thy ===== *)
theory Compositor_Protocol
  imports Frame
begin

text \<open>
  The wire protocol between the compositor and its clients,
  \<^verbatim>\<open>userspace/compositor-protocol/src/message.rs\<close>: requests, events, their
  encoders and decoders, and the proof that both are frame formats.
\<close>

section \<open>Messages\<close>

record rect =
  rx :: u32
  ry :: u32
  rwidth :: u32
  rheight :: u32

datatype comp_request =
    CreateWindow
  | AttachBuffer u64 u32 u32 u8
  | Damage u64 rect
  | Commit u64
  | Fill u64 rect u32
  | SetVisible u64 bool
  | MoveWindow u64 u32 u32
  | DestroyWindow u64

datatype comp_event =
    DisplayFormats u32 u32 bytes
  | WindowCreated u64
  | FrameDone u64 u64
  | BufferReleased u64 u64
  | Closed u64

definition MAX_FORMATS :: nat where "MAX_FORMATS = 16"

definition LONGEST_FIXED_FRAME :: nat where "LONGEST_FIXED_FRAME = 1 + 8 + 16 + 4"

definition LONGEST_VARIABLE_FRAME :: nat where
  "LONGEST_VARIABLE_FRAME = 1 + 4 + 4 + 1 + MAX_FORMATS"

definition MAX_FRAME_SIZE :: nat where
  "MAX_FRAME_SIZE =
     (if LONGEST_FIXED_FRAME > LONGEST_VARIABLE_FRAME then LONGEST_FIXED_FRAME else LONGEST_VARIABLE_FRAME)"

section \<open>Encoding\<close>

definition rect_fields :: "nat \<Rightarrow> rect \<Rightarrow> (nat \<times> bytes) list" where
  "rect_fields offset r =
     [(offset, le_bytes 4 (rx r)), (offset + 4, le_bytes 4 (ry r)),
      (offset + 8, le_bytes 4 (rwidth r)), (offset + 12, le_bytes 4 (rheight r))]"

definition put_rect :: "bytes \<Rightarrow> nat \<Rightarrow> rect \<Rightarrow> bytes" where
  "put_rect buf offset r = put_all (rect_fields offset r) buf"

fun comp_request_encode :: "comp_request \<Rightarrow> bytes \<Rightarrow> nat option \<times> bytes" where
  "comp_request_encode CreateWindow buf =
     (case buf of [] \<Rightarrow> (None, buf) | _ # rest \<Rightarrow> (Some 1, 1 # rest))"
| "comp_request_encode (AttachBuffer window width height format) buf =
     sized (1 + 8 + 4 + 4 + 1) (put_all [(0, [2]), (1, le_bytes 8 window), (9, le_bytes 4 width),
       (13, le_bytes 4 height), (17, [format])]) buf"
| "comp_request_encode (Damage window r) buf =
     sized (1 + 8 + 16) (\<lambda>b. put_rect (put_all [(0, [3]), (1, le_bytes 8 window)] b) 9 r) buf"
| "comp_request_encode (Commit window) buf =
     sized (1 + 8) (put_all [(0, [4]), (1, le_bytes 8 window)]) buf"
| "comp_request_encode (Fill window r colour) buf =
     sized (1 + 8 + 16 + 4) (\<lambda>b. put_all [(25, le_bytes 4 colour)]
       (put_rect (put_all [(0, [5]), (1, le_bytes 8 window)] b) 9 r)) buf"
| "comp_request_encode (SetVisible window visible) buf =
     sized (1 + 8 + 1) (put_all [(0, [6]), (1, le_bytes 8 window), (9, [of_bool visible])]) buf"
| "comp_request_encode (MoveWindow window x y) buf =
     sized (1 + 8 + 4 + 4) (put_all [(0, [7]), (1, le_bytes 8 window), (9, le_bytes 4 x), (13, le_bytes 4 y)]) buf"
| "comp_request_encode (DestroyWindow window) buf =
     sized (1 + 8) (put_all [(0, [8]), (1, le_bytes 8 window)]) buf"

definition encode_one :: "u8 \<Rightarrow> u64 \<Rightarrow> bytes \<Rightarrow> nat option \<times> bytes" where
  "encode_one tag v buf = sized (1 + 8) (put_all [(0, [tag]), (1, le_bytes 8 v)]) buf"

definition encode_two :: "u8 \<Rightarrow> u64 \<Rightarrow> u64 \<Rightarrow> bytes \<Rightarrow> nat option \<times> bytes" where
  "encode_two tag v1 v2 buf =
     sized (1 + 8 + 8) (put_all [(0, [tag]), (1, le_bytes 8 v1), (9, le_bytes 8 v2)]) buf"

fun comp_event_encode :: "comp_event \<Rightarrow> bytes \<Rightarrow> nat option \<times> bytes" where
  "comp_event_encode (DisplayFormats width height formats) buf =
     (if length formats > MAX_FORMATS then (None, buf)
      else sized (1 + 4 + 4 + 1 + length formats)
        (put_all [(0, [1]), (1, le_bytes 4 width), (5, le_bytes 4 height), (9, [of_nat (length formats)]),
          (10, formats)]) buf)"
| "comp_event_encode (WindowCreated window) buf = encode_one 2 window buf"
| "comp_event_encode (FrameDone window fr) buf = encode_two 3 window fr buf"
| "comp_event_encode (BufferReleased window buffer) buf = encode_two 4 window buffer buf"
| "comp_event_encode (Closed window) buf = encode_one 5 window buf"

section \<open>Decoding\<close>

definition rect_at :: "bytes \<Rightarrow> nat \<Rightarrow> rect option" where
  "rect_at buf offset = do {
     x \<leftarrow> u32_at buf offset;
     y \<leftarrow> u32_at buf (offset + 4);
     w \<leftarrow> u32_at buf (offset + 8);
     h \<leftarrow> u32_at buf (offset + 12);
     Some \<lparr>rx = x, ry = y, rwidth = w, rheight = h\<rparr> }"

definition comp_request_decode :: "bytes \<Rightarrow> comp_request option" where
  "comp_request_decode buf = do {
     tag \<leftarrow> u8_at buf 0;
     if tag = 1 then Some CreateWindow
     else if tag = 2 then do {
       window \<leftarrow> u64_at buf 1; width \<leftarrow> u32_at buf 9; height \<leftarrow> u32_at buf 13; format \<leftarrow> u8_at buf 17;
       Some (AttachBuffer window width height format) }
     else if tag = 3 then do { window \<leftarrow> u64_at buf 1; r \<leftarrow> rect_at buf 9; Some (Damage window r) }
     else if tag = 4 then do { window \<leftarrow> u64_at buf 1; Some (Commit window) }
     else if tag = 5 then do {
       window \<leftarrow> u64_at buf 1; r \<leftarrow> rect_at buf 9; colour \<leftarrow> u32_at buf 25; Some (Fill window r colour) }
     else if tag = 6 then do { window \<leftarrow> u64_at buf 1; v \<leftarrow> u8_at buf 9; Some (SetVisible window (v \<noteq> 0)) }
     else if tag = 7 then do {
       window \<leftarrow> u64_at buf 1; x \<leftarrow> u32_at buf 9; y \<leftarrow> u32_at buf 13; Some (MoveWindow window x y) }
     else if tag = 8 then do { window \<leftarrow> u64_at buf 1; Some (DestroyWindow window) }
     else None }"

definition comp_event_decode :: "bytes \<Rightarrow> comp_event option" where
  "comp_event_decode buf = do {
     tag \<leftarrow> u8_at buf 0;
     if tag = 1 then do {
       count \<leftarrow> u8_at buf 9;
       width \<leftarrow> u32_at buf 1;
       height \<leftarrow> u32_at buf 5;
       formats \<leftarrow> get_range buf 10 (10 + unat count);
       Some (DisplayFormats width height formats) }
     else if tag = 2 then do { window \<leftarrow> u64_at buf 1; Some (WindowCreated window) }
     else if tag = 3 then do { window \<leftarrow> u64_at buf 1; fr \<leftarrow> u64_at buf 9; Some (FrameDone window fr) }
     else if tag = 4 then do { window \<leftarrow> u64_at buf 1; b \<leftarrow> u64_at buf 9; Some (BufferReleased window b) }
     else if tag = 5 then do { window \<leftarrow> u64_at buf 1; Some (Closed window) }
     else None }"

section \<open>Frames\<close>

text \<open>The fields of a message in the order they appear on the wire.\<close>

fun request_fields :: "comp_request \<Rightarrow> (nat \<times> bytes) list" where
  "request_fields CreateWindow = [(0, [1])]"
| "request_fields (AttachBuffer window width height format) =
     [(0, [2]), (1, le_bytes 8 window), (9, le_bytes 4 width), (13, le_bytes 4 height), (17, [format])]"
| "request_fields (Damage window r) = [(0, [3]), (1, le_bytes 8 window)] @ rect_fields 9 r"
| "request_fields (Commit window) = [(0, [4]), (1, le_bytes 8 window)]"
| "request_fields (Fill window r colour) =
     [(0, [5]), (1, le_bytes 8 window)] @ rect_fields 9 r @ [(25, le_bytes 4 colour)]"
| "request_fields (SetVisible window visible) = [(0, [6]), (1, le_bytes 8 window), (9, [of_bool visible])]"
| "request_fields (MoveWindow window x y) =
     [(0, [7]), (1, le_bytes 8 window), (9, le_bytes 4 x), (13, le_bytes 4 y)]"
| "request_fields (DestroyWindow window) = [(0, [8]), (1, le_bytes 8 window)]"

fun event_fields :: "comp_event \<Rightarrow> (nat \<times> bytes) list" where
  "event_fields (DisplayFormats width height formats) =
     [(0, [1]), (1, le_bytes 4 width), (5, le_bytes 4 height), (9, [of_nat (length formats)]), (10, formats)]"
| "event_fields (WindowCreated window) = [(0, [2]), (1, le_bytes 8 window)]"
| "event_fields (FrameDone window fr) = [(0, [3]), (1, le_bytes 8 window), (9, le_bytes 8 fr)]"
| "event_fields (BufferReleased window b) = [(0, [4]), (1, le_bytes 8 window), (9, le_bytes 8 b)]"
| "event_fields (Closed window) = [(0, [5]), (1, le_bytes 8 window)]"

definition request_frame :: "comp_request \<Rightarrow> bytes" where
  "request_frame r = concat (map snd (request_fields r))"

definition event_frame :: "comp_event \<Rightarrow> bytes" where
  "event_frame e = concat (map snd (event_fields e))"

fun wf_event :: "comp_event \<Rightarrow> bool" where
  "wf_event (DisplayFormats width height formats) \<longleftrightarrow> length formats \<le> MAX_FORMATS"
| "wf_event _ \<longleftrightarrow> True"

lemma request_encode_fields:
  "comp_request_encode r buf = sized (length (request_frame r)) (put_all (request_fields r)) buf"
  by (cases r) (auto simp: request_frame_def rect_fields_def put_rect_def put_all_append sized_def
      put_all_def copy_at_def split: list.splits)

lemma event_encode_fields:
  "wf_event e \<Longrightarrow> comp_event_encode e buf = sized (length (event_frame e)) (put_all (event_fields e)) buf"
  by (cases e) (simp_all add: event_frame_def encode_one_def encode_two_def)

lemma request_fields_contiguous: "contiguous 0 (request_fields r)"
  by (cases r) (simp_all add: rect_fields_def)

lemma event_fields_contiguous: "contiguous 0 (event_fields e)"
  by (cases e) simp_all

lemma rect_at_frame:
  "rect_at (concat (map snd (rect_fields i r)) @ rest) 0 = Some r"
  by (simp add: rect_at_def rect_fields_def frame_simps)

lemma rect_at_skip: "length a \<le> i \<Longrightarrow> rect_at (a @ b) i = rect_at b (i - length a)"
  by (simp add: rect_at_def frame_simps)

lemma rect_at_Cons: "0 < i \<Longrightarrow> rect_at (x # b) i = rect_at b (i - 1)"
  by (simp add: rect_at_def frame_simps)

lemma length_rect_fields [simp]: "length (concat (map snd (rect_fields i r))) = 16"
  by (simp add: rect_fields_def)

lemma request_decode_frame: "comp_request_decode (request_frame r @ rest) = Some r"
  by (cases r) (simp_all add: request_frame_def comp_request_decode_def frame_simps rect_at_frame
      rect_at_skip rect_at_Cons)

lemma event_decode_frame: "wf_event e \<Longrightarrow> comp_event_decode (event_frame e @ rest) = Some e"
  by (cases e) (simp_all add: event_frame_def comp_event_decode_def frame_simps MAX_FORMATS_def)

lemma rect_at_mono: "rect_at xs i = Some r \<Longrightarrow> rect_at (xs @ ys) i = Some r"
  by (auto simp: rect_at_def at_mono split: bind_splits)

lemma rect_at_bound: "rect_at xs i = Some r \<Longrightarrow> i + 16 \<le> length xs"
  by (auto simp: rect_at_def dest!: at_bound split: bind_splits)

lemma request_decode_tags:
  assumes "comp_request_decode bs = Some r"
  obtains tag where "u8_at bs 0 = Some tag" "tag \<in> {1, 2, 3, 4, 5, 6, 7, 8}"
  using assms by (auto simp: comp_request_decode_def bind_eq_Some_conv split: if_splits)

lemma request_decode_mono:
  assumes "comp_request_decode bs = Some r"
  shows "comp_request_decode (bs @ rest) = Some r" and "length (request_frame r) \<le> length bs"
proof -
  obtain tag where t: "u8_at bs 0 = Some tag" "tag \<in> {1, 2, 3, 4, 5, 6, 7, 8}"
    using assms by (rule request_decode_tags)
  note t' = at_mono(1) [OF t(1), of rest]
  have "comp_request_decode (bs @ rest) = Some r \<and> length (request_frame r) \<le> length bs"
    using t(2)
    by (elim insertE emptyE; use assms t(1) t' in
      \<open>force simp: comp_request_decode_def bind_eq_Some_conv at_mono rect_at_mono request_frame_def
         dest: at_bound rect_at_bound\<close>)
  then show "comp_request_decode (bs @ rest) = Some r" "length (request_frame r) \<le> length bs" by blast+
qed

lemma event_decode_tags:
  assumes "comp_event_decode bs = Some e"
  obtains tag where "u8_at bs 0 = Some tag" "tag \<in> {1, 2, 3, 4, 5}"
  using assms by (auto simp: comp_event_decode_def bind_eq_Some_conv split: if_splits)

lemma event_decode_mono:
  assumes "comp_event_decode bs = Some e"
  shows "comp_event_decode (bs @ rest) = Some e" and "length (event_frame e) \<le> length bs"
proof -
  obtain tag where t: "u8_at bs 0 = Some tag" "tag \<in> {1, 2, 3, 4, 5}"
    using assms by (rule event_decode_tags)
  note t' = at_mono(1) [OF t(1), of rest]
  have r: "get_range bs i j = Some v \<Longrightarrow> length v = j - i \<and> i \<le> j \<and> j \<le> length bs" for i j v by auto
  have "comp_event_decode (bs @ rest) = Some e \<and> length (event_frame e) \<le> length bs"
    using t(2)
    by (elim insertE emptyE; use assms t(1) t' in
      \<open>force simp: comp_event_decode_def bind_eq_Some_conv at_mono get_range_mono event_frame_def
         simp del: get_range_eq_Some dest: at_bound r\<close>)
  then show "comp_event_decode (bs @ rest) = Some e" "length (event_frame e) \<le> length bs" by blast+
qed

interpretation creq: frame_codec comp_request_encode comp_request_decode request_frame "\<lambda>_. True"
proof
  fix x :: comp_request and buf bs rest :: bytes
  show "comp_request_encode x buf = (if length (request_frame x) \<le> length buf
       then (Some (length (request_frame x)), request_frame x @ drop (length (request_frame x)) buf) else (None, buf))"
    using sized_fields [OF request_fields_contiguous, of _ x buf] by (simp add: request_encode_fields request_frame_def)
  show "comp_request_decode (request_frame x @ rest) = Some x" by (rule request_decode_frame)
  show "length (request_frame x) \<le> length bs" if "comp_request_decode bs = Some x"
    using that by (rule request_decode_mono)
  show "comp_request_decode (bs @ rest) = Some x" if "comp_request_decode bs = Some x"
    using that by (rule request_decode_mono)
qed

interpretation cev: frame_codec comp_event_encode comp_event_decode event_frame wf_event
proof
  fix x :: comp_event and buf bs rest :: bytes
  show "comp_event_encode x buf = (if length (event_frame x) \<le> length buf
       then (Some (length (event_frame x)), event_frame x @ drop (length (event_frame x)) buf) else (None, buf))"
    if "wf_event x"
    using that sized_fields [OF event_fields_contiguous, of _ x buf] by (simp add: event_encode_fields event_frame_def)
  show "comp_event_decode (event_frame x @ rest) = Some x" if "wf_event x"
    using that by (rule event_decode_frame)
  show "length (event_frame x) \<le> length bs" if "comp_event_decode bs = Some x"
    using that by (rule event_decode_mono)
  show "comp_event_decode (bs @ rest) = Some x" if "comp_event_decode bs = Some x"
    using that by (rule event_decode_mono)
qed

lemma frame_size_bound:
  "length (request_frame r) \<le> MAX_FRAME_SIZE"
  "wf_event e \<Longrightarrow> length (event_frame e) \<le> MAX_FRAME_SIZE"
  by (cases r; simp add: request_frame_def rect_fields_def MAX_FRAME_SIZE_def LONGEST_FIXED_FRAME_def
      LONGEST_VARIABLE_FRAME_def MAX_FORMATS_def)
    (cases e; simp add: event_frame_def MAX_FRAME_SIZE_def LONGEST_FIXED_FRAME_def
      LONGEST_VARIABLE_FRAME_def MAX_FORMATS_def)

section \<open>Properties\<close>



end
