(* ===== verification/Compositor.thy ===== *)
theory Compositor
  imports Compositor_Protocol
begin

text \<open>
  The compositor: rectangles and blending (\<^verbatim>\<open>compositor-protocol/src/rect.rs\<close>, \<^verbatim>\<open>blend.rs\<close>), the render target and its framebuffer
  (\<^verbatim>\<open>compositor/src/target.rs\<close>, \<^verbatim>\<open>display.rs\<close>), and the window manager (\<^verbatim>\<open>manager.rs\<close>). The buffers of the clients are shared memory, a store
  from mappings to bytes that is passed along; \<^verbatim>\<open>None\<close> is the panic of an addition that overflows.
\<close>

section \<open>Checked arithmetic and loops\<close>

definition add32 :: "u32 \<Rightarrow> u32 \<Rightarrow> u32 option" where
  "add32 a b = (if uint a + uint b < 2 ^ 32 then Some (a + b) else None)"

definition mul32 :: "u32 \<Rightarrow> u32 \<Rightarrow> u32 option" where
  "mul32 a b = (if uint a * uint b < 2 ^ 32 then Some (a * b) else None)"

definition inc64 :: "u64 \<Rightarrow> u64 option" where
  "inc64 a = (if a = 0xFFFFFFFFFFFFFFFF then None else Some (a + 1))"

text \<open>The operators \<^verbatim>\<open>||\<close> and \<^verbatim>\<open>&&\<close> evaluate their right side only when the left does not decide.\<close>

definition or_else :: "bool option \<Rightarrow> bool option \<Rightarrow> bool option" where
  "or_else a b = (case a of None \<Rightarrow> None | Some x \<Rightarrow> if x then Some True else b)"

definition and_then :: "bool option \<Rightarrow> bool option \<Rightarrow> bool option" where
  "and_then a b = (case a of None \<Rightarrow> None | Some x \<Rightarrow> if x then b else Some False)"

primrec for_in :: "'x list \<Rightarrow> ('x \<Rightarrow> 's \<Rightarrow> 's option) \<Rightarrow> 's \<Rightarrow> 's option" where
  "for_in [] f s = Some s"
| "for_in (x # xs) f s = (case f x s of None \<Rightarrow> None | Some s' \<Rightarrow> for_in xs f s')"

text \<open>The values of a range of 32-bit integers.\<close>

definition range32 :: "u32 \<Rightarrow> u32 \<Rightarrow> u32 list" where
  "range32 a b = map of_nat [unat a..<unat b]"

section \<open>Rectangles\<close>

definition right :: "rect \<Rightarrow> u32 option" where "right r = add32 (rx r) (rwidth r)"

definition bottom :: "rect \<Rightarrow> u32 option" where "bottom r = add32 (ry r) (rheight r)"

definition intersects :: "rect \<Rightarrow> rect \<Rightarrow> bool option" where
  "intersects a b = map_option Not
     (or_else (map_option (\<lambda>e. rx a \<ge> e) (right b))
     (or_else (map_option (\<lambda>e. e \<le> rx b) (right a))
     (or_else (map_option (\<lambda>e. ry a \<ge> e) (bottom b))
       (map_option (\<lambda>e. e \<le> ry b) (bottom a)))))"

definition rect_intersection :: "rect \<Rightarrow> rect \<Rightarrow> rect option option" where
  "rect_intersection a b = do {
     i \<leftarrow> intersects a b;
     if \<not> i then Some None
     else do {
       ra \<leftarrow> right a; rb \<leftarrow> right b; ba \<leftarrow> bottom a; bb \<leftarrow> bottom b;
       let x = max (rx a) (rx b); y = max (ry a) (ry b) in
       Some (Some \<lparr>rx = x, ry = y, rwidth = min ra rb - x, rheight = min ba bb - y\<rparr>) } }"

definition rect_union :: "rect \<Rightarrow> rect \<Rightarrow> rect option" where
  "rect_union a b = do {
     ra \<leftarrow> right a; rb \<leftarrow> right b; ba \<leftarrow> bottom a; bb \<leftarrow> bottom b;
     let x = min (rx a) (rx b); y = min (ry a) (ry b) in
     Some \<lparr>rx = x, ry = y, rwidth = max ra rb - x, rheight = max ba bb - y\<rparr> }"

definition is_adjacent :: "rect \<Rightarrow> rect \<Rightarrow> bool option" where
  "is_adjacent a b = do {
     h_adjacent \<leftarrow> and_then
       (or_else (map_option (\<lambda>e. e = rx b) (right a)) (map_option (\<lambda>e. e = rx a) (right b)))
       (map_option Not (or_else (map_option (\<lambda>e. ry a \<ge> e) (bottom b)) (map_option (\<lambda>e. ry b \<ge> e) (bottom a))));
     v_adjacent \<leftarrow> and_then
       (or_else (map_option (\<lambda>e. e = ry b) (bottom a)) (map_option (\<lambda>e. e = ry a) (bottom b)))
       (map_option Not (or_else (map_option (\<lambda>e. rx a \<ge> e) (right b)) (map_option (\<lambda>e. rx b \<ge> e) (right a))));
     Some (h_adjacent \<or> v_adjacent) }"

definition rect_contains :: "rect \<Rightarrow> u32 \<Rightarrow> u32 \<Rightarrow> bool option" where
  "rect_contains r x y = and_then (Some (x \<ge> rx r)) (and_then (map_option (\<lambda>e. x < e) (right r))
     (and_then (Some (y \<ge> ry r)) (map_option (\<lambda>e. y < e) (bottom r))))"

definition rect_is_empty :: "rect \<Rightarrow> bool" where
  "rect_is_empty r \<longleftrightarrow> rwidth r = 0 \<or> rheight r = 0"

section \<open>Blending\<close>

definition alpha_blend :: "bytes \<Rightarrow> bytes \<Rightarrow> bytes" where
  "alpha_blend src dst =
     (let src_alpha = uint (src ! 3) in
      if src_alpha = 255 then src
      else if src_alpha = 0 then dst
      else let inv_alpha = 255 - src_alpha;
               mix = \<lambda>i. word_of_int ((uint (src ! i) * src_alpha + uint (dst ! i) * inv_alpha) div 255) in
        [mix 0, mix 1, mix 2, word_of_int (src_alpha + uint (dst ! 3) * inv_alpha div 255)])"

definition row_opaque :: "bytes \<Rightarrow> nat \<Rightarrow> nat \<Rightarrow> bool" where
  "row_opaque data row_start width \<longleftrightarrow>
     list_all (\<lambda>col. row_start + col * 4 + 3 < length data \<and> data ! (row_start + col * 4 + 3) = 255) [0..<width]"

text \<open>The position of a pixel of a buffer, in 32-bit arithmetic.\<close>

definition pixel_index :: "u32 \<Rightarrow> u32 \<Rightarrow> u32 \<Rightarrow> u32 option" where
  "pixel_index stride x y = do { a \<leftarrow> mul32 y stride; add32 a x }"

fun rows_opaque :: "bytes \<Rightarrow> u32 \<Rightarrow> u32 \<Rightarrow> u32 \<Rightarrow> u32 \<Rightarrow> u32 list \<Rightarrow> bool option" where
  "rows_opaque data src_x src_y width stride [] = Some True"
| "rows_opaque data src_x src_y width stride (row # rows) = do {
     y \<leftarrow> add32 src_y row;
     i \<leftarrow> pixel_index stride src_x y;
     if row_opaque data (unat i * 4) (unat width) then rows_opaque data src_x src_y width stride rows else Some False }"

definition is_region_opaque :: "bytes \<Rightarrow> u32 \<Rightarrow> u32 \<Rightarrow> u32 \<Rightarrow> u32 \<Rightarrow> u32 \<Rightarrow> bool option" where
  "is_region_opaque data src_x src_y width height stride = rows_opaque data src_x src_y width stride (range32 0 height)"

section \<open>Render targets\<close>

text \<open>A \<^verbatim>\<open>dyn Target\<close> is its table of methods.\<close>

record 't target_ops =
  t_width :: "'t \<Rightarrow> u32"
  t_height :: "'t \<Rightarrow> u32"
  t_fill :: "'t \<Rightarrow> rect \<Rightarrow> u32 \<Rightarrow> 't option"
  t_write_row :: "'t \<Rightarrow> u32 \<Rightarrow> u32 \<Rightarrow> u32 \<Rightarrow> bytes \<Rightarrow> 't option"
  t_get_pixel :: "'t \<Rightarrow> u32 \<Rightarrow> u32 \<Rightarrow> bytes option"
  t_set_pixel :: "'t \<Rightarrow> u32 \<Rightarrow> u32 \<Rightarrow> bytes \<Rightarrow> 't option"
  t_flush :: "'t \<Rightarrow> rect \<Rightarrow> 't"

text \<open>
  The mapped framebuffer. The regions that were flushed are the arguments of the display system calls. An access
  outside the mapping has no defined result.
\<close>

record framebuffer =
  fb_pixels :: bytes
  fb_width :: u32
  fb_height :: u32
  fb_stride :: u32
  fb_flushed :: "rect list"

definition fb_offset :: "framebuffer \<Rightarrow> u32 \<Rightarrow> u32 \<Rightarrow> u32 option" where
  "fb_offset fb x y = do { a \<leftarrow> mul32 y (fb_stride fb); b \<leftarrow> mul32 x 4; add32 a b }"

definition fb_store :: "framebuffer \<Rightarrow> u32 \<Rightarrow> u32 \<Rightarrow> bytes \<Rightarrow> framebuffer option" where
  "fb_store fb x y data = do {
     off \<leftarrow> fb_offset fb x y;
     if unat off + length data \<le> length (fb_pixels fb)
     then Some (fb\<lparr>fb_pixels := copy_at (unat off) data (fb_pixels fb)\<rparr>) else None }"

definition fb_fill :: "framebuffer \<Rightarrow> rect \<Rightarrow> u32 \<Rightarrow> framebuffer option" where
  "fb_fill fb r colour = do {
     y2 \<leftarrow> bottom r;
     for_in (range32 (ry r) (min y2 (fb_height fb))) (\<lambda>y fb. do {
       x2 \<leftarrow> right r;
       for_in (range32 (rx r) (min x2 (fb_width fb))) (\<lambda>x fb. fb_store fb x y (le_bytes 4 colour)) fb }) fb }"

definition fb_write_row :: "framebuffer \<Rightarrow> u32 \<Rightarrow> u32 \<Rightarrow> u32 \<Rightarrow> bytes \<Rightarrow> framebuffer option" where
  "fb_write_row fb x y width src =
     (if y \<ge> fb_height fb \<or> x \<ge> fb_width fb then Some fb
      else let n = unat (min width (fb_width fb - x)) * 4 in
        if length src < n then Some fb else fb_store fb x y (take n src))"

definition fb_get_pixel :: "framebuffer \<Rightarrow> u32 \<Rightarrow> u32 \<Rightarrow> bytes option" where
  "fb_get_pixel fb x y =
     (if x \<ge> fb_width fb \<or> y \<ge> fb_height fb then Some (replicate 4 0)
      else do { off \<leftarrow> fb_offset fb x y; get_range (fb_pixels fb) (unat off) (unat off + 4) })"

definition fb_set_pixel :: "framebuffer \<Rightarrow> u32 \<Rightarrow> u32 \<Rightarrow> bytes \<Rightarrow> framebuffer option" where
  "fb_set_pixel fb x y pixel =
     (if x \<ge> fb_width fb \<or> y \<ge> fb_height fb then Some fb else fb_store fb x y pixel)"

definition fb_flush :: "framebuffer \<Rightarrow> rect \<Rightarrow> framebuffer" where
  "fb_flush fb r = fb\<lparr>fb_flushed := fb_flushed fb @ [r]\<rparr>"

definition framebuffer_target :: "framebuffer target_ops" where
  "framebuffer_target = \<lparr>t_width = fb_width, t_height = fb_height, t_fill = fb_fill, t_write_row = fb_write_row,
     t_get_pixel = fb_get_pixel, t_set_pixel = fb_set_pixel, t_flush = fb_flush\<rparr>"

section \<open>Windows\<close>

type_synonym shared_memory = "nat \<Rightarrow> bytes"

definition BACKGROUND_COLOUR :: u32 where "BACKGROUND_COLOUR = 0xFF2E3440"

definition FORMAT_BGRA8888 :: u8 where "FORMAT_BGRA8888 = 1"

record attachment =
  at_id :: u64
  at_data :: nat
  at_len :: nat
  at_width :: u32
  at_height :: u32

text \<open>The products of 32-bit integers fit a 64-bit \<^verbatim>\<open>usize\<close>, but the last factor may not.\<close>

definition attachment_new :: "u64 \<Rightarrow> nat \<Rightarrow> nat \<Rightarrow> u32 \<Rightarrow> u32 \<Rightarrow> u8 \<Rightarrow> attachment option" where
  "attachment_new i data len width height format =
     (if format \<noteq> FORMAT_BGRA8888 then None
      else let needed = unat width * unat height * 4 in
        if uint width * uint height * 4 \<ge> 2 ^ 64 then None
        else if needed = 0 \<or> len < needed then None
        else Some \<lparr>at_id = i, at_data = data, at_len = len, at_width = width, at_height = height\<rparr>)"

definition as_slice :: "shared_memory \<Rightarrow> attachment \<Rightarrow> bytes" where
  "as_slice mem a = take (at_len a) (mem (at_data a))"

record window =
  w_id :: u64
  w_visible :: bool
  w_position :: "u32 \<times> u32"
  w_size :: "u32 \<times> u32"
  w_pending :: "attachment option"
  w_latched :: "attachment option"
  w_pending_damage :: "rect list"
  w_awaiting_frame :: bool

definition w_rect :: "window \<Rightarrow> rect" where
  "w_rect w = \<lparr>rx = fst (w_position w), ry = snd (w_position w), rwidth = fst (w_size w), rheight = snd (w_size w)\<rparr>"

record 't window_manager =
  wm_windows :: "window list"
  wm_dirty_regions :: "rect list"
  wm_target :: "'t option"
  wm_next_window_id :: u64
  wm_frame :: u64

definition screen_rect :: "'t target_ops \<Rightarrow> 't \<Rightarrow> rect" where
  "screen_rect ops t = \<lparr>rx = 0, ry = 0, rwidth = t_width ops t, rheight = t_height ops t\<rparr>"

definition wm_new :: "'t target_ops \<Rightarrow> 't option \<Rightarrow> 't window_manager option" where
  "wm_new ops target = do {
     target' \<leftarrow> (case target of
         None \<Rightarrow> Some None
       | Some t \<Rightarrow> do { t' \<leftarrow> t_fill ops t (screen_rect ops t) BACKGROUND_COLOUR; Some (Some (t_flush ops t' (screen_rect ops t))) });
     Some \<lparr>wm_windows = [], wm_dirty_regions = [], wm_target = target', wm_next_window_id = 1, wm_frame = 0\<rparr> }"

definition screen_size :: "'t target_ops \<Rightarrow> 't window_manager \<Rightarrow> u32 \<times> u32" where
  "screen_size ops m = (case wm_target m of Some t \<Rightarrow> (t_width ops t, t_height ops t) | None \<Rightarrow> (0, 0))"

text \<open>\<^verbatim>\<open>window_mut\<close> is the first window of that id.\<close>

definition find_window :: "u64 \<Rightarrow> window list \<Rightarrow> window option" where
  "find_window i ws = find (\<lambda>w. w_id w = i) ws"

fun put_window :: "u64 \<Rightarrow> window \<Rightarrow> window list \<Rightarrow> window list" where
  "put_window i w' [] = []"
| "put_window i w' (w # ws) = (if w_id w = i then w' # ws else w # put_window i w' ws)"

fun coalesce_regions :: "rect list \<Rightarrow> rect \<Rightarrow> rect list option" where
  "coalesce_regions [] r = Some [r]"
| "coalesce_regions (existing # rest) r = do {
     touch \<leftarrow> or_else (intersects existing r) (is_adjacent existing r);
     if touch then do { u \<leftarrow> rect_union existing r; Some (u # rest) }
     else do { rest' \<leftarrow> coalesce_regions rest r; Some (existing # rest') } }"

definition mark_dirty :: "rect \<Rightarrow> 't window_manager \<Rightarrow> 't window_manager option" where
  "mark_dirty r m =
     (if rect_is_empty r then Some m
      else do { ds \<leftarrow> coalesce_regions (wm_dirty_regions m) r; Some (m\<lparr>wm_dirty_regions := ds\<rparr>) })"

section \<open>Filling a buffer\<close>

definition fill_pixel :: "u32 \<Rightarrow> bytes \<Rightarrow> u32 \<Rightarrow> u32 \<Rightarrow> bytes \<Rightarrow> bytes option" where
  "fill_pixel stride colour x y data = do {
     i \<leftarrow> pixel_index stride x y;
     offset \<leftarrow> mul32 i 4;
     if unat offset + 4 > length data then Some data else Some (copy_at (unat offset) colour data) }"

definition fill_buffer :: "shared_memory \<Rightarrow> attachment \<Rightarrow> rect \<Rightarrow> u32 \<Rightarrow> shared_memory option" where
  "fill_buffer mem a r0 colour = do {
     clipped \<leftarrow> rect_intersection r0 \<lparr>rx = 0, ry = 0, rwidth = at_width a, rheight = at_height a\<rparr>;
     (case clipped of None \<Rightarrow> Some mem
      | Some r \<Rightarrow> do {
          y2 \<leftarrow> bottom r;
          data \<leftarrow> for_in (range32 (ry r) y2) (\<lambda>y data. do {
            x2 \<leftarrow> right r;
            for_in (range32 (rx r) x2) (\<lambda>x data. fill_pixel (at_width a) (le_bytes 4 colour) x y data) data }) (as_slice mem a);
          Some (mem(at_data a := data @ drop (at_len a) (mem (at_data a)))) }) }"

section \<open>Requests\<close>

definition new_window :: "u64 \<Rightarrow> window" where
  "new_window i = \<lparr>w_id = i, w_visible = False, w_position = (0, 0), w_size = (0, 0), w_pending = None, w_latched = None,
     w_pending_damage = [], w_awaiting_frame = False\<rparr>"

definition released :: "u64 \<Rightarrow> attachment option \<Rightarrow> comp_event list" where
  "released window a = (case a of None \<Rightarrow> [] | Some b \<Rightarrow> [BufferReleased window (at_id b)])"

definition damage_at :: "u32 \<times> u32 \<Rightarrow> rect \<Rightarrow> rect option" where
  "damage_at origin r = do { x \<leftarrow> add32 (fst origin) (rx r); y \<leftarrow> add32 (snd origin) (ry r); Some (r\<lparr>rx := x, ry := y\<rparr>) }"

text \<open>The window of a commit after its pending buffer is latched, with the events.\<close>

definition latch :: "window \<Rightarrow> window \<times> comp_event list" where
  "latch w = (let (w1, ev) = (case w_pending w of
        None \<Rightarrow> (w, [])
      | Some p \<Rightarrow> (w\<lparr>w_pending := None, w_size := (at_width p, at_height p), w_latched := Some p\<rparr>, released (w_id w) (w_latched w))) in
     (w1\<lparr>w_awaiting_frame := True, w_pending_damage := []\<rparr>, ev))"

type_synonym 't handled = "comp_event list \<times> 't window_manager \<times> shared_memory"

fun handle_request :: "comp_request \<Rightarrow> attachment option \<Rightarrow> 't window_manager \<Rightarrow> shared_memory \<Rightarrow> 't handled option" where
  "handle_request CreateWindow _ m mem = do {
     let i = wm_next_window_id m;
     next_id \<leftarrow> inc64 i;
     Some ([WindowCreated i], m\<lparr>wm_next_window_id := next_id, wm_windows := wm_windows m @ [new_window i]\<rparr>, mem) }"
| "handle_request (AttachBuffer window _ _ _) att m mem =
     (case att of None \<Rightarrow> Some ([], m, mem)
      | Some a \<Rightarrow> (case find_window window (wm_windows m) of
          None \<Rightarrow> Some ([], m, mem)
        | Some w \<Rightarrow> Some (released window (w_pending w),
            m\<lparr>wm_windows := put_window window (w\<lparr>w_pending := Some a\<rparr>) (wm_windows m)\<rparr>, mem)))"
| "handle_request (Damage window r) _ m mem =
     (case find_window window (wm_windows m) of
        None \<Rightarrow> Some ([], m, mem)
      | Some w \<Rightarrow> Some ([], m\<lparr>wm_windows := put_window window (w\<lparr>w_pending_damage := w_pending_damage w @ [r]\<rparr>) (wm_windows m)\<rparr>, mem))"
| "handle_request (Commit window) _ m mem =
     (case find_window window (wm_windows m) of
        None \<Rightarrow> Some ([], m, mem)
      | Some w \<Rightarrow>
          if w_pending w = None \<and> w_latched w = None then Some ([], m, mem)
          else let (w', ev) = latch w; m' = m\<lparr>wm_windows := put_window window w' (wm_windows m)\<rparr>; damage = w_pending_damage w in
            if \<not> w_visible w' then Some (ev, m', mem)
            else if damage = [] then do { m'' \<leftarrow> mark_dirty (w_rect w') m'; Some (ev, m'', mem) }
            else do {
              m'' \<leftarrow> for_in damage (\<lambda>r m. do { r' \<leftarrow> damage_at (w_position w') r; mark_dirty r' m }) m';
              Some (ev, m'', mem) })"
| "handle_request (Fill window r colour) _ m mem =
     (case find_window window (wm_windows m) of
        None \<Rightarrow> Some ([], m, mem)
      | Some w \<Rightarrow> (case (case w_pending w of Some a \<Rightarrow> Some a | None \<Rightarrow> w_latched w) of
          None \<Rightarrow> Some ([], m, mem)
        | Some a \<Rightarrow> do {
            mem' \<leftarrow> fill_buffer mem a r colour;
            Some ([], m\<lparr>wm_windows := put_window window (w\<lparr>w_pending_damage := w_pending_damage w @ [r]\<rparr>) (wm_windows m)\<rparr>, mem') }))"
| "handle_request (SetVisible window visible) _ m mem =
     (case find_window window (wm_windows m) of
        None \<Rightarrow> Some ([], m, mem)
      | Some w \<Rightarrow>
          if w_visible w = visible then Some ([], m, mem)
          else do {
            m' \<leftarrow> mark_dirty (w_rect w) (m\<lparr>wm_windows := put_window window (w\<lparr>w_visible := visible\<rparr>) (wm_windows m)\<rparr>);
            Some ([], m', mem) })"
| "handle_request (MoveWindow window x y) _ m mem =
     (case find_window window (wm_windows m) of
        None \<Rightarrow> Some ([], m, mem)
      | Some w \<Rightarrow>
          let w' = w\<lparr>w_position := (x, y)\<rparr>; m' = m\<lparr>wm_windows := put_window window w' (wm_windows m)\<rparr> in
          if w_visible w then do { m1 \<leftarrow> mark_dirty (w_rect w) m'; m2 \<leftarrow> mark_dirty (w_rect w') m1; Some ([], m2, mem) }
          else Some ([], m', mem))"
| "handle_request (DestroyWindow window) _ m mem =
     (case find_window window (wm_windows m) of
        None \<Rightarrow> Some ([], m, mem)
      | Some w \<Rightarrow> do {
          let m' = m\<lparr>wm_windows := remove1 w (wm_windows m)\<rparr>;
          let ev = released window (w_pending w) @ released window (w_latched w) @ [Closed window];
          m'' \<leftarrow> (if w_visible w \<and> \<not> rect_is_empty (w_rect w) then mark_dirty (w_rect w) m' else Some m');
          Some (ev, m'', mem) })"

section \<open>Compositing\<close>

definition copy_row :: "'t target_ops \<Rightarrow> bytes \<Rightarrow> u32 \<Rightarrow> u32 \<Rightarrow> u32 \<Rightarrow> rect \<Rightarrow> u32 \<Rightarrow> 't \<Rightarrow> 't option" where
  "copy_row ops buffer stride src_x src_y clip y t = do {
     sy \<leftarrow> add32 src_y y;
     i \<leftarrow> pixel_index stride src_x sy;
     let src_row_start = unat i * 4;
     let src_row_end = src_row_start + unat (rwidth clip) * 4;
     if src_row_end > length buffer then Some t
     else do {
       dy \<leftarrow> add32 (ry clip) y;
       t_write_row ops t (rx clip) dy (rwidth clip) (sub_slice src_row_start src_row_end buffer) } }"

definition blend_pixel :: "'t target_ops \<Rightarrow> bytes \<Rightarrow> u32 \<Rightarrow> u32 \<Rightarrow> u32 \<Rightarrow> rect \<Rightarrow> u32 \<Rightarrow> u32 \<Rightarrow> 't \<Rightarrow> 't option" where
  "blend_pixel ops buffer stride src_x src_y clip y x t = do {
     sy \<leftarrow> add32 src_y y;
     a \<leftarrow> mul32 sy stride;
     sx \<leftarrow> add32 src_x x;
     i \<leftarrow> add32 a sx;
     src_offset \<leftarrow> mul32 i 4;
     if unat src_offset + 4 > length buffer then Some t
     else let src_pixel = sub_slice (unat src_offset) (unat src_offset + 4) buffer in
       if src_pixel ! 3 = 0 then Some t
       else do {
         dst_x \<leftarrow> add32 (rx clip) x;
         dst_y \<leftarrow> add32 (ry clip) y;
         dst_pixel \<leftarrow> t_get_pixel ops t dst_x dst_y;
         t_set_pixel ops t dst_x dst_y (alpha_blend src_pixel dst_pixel) } }"

definition saturating_sub32 :: "u32 \<Rightarrow> u32 \<Rightarrow> u32" where
  "saturating_sub32 a b = (if b \<le> a then a - b else 0)"

definition composite_window :: "'t target_ops \<Rightarrow> u32 \<times> u32 \<Rightarrow> u32 \<times> u32 \<Rightarrow> bytes \<Rightarrow> rect \<Rightarrow> 't \<Rightarrow> 't option" where
  "composite_window ops window_pos window_size buffer clip t = do {
     let src_x = saturating_sub32 (rx clip) (fst window_pos);
     let src_y = saturating_sub32 (ry clip) (snd window_pos);
     opaque \<leftarrow> is_region_opaque buffer src_x src_y (rwidth clip) (rheight clip) (fst window_size);
     if opaque then for_in (range32 0 (rheight clip)) (copy_row ops buffer (fst window_size) src_x src_y clip) t
     else for_in (range32 0 (rheight clip)) (\<lambda>y.
       for_in (range32 0 (rwidth clip)) (blend_pixel ops buffer (fst window_size) src_x src_y clip y)) t }"

definition paint_window :: "'t target_ops \<Rightarrow> shared_memory \<Rightarrow> rect \<Rightarrow> window \<Rightarrow> 't \<Rightarrow> 't option" where
  "paint_window ops mem dirty w t =
     (if \<not> w_visible w \<or> fst (w_size w) = 0 \<or> snd (w_size w) = 0 then Some t
      else case w_latched w of
        None \<Rightarrow> Some t
      | Some buffer \<Rightarrow> do {
          clip \<leftarrow> rect_intersection (w_rect w) dirty;
          (case clip of None \<Rightarrow> Some t
           | Some c \<Rightarrow> composite_window ops (w_position w) (w_size w) (as_slice mem buffer) c t) })"

definition paint_region :: "'t target_ops \<Rightarrow> shared_memory \<Rightarrow> window list \<Rightarrow> rect \<Rightarrow> rect \<Rightarrow> 't \<Rightarrow> 't option" where
  "paint_region ops mem ws screen region t = do {
     clipped \<leftarrow> rect_intersection region screen;
     (case clipped of None \<Rightarrow> Some t
      | Some dirty \<Rightarrow> do {
          t1 \<leftarrow> t_fill ops t dirty BACKGROUND_COLOUR;
          t2 \<leftarrow> for_in ws (paint_window ops mem dirty) t1;
          Some (t_flush ops t2 dirty) }) }"

definition composite :: "'t target_ops \<Rightarrow> shared_memory \<Rightarrow> 't window_manager \<Rightarrow> 't window_manager option" where
  "composite ops mem m =
     (if wm_dirty_regions m = [] then Some m
      else case wm_target m of
        None \<Rightarrow> Some (m\<lparr>wm_dirty_regions := []\<rparr>)
      | Some t \<Rightarrow> do {
          t' \<leftarrow> for_in (wm_dirty_regions m) (paint_region ops mem (wm_windows m) (screen_rect ops t)) t;
          Some (m\<lparr>wm_target := Some t', wm_dirty_regions := []\<rparr>) })"

definition tick :: "'t target_ops \<Rightarrow> shared_memory \<Rightarrow> 't window_manager \<Rightarrow> (comp_event list \<times> 't window_manager) option" where
  "tick ops mem m = do {
     m1 \<leftarrow> composite ops mem m;
     frame \<leftarrow> inc64 (wm_frame m1);
     Some (map (\<lambda>w. FrameDone (w_id w) frame) (filter w_awaiting_frame (wm_windows m1)),
       m1\<lparr>wm_frame := frame, wm_windows := map (\<lambda>w. w\<lparr>w_awaiting_frame := False\<rparr>) (wm_windows m1)\<rparr>) }"

end
