(* ===== verification/Compositor_Screen.thy ===== *)
theory Compositor_Screen
  imports Compositor
begin

text \<open>
  What is on the screen: the compositor paints, for every pixel of a dirty region, the windows over the background from back to
  front, and leaves every other pixel alone. The render target is an interface whose laws the framebuffer satisfies.
\<close>

section \<open>Rectangles as sets of points\<close>

definition rect_ok :: "rect \<Rightarrow> bool" where
  "rect_ok r \<longleftrightarrow> unat (rx r) + unat (rwidth r) < 2 ^ 32 \<and> unat (ry r) + unat (rheight r) < 2 ^ 32"

definition pts :: "rect \<Rightarrow> (nat \<times> nat) set" where
  "pts r = {unat (rx r)..<unat (rx r) + unat (rwidth r)} \<times> {unat (ry r)..<unat (ry r) + unat (rheight r)}"

lemma add32_run: "unat a + unat b < 2 ^ 32 \<Longrightarrow> add32 a b = Some (a + b) \<and> unat (a + b) = unat a + unat b"
proof -
  assume a: "unat a + unat b < 2 ^ 32"
  then have "int (unat a + unat b) < int (2 ^ 32)" by (simp only: of_nat_less_iff)
  then have "uint a + uint b < 2 ^ 32" by simp
  then show ?thesis using a by (simp add: add32_def unat_word_ariths)
qed

lemma mul32_run: "unat a * unat b < 2 ^ 32 \<Longrightarrow> mul32 a b = Some (a * b) \<and> unat (a * b) = unat a * unat b"
proof -
  assume a: "unat a * unat b < 2 ^ 32"
  then have "int (unat a * unat b) < int (2 ^ 32)" by (simp only: of_nat_less_iff)
  then have "uint a * uint b < 2 ^ 32" by simp
  then show ?thesis using a by (simp add: mul32_def unat_word_ariths)
qed

lemma rect_edges:
  assumes "rect_ok r"
  obtains e f where "right r = Some e" "unat e = unat (rx r) + unat (rwidth r)" "bottom r = Some f" "unat f = unat (ry r) + unat (rheight r)"
  using assms add32_run [of "rx r" "rwidth r"] add32_run [of "ry r" "rheight r"] by (auto simp: rect_ok_def right_def bottom_def)

lemma unat_diff: "(b :: 'a::len word) \<le> a \<Longrightarrow> unat (a - b) = unat a - unat b"
  by (simp add: unat_sub)

lemma unat_min_max: "unat (min a b) = min (unat a) (unat (b :: 'a::len word))" "unat (max a b) = max (unat a) (unat b)"
  by (simp_all add: min_def max_def word_le_nat_alt)

lemma intersects_run:
  assumes "rect_ok a" "rect_ok b"
  shows "intersects a b = Some (unat (rx a) < unat (rx b) + unat (rwidth b) \<and> unat (rx b) < unat (rx a) + unat (rwidth a)
    \<and> unat (ry a) < unat (ry b) + unat (rheight b) \<and> unat (ry b) < unat (ry a) + unat (rheight a))"
proof -
  obtain ea fa where a: "right a = Some ea" "unat ea = unat (rx a) + unat (rwidth a)" "bottom a = Some fa" "unat fa = unat (ry a) + unat (rheight a)"
    using assms(1) by (rule rect_edges)
  obtain eb fb where b: "right b = Some eb" "unat eb = unat (rx b) + unat (rwidth b)" "bottom b = Some fb" "unat fb = unat (ry b) + unat (rheight b)"
    using assms(2) by (rule rect_edges)
  show ?thesis
    using a b by (auto simp: intersects_def or_else_def word_le_nat_alt)
qed

lemma intersection_run:
  assumes "rect_ok a" "rect_ok b"
  obtains "rect_intersection a b = Some None" "pts a \<inter> pts b = {}"
  | c where "rect_intersection a b = Some (Some c)" "rect_ok c" "pts c = pts a \<inter> pts b"
    "\<not> rect_is_empty a \<Longrightarrow> \<not> rect_is_empty b \<Longrightarrow> \<not> rect_is_empty c"
proof -
  obtain ea fa where a: "right a = Some ea" "unat ea = unat (rx a) + unat (rwidth a)" "bottom a = Some fa" "unat fa = unat (ry a) + unat (rheight a)"
    using assms(1) by (rule rect_edges)
  obtain eb fb where b: "right b = Some eb" "unat eb = unat (rx b) + unat (rwidth b)" "bottom b = Some fb" "unat fb = unat (ry b) + unat (rheight b)"
    using assms(2) by (rule rect_edges)
  let ?i = "unat (rx a) < unat (rx b) + unat (rwidth b) \<and> unat (rx b) < unat (rx a) + unat (rwidth a)
    \<and> unat (ry a) < unat (ry b) + unat (rheight b) \<and> unat (ry b) < unat (ry a) + unat (rheight a)"
  show thesis
  proof (cases ?i)
    case False
    then have "pts a \<inter> pts b = {}" by (auto simp: pts_def)
    moreover have "rect_intersection a b = Some None" using intersects_run [OF assms] False by (auto simp: rect_intersection_def)
    ultimately show thesis using that(1) by blast
  next
    case True
    let ?x = "max (rx a) (rx b)" and ?y = "max (ry a) (ry b)"
    let ?c = "\<lparr>rx = ?x, ry = ?y, rwidth = min ea eb - ?x, rheight = min fa fb - ?y\<rparr>"
    have run: "rect_intersection a b = Some (Some ?c)"
      using intersects_run [OF assms] True a b by (simp add: rect_intersection_def Let_def)
    have le: "?x \<le> min ea eb" "?y \<le> min fa fb"
      using True a(2,4) b(2,4) by (simp_all add: word_le_nat_alt unat_min_max)
    have w: "unat (rx ?c) + unat (rwidth ?c) = min (unat ea) (unat eb)" "unat (ry ?c) + unat (rheight ?c) = min (unat fa) (unat fb)"
      using le unat_diff [OF le(1)] unat_diff [OF le(2)] by (simp_all add: word_le_nat_alt unat_min_max)
    have "rect_ok ?c" using assms unfolding rect_ok_def w by (auto simp: a b min_def)
    moreover have "pts ?c = pts a \<inter> pts b"
      unfolding pts_def w by (auto simp: unat_min_max a b)
    moreover have "\<not> rect_is_empty ?c" if "\<not> rect_is_empty a" "\<not> rect_is_empty b"
    proof -
      have "0 < unat (rwidth a)" "0 < unat (rheight a)" "0 < unat (rwidth b)" "0 < unat (rheight b)"
        using that by (simp_all add: rect_is_empty_def unat_gt_0)
      then have "unat ?x < min (unat ea) (unat eb)" "unat ?y < min (unat fa) (unat fb)" using True by (simp_all add: unat_min_max a b)
      then have "unat (rx ?c) < unat (rx ?c) + unat (rwidth ?c)" "unat (ry ?c) < unat (ry ?c) + unat (rheight ?c)" unfolding w by simp_all
      then show ?thesis by (auto simp: rect_is_empty_def)
    qed
    ultimately show thesis using that(2) run by blast
  qed
qed

lemma union_run:
  assumes "rect_ok a" "rect_ok b"
  obtains c where "rect_union a b = Some c" "rect_ok c" "pts a \<union> pts b \<subseteq> pts c"
proof -
  obtain ea fa where a: "right a = Some ea" "unat ea = unat (rx a) + unat (rwidth a)" "bottom a = Some fa" "unat fa = unat (ry a) + unat (rheight a)"
    using assms(1) by (rule rect_edges)
  obtain eb fb where b: "right b = Some eb" "unat eb = unat (rx b) + unat (rwidth b)" "bottom b = Some fb" "unat fb = unat (ry b) + unat (rheight b)"
    using assms(2) by (rule rect_edges)
  let ?x = "min (rx a) (rx b)" and ?y = "min (ry a) (ry b)"
  let ?c = "\<lparr>rx = ?x, ry = ?y, rwidth = max ea eb - ?x, rheight = max fa fb - ?y\<rparr>"
  have run: "rect_union a b = Some ?c" using a b by (simp add: rect_union_def Let_def)
  have le: "?x \<le> max ea eb" "?y \<le> max fa fb"
    using a(2,4) b(2,4) by (simp_all add: word_le_nat_alt unat_min_max)
  have w: "unat (rx ?c) + unat (rwidth ?c) = max (unat ea) (unat eb)" "unat (ry ?c) + unat (rheight ?c) = max (unat fa) (unat fb)"
    using le unat_diff [OF le(1)] unat_diff [OF le(2)] by (simp_all add: word_le_nat_alt unat_min_max)
  have "rect_ok ?c" using w assms a(2,4) b(2,4) by (simp add: rect_ok_def)
  moreover have "pts a \<union> pts b \<subseteq> pts ?c" unfolding pts_def w by (auto simp: unat_min_max a b)
  ultimately show thesis using that run by blast
qed

lemma is_adjacent_run:
  assumes "rect_ok a" "rect_ok b"
  shows "\<exists>x. is_adjacent a b = Some x"
proof -
  obtain ea fa eb fb where e: "right a = Some ea" "bottom a = Some fa" "right b = Some eb" "bottom b = Some fb"
    using rect_edges [OF assms(1)] rect_edges [OF assms(2)] by metis
  then show ?thesis by (auto simp: is_adjacent_def and_then_def or_else_def)
qed

section \<open>Loops\<close>

lemma range32_nth: "y \<in> set (range32 a b) \<Longrightarrow> unat a \<le> unat y \<and> unat y < unat b"
  by (auto simp: range32_def) (metis order.strict_trans unsigned_less unat_of_nat_small)+

lemma range32_points: "unat ` set (range32 a b) = {unat a..<unat b}"
proof -
  have "unat (of_nat n :: u32) = n" if "n < unat b" for n using that unsigned_less [of b, where 'a = nat] by (intro unat_of_nat_small) simp
  then have "unat ` (of_nat :: nat \<Rightarrow> u32) ` {unat a..<unat b} = {unat a..<unat b}" unfolding image_image by auto
  then show ?thesis by (simp add: range32_def)
qed

lemma distinct_range32: "distinct (range32 a b)"
proof -
  have "inj_on (of_nat :: nat \<Rightarrow> u32) {unat a..<unat b}"
    using unsigned_less [of b, where 'a = nat] by (intro inj_onI) (metis atLeastLessThan_iff order.strict_trans unat_of_nat_small)
  then show ?thesis by (simp add: range32_def distinct_map)
qed

text \<open>
  \<^verbatim>\<open>paints I px U A g t r\<close>: the step succeeds with a state where the invariant holds and, of the points in the
  universe, exactly those in the set are changed, by the function.
\<close>

definition paints :: "('t \<Rightarrow> bool) \<Rightarrow> ('t \<Rightarrow> 'q \<Rightarrow> 'v) \<Rightarrow> 'q set \<Rightarrow> 'q set \<Rightarrow> ('q \<Rightarrow> 'v \<Rightarrow> 'v) \<Rightarrow> 't \<Rightarrow> 't option \<Rightarrow> bool" where
  "paints I px U A g t r \<longleftrightarrow>
     (\<exists>t'. r = Some t' \<and> I t' \<and> (\<forall>q \<in> U. px t' q = (if q \<in> A then g q (px t q) else px t q)))"

text \<open>A loop whose rounds paint disjoint sets.\<close>

lemma for_in_paints:
  assumes "I t" "distinct ys"
    and step: "\<And>y t. y \<in> set ys \<Longrightarrow> I t \<Longrightarrow> paints I px U (A y) g t (f y t)"
    and disj: "\<And>y z. y \<in> set ys \<Longrightarrow> z \<in> set ys \<Longrightarrow> y \<noteq> z \<Longrightarrow> A y \<inter> A z = {}"
  shows "paints I px U (\<Union>y \<in> set ys. A y) g t (for_in ys f t)"
  using assms
proof (induction ys arbitrary: t)
  case Nil
  then show ?case by (auto simp: paints_def)
next
  case (Cons y ys)
  obtain t1 where t1: "f y t = Some t1" "I t1" "\<And>q. q \<in> U \<Longrightarrow> px t1 q = (if q \<in> A y then g q (px t q) else px t q)"
    using Cons.prems(3) [of y t] Cons.prems(1) by (auto simp: paints_def)
  have "paints I px U (\<Union>y \<in> set ys. A y) g t1 (for_in ys f t1)"
    using Cons.prems t1(2) by (intro Cons.IH) auto
  then obtain t2 where t2: "for_in ys f t1 = Some t2" "I t2"
    "\<And>q. q \<in> U \<Longrightarrow> px t2 q = (if q \<in> (\<Union>y \<in> set ys. A y) then g q (px t1 q) else px t1 q)"
    by (auto simp: paints_def)
  have "q \<notin> (\<Union>y \<in> set ys. A y)" if "q \<in> A y" for q
    using Cons.prems(2) Cons.prems(4) [of y] that by fastforce
  then have "px t2 q = (if q \<in> (\<Union>z \<in> set (y # ys). A z) then g q (px t q) else px t q)" if "q \<in> U" for q
    using t1(3) [OF that] t2(3) [OF that] by auto
  then show ?case using t1(1) t2(1,2) by (auto simp: paints_def)
qed

section \<open>The render target\<close>

definition area :: "u32 \<Rightarrow> u32 \<Rightarrow> (nat \<times> nat) set" where
  "area W H = {..<unat W} \<times> {..<unat H}"

text \<open>The pixels of a source of consecutive pixels.\<close>

definition pixel_of :: "bytes \<Rightarrow> nat \<Rightarrow> bytes" where
  "pixel_of data i = sub_slice (4 * i) (4 * i + 4) data"

locale render_target =
  fixes ops :: "'t target_ops" and ok :: "'t \<Rightarrow> bool" and px :: "'t \<Rightarrow> nat \<times> nat \<Rightarrow> bytes"
  assumes px_length: "ok t \<Longrightarrow> q \<in> area (t_width ops t) (t_height ops t) \<Longrightarrow> length (px t q) = 4"
    and fill: "ok t \<Longrightarrow> rect_ok r \<Longrightarrow> pts r \<subseteq> area (t_width ops t) (t_height ops t) \<Longrightarrow>
      \<exists>t'. t_fill ops t r c = Some t' \<and> ok t' \<and> t_width ops t' = t_width ops t \<and> t_height ops t' = t_height ops t
        \<and> (\<forall>q \<in> area (t_width ops t) (t_height ops t). px t' q = (if q \<in> pts r then le_bytes 4 c else px t q))"
    and write_row: "ok t \<Longrightarrow> unat x + unat n \<le> unat (t_width ops t) \<Longrightarrow> y < t_height ops t \<Longrightarrow> length src = 4 * unat n \<Longrightarrow>
      \<exists>t'. t_write_row ops t x y n src = Some t' \<and> ok t' \<and> t_width ops t' = t_width ops t \<and> t_height ops t' = t_height ops t
        \<and> (\<forall>q \<in> area (t_width ops t) (t_height ops t). px t' q =
            (if snd q = unat y \<and> unat x \<le> fst q \<and> fst q < unat x + unat n then pixel_of src (fst q - unat x) else px t q))"
    and get_pixel: "ok t \<Longrightarrow> x < t_width ops t \<Longrightarrow> y < t_height ops t \<Longrightarrow> t_get_pixel ops t x y = Some (px t (unat x, unat y))"
    and set_pixel: "ok t \<Longrightarrow> x < t_width ops t \<Longrightarrow> y < t_height ops t \<Longrightarrow> length p = 4 \<Longrightarrow>
      \<exists>t'. t_set_pixel ops t x y p = Some t' \<and> ok t' \<and> t_width ops t' = t_width ops t \<and> t_height ops t' = t_height ops t
        \<and> (\<forall>q \<in> area (t_width ops t) (t_height ops t). px t' q = (if q = (unat x, unat y) then p else px t q))"
    and flush: "ok t \<Longrightarrow> ok (t_flush ops t r) \<and> t_width ops (t_flush ops t r) = t_width ops t
      \<and> t_height ops (t_flush ops t r) = t_height ops t \<and> px (t_flush ops t r) = px t"
begin

text \<open>A target of a given size, and the effect of changing the pixels of a set.\<close>

definition on_screen :: "u32 \<Rightarrow> u32 \<Rightarrow> 't \<Rightarrow> bool" where
  "on_screen W H t \<longleftrightarrow> ok t \<and> t_width ops t = W \<and> t_height ops t = H"

definition painted :: "u32 \<Rightarrow> u32 \<Rightarrow> (nat \<times> nat) set \<Rightarrow> (nat \<times> nat \<Rightarrow> bytes \<Rightarrow> bytes) \<Rightarrow> 't \<Rightarrow> 't option \<Rightarrow> bool" where
  "painted W H A g t r \<longleftrightarrow> paints (on_screen W H) px (area W H) A g t r"

lemma painted_none: "on_screen W H t \<Longrightarrow> (\<And>q b. q \<in> A \<Longrightarrow> q \<in> area W H \<Longrightarrow> length b = 4 \<Longrightarrow> g q b = b) \<Longrightarrow> painted W H A g t (Some t)"
  using px_length [of t] by (auto simp: painted_def paints_def on_screen_def)

lemma painted_cong:
  assumes "painted W H A g t r" "on_screen W H t" "A \<inter> area W H = B \<inter> area W H"
    "\<And>q b. q \<in> B \<Longrightarrow> q \<in> area W H \<Longrightarrow> length b = 4 \<Longrightarrow> g q b = h q b"
  shows "painted W H B h t r"
proof -
  obtain t' where t': "r = Some t'" "on_screen W H t'" "\<And>q. q \<in> area W H \<Longrightarrow> px t' q = (if q \<in> A then g q (px t q) else px t q)"
    using assms(1) by (auto simp: painted_def paints_def)
  have "px t' q = (if q \<in> B then h q (px t q) else px t q)" if q: "q \<in> area W H" for q
  proof -
    have "q \<in> A \<longleftrightarrow> q \<in> B" using assms(3) q by blast
    moreover have "length (px t q) = 4" using px_length assms(2) q by (auto simp: on_screen_def)
    ultimately show ?thesis using t'(3) [OF q] assms(4) [OF _ q] by simp
  qed
  then show ?thesis using t'(1,2) by (auto simp: painted_def paints_def)
qed

lemma for_in_painted:
  assumes "on_screen W H t" "distinct ys"
    and "\<And>y t. y \<in> set ys \<Longrightarrow> on_screen W H t \<Longrightarrow> painted W H (A y) g t (f y t)"
    and "\<And>y z. y \<in> set ys \<Longrightarrow> z \<in> set ys \<Longrightarrow> y \<noteq> z \<Longrightarrow> A y \<inter> A z = {}"
  shows "painted W H (\<Union>y \<in> set ys. A y) g t (for_in ys f t)"
  using assms unfolding painted_def by (rule for_in_paints)

end

section \<open>The scene\<close>

definition source_pixel :: "shared_memory \<Rightarrow> window \<Rightarrow> attachment \<Rightarrow> nat \<times> nat \<Rightarrow> nat" where
  "source_pixel mem w a q =
     (snd q - unat (snd (w_position w))) * unat (fst (w_size w)) + (fst q - unat (fst (w_position w)))"

text \<open>One window over what is below it, and all windows over the background.\<close>

definition layer :: "shared_memory \<Rightarrow> window \<Rightarrow> nat \<times> nat \<Rightarrow> bytes \<Rightarrow> bytes" where
  "layer mem w q below = (case w_latched w of
      None \<Rightarrow> below
    | Some a \<Rightarrow>
        if w_visible w \<and> q \<in> pts (w_rect w) \<and> 4 * source_pixel mem w a q + 4 \<le> length (as_slice mem a)
        then alpha_blend (pixel_of (as_slice mem a) (source_pixel mem w a q)) below else below)"

definition scene :: "shared_memory \<Rightarrow> window list \<Rightarrow> nat \<times> nat \<Rightarrow> bytes" where
  "scene mem ws q = fold (\<lambda>w. layer mem w q) ws (le_bytes 4 BACKGROUND_COLOUR)"

definition window_ok :: "window \<Rightarrow> bool" where
  "window_ok w \<longleftrightarrow> rect_ok (w_rect w) \<and> unat (fst (w_size w)) * unat (snd (w_size w)) * 4 < 2 ^ 32"

lemma length_alpha_blend: "length a = 4 \<Longrightarrow> length b = 4 \<Longrightarrow> length (alpha_blend a b) = 4"
  by (simp add: alpha_blend_def Let_def)

lemma length_pixel_of: "4 * i + 4 \<le> length data \<Longrightarrow> length (pixel_of data i) = 4"
  by (simp add: pixel_of_def)

lemma length_layer: "length below = 4 \<Longrightarrow> length (layer mem w q below) = 4"
  by (auto simp: layer_def length_alpha_blend length_pixel_of split: option.split)

lemma blend_extremes:
  "src ! 3 = 255 \<Longrightarrow> alpha_blend src dst = src" "src ! 3 = 0 \<Longrightarrow> alpha_blend src dst = dst"
  by (simp_all add: alpha_blend_def)

text \<open>The position of a pixel of a clipped window in its buffer; no step of the computation overflows.\<close>

lemma source_bounds:
  fixes w clip
  defines "X \<equiv> unat (fst (w_position w))" and "Y \<equiv> unat (snd (w_position w))" and "W \<equiv> unat (fst (w_size w))" and "H \<equiv> unat (snd (w_size w))"
  assumes w: "window_ok w" and sub: "pts clip \<subseteq> pts (w_rect w)" and xy: "x < unat (rwidth clip)" "y < unat (rheight clip)"
  shows "X \<le> unat (rx clip)" "Y \<le> unat (ry clip)"
    "unat (rx clip) - X + x < W" "unat (ry clip) - Y + y < H"
    "(unat (ry clip) - Y + y) * W + (unat (rx clip) - X + x) + 1 \<le> W * H"
    "(unat (rx clip) + x, unat (ry clip) + y) \<in> pts clip"
proof -
  show p: "(unat (rx clip) + x, unat (ry clip) + y) \<in> pts clip" using xy by (simp add: pts_def)
  have "(unat (rx clip), unat (ry clip)) \<in> pts clip" using xy by (simp add: pts_def)
  then have "(unat (rx clip), unat (ry clip)) \<in> pts (w_rect w)" using sub by blast
  then show le: "X \<le> unat (rx clip)" "Y \<le> unat (ry clip)" by (auto simp: pts_def w_rect_def X_def Y_def)
  have "(unat (rx clip) + x, unat (ry clip) + y) \<in> pts (w_rect w)" using p sub by blast
  then show lt: "unat (rx clip) - X + x < W" "unat (ry clip) - Y + y < H"
    using le by (auto simp: pts_def w_rect_def X_def Y_def W_def H_def)
  have "(unat (ry clip) - Y + y + 1) * W \<le> H * W" using lt(2) by (intro mult_le_mono1) simp
  then show "(unat (ry clip) - Y + y) * W + (unat (rx clip) - X + x) + 1 \<le> W * H"
    using lt(1) by (simp add: algebra_simps)
qed

lemma blend_pixel_run:
  fixes w clip mem a x y
  defines "q \<equiv> (unat (rx clip) + unat x, unat (ry clip) + unat y)"
  assumes w: "window_ok w" and sub: "pts clip \<subseteq> pts (w_rect w)" and c: "rect_ok clip" and xy: "x < rwidth clip" "y < rheight clip"
  shows "blend_pixel ops (as_slice mem a) (fst (w_size w)) (saturating_sub32 (rx clip) (fst (w_position w))) (saturating_sub32 (ry clip) (snd (w_position w))) clip y x t =
    (let i = source_pixel mem w a q; src = pixel_of (as_slice mem a) i in
     if 4 * i + 4 > length (as_slice mem a) \<or> src ! 3 = 0 then Some t
     else do { d \<leftarrow> t_get_pixel ops t (rx clip + x) (ry clip + y); t_set_pixel ops t (rx clip + x) (ry clip + y) (alpha_blend src d) })"
    and "unat (rx clip + x) = fst q" "unat (ry clip + y) = snd q" "q \<in> pts clip"
proof -
  note b = source_bounds [OF w sub, of "unat x" "unat y"]
  have xy': "unat x < unat (rwidth clip)" "unat y < unat (rheight clip)" using xy by (simp_all add: word_less_nat_alt)
  let ?W = "unat (fst (w_size w))" and ?H = "unat (snd (w_size w))"
  let ?X = "unat (fst (w_position w))" and ?Y = "unat (snd (w_position w))"
  have lim: "?W * ?H * 4 < 2 ^ 32" using w by (simp add: window_ok_def)
  obtain sx sy where s: "saturating_sub32 (rx clip) (fst (w_position w)) = sx" "unat sx = unat (rx clip) - ?X"
    "saturating_sub32 (ry clip) (snd (w_position w)) = sy" "unat sy = unat (ry clip) - ?Y"
    using b(1,2) [OF xy'] by (simp add: saturating_sub32_def word_le_nat_alt unat_diff)
  have i: "(unat sy + unat y) * ?W + (unat sx + unat x) + 1 \<le> ?W * ?H" using b(5) [OF xy'] s(2,4) by simp
  have idx: "source_pixel mem w a q = (unat sy + unat y) * ?W + (unat sx + unat x)"
    using b(1,2) [OF xy'] s(2,4) by (simp add: source_pixel_def q_def algebra_simps)
  have "unat sy + unat y < ?H" "unat sx + unat x < ?W" using b(3,4) [OF xy'] s(2,4) by simp_all
  then have small: "unat sy + unat y < 2 ^ 32" "unat sx + unat x < 2 ^ 32"
    using unsigned_less [of "snd (w_size w)", where 'a = nat] unsigned_less [of "fst (w_size w)", where 'a = nat] by simp_all
  note a1 = add32_run [OF small(1)]
  have "(unat sy + unat y) * ?W < 2 ^ 32" using i lim by linarith
  note a2 = mul32_run [of "sy + y" "fst (w_size w)", unfolded conjunct2 [OF a1], OF this]
  note a3 = add32_run [OF small(2)]
  have "(unat sy + unat y) * ?W + (unat sx + unat x) < 2 ^ 32" using i lim by linarith
  note a4 = add32_run [of "(sy + y) * fst (w_size w)" "sx + x", unfolded conjunct2 [OF a2] conjunct2 [OF a3], OF this]
  have "((unat sy + unat y) * ?W + (unat sx + unat x)) * unat (4 :: u32) < 2 ^ 32" using i lim by simp
  note a5 = mul32_run [of "(sy + y) * fst (w_size w) + (sx + x)" 4, unfolded conjunct2 [OF a4], OF this]
  have off: "unat (((sy + y) * fst (w_size w) + (sx + x)) * 4) = 4 * source_pixel mem w a q" using a5 idx by simp
  have cx: "unat (rx clip) + unat x < 2 ^ 32" "unat (ry clip) + unat y < 2 ^ 32" using c xy' by (simp_all add: rect_ok_def)
  note d1 = add32_run [OF cx(1)] and d2 = add32_run [OF cx(2)]
  show "unat (rx clip + x) = fst q" "unat (ry clip + y) = snd q" "q \<in> pts clip" using d1 d2 b(6) [OF xy'] by (simp_all add: q_def)
  show "blend_pixel ops (as_slice mem a) (fst (w_size w)) (saturating_sub32 (rx clip) (fst (w_position w))) (saturating_sub32 (ry clip) (snd (w_position w))) clip y x t =
    (let i = source_pixel mem w a q; src = pixel_of (as_slice mem a) i in
     if 4 * i + 4 > length (as_slice mem a) \<or> src ! 3 = 0 then Some t
     else do { d \<leftarrow> t_get_pixel ops t (rx clip + x) (ry clip + y); t_set_pixel ops t (rx clip + x) (ry clip + y) (alpha_blend src d) })"
    unfolding blend_pixel_def s(1,3) conjunct1 [OF a1] conjunct1 [OF a2] conjunct1 [OF a3] conjunct1 [OF a4] conjunct1 [OF a5]
      conjunct1 [OF d1] conjunct1 [OF d2] bind.bind_lunit off by (simp add: Let_def pixel_of_def off)
qed

text \<open>The position of the start of a row.\<close>

lemma row_start_run:
  fixes w clip mem a y
  defines "i \<equiv> source_pixel mem w a (unat (rx clip), unat (ry clip) + unat y)"
  assumes w: "window_ok w" and sub: "pts clip \<subseteq> pts (w_rect w)" and y: "y < rheight clip" "rwidth clip \<noteq> 0"
  obtains j where "do { sy \<leftarrow> add32 (saturating_sub32 (ry clip) (snd (w_position w))) y;
      pixel_index (fst (w_size w)) (saturating_sub32 (rx clip) (fst (w_position w))) sy } = Some j" "unat j = i"
    "\<And>x. x < unat (rwidth clip) \<Longrightarrow> source_pixel mem w a (unat (rx clip) + x, unat (ry clip) + unat y) = i + x"
proof -
  have y': "unat y < unat (rheight clip)" "0 < unat (rwidth clip)" using y by (simp_all add: word_less_nat_alt unat_gt_0)
  note b = source_bounds [OF w sub y'(2,1)]
  let ?W = "unat (fst (w_size w))" and ?H = "unat (snd (w_size w))"
  let ?X = "unat (fst (w_position w))" and ?Y = "unat (snd (w_position w))"
  have lim: "?W * ?H * 4 < 2 ^ 32" using w by (simp add: window_ok_def)
  obtain sx sy where s: "saturating_sub32 (rx clip) (fst (w_position w)) = sx" "unat sx = unat (rx clip) - ?X"
    "saturating_sub32 (ry clip) (snd (w_position w)) = sy" "unat sy = unat (ry clip) - ?Y"
    using b(1,2) by (simp add: saturating_sub32_def word_le_nat_alt unat_diff)
  have le: "(unat sy + unat y) * ?W + unat sx + 1 \<le> ?W * ?H" using b(5) s(2,4) by simp
  have i: "i = (unat sy + unat y) * ?W + unat sx"
    using b(1,2) s(2,4) by (simp add: i_def source_pixel_def algebra_simps)
  have "unat sy + unat y < ?H" using b(4) s(4) by simp
  then have "unat sy + unat y < 2 ^ 32" using unsigned_less [of "snd (w_size w)", where 'a = nat] by simp
  note a1 = add32_run [OF this]
  have "(unat sy + unat y) * ?W < 2 ^ 32" using le lim by linarith
  note a2 = mul32_run [of "sy + y" "fst (w_size w)", unfolded conjunct2 [OF a1], OF this]
  have "(unat sy + unat y) * ?W + unat sx < 2 ^ 32" using le lim by linarith
  note a3 = add32_run [of "(sy + y) * fst (w_size w)" sx, unfolded conjunct2 [OF a2], OF this]
  have "source_pixel mem w a (unat (rx clip) + x, unat (ry clip) + unat y) = i + x" for x
    using b(1) by (simp add: i_def source_pixel_def)
  then show thesis using that [of "(sy + y) * fst (w_size w) + sx"] a1 a2 a3 i by (simp add: s pixel_index_def)
qed

definition opaque_at :: "bytes \<Rightarrow> nat \<Rightarrow> bool" where
  "opaque_at data i \<longleftrightarrow> 4 * i + 4 \<le> length data \<and> pixel_of data i ! 3 = 255"

lemma row_opaque_run: "row_opaque data (4 * i) n \<longleftrightarrow> (\<forall>x < n. opaque_at data (i + x))"
proof -
  have "opaque_at data (i + x) \<longleftrightarrow> 4 * i + x * 4 + 3 < length data \<and> data ! (4 * i + x * 4 + 3) = 255" for x
    by (auto simp: opaque_at_def pixel_of_def sub_slice_def algebra_simps)
  then show ?thesis by (auto simp: row_opaque_def list_all_iff)
qed

lemma is_region_opaque_run:
  assumes w: "window_ok w" and sub: "pts clip \<subseteq> pts (w_rect w)" and ne: "rwidth clip \<noteq> 0"
  shows "is_region_opaque (as_slice mem a) (saturating_sub32 (rx clip) (fst (w_position w))) (saturating_sub32 (ry clip) (snd (w_position w)))
      (rwidth clip) (rheight clip) (fst (w_size w)) = Some (\<forall>q \<in> pts clip. opaque_at (as_slice mem a) (source_pixel mem w a q))"
proof -
  let ?rows = "rows_opaque (as_slice mem a) (saturating_sub32 (rx clip) (fst (w_position w))) (saturating_sub32 (ry clip) (snd (w_position w)))
      (rwidth clip) (fst (w_size w))"
  let ?row = "\<lambda>y. \<forall>x < unat (rwidth clip). opaque_at (as_slice mem a) (source_pixel mem w a (unat (rx clip) + x, unat (ry clip) + y))"
  have loop: "?rows ys = Some (\<forall>y \<in> set ys. ?row (unat y))" if "\<forall>y \<in> set ys. y < rheight clip" for ys
    using that
  proof (induction ys)
    case (Cons y ys)
    obtain j where j: "do { sy \<leftarrow> add32 (saturating_sub32 (ry clip) (snd (w_position w))) y;
        pixel_index (fst (w_size w)) (saturating_sub32 (rx clip) (fst (w_position w))) sy } = Some j"
      "unat j = source_pixel mem w a (unat (rx clip), unat (ry clip) + unat y)"
      "\<And>x. x < unat (rwidth clip) \<Longrightarrow> source_pixel mem w a (unat (rx clip) + x, unat (ry clip) + unat y) = unat j + x"
      by (rule row_start_run [OF w sub, of y mem a]) (use Cons.prems ne in auto)
    then have "row_opaque (as_slice mem a) (unat j * 4) (unat (rwidth clip)) = ?row (unat y)"
      using row_opaque_run [of "as_slice mem a" "unat j"] by (simp add: mult.commute)
    then show ?case using j(1) Cons by (auto split: bind_splits)
  qed simp
  have "y \<in> set (range32 0 (rheight clip)) \<Longrightarrow> y < rheight clip" for y using range32_nth [of y 0 "rheight clip"] by (simp add: word_less_nat_alt)
  then have "?rows (range32 0 (rheight clip)) = Some (\<forall>y \<in> set (range32 0 (rheight clip)). ?row (unat y))" by (intro loop) blast
  moreover have "(\<forall>y \<in> set (range32 0 (rheight clip)). ?row (unat y)) \<longleftrightarrow> (\<forall>y \<in> {0..<unat (rheight clip)}. ?row y)"
    unfolding range32_points [of 0 "rheight clip", simplified, symmetric] by auto
  moreover have "\<dots> \<longleftrightarrow> (\<forall>q \<in> pts clip. opaque_at (as_slice mem a) (source_pixel mem w a q))"
  proof -
    have "pts clip = (\<lambda>(x, y). (unat (rx clip) + x, unat (ry clip) + y)) ` ({0..<unat (rwidth clip)} \<times> {0..<unat (rheight clip)})"
      by (auto simp: pts_def image_iff Bex_def) (metis add_diff_inverse_nat less_diff_conv2 not_less add.commute)
    then show ?thesis by auto
  qed
  ultimately show ?thesis by (simp add: is_region_opaque_def)
qed

section \<open>Painting windows\<close>

lemma layer_visible:
  assumes "w_latched w = Some a" "w_visible w" "q \<in> pts (w_rect w)"
  shows "layer mem w q b = (if 4 * source_pixel mem w a q + 4 \<le> length (as_slice mem a)
    then alpha_blend (pixel_of (as_slice mem a) (source_pixel mem w a q)) b else b)"
  using assms by (simp add: layer_def)

lemma pixel_of_row:
  assumes "k < n" "4 * i + n * 4 \<le> length data"
  shows "pixel_of (sub_slice (i * 4) (i * 4 + n * 4) data) k = pixel_of data (i + k)"
  using assms by (simp add: pixel_of_def sub_slice_def drop_take take_take min_def algebra_simps)

context render_target
begin

lemma blend_pixel_painted:
  assumes w: "window_ok w" "w_latched w = Some a" "w_visible w" and clip: "rect_ok clip" "pts clip \<subseteq> pts (w_rect w)" "pts clip \<subseteq> area W H"
    and xy: "x < rwidth clip" "y < rheight clip" and t: "on_screen W H t"
  shows "painted W H {(unat (rx clip) + unat x, unat (ry clip) + unat y)} (layer mem w) t
    (blend_pixel ops (as_slice mem a) (fst (w_size w)) (saturating_sub32 (rx clip) (fst (w_position w))) (saturating_sub32 (ry clip) (snd (w_position w))) clip y x t)"
proof -
  let ?q = "(unat (rx clip) + unat x, unat (ry clip) + unat y)"
  note run = blend_pixel_run(1) [OF w(1) clip(2,1) xy, where ops = ops and mem = mem and a = a and t = t] blend_pixel_run(2-4) [OF w(1) clip(2,1) xy]
  have q: "?q \<in> area W H" "?q \<in> pts (w_rect w)" using run(4) clip(2,3) by blast+
  let ?i = "source_pixel mem w a ?q" and ?src = "pixel_of (as_slice mem a) (source_pixel mem w a ?q)"
  note lay = layer_visible [OF w(2,3) q(2), of mem]
  show ?thesis
  proof (cases "4 * ?i + 4 > length (as_slice mem a) \<or> ?src ! 3 = 0")
    case True
    then have "layer mem w ?q b = b" for b using lay [of b] blend_extremes(2) [of ?src b] by auto
    then show ?thesis using True run(1) t by (auto simp: Let_def intro!: painted_none)
  next
    case False
    have in_range: "rx clip + x < W" "ry clip + y < H" using q(1) run(2,3) by (simp_all add: area_def word_less_nat_alt)
    have ok: "ok t" "t_width ops t = W" "t_height ops t = H" using t by (simp_all add: on_screen_def)
    have get: "t_get_pixel ops t (rx clip + x) (ry clip + y) = Some (px t ?q)"
      using get_pixel [OF ok(1)] in_range ok run(2,3) by simp
    have "length (alpha_blend ?src (px t ?q)) = 4"
      using px_length [OF ok(1)] q(1) ok False by (intro length_alpha_blend length_pixel_of) auto
    from set_pixel [OF ok(1) _ _ this, of "rx clip + x" "ry clip + y"] obtain t' where
      t': "t_set_pixel ops t (rx clip + x) (ry clip + y) (alpha_blend ?src (px t ?q)) = Some t'" "on_screen W H t'"
      "\<And>p. p \<in> area W H \<Longrightarrow> px t' p = (if p = ?q then alpha_blend ?src (px t ?q) else px t p)"
      using in_range ok run(2,3) by (auto simp: on_screen_def)
    then show ?thesis using run(1) get False lay by (auto simp: Let_def painted_def paints_def)
  qed
qed

lemma copy_row_painted:
  assumes w: "window_ok w" "w_latched w = Some a" "w_visible w" and clip: "rect_ok clip" "pts clip \<subseteq> pts (w_rect w)" "pts clip \<subseteq> area W H" "rwidth clip \<noteq> 0"
    and y: "y < rheight clip" and opaque: "\<forall>q \<in> pts clip. opaque_at (as_slice mem a) (source_pixel mem w a q)" and t: "on_screen W H t"
  shows "painted W H ({unat (rx clip)..<unat (rx clip) + unat (rwidth clip)} \<times> {unat (ry clip) + unat y}) (layer mem w) t
    (copy_row ops (as_slice mem a) (fst (w_size w)) (saturating_sub32 (rx clip) (fst (w_position w))) (saturating_sub32 (ry clip) (snd (w_position w))) clip y t)"
proof -
  let ?n = "unat (rwidth clip)" and ?Y = "unat (ry clip) + unat y" and ?data = "as_slice mem a"
  obtain j where j: "do { sy \<leftarrow> add32 (saturating_sub32 (ry clip) (snd (w_position w))) y;
      pixel_index (fst (w_size w)) (saturating_sub32 (rx clip) (fst (w_position w))) sy } = Some j"
    "unat j = source_pixel mem w a (unat (rx clip), ?Y)"
    "\<And>x. x < ?n \<Longrightarrow> source_pixel mem w a (unat (rx clip) + x, ?Y) = unat j + x"
    by (rule row_start_run [OF w(1) clip(2) y clip(4), of mem a]) auto
  have n: "0 < ?n" using clip(4) by (simp add: unat_gt_0)
  have in_clip: "(unat (rx clip) + x, ?Y) \<in> pts clip" if "x < ?n" for x using that y by (simp add: pts_def word_less_nat_alt)
  have "opaque_at ?data (unat j + (?n - 1))" using opaque in_clip [of "?n - 1"] j(3) [of "?n - 1"] n by fastforce
  then have fits: "4 * unat j + ?n * 4 \<le> length ?data" using n by (simp add: opaque_at_def algebra_simps)
  have cy: "unat (ry clip) + unat y < 2 ^ 32" using clip(1) y by (simp add: rect_ok_def word_less_nat_alt)
  note dy = add32_run [OF cy]
  have ok: "ok t" "t_width ops t = W" "t_height ops t = H" using t by (simp_all add: on_screen_def)
  have bounds: "unat (rx clip) + ?n \<le> unat W" "ry clip + y < H"
    using in_clip [of "?n - 1"] clip(3) n dy by (auto simp: area_def word_less_nat_alt)
  let ?row = "sub_slice (unat j * 4) (unat j * 4 + ?n * 4) ?data"
  have "length ?row = 4 * ?n" using fits by simp
  from write_row [OF ok(1) _ _ this, of "rx clip" "ry clip + y"] obtain t' where
    t': "t_write_row ops t (rx clip) (ry clip + y) (rwidth clip) ?row = Some t'" "on_screen W H t'"
    "\<And>q. q \<in> area W H \<Longrightarrow> px t' q = (if snd q = ?Y \<and> unat (rx clip) \<le> fst q \<and> fst q < unat (rx clip) + ?n
        then pixel_of ?row (fst q - unat (rx clip)) else px t q)"
    using bounds ok dy by (auto simp: on_screen_def)
  have row: "pixel_of ?row (fst q - unat (rx clip)) = layer mem w q b"
    if q: "snd q = ?Y" "unat (rx clip) \<le> fst q" "fst q < unat (rx clip) + ?n" for q b
  proof -
    obtain x where x: "q = (unat (rx clip) + x, ?Y)" "x < ?n"
      using q by (cases q) (metis add_diff_inverse_nat add_less_cancel_left fst_conv not_less snd_conv)
    then have o: "opaque_at ?data (source_pixel mem w a q)" "q \<in> pts (w_rect w)" using opaque in_clip [OF x(2)] clip(2) by blast+
    then have "layer mem w q b = pixel_of ?data (source_pixel mem w a q)"
      using layer_visible [OF w(2,3) o(2)] blend_extremes(1) by (simp add: opaque_at_def)
    then show ?thesis using pixel_of_row [OF x(2) fits] j(3) [OF x(2)] x by simp
  qed
  have "copy_row ops ?data (fst (w_size w)) (saturating_sub32 (rx clip) (fst (w_position w))) (saturating_sub32 (ry clip) (snd (w_position w))) clip y t = Some t'"
    using j(1) fits dy t'(1) unfolding copy_row_def by (auto simp: bind_eq_Some_conv mult.commute)
  moreover have "px t' q = (if q \<in> {unat (rx clip)..<unat (rx clip) + ?n} \<times> {?Y} then layer mem w q (px t q) else px t q)" if "q \<in> area W H" for q
    using t'(3) [OF that] row [of q "px t q"] by (cases q) auto
  ultimately show ?thesis using t'(2) by (auto simp: painted_def paints_def)
qed

end

lemma points_of_rows:
  "(\<Union>y \<in> set (range32 0 (rheight clip)). {unat (rx clip)..<unat (rx clip) + unat (rwidth clip)} \<times> {unat (ry clip) + unat y}) = pts clip"
proof -
  have "(\<lambda>y. unat (ry clip) + unat y) ` set (range32 0 (rheight clip)) = (+) (unat (ry clip)) ` {0..<unat (rheight clip)}"
    using range32_points [of 0 "rheight clip"] by (metis image_image unat_0)
  also have "\<dots> = {unat (ry clip)..<unat (ry clip) + unat (rheight clip)}" by (simp add: add.commute)
  finally show ?thesis unfolding pts_def by blast
qed

lemma points_of_row:
  "(\<Union>x \<in> set (range32 0 (rwidth clip)). {(unat (rx clip) + unat x, Y)}) = {unat (rx clip)..<unat (rx clip) + unat (rwidth clip)} \<times> {Y}"
proof -
  have "(\<lambda>x. unat (rx clip) + unat x) ` set (range32 0 (rwidth clip)) = (+) (unat (rx clip)) ` {0..<unat (rwidth clip)}"
    using range32_points [of 0 "rwidth clip"] by (metis image_image unat_0)
  also have "\<dots> = {unat (rx clip)..<unat (rx clip) + unat (rwidth clip)}" by (simp add: add.commute)
  finally show ?thesis by blast
qed

lemma range32_less: "y \<in> set (range32 0 b) \<Longrightarrow> y < b"
  using range32_nth [of y 0 b] by (simp add: word_less_nat_alt)

context render_target
begin

lemma composite_window_painted:
  assumes w: "window_ok w" "w_latched w = Some a" "w_visible w" and clip: "rect_ok clip" "pts clip \<subseteq> pts (w_rect w)" "pts clip \<subseteq> area W H" "rwidth clip \<noteq> 0"
    and t: "on_screen W H t"
  shows "painted W H (pts clip) (layer mem w) t (composite_window ops (w_position w) (w_size w) (as_slice mem a) clip t)"
proof -
  let ?opaque = "\<forall>q \<in> pts clip. opaque_at (as_slice mem a) (source_pixel mem w a q)"
  note o = is_region_opaque_run [OF w(1) clip(2,4), of mem a]
  show ?thesis
  proof (cases ?opaque)
    case True
    have "painted W H (\<Union>y \<in> set (range32 0 (rheight clip)). {unat (rx clip)..<unat (rx clip) + unat (rwidth clip)} \<times> {unat (ry clip) + unat y}) (layer mem w) t
      (for_in (range32 0 (rheight clip)) (copy_row ops (as_slice mem a) (fst (w_size w)) (saturating_sub32 (rx clip) (fst (w_position w)))
        (saturating_sub32 (ry clip) (snd (w_position w))) clip) t)"
      by (rule for_in_painted [OF t distinct_range32])
        (auto intro!: copy_row_painted [OF w clip _ True] dest: range32_less simp: word_unat_eq_iff)
    then show ?thesis using o True by (simp add: composite_window_def Let_def points_of_rows)
  next
    case False
    let ?row = "\<lambda>y. for_in (range32 0 (rwidth clip)) (blend_pixel ops (as_slice mem a) (fst (w_size w)) (saturating_sub32 (rx clip) (fst (w_position w)))
        (saturating_sub32 (ry clip) (snd (w_position w))) clip y)"
    have row: "painted W H ({unat (rx clip)..<unat (rx clip) + unat (rwidth clip)} \<times> {unat (ry clip) + unat y}) (layer mem w) s (?row y s)"
      if "y < rheight clip" "on_screen W H s" for y s
      unfolding points_of_row [symmetric]
      by (rule for_in_painted [OF that(2) distinct_range32])
        (auto intro!: blend_pixel_painted [OF w clip(1-3) _ that(1)] dest: range32_less simp: word_unat_eq_iff)
    have "painted W H (\<Union>y \<in> set (range32 0 (rheight clip)). {unat (rx clip)..<unat (rx clip) + unat (rwidth clip)} \<times> {unat (ry clip) + unat y}) (layer mem w) t
      (for_in (range32 0 (rheight clip)) ?row t)"
      by (rule for_in_painted [OF t distinct_range32]) (auto intro!: row dest: range32_less simp: word_unat_eq_iff)
    then show ?thesis using o False by (auto simp: composite_window_def Let_def points_of_rows)
  qed
qed

lemma paint_window_painted:
  assumes w: "window_ok w" and dirty: "rect_ok dirty" "pts dirty \<subseteq> area W H" "\<not> rect_is_empty dirty" and t: "on_screen W H t"
  shows "painted W H (pts dirty) (layer mem w) t (paint_window ops mem dirty w t)"
proof (cases "w_visible w \<and> fst (w_size w) \<noteq> 0 \<and> snd (w_size w) \<noteq> 0 \<and> w_latched w \<noteq> None")
  case False
  then have "layer mem w q b = b" for q b by (auto simp: layer_def pts_def w_rect_def split: option.split)
  then have "painted W H (pts dirty) (layer mem w) t (Some t)" using t by (intro painted_none)
  then show ?thesis using False by (auto simp: paint_window_def)
next
  case True
  then obtain a where a: "w_latched w = Some a" by auto
  have wr: "rect_ok (w_rect w)" "\<not> rect_is_empty (w_rect w)" using w True by (auto simp: window_ok_def rect_is_empty_def w_rect_def)
  show ?thesis
  proof (cases rule: intersection_run [OF wr(1) dirty(1)])
    case 1
    have "layer mem w q b = b" if "q \<in> pts dirty" for q b using 1(2) that a by (auto simp: layer_def)
    then show ?thesis using 1(1) True a t by (auto simp: paint_window_def intro!: painted_none)
  next
    case (2 c)
    have "pts c \<subseteq> pts (w_rect w)" "pts c \<subseteq> area W H" using 2(3) dirty(2) by blast+
    moreover have "rwidth c \<noteq> 0" using 2(4) wr(2) dirty(3) by (simp add: rect_is_empty_def)
    ultimately have "painted W H (pts c) (layer mem w) t (composite_window ops (w_position w) (w_size w) (as_slice mem a) c t)"
      using composite_window_painted [OF w a _ 2(2) _ _ _ t] True by blast
    then obtain t' where t': "composite_window ops (w_position w) (w_size w) (as_slice mem a) c t = Some t'" "on_screen W H t'"
      "\<And>q. q \<in> area W H \<Longrightarrow> px t' q = (if q \<in> pts c then layer mem w q (px t q) else px t q)"
      by (auto simp: painted_def paints_def)
    have "layer mem w q b = b" if "q \<in> pts dirty" "q \<notin> pts c" for q b using 2(3) that a by (auto simp: layer_def)
    then have "px t' q = (if q \<in> pts dirty then layer mem w q (px t q) else px t q)" if "q \<in> area W H" for q
      using t'(3) [OF that] 2(3) by auto
    then show ?thesis using t'(1,2) 2(1) True a by (auto simp: paint_window_def painted_def paints_def)
  qed
qed

lemma paint_windows_painted:
  assumes "list_all window_ok ws" "rect_ok dirty" "pts dirty \<subseteq> area W H" "\<not> rect_is_empty dirty" "on_screen W H t"
  shows "painted W H (pts dirty) (\<lambda>q. fold (\<lambda>w. layer mem w q) ws) t (for_in ws (paint_window ops mem dirty) t)"
  using assms(1,5)
proof (induction ws arbitrary: t)
  case Nil
  then show ?case by (simp add: painted_def paints_def)
next
  case (Cons w ws)
  obtain t1 where t1: "paint_window ops mem dirty w t = Some t1" "on_screen W H t1"
    "\<And>q. q \<in> area W H \<Longrightarrow> px t1 q = (if q \<in> pts dirty then layer mem w q (px t q) else px t q)"
    using paint_window_painted [OF _ assms(2-4) Cons.prems(2), of w mem] Cons.prems(1) by (auto simp: painted_def paints_def)
  have "painted W H (pts dirty) (\<lambda>q. fold (\<lambda>w. layer mem w q) ws) t1 (for_in ws (paint_window ops mem dirty) t1)"
    using Cons.prems(1) t1(2) by (intro Cons.IH) simp_all
  then show ?case using t1 by (auto simp: painted_def paints_def)
qed

text \<open>One region: the scene inside, nothing outside.\<close>

lemma paint_region_painted:
  assumes ws: "list_all window_ok ws" and r: "rect_ok region" "\<not> rect_is_empty region" and t: "on_screen W H t"
  shows "painted W H (pts region) (\<lambda>q _. scene mem ws q) t (paint_region ops mem ws \<lparr>rx = 0, ry = 0, rwidth = W, rheight = H\<rparr> region t)"
proof -
  let ?screen = "\<lparr>rx = 0, ry = 0, rwidth = W, rheight = H\<rparr>"
  have s: "rect_ok ?screen" "pts ?screen = area W H"
    using unsigned_less [of W, where 'a = nat] unsigned_less [of H, where 'a = nat] by (auto simp: rect_ok_def pts_def area_def)
  show ?thesis
  proof (cases rule: intersection_run [OF r(1) s(1)])
    case 1
    then show ?thesis using t s(2) by (auto simp: paint_region_def painted_def paints_def)
  next
    case (2 c)
    have c: "pts c \<subseteq> area W H" "pts c = pts region \<inter> area W H" using 2(3) s(2) by auto
    have ok: "ok t" "t_width ops t = W" "t_height ops t = H" using t by (simp_all add: on_screen_def)
    have ne: "\<not> rect_is_empty c"
    proof -
      have "W \<noteq> 0 \<and> H \<noteq> 0"
        using 2(1) intersects_run [OF r(1) s(1)] by (auto simp: rect_intersection_def)
      then show ?thesis using 2(4) r(2) by (simp add: rect_is_empty_def)
    qed
    obtain t1 where t1: "t_fill ops t c BACKGROUND_COLOUR = Some t1" "on_screen W H t1"
      "\<And>q. q \<in> area W H \<Longrightarrow> px t1 q = (if q \<in> pts c then le_bytes 4 BACKGROUND_COLOUR else px t q)"
      using fill [OF ok(1) 2(2), of BACKGROUND_COLOUR] c(1) ok by (auto simp: on_screen_def)
    obtain t2 where t2: "for_in ws (paint_window ops mem c) t1 = Some t2" "on_screen W H t2"
      "\<And>q. q \<in> area W H \<Longrightarrow> px t2 q = (if q \<in> pts c then fold (\<lambda>w. layer mem w q) ws (px t1 q) else px t1 q)"
      using paint_windows_painted [OF ws 2(2) c(1) ne t1(2), of mem] by (auto simp: painted_def paints_def)
    have f: "on_screen W H (t_flush ops t2 c)" "px (t_flush ops t2 c) = px t2" using flush [of t2 c] t2(2) by (simp_all add: on_screen_def)
    have "px t2 q = (if q \<in> pts region then scene mem ws q else px t q)" if "q \<in> area W H" for q
      using t1(3) [OF that] t2(3) [OF that] c(2) that by (auto simp: scene_def)
    then show ?thesis using 2(1) t1(1) t2(1) f by (auto simp: paint_region_def painted_def paints_def)
  qed
qed

lemma paint_regions_painted:
  assumes "list_all window_ok ws" "list_all (\<lambda>r. rect_ok r \<and> \<not> rect_is_empty r) rs" "on_screen W H t"
  shows "painted W H (\<Union>r \<in> set rs. pts r) (\<lambda>q _. scene mem ws q) t
    (for_in rs (paint_region ops mem ws \<lparr>rx = 0, ry = 0, rwidth = W, rheight = H\<rparr>) t)"
  using assms(2,3)
proof (induction rs arbitrary: t)
  case Nil
  then show ?case by (simp add: painted_def paints_def)
next
  case (Cons r rs)
  obtain t1 where t1: "paint_region ops mem ws \<lparr>rx = 0, ry = 0, rwidth = W, rheight = H\<rparr> r t = Some t1" "on_screen W H t1"
    "\<And>q. q \<in> area W H \<Longrightarrow> px t1 q = (if q \<in> pts r then scene mem ws q else px t q)"
    using paint_region_painted [OF assms(1) _ _ Cons.prems(2), of r mem] Cons.prems(1) by (auto simp: painted_def paints_def)
  have "painted W H (\<Union>r \<in> set rs. pts r) (\<lambda>q _. scene mem ws q) t1 (for_in rs (paint_region ops mem ws \<lparr>rx = 0, ry = 0, rwidth = W, rheight = H\<rparr>) t1)"
    using Cons.prems(1) t1(2) by (intro Cons.IH) simp_all
  then show ?case using t1 by (auto simp: painted_def paints_def)
qed

end

section \<open>The framebuffer\<close>

definition fb_ok :: "framebuffer \<Rightarrow> bool" where
  "fb_ok fb \<longleftrightarrow> 4 * unat (fb_width fb) \<le> unat (fb_stride fb)
     \<and> unat (fb_height fb) * unat (fb_stride fb) \<le> length (fb_pixels fb) \<and> unat (fb_height fb) * unat (fb_stride fb) < 2 ^ 32"

definition fb_px :: "framebuffer \<Rightarrow> nat \<times> nat \<Rightarrow> bytes" where
  "fb_px fb q = (let off = snd q * unat (fb_stride fb) + 4 * fst q in sub_slice off (off + 4) (fb_pixels fb))"

lemma fb_row_end:
  assumes "fb_ok fb" "y < unat (fb_height fb)" "x \<le> unat (fb_width fb)"
  shows "y * unat (fb_stride fb) + 4 * x \<le> (y + 1) * unat (fb_stride fb)" "(y + 1) * unat (fb_stride fb) \<le> unat (fb_height fb) * unat (fb_stride fb)"
proof -
  show "y * unat (fb_stride fb) + 4 * x \<le> (y + 1) * unat (fb_stride fb)" using assms(1,3) by (simp add: fb_ok_def)
  show "(y + 1) * unat (fb_stride fb) \<le> unat (fb_height fb) * unat (fb_stride fb)" using assms(2) by (intro mult_le_mono1) simp
qed

lemma fb_offset_run:
  assumes fb: "fb_ok fb" and xy: "x < fb_width fb" "y < fb_height fb"
  obtains off where "fb_offset fb x y = Some off" "unat off = unat y * unat (fb_stride fb) + 4 * unat x"
proof -
  have xy': "unat x < unat (fb_width fb)" "unat y < unat (fb_height fb)" using xy by (simp_all add: word_less_nat_alt)
  have lim: "unat y * unat (fb_stride fb) + 4 * unat x < 2 ^ 32"
    using fb_row_end [OF fb xy'(2), of "unat x"] xy'(1) fb unfolding fb_ok_def by linarith
  have a: "unat y * unat (fb_stride fb) < 2 ^ 32" "unat x * unat (4 :: u32) < 2 ^ 32" using lim by simp_all
  note m1 = mul32_run [OF a(1)] and m2 = mul32_run [OF a(2)]
  have "unat (y * fb_stride fb) + unat (x * 4) < 2 ^ 32" using m1 m2 lim by simp
  note s = add32_run [OF this]
  show thesis using that [of "y * fb_stride fb + x * 4"] m1 m2 s by (simp add: fb_offset_def)
qed

lemma fb_store_run:
  assumes fb: "fb_ok fb" and xy: "x < fb_width fb" "y < fb_height fb" and n: "length data = 4 * n" "unat x + n \<le> unat (fb_width fb)"
  shows "\<exists>fb'. fb_store fb x y data = Some fb' \<and> fb_ok fb' \<and> fb_width fb' = fb_width fb \<and> fb_height fb' = fb_height fb
    \<and> (\<forall>q \<in> area (fb_width fb) (fb_height fb). fb_px fb' q =
        (if snd q = unat y \<and> unat x \<le> fst q \<and> fst q < unat x + n then pixel_of data (fst q - unat x) else fb_px fb q))"
proof -
  let ?S = "unat (fb_stride fb)" and ?D = "fb_pixels fb"
  have y': "unat y < unat (fb_height fb)" using xy by (simp add: word_less_nat_alt)
  obtain off where off: "fb_offset fb x y = Some off" "unat off = unat y * ?S + 4 * unat x" by (rule fb_offset_run [OF fb xy])
  note e = fb_row_end [OF fb y' n(2)]
  have fits: "unat off + length data \<le> length ?D" using e off(2) n(1) fb unfolding fb_ok_def by simp
  let ?fb = "fb\<lparr>fb_pixels := copy_at (unat off) data ?D\<rparr>"
  have run: "fb_store fb x y data = Some ?fb" using off(1) fits by (simp add: fb_store_def)
  have ok: "fb_ok ?fb" using fb fits by (simp add: fb_ok_def)
  have "fb_px ?fb q = (if snd q = unat y \<and> unat x \<le> fst q \<and> fst q < unat x + n then pixel_of data (fst q - unat x) else fb_px fb q)"
    if q: "q \<in> area (fb_width fb) (fb_height fb)" for q
  proof -
    obtain a b where ab: "q = (a, b)" "a < unat (fb_width fb)" "b < unat (fb_height fb)" using q by (auto simp: area_def)
    let ?o = "b * ?S + 4 * a"
    show ?thesis
    proof (cases "b = unat y \<and> unat x \<le> a \<and> a < unat x + n")
      case True
      obtain k where k: "a = unat x + k" using True le_Suc_ex by blast
      then have "?o = unat off + 4 * (a - unat x)" "4 * (a - unat x) + 4 \<le> length data" using True off(2) n(1) by simp_all
      then show ?thesis
        using True ab(1) fits by (simp add: fb_px_def pixel_of_def sub_slice_copy_at_inside)
    next
      case False
      have r: "?o + 4 \<le> (b + 1) * ?S" using fb_row_end(1) [OF fb ab(3), of "a + 1"] ab(2) by simp
      have "?o + 4 \<le> unat off \<or> unat off + length data \<le> ?o"
      proof (cases "b = unat y")
        case True
        then show ?thesis using False off(2) n(1) by auto
      next
        case False
        then have "b + 1 \<le> unat y \<or> unat y + 1 \<le> b" by linarith
        then have "?o + 4 \<le> unat off" if "b + 1 \<le> unat y"
          using that r off(2) mult_le_mono1 [OF that, of ?S] by linarith
        moreover have "unat off + length data \<le> ?o" if "unat y + 1 \<le> b"
          using that e(1) off(2) n(1) mult_le_mono1 [OF that, of ?S] by (simp add: distrib_left)
        ultimately show ?thesis using \<open>b + 1 \<le> unat y \<or> unat y + 1 \<le> b\<close> by blast
      qed
      then show ?thesis using False ab(1) sub_slice_copy_at_other [OF fits, of ?o "?o + 4"] by (auto simp: fb_px_def)
    qed
  qed
  then show ?thesis using run ok by simp
qed

lemma fb_pixel_run:
  assumes "fb_ok fb" "x < fb_width fb" "y < fb_height fb" "length p = 4"
  shows "\<exists>fb'. fb_store fb x y p = Some fb' \<and> fb_ok fb' \<and> fb_width fb' = fb_width fb \<and> fb_height fb' = fb_height fb
    \<and> (\<forall>q \<in> area (fb_width fb) (fb_height fb). fb_px fb' q = (if q = (unat x, unat y) then p else fb_px fb q))"
proof -
  have "(snd q = unat y \<and> unat x \<le> fst q \<and> fst q < unat x + 1) = (q = (unat x, unat y))" for q by (cases q) auto
  moreover have "pixel_of p 0 = p" using assms(4) by (simp add: pixel_of_def sub_slice_def)
  moreover have "unat x + 1 \<le> unat (fb_width fb)" using assms(2) by (simp add: word_less_nat_alt)
  ultimately show ?thesis using fb_store_run [OF assms(1-3), of p 1] assms(4) by (simp only:) (auto cong: if_cong)
qed

lemma fb_fill_run:
  assumes fb: "fb_ok fb" and r: "rect_ok r"
  shows "\<exists>fb'. fb_fill fb r c = Some fb' \<and> fb_ok fb' \<and> fb_width fb' = fb_width fb \<and> fb_height fb' = fb_height fb
    \<and> (\<forall>q \<in> area (fb_width fb) (fb_height fb). fb_px fb' q = (if q \<in> pts r then le_bytes 4 c else fb_px fb q))"
proof -
  let ?W = "fb_width fb" and ?H = "fb_height fb"
  let ?I = "\<lambda>fb'. fb_ok fb' \<and> fb_width fb' = ?W \<and> fb_height fb' = ?H" and ?g = "\<lambda>_ _. le_bytes 4 c"
  obtain e f where ef: "right r = Some e" "unat e = unat (rx r) + unat (rwidth r)" "bottom r = Some f" "unat f = unat (ry r) + unat (rheight r)"
    using r by (rule rect_edges)
  let ?xs = "range32 (rx r) (min e ?W)" and ?ys = "range32 (ry r) (min f ?H)"
  have pixel: "paints ?I fb_px (area ?W ?H) {(unat x, unat y)} ?g t (fb_store t x y (le_bytes 4 c))"
    if "x \<in> set ?xs" "y \<in> set ?ys" "?I t" for x y t
  proof -
    have xy: "x < fb_width t" "y < fb_height t"
      using range32_nth [OF that(1)] range32_nth [OF that(2)] that(3) by (simp_all add: word_less_nat_alt unat_min_max)
    then show ?thesis using fb_pixel_run [of t x y "le_bytes 4 c"] that(3) by (auto simp: paints_def)
  qed
  have row: "paints ?I fb_px (area ?W ?H) (\<Union>x \<in> set ?xs. {(unat x, unat y)}) ?g t (for_in ?xs (\<lambda>x fb. fb_store fb x y (le_bytes 4 c)) t)"
    if "y \<in> set ?ys" "?I t" for y t
  proof (rule for_in_paints [where I = ?I, OF _ distinct_range32])
    show "?I t" by fact
  qed (use pixel that(1) in blast, auto simp: word_unat_eq_iff)
  let ?step = "\<lambda>y fb. do { x2 \<leftarrow> right r; for_in (range32 (rx r) (min x2 (fb_width fb))) (\<lambda>x fb. fb_store fb x y (le_bytes 4 c)) fb }"
  have "paints ?I fb_px (area ?W ?H) (\<Union>y \<in> set ?ys. \<Union>x \<in> set ?xs. {(unat x, unat y)}) ?g fb (for_in ?ys ?step fb)"
  proof (rule for_in_paints [where I = ?I, OF _ distinct_range32])
    show "?I fb" using fb by simp
  next
    fix y t assume "y \<in> set ?ys" "?I t"
    then show "paints ?I fb_px (area ?W ?H) (\<Union>x \<in> set ?xs. {(unat x, unat y)}) ?g t (?step y t)" using row [of y t] ef(1) by simp
  qed (auto simp: word_unat_eq_iff)
  moreover have "(\<Union>y \<in> set ?ys. \<Union>x \<in> set ?xs. {(unat x, unat y)}) \<inter> area ?W ?H = pts r \<inter> area ?W ?H"
  proof -
    have "(\<Union>y \<in> set ?ys. \<Union>x \<in> set ?xs. {(unat x, unat y)}) = (unat ` set ?xs) \<times> (unat ` set ?ys)" by blast
    then show ?thesis unfolding range32_points by (auto simp: pts_def area_def unat_min_max ef)
  qed
  ultimately obtain A where A: "paints ?I fb_px (area ?W ?H) A ?g fb (for_in ?ys ?step fb)" "A \<inter> area ?W ?H = pts r \<inter> area ?W ?H" by blast
  have "q \<in> A \<longleftrightarrow> q \<in> pts r" if "q \<in> area ?W ?H" for q using A(2) that by blast
  then show ?thesis using A(1) ef(3) by (auto simp: fb_fill_def paints_def)
qed

interpretation fbt: render_target framebuffer_target fb_ok fb_px
proof
  fix t :: framebuffer and q
  assume t: "fb_ok t" and q: "q \<in> area (t_width framebuffer_target t) (t_height framebuffer_target t)"
  have "snd q * unat (fb_stride t) + 4 * (fst q + 1) \<le> length (fb_pixels t)"
    using fb_row_end [OF t, of "snd q" "fst q + 1"] q t by (auto simp: area_def framebuffer_target_def fb_ok_def)
  then show "length (fb_px t q) = 4" by (simp add: fb_px_def Let_def)
next
  fix t :: framebuffer and x n y :: u32 and src :: bytes
  assume a: "fb_ok t" "unat x + unat n \<le> unat (t_width framebuffer_target t)" "y < t_height framebuffer_target t" "length src = 4 * unat n"
  show "\<exists>t'. t_write_row framebuffer_target t x y n src = Some t' \<and> fb_ok t' \<and> t_width framebuffer_target t' = t_width framebuffer_target t
      \<and> t_height framebuffer_target t' = t_height framebuffer_target t
      \<and> (\<forall>q \<in> area (t_width framebuffer_target t) (t_height framebuffer_target t). fb_px t' q =
          (if snd q = unat y \<and> unat x \<le> fst q \<and> fst q < unat x + unat n then pixel_of src (fst q - unat x) else fb_px t q))"
  proof (cases "x < fb_width t")
    case True
    have le: "\<not> fb_width t \<le> x" "\<not> fb_height t \<le> y" using True a(3) by (simp_all add: not_le framebuffer_target_def)
    have "n \<le> fb_width t - x" using a(2) True by (simp add: word_le_nat_alt unat_diff framebuffer_target_def)
    then have m: "min n (fb_width t - x) = n" by (simp add: min_def)
    show ?thesis
      using fb_store_run [OF a(1) True, of y src "unat n"] a(2-4) le m by (simp add: framebuffer_target_def fb_write_row_def Let_def mult.commute)
  next
    case False
    then have "unat n = 0" using a(2) by (simp add: framebuffer_target_def word_less_nat_alt)
    then have none: "\<not> (unat x \<le> k \<and> k < unat x + unat n)" for k by simp
    moreover have "fb_width t \<le> x" using False by simp
    ultimately show ?thesis using a(1) by (simp add: framebuffer_target_def fb_write_row_def none)
  qed
next
  fix t :: framebuffer and x y :: u32
  assume a: "fb_ok t" "x < t_width framebuffer_target t" "y < t_height framebuffer_target t"
  then have a': "x < fb_width t" "y < fb_height t" by (simp_all add: framebuffer_target_def)
  obtain off where off: "fb_offset t x y = Some off" "unat off = unat y * unat (fb_stride t) + 4 * unat x" by (rule fb_offset_run [OF a(1) a'])
  have "unat off + 4 \<le> length (fb_pixels t)"
    using fb_row_end [OF a(1), of "unat y" "unat x + 1"] a(1) a' off(2) by (auto simp: fb_ok_def word_less_nat_alt)
  then show "t_get_pixel framebuffer_target t x y = Some (fb_px t (unat x, unat y))"
    using a' off by (auto simp: framebuffer_target_def fb_get_pixel_def fb_px_def Let_def not_le get_range_def)
next
  fix t :: framebuffer and x y :: u32 and p :: bytes
  assume a: "fb_ok t" "x < t_width framebuffer_target t" "y < t_height framebuffer_target t" "length p = 4"
  then have "\<not> fb_width t \<le> x" "\<not> fb_height t \<le> y" by (simp_all add: not_le framebuffer_target_def)
  then show "\<exists>t'. t_set_pixel framebuffer_target t x y p = Some t' \<and> fb_ok t' \<and> t_width framebuffer_target t' = t_width framebuffer_target t
      \<and> t_height framebuffer_target t' = t_height framebuffer_target t
      \<and> (\<forall>q \<in> area (t_width framebuffer_target t) (t_height framebuffer_target t). fb_px t' q = (if q = (unat x, unat y) then p else fb_px t q))"
    using fb_pixel_run [OF a(1) _ _ a(4)] a(2,3) by (simp add: framebuffer_target_def fb_set_pixel_def)
next
  fix t :: framebuffer and r :: rect
  assume "fb_ok t"
  then show "fb_ok (t_flush framebuffer_target t r) \<and> t_width framebuffer_target (t_flush framebuffer_target t r) = t_width framebuffer_target t
      \<and> t_height framebuffer_target (t_flush framebuffer_target t r) = t_height framebuffer_target t \<and> fb_px (t_flush framebuffer_target t r) = fb_px t"
    by (auto simp: framebuffer_target_def fb_flush_def fb_ok_def fb_px_def)
next
  fix t :: framebuffer and r :: rect and c :: u32
  assume a: "fb_ok t" "rect_ok r" "pts r \<subseteq> area (t_width framebuffer_target t) (t_height framebuffer_target t)"
  show "\<exists>t'. t_fill framebuffer_target t r c = Some t' \<and> fb_ok t' \<and> t_width framebuffer_target t' = t_width framebuffer_target t
      \<and> t_height framebuffer_target t' = t_height framebuffer_target t
      \<and> (\<forall>q \<in> area (t_width framebuffer_target t) (t_height framebuffer_target t). fb_px t' q = (if q \<in> pts r then le_bytes 4 c else fb_px t q))"
    using fb_fill_run [OF a(1,2), of c] by (simp add: framebuffer_target_def)
qed

end
