(* ===== verification/Compositor_Run.thy ===== *)
theory Compositor_Run
  imports Compositor_Screen
begin

text \<open>
  The compositor over time: from an empty screen, through client requests, client writes to buffers that are not shown and ticks,
  every pixel that is not marked dirty shows the scene, and a tick makes the whole screen show it.
\<close>

section \<open>Dirty regions\<close>

definition dirty_ok :: "rect list \<Rightarrow> bool" where
  "dirty_ok rs \<longleftrightarrow> list_all (\<lambda>r. rect_ok r \<and> \<not> rect_is_empty r) rs"

definition covered :: "rect list \<Rightarrow> (nat \<times> nat) set" where
  "covered rs = (\<Union>r \<in> set rs. pts r)"

lemma covered_simps [simp]: "covered [] = {}" "covered (r # rs) = pts r \<union> covered rs"
  by (auto simp: covered_def)

lemma dirty_ok_simps [simp]: "dirty_ok []" "dirty_ok (r # rs) \<longleftrightarrow> rect_ok r \<and> \<not> rect_is_empty r \<and> dirty_ok rs"
  by (simp_all add: dirty_ok_def)

lemma pts_empty: "rect_is_empty r \<longleftrightarrow> pts r = {}"
  by (auto simp: rect_is_empty_def pts_def unsigned_eq_0_iff)

lemma coalesce_run:
  assumes "dirty_ok rs" "rect_ok r" "\<not> rect_is_empty r"
  shows "\<exists>rs'. coalesce_regions rs r = Some rs' \<and> dirty_ok rs' \<and> covered rs \<union> pts r \<subseteq> covered rs'"
  using assms(1)
proof (induction rs)
  case Nil
  then show ?case using assms by simp
next
  case (Cons e rs)
  obtain i a where ia: "intersects e r = Some i" "is_adjacent e r = Some a"
    using intersects_run is_adjacent_run assms(2) Cons.prems by (metis dirty_ok_simps(2))
  obtain u where u: "rect_union e r = Some u" "rect_ok u" "pts e \<union> pts r \<subseteq> pts u"
    using union_run assms(2) Cons.prems by (metis dirty_ok_simps(2))
  have "\<not> rect_is_empty u" using u(3) assms(3) by (auto simp: pts_empty)
  then show ?case using Cons ia u by (auto simp: or_else_def)
qed

lemma mark_dirty_run:
  assumes "dirty_ok (wm_dirty_regions m)" "rect_ok r"
  obtains ds where "mark_dirty r m = Some (m\<lparr>wm_dirty_regions := ds\<rparr>)" "dirty_ok ds" "covered (wm_dirty_regions m) \<union> pts r \<subseteq> covered ds"
proof (cases "rect_is_empty r")
  case True
  then show thesis using that [of "wm_dirty_regions m"] assms(1) by (simp add: mark_dirty_def pts_empty)
next
  case False
  then show thesis using that coalesce_run [OF assms(1,2) False] by (auto simp: mark_dirty_def)
qed

text \<open>The damage of a commit, in window coordinates, at the position of the window.\<close>

definition damage_fits :: "u32 \<times> u32 \<Rightarrow> rect \<Rightarrow> bool" where
  "damage_fits origin r \<longleftrightarrow> unat (fst origin) + unat (rx r) + unat (rwidth r) < 2 ^ 32 \<and> unat (snd origin) + unat (ry r) + unat (rheight r) < 2 ^ 32"

definition damage_pts :: "u32 \<times> u32 \<Rightarrow> rect \<Rightarrow> (nat \<times> nat) set" where
  "damage_pts origin r = (\<lambda>(x, y). (unat (fst origin) + x, unat (snd origin) + y)) ` pts r"

lemma damage_at_run:
  assumes "damage_fits origin r"
  obtains r' where "damage_at origin r = Some r'" "rect_ok r'" "pts r' = damage_pts origin r"
proof -
  have "unat (fst origin) + unat (rx r) < 2 ^ 32" "unat (snd origin) + unat (ry r) < 2 ^ 32" using assms by (simp_all add: damage_fits_def)
  note a = add32_run [OF this(1)] add32_run [OF this(2)]
  let ?r = "r\<lparr>rx := fst origin + rx r, ry := snd origin + ry r\<rparr>"
  have shift: "{c + a..<c + a + n} = (+) c ` {a..<a + n}" for a c n :: nat by (simp add: add.commute add.left_commute)
  have "pts ?r = damage_pts origin r" using a by (simp add: pts_def damage_pts_def shift image_paired_Times)
  moreover have "rect_ok ?r" using a assms by (simp add: rect_ok_def damage_fits_def)
  ultimately show thesis using that [of ?r] a by (simp add: damage_at_def)
qed

lemma mark_damage_run:
  assumes "dirty_ok (wm_dirty_regions m)" "list_all (damage_fits origin) rs"
  obtains ds where "for_in rs (\<lambda>r m. do { r' \<leftarrow> damage_at origin r; mark_dirty r' m }) m = Some (m\<lparr>wm_dirty_regions := ds\<rparr>)"
    "dirty_ok ds" "covered (wm_dirty_regions m) \<union> (\<Union>r \<in> set rs. damage_pts origin r) \<subseteq> covered ds"
  using assms
proof (induction rs arbitrary: m thesis)
  case Nil
  then show ?case using Nil.prems(1) [of "wm_dirty_regions m"] by simp
next
  case (Cons r rs)
  obtain r' where r': "damage_at origin r = Some r'" "rect_ok r'" "pts r' = damage_pts origin r"
    using damage_at_run [of origin r] Cons.prems(3) by auto
  obtain ds where ds: "mark_dirty r' m = Some (m\<lparr>wm_dirty_regions := ds\<rparr>)" "dirty_ok ds" "covered (wm_dirty_regions m) \<union> pts r' \<subseteq> covered ds"
    using mark_dirty_run [OF Cons.prems(2) r'(2)] .
  obtain ds' where ds': "for_in rs (\<lambda>r m. do { r' \<leftarrow> damage_at origin r; mark_dirty r' m }) (m\<lparr>wm_dirty_regions := ds\<rparr>) = Some (m\<lparr>wm_dirty_regions := ds'\<rparr>)"
    "dirty_ok ds'" "covered ds \<union> (\<Union>r \<in> set rs. damage_pts origin r) \<subseteq> covered ds'"
    by (rule Cons.IH [of "m\<lparr>wm_dirty_regions := ds\<rparr>"]) (use ds(2) Cons.prems(3) in auto)
  have "covered (wm_dirty_regions m) \<union> (\<Union>r \<in> set (r # rs). damage_pts origin r) \<subseteq> covered ds'" using ds(3) ds'(3) r'(3) by auto
  then show ?case using Cons.prems(1) [of ds'] r' ds ds' by simp
qed

section \<open>The scene of a changed window list\<close>

lemma layer_outside: "\<not> w_visible w \<or> q \<notin> pts (w_rect w) \<Longrightarrow> layer mem w q = id"
  by (auto simp: layer_def fun_eq_iff split: option.split)

lemma find_window_put:
  assumes "find_window i ws = Some w"
  obtains us vs where "ws = us @ w # vs" "\<And>w'. put_window i w' ws = us @ w' # vs" "w_id w = i" "remove1 w ws = us @ vs"
proof -
  have "\<exists>us vs. ws = us @ w # vs \<and> (\<forall>w'. put_window i w' ws = us @ w' # vs) \<and> w_id w = i \<and> remove1 w ws = us @ vs"
    using assms
  proof (induction ws)
    case (Cons u ws)
    show ?case
    proof (cases "w_id u = i")
      case True
      then show ?thesis using Cons.prems by (intro exI [of _ "[]"] exI [of _ ws]) (simp add: find_window_def)
    next
      case False
      then obtain us vs where "ws = us @ w # vs" "\<forall>w'. put_window i w' ws = us @ w' # vs" "w_id w = i" "remove1 w ws = us @ vs"
        using Cons by (auto simp: find_window_def)
      then show ?thesis using False by (intro exI [of _ "u # us"] exI [of _ vs]) auto
    qed
  qed (simp add: find_window_def)
  then show thesis using that by blast
qed

lemma scene_put:
  assumes "find_window i ws = Some w" "layer mem w' q = layer mem w q"
  shows "scene mem (put_window i w' ws) q = scene mem ws q"
  using assms(1) by (rule find_window_put) (simp add: scene_def assms(2))

lemma scene_remove:
  assumes "find_window i ws = Some w" "layer mem w q = id"
  shows "scene mem (remove1 w ws) q = scene mem ws q"
  using assms(1) by (rule find_window_put) (simp add: scene_def assms(2))

lemma windows_put:
  assumes "find_window i ws = Some w" "list_all window_ok ws" "window_ok w'"
  shows "list_all window_ok (put_window i w' ws)" "list_all window_ok (remove1 w ws)"
  using assms(1) by (rule find_window_put; use assms(2,3) in simp)+

lemma window_found: "find_window i ws = Some w \<Longrightarrow> list_all window_ok ws \<Longrightarrow> window_ok w"
  by (erule find_window_put) simp

definition shown :: "shared_memory \<Rightarrow> shared_memory \<Rightarrow> window list \<Rightarrow> bool" where
  "shown mem mem' ws \<longleftrightarrow> list_all (\<lambda>w. \<forall>a. w_latched w = Some a \<longrightarrow> mem' (at_data a) = mem (at_data a)) ws"

lemma scene_shown: "shown mem mem' ws \<Longrightarrow> scene mem' ws q = scene mem ws q"
proof -
  assume "shown mem mem' ws"
  then have "fold (\<lambda>w. layer mem' w q) ws b = fold (\<lambda>w. layer mem w q) ws b" for b
  proof (induction ws arbitrary: b)
    case (Cons w ws)
    then have "layer mem' w q b = layer mem w q b" by (auto simp: shown_def layer_def as_slice_def source_pixel_def split: option.split)
    then show ?case using Cons by (simp add: shown_def)
  qed simp
  then show ?thesis by (simp add: scene_def)
qed

section \<open>Filling a buffer\<close>

lemma fill_pixel_run:
  assumes "x < at_width a" "y < at_height a" "unat (at_width a) * unat (at_height a) * 4 < 2 ^ 32"
  shows "\<exists>data'. fill_pixel (at_width a) c x y data = Some data'"
proof -
  have "unat x < unat (at_width a)" "unat y < unat (at_height a)" using assms by (simp_all add: word_less_nat_alt)
  then have "(unat y + 1) * unat (at_width a) \<le> unat (at_height a) * unat (at_width a)" by (intro mult_le_mono1) simp
  then have le: "unat y * unat (at_width a) + unat x < unat (at_width a) * unat (at_height a)"
    using \<open>unat x < _\<close> by (simp add: algebra_simps)
  then have "unat y * unat (at_width a) < 2 ^ 32" using assms(3) by linarith
  note a1 = mul32_run [OF this]
  have "unat y * unat (at_width a) + unat x < 2 ^ 32" using le assms(3) by linarith
  note a2 = add32_run [of "y * at_width a" x, unfolded conjunct2 [OF a1], OF this]
  have "(unat y * unat (at_width a) + unat x) * 4 < 2 ^ 32" by (rule order.strict_trans [OF mult_less_mono1 [OF le] assms(3)]) simp
  then have "(unat y * unat (at_width a) + unat x) * unat (4 :: u32) < 2 ^ 32" by simp
  note a3 = mul32_run [of "y * at_width a + x" 4, unfolded conjunct2 [OF a2], OF this]
  show ?thesis using a1 a2 a3 by (auto simp: fill_pixel_def pixel_index_def)
qed

lemma for_in_total: "(\<And>x s. x \<in> set xs \<Longrightarrow> \<exists>s'. f x s = Some s') \<Longrightarrow> \<exists>s'. for_in xs f s = Some s'"
proof (induction xs arbitrary: s)
  case (Cons x xs)
  obtain s1 where "f x s = Some s1" using Cons.prems by fastforce
  then show ?case using Cons.IH [of s1] Cons.prems by simp
qed simp

lemma fill_buffer_run:
  assumes "rect_ok r" "unat (at_width a) * unat (at_height a) * 4 < 2 ^ 32"
  shows "\<exists>data. fill_buffer mem a r c = Some (mem(at_data a := data))"
proof -
  let ?b = "\<lparr>rx = 0, ry = 0, rwidth = at_width a, rheight = at_height a\<rparr>"
  have b: "rect_ok ?b" using unsigned_less [of "at_width a", where 'a = nat] unsigned_less [of "at_height a", where 'a = nat] by (simp add: rect_ok_def)
  show ?thesis
  proof (cases rule: intersection_run [OF assms(1) b])
    case 1
    then show ?thesis by (auto simp: fill_buffer_def intro!: exI [of _ "mem (at_data a)"])
  next
    case (2 k)
    obtain e f where k: "right k = Some e" "unat e = unat (rx k) + unat (rwidth k)" "bottom k = Some f" "unat f = unat (ry k) + unat (rheight k)"
      using 2(2) by (rule rect_edges)
    have in_k: "x < at_width a \<and> y < at_height a" if "x \<in> set (range32 (rx k) e)" "y \<in> set (range32 (ry k) f)" for x y
    proof -
      have "(unat x, unat y) \<in> pts k" using range32_nth [OF that(1)] range32_nth [OF that(2)] k(2,4) by (simp add: pts_def)
      then have "(unat x, unat y) \<in> pts ?b" using 2(3) by blast
      then show ?thesis by (simp add: pts_def word_less_nat_alt)
    qed
    let ?d = "as_slice mem a"
    have "\<exists>d'. for_in (range32 (ry k) f) (\<lambda>y data. do { x2 \<leftarrow> right k;
        for_in (range32 (rx k) x2) (\<lambda>x data. fill_pixel (at_width a) (le_bytes 4 c) x y data) data }) ?d = Some d'"
    proof (rule for_in_total)
      fix y d assume "y \<in> set (range32 (ry k) f)"
      then have "\<exists>d'. for_in (range32 (rx k) e) (\<lambda>x data. fill_pixel (at_width a) (le_bytes 4 c) x y data) d = Some d'"
        using in_k fill_pixel_run [OF _ _ assms(2)] by (intro for_in_total) blast
      then show "\<exists>d'. do { x2 \<leftarrow> right k;
          for_in (range32 (rx k) x2) (\<lambda>x data. fill_pixel (at_width a) (le_bytes 4 c) x y data) d } = Some d'" by (simp add: k(1))
    qed
    then obtain d' where "for_in (range32 (ry k) f) (\<lambda>y data. do { x2 \<leftarrow> right k;
        for_in (range32 (rx k) x2) (\<lambda>x data. fill_pixel (at_width a) (le_bytes 4 c) x y data) data }) ?d = Some d'" by blast
    then show ?thesis using 2(1) k(3) by (auto simp: fill_buffer_def)
  qed
qed

section \<open>The screen between ticks\<close>

text \<open>
  The invariant: windows and dirty regions lie within the 32-bit plane, and every pixel of the target outside the dirty regions
  shows the scene.
\<close>

definition screen_ok :: "'t target_ops \<Rightarrow> ('t \<Rightarrow> bool) \<Rightarrow> ('t \<Rightarrow> nat \<times> nat \<Rightarrow> bytes) \<Rightarrow> shared_memory \<Rightarrow> 't window_manager \<Rightarrow> bool" where
  "screen_ok ops ok px mem m \<longleftrightarrow> list_all window_ok (wm_windows m) \<and> dirty_ok (wm_dirty_regions m)
     \<and> (case wm_target m of None \<Rightarrow> False
        | Some t \<Rightarrow> ok t \<and> (\<forall>q \<in> area (t_width ops t) (t_height ops t). q \<notin> covered (wm_dirty_regions m) \<longrightarrow> px t q = scene mem (wm_windows m) q))"

lemma screen_ok_change:
  assumes "screen_ok ops ok px mem m" "wm_target m' = wm_target m" "list_all window_ok (wm_windows m')" "dirty_ok (wm_dirty_regions m')"
    "covered (wm_dirty_regions m) \<subseteq> covered (wm_dirty_regions m')"
    "\<And>q. q \<notin> covered (wm_dirty_regions m') \<Longrightarrow> scene mem' (wm_windows m') q = scene mem (wm_windows m) q"
  shows "screen_ok ops ok px mem' m'"
  using assms by (auto simp: screen_ok_def split: option.splits)

text \<open>
  What the compositor relies on of a request: identifiers and coordinates that do not overflow, damage that covers the change of a
  commit (for a commit without damage: a new buffer that covers the old one), and filling only a buffer that is not shown.
\<close>

definition commit_ok :: "shared_memory \<Rightarrow> window \<Rightarrow> bool" where
  "commit_ok mem w \<longleftrightarrow> (let w' = fst (latch w) in
     window_ok w' \<and> (w_visible w \<longrightarrow>
       (if w_pending_damage w = [] then pts (w_rect w) \<subseteq> pts (w_rect w')
        else list_all (damage_fits (w_position w)) (w_pending_damage w)
          \<and> (\<forall>q. q \<notin> (\<Union>r \<in> set (w_pending_damage w). damage_pts (w_position w) r) \<longrightarrow> layer mem w' q = layer mem w q))))"

definition fill_ok :: "window list \<Rightarrow> window \<Rightarrow> rect \<Rightarrow> bool" where
  "fill_ok ws w r \<longleftrightarrow> rect_ok r \<and> (case (case w_pending w of Some a \<Rightarrow> Some a | None \<Rightarrow> w_latched w) of
      None \<Rightarrow> True
    | Some a \<Rightarrow> unat (at_width a) * unat (at_height a) * 4 < 2 ^ 32
        \<and> list_all (\<lambda>v. \<forall>b. w_latched v = Some b \<longrightarrow> at_data b \<noteq> at_data a) ws)"

definition request_ok :: "shared_memory \<Rightarrow> 't window_manager \<Rightarrow> comp_request \<Rightarrow> bool" where
  "request_ok mem m req \<longleftrightarrow> (case req of
      CreateWindow \<Rightarrow> wm_next_window_id m \<noteq> 0xFFFFFFFFFFFFFFFF
    | Commit i \<Rightarrow> (case find_window i (wm_windows m) of None \<Rightarrow> True | Some w \<Rightarrow> commit_ok mem w)
    | Fill i r c \<Rightarrow> (case find_window i (wm_windows m) of None \<Rightarrow> True | Some w \<Rightarrow> fill_ok (wm_windows m) w r)
    | MoveWindow i x y \<Rightarrow> (case find_window i (wm_windows m) of None \<Rightarrow> True | Some w \<Rightarrow> window_ok (w\<lparr>w_position := (x, y)\<rparr>))
    | _ \<Rightarrow> True)"

text \<open>Changing a window: the pixels where its layer changes have to become dirty.\<close>

lemma screen_ok_put:
  assumes "screen_ok ops ok px mem m" "find_window i (wm_windows m) = Some w" "window_ok w'" "dirty_ok ds"
    "covered (wm_dirty_regions m) \<subseteq> covered ds" "\<And>q. q \<notin> covered ds \<Longrightarrow> layer mem w' q = layer mem w q"
  shows "screen_ok ops ok px mem (m\<lparr>wm_windows := put_window i w' (wm_windows m), wm_dirty_regions := ds\<rparr>)"
proof (rule screen_ok_change [OF assms(1)])
  have "list_all window_ok (wm_windows m)" using assms(1) by (simp add: screen_ok_def)
  then show "list_all window_ok (wm_windows (m\<lparr>wm_windows := put_window i w' (wm_windows m), wm_dirty_regions := ds\<rparr>))"
    using windows_put(1) [OF assms(2) _ assms(3)] by simp
qed (use assms(4-6) scene_put [OF assms(2)] in auto)

lemma screen_ok_put_same:
  assumes "screen_ok ops ok px mem m" "find_window i (wm_windows m) = Some w"
    "w_latched w' = w_latched w" "w_visible w' = w_visible w" "w_position w' = w_position w" "w_size w' = w_size w"
  shows "screen_ok ops ok px mem (m\<lparr>wm_windows := put_window i w' (wm_windows m)\<rparr>)"
proof -
  have "window_ok w" using window_found [OF assms(2)] assms(1) by (simp add: screen_ok_def)
  moreover have "w_rect w' = w_rect w" using assms(5,6) by (simp add: w_rect_def)
  ultimately have "window_ok w'" "layer mem w' q = layer mem w q" for q
    using assms(3-6) by (auto simp: window_ok_def layer_def source_pixel_def fun_eq_iff split: option.split)
  then show ?thesis
    using screen_ok_put [OF assms(1,2), of w' "wm_dirty_regions m"] assms(1) by (simp add: screen_ok_def)
qed

lemma layer_unchanged:
  assumes "pts (w_rect w) \<subseteq> D" "pts (w_rect w') \<subseteq> D" "q \<notin> D"
  shows "layer mem w' q = layer mem w q"
  using assms layer_outside by (metis subsetD)

section \<open>Requests keep the screen\<close>

lemma commit_keeps:
  assumes ok: "screen_ok ops ok px mem m" and w: "find_window i (wm_windows m) = Some w" and c: "commit_ok mem w"
  shows "\<exists>ev m'. handle_request (Commit i) att m mem = Some (ev, m', mem) \<and> screen_ok ops ok px mem m'"
proof -
  obtain w' ev where l: "latch w = (w', ev)" by (cases "latch w")
  have same: "w_visible w' = w_visible w" "w_position w' = w_position w" using l by (auto simp: latch_def split: option.splits)
  have w': "window_ok w'" using c l by (simp add: commit_ok_def Let_def)
  let ?m = "m\<lparr>wm_windows := put_window i w' (wm_windows m)\<rparr>"
  have d: "dirty_ok (wm_dirty_regions ?m)" using ok by (simp add: screen_ok_def)
  have put: "screen_ok ops ok px mem (?m\<lparr>wm_dirty_regions := ds\<rparr>)" if "dirty_ok ds" "covered (wm_dirty_regions m) \<subseteq> covered ds"
    "\<And>q. q \<notin> covered ds \<Longrightarrow> layer mem w' q = layer mem w q" for ds
    using screen_ok_put [OF ok w w' that] by simp
  consider "w_pending w = None" "w_latched w = None" | "\<not> w_visible w" "w_pending w \<noteq> None \<or> w_latched w \<noteq> None"
    | "w_visible w" "w_pending_damage w = []" "w_pending w \<noteq> None \<or> w_latched w \<noteq> None"
    | "w_visible w" "w_pending_damage w \<noteq> []" "w_pending w \<noteq> None \<or> w_latched w \<noteq> None" by blast
  then show ?thesis
  proof cases
    case 1
    then show ?thesis using ok w by simp
  next
    case 2
    have "screen_ok ops ok px mem ?m" using put [of "wm_dirty_regions m"] d 2(1) layer_outside same by simp
    then show ?thesis using w 2 l same by auto
  next
    case 3
    have sub: "pts (w_rect w) \<subseteq> pts (w_rect w')" using c 3 l by (simp add: commit_ok_def Let_def)
    obtain ds where ds: "mark_dirty (w_rect w') ?m = Some (?m\<lparr>wm_dirty_regions := ds\<rparr>)" "dirty_ok ds"
      "covered (wm_dirty_regions ?m) \<union> pts (w_rect w') \<subseteq> covered ds"
      using mark_dirty_run [OF d] w' by (auto simp: window_ok_def)
    have "screen_ok ops ok px mem (?m\<lparr>wm_dirty_regions := ds\<rparr>)"
      using ds(2,3) sub by (intro put layer_unchanged [of w "covered ds" w']) auto
    then show ?thesis using w 3 l same ds(1) by auto
  next
    case 4
    have fits: "list_all (damage_fits (w_position w)) (w_pending_damage w)"
      and dam: "\<And>q. q \<notin> (\<Union>r \<in> set (w_pending_damage w). damage_pts (w_position w) r) \<Longrightarrow> layer mem w' q = layer mem w q"
      using c 4 l by (simp_all add: commit_ok_def Let_def del: split_paired_All)
    obtain ds where ds: "for_in (w_pending_damage w) (\<lambda>r m. do { r' \<leftarrow> damage_at (w_position w) r; mark_dirty r' m }) ?m = Some (?m\<lparr>wm_dirty_regions := ds\<rparr>)"
      "dirty_ok ds" "covered (wm_dirty_regions ?m) \<union> (\<Union>r \<in> set (w_pending_damage w). damage_pts (w_position w) r) \<subseteq> covered ds"
      using mark_damage_run [OF d fits] .
    have "screen_ok ops ok px mem (?m\<lparr>wm_dirty_regions := ds\<rparr>)" using ds(2,3) by (intro put dam) auto
    then show ?thesis using w 4 l same ds(1) by auto
  qed
qed

lemma fill_keeps:
  assumes ok: "screen_ok ops ok px mem m" and w: "find_window i (wm_windows m) = Some w" and f: "fill_ok (wm_windows m) w r"
  shows "\<exists>ev m' mem'. handle_request (Fill i r c) att m mem = Some (ev, m', mem') \<and> screen_ok ops ok px mem' m'"
proof (cases "case w_pending w of Some a \<Rightarrow> Some a | None \<Rightarrow> w_latched w")
  case None
  then show ?thesis using ok w by simp
next
  case (Some a)
  let ?m = "m\<lparr>wm_windows := put_window i (w\<lparr>w_pending_damage := w_pending_damage w @ [r]\<rparr>) (wm_windows m)\<rparr>"
  obtain data where data: "fill_buffer mem a r c = Some (mem(at_data a := data))"
    using fill_buffer_run [of r a mem c] f Some by (auto simp: fill_ok_def)
  have kept: "screen_ok ops ok px mem ?m" by (rule screen_ok_put_same [OF ok w]) simp_all
  have apart: "list_all (\<lambda>v. \<forall>b. w_latched v = Some b \<longrightarrow> at_data b \<noteq> at_data a) (wm_windows m)" using f Some by (simp add: fill_ok_def)
  have "shown mem (mem(at_data a := data)) (wm_windows ?m)"
    using w by (rule find_window_put) (use apart in \<open>auto simp: shown_def list_all_iff\<close>)
  then have "screen_ok ops ok px (mem(at_data a := data)) ?m"
    using kept by (intro screen_ok_change [OF kept]) (simp_all add: scene_shown screen_ok_def)
  then show ?thesis using w Some data by simp
qed

lemma visible_keeps:
  assumes ok: "screen_ok ops ok px mem m" and w: "find_window i (wm_windows m) = Some w"
  shows "\<exists>ev m'. handle_request (SetVisible i v) att m mem = Some (ev, m', mem) \<and> screen_ok ops ok px mem m'"
proof (cases "w_visible w = v")
  case True
  then show ?thesis using ok w by simp
next
  case False
  let ?w = "w\<lparr>w_visible := v\<rparr>" and ?m = "m\<lparr>wm_windows := put_window i (w\<lparr>w_visible := v\<rparr>) (wm_windows m)\<rparr>"
  have wok: "window_ok w" using window_found [OF w] ok by (simp add: screen_ok_def)
  have rect: "w_rect ?w = w_rect w" by (simp add: w_rect_def)
  obtain ds where ds: "mark_dirty (w_rect w) ?m = Some (?m\<lparr>wm_dirty_regions := ds\<rparr>)" "dirty_ok ds"
    "covered (wm_dirty_regions ?m) \<union> pts (w_rect w) \<subseteq> covered ds"
    using mark_dirty_run [of ?m "w_rect w"] wok ok by (auto simp: window_ok_def screen_ok_def)
  have "screen_ok ops ok px mem (?m\<lparr>wm_dirty_regions := ds\<rparr>)"
    using screen_ok_put [OF ok w, of ?w ds] ds(2,3) wok rect layer_unchanged [of w "covered ds" ?w] by (simp add: window_ok_def)
  then show ?thesis using w False ds(1) by simp
qed

lemma move_keeps:
  assumes ok: "screen_ok ops ok px mem m" and w: "find_window i (wm_windows m) = Some w" and w': "window_ok (w\<lparr>w_position := (x, y)\<rparr>)"
  shows "\<exists>ev m'. handle_request (MoveWindow i x y) att m mem = Some (ev, m', mem) \<and> screen_ok ops ok px mem m'"
proof (cases "w_visible w")
  case False
  then have "layer mem (w\<lparr>w_position := (x, y)\<rparr>) q = layer mem w q" for q by (simp add: layer_outside)
  then have "screen_ok ops ok px mem (m\<lparr>wm_windows := put_window i (w\<lparr>w_position := (x, y)\<rparr>) (wm_windows m)\<rparr>)"
    using screen_ok_put [OF ok w w', of "wm_dirty_regions m"] ok by (simp add: screen_ok_def)
  then show ?thesis using w False by simp
next
  case True
  let ?w = "w\<lparr>w_position := (x, y)\<rparr>" and ?m = "m\<lparr>wm_windows := put_window i (w\<lparr>w_position := (x, y)\<rparr>) (wm_windows m)\<rparr>"
  have wok: "window_ok w" using window_found [OF w] ok by (simp add: screen_ok_def)
  obtain ds where ds: "mark_dirty (w_rect w) ?m = Some (?m\<lparr>wm_dirty_regions := ds\<rparr>)" "dirty_ok ds"
    "covered (wm_dirty_regions ?m) \<union> pts (w_rect w) \<subseteq> covered ds"
    using mark_dirty_run [of ?m "w_rect w"] wok ok by (auto simp: window_ok_def screen_ok_def)
  obtain ds' where ds': "mark_dirty (w_rect ?w) (?m\<lparr>wm_dirty_regions := ds\<rparr>) = Some (?m\<lparr>wm_dirty_regions := ds'\<rparr>)" "dirty_ok ds'"
    "covered ds \<union> pts (w_rect ?w) \<subseteq> covered ds'"
    using mark_dirty_run [of "?m\<lparr>wm_dirty_regions := ds\<rparr>" "w_rect ?w"] w' ds(2) by (auto simp: window_ok_def)
  have "screen_ok ops ok px mem (?m\<lparr>wm_dirty_regions := ds'\<rparr>)"
    using ds(3) ds'(2,3) w' by (intro screen_ok_put [OF ok w, of ?w ds', simplified] layer_unchanged [of w "covered ds'"]) auto
  then show ?thesis using w True ds(1) ds'(1) by (simp add: Let_def)
qed

lemma destroy_keeps:
  assumes ok: "screen_ok ops ok px mem m" and w: "find_window i (wm_windows m) = Some w"
  shows "\<exists>ev m'. handle_request (DestroyWindow i) att m mem = Some (ev, m', mem) \<and> screen_ok ops ok px mem m'"
proof -
  let ?m = "m\<lparr>wm_windows := remove1 w (wm_windows m)\<rparr>"
  have wok: "window_ok w" "list_all window_ok (remove1 w (wm_windows m))"
    using window_found [OF w] windows_put(2) [OF w] ok by (simp_all add: screen_ok_def)
  have drop: "screen_ok ops ok px mem (?m\<lparr>wm_dirty_regions := ds\<rparr>)" if "dirty_ok ds" "covered (wm_dirty_regions m) \<subseteq> covered ds"
    "\<And>q. q \<notin> covered ds \<Longrightarrow> layer mem w q = id" for ds
    using that wok(2) scene_remove [OF w] by (intro screen_ok_change [OF ok]) simp_all
  show ?thesis
  proof (cases "w_visible w \<and> \<not> rect_is_empty (w_rect w)")
    case True
    obtain ds where ds: "mark_dirty (w_rect w) ?m = Some (?m\<lparr>wm_dirty_regions := ds\<rparr>)" "dirty_ok ds"
      "covered (wm_dirty_regions ?m) \<union> pts (w_rect w) \<subseteq> covered ds"
      using mark_dirty_run [of ?m "w_rect w"] wok ok by (auto simp: window_ok_def screen_ok_def)
    have "screen_ok ops ok px mem (?m\<lparr>wm_dirty_regions := ds\<rparr>)" using ds(2,3) by (intro drop layer_outside) auto
    then show ?thesis using w True ds(1) by (simp add: Let_def)
  next
    case False
    then have "screen_ok ops ok px mem ?m"
      using drop [of "wm_dirty_regions m"] ok layer_outside [of w] by (auto simp: screen_ok_def pts_empty)
    then show ?thesis using w False by (auto simp: Let_def)
  qed
qed

lemma request_keeps:
  assumes ok: "screen_ok ops ok px mem m" and r: "request_ok mem m req"
  shows "\<exists>ev m' mem'. handle_request req att m mem = Some (ev, m', mem') \<and> screen_ok ops ok px mem' m'"
proof (cases req)
  case CreateWindow
  let ?m = "m\<lparr>wm_next_window_id := wm_next_window_id m + 1, wm_windows := wm_windows m @ [new_window (wm_next_window_id m)]\<rparr>"
  have "window_ok (new_window i)" "layer mem (new_window i) q = id" for i q
    by (simp_all add: new_window_def window_ok_def rect_ok_def w_rect_def layer_def fun_eq_iff)
  then have "screen_ok ops ok px mem ?m" using ok by (intro screen_ok_change [OF ok]) (simp_all add: scene_def screen_ok_def)
  then show ?thesis using CreateWindow r by (simp add: inc64_def request_ok_def Let_def)
next
  case (AttachBuffer i a b c)
  then show ?thesis
    using ok screen_ok_put_same [OF ok, of i] by (auto split: option.split)
next
  case (Damage i d)
  then show ?thesis using ok screen_ok_put_same [OF ok, of i] by (auto split: option.split)
next
  case (Commit i)
  show ?thesis
  proof (cases "find_window i (wm_windows m)")
    case None
    then show ?thesis using Commit ok by simp
  next
    case (Some w)
    then show ?thesis using commit_keeps [OF ok Some, where att = att] r by (auto simp: Commit request_ok_def simp del: handle_request.simps)
  qed
next
  case (Fill i d c)
  show ?thesis
  proof (cases "find_window i (wm_windows m)")
    case None
    then show ?thesis using Fill ok by simp
  next
    case (Some w)
    then show ?thesis using fill_keeps [OF ok Some, where att = att and c = c] r by (auto simp: Fill request_ok_def simp del: handle_request.simps)
  qed
next
  case (SetVisible i v)
  show ?thesis
  proof (cases "find_window i (wm_windows m)")
    case None
    then show ?thesis using SetVisible ok by simp
  next
    case (Some w)
    then show ?thesis using visible_keeps [OF ok Some, where att = att and v = v] r by (auto simp: SetVisible request_ok_def simp del: handle_request.simps)
  qed
next
  case (MoveWindow i x y)
  show ?thesis
  proof (cases "find_window i (wm_windows m)")
    case None
    then show ?thesis using MoveWindow ok by simp
  next
    case (Some w)
    then show ?thesis using move_keeps [OF ok Some, where att = att and x = x and y = y] r by (auto simp: MoveWindow request_ok_def simp del: handle_request.simps)
  qed
next
  case (DestroyWindow i)
  show ?thesis
  proof (cases "find_window i (wm_windows m)")
    case None
    then show ?thesis using DestroyWindow ok by simp
  next
    case (Some w)
    then show ?thesis using destroy_keeps [OF ok Some, where att = att] r by (auto simp: DestroyWindow request_ok_def simp del: handle_request.simps)
  qed
qed

text \<open>Requests do not touch the target; only a tick paints.\<close>

lemma mark_dirty_target: "mark_dirty r m = Some m' \<Longrightarrow> wm_target m' = wm_target m"
  by (auto simp: mark_dirty_def split: if_splits bind_splits)

lemma for_in_target:
  "(\<And>x m m'. f x m = Some m' \<Longrightarrow> wm_target m' = wm_target m) \<Longrightarrow> for_in xs f m = Some m' \<Longrightarrow> wm_target m' = wm_target m"
  by (induction xs arbitrary: m) (fastforce split: option.splits)+

lemma mark_damage_target:
  "for_in rs (\<lambda>r m. do { r' \<leftarrow> damage_at origin r; mark_dirty r' m }) m = Some m' \<Longrightarrow> wm_target m' = wm_target m"
  by (erule for_in_target [rotated]) (auto split: bind_splits dest: mark_dirty_target)

lemma request_target: "handle_request req att m mem = Some (ev, m', mem') \<Longrightarrow> wm_target m' = wm_target m"
  by (cases req) (auto simp: Let_def split: option.splits if_splits bind_splits prod.splits dest!: mark_dirty_target mark_damage_target)

section \<open>Ticks\<close>

lemma scene_awaiting: "scene mem (map (\<lambda>w. w\<lparr>w_awaiting_frame := b\<rparr>) ws) q = scene mem ws q"
proof -
  have "layer mem (w\<lparr>w_awaiting_frame := b\<rparr>) q = layer mem w q" for w
    by (auto simp: layer_def source_pixel_def w_rect_def fun_eq_iff split: option.split)
  then show ?thesis by (simp add: scene_def fold_map comp_def)
qed

lemma windows_awaiting: "list_all window_ok (map (\<lambda>w. w\<lparr>w_awaiting_frame := b\<rparr>) ws) = list_all window_ok ws"
  by (simp add: list_all_iff window_ok_def w_rect_def)

context render_target
begin

lemma composite_run:
  assumes "list_all window_ok (wm_windows m)" "dirty_ok (wm_dirty_regions m)" "wm_target m = Some t" "ok t"
  obtains t' where "composite ops mem m = Some (m\<lparr>wm_target := Some t', wm_dirty_regions := []\<rparr>)" "ok t'"
    "t_width ops t' = t_width ops t" "t_height ops t' = t_height ops t"
    "\<And>q. q \<in> area (t_width ops t) (t_height ops t) \<Longrightarrow>
      px t' q = (if q \<in> covered (wm_dirty_regions m) then scene mem (wm_windows m) q else px t q)"
proof (cases "wm_dirty_regions m = []")
  case True
  then show thesis using that [of t] assms(3,4) by (simp add: composite_def)
next
  case False
  have "painted (t_width ops t) (t_height ops t) (covered (wm_dirty_regions m)) (\<lambda>q _. scene mem (wm_windows m) q) t
    (for_in (wm_dirty_regions m) (paint_region ops mem (wm_windows m) (screen_rect ops t)) t)"
    unfolding covered_def screen_rect_def
    using assms by (intro paint_regions_painted) (simp_all add: dirty_ok_def on_screen_def)
  then show thesis using that False assms(3) by (auto simp: painted_def paints_def on_screen_def composite_def)
qed

lemma tick_run:
  assumes "list_all window_ok (wm_windows m)" "dirty_ok (wm_dirty_regions m)" "wm_target m = Some t" "ok t"
    "wm_frame m \<noteq> 0xFFFFFFFFFFFFFFFF"
  obtains t' where "tick ops mem m = Some (map (\<lambda>w. FrameDone (w_id w) (wm_frame m + 1)) (filter w_awaiting_frame (wm_windows m)),
      m\<lparr>wm_target := Some t', wm_dirty_regions := [], wm_frame := wm_frame m + 1,
        wm_windows := map (\<lambda>w. w\<lparr>w_awaiting_frame := False\<rparr>) (wm_windows m)\<rparr>)" "ok t'"
    "t_width ops t' = t_width ops t" "t_height ops t' = t_height ops t"
    "\<And>q. q \<in> area (t_width ops t) (t_height ops t) \<Longrightarrow>
      px t' q = (if q \<in> covered (wm_dirty_regions m) then scene mem (wm_windows m) q else px t q)"
proof -
  obtain t' where t': "composite ops mem m = Some (m\<lparr>wm_target := Some t', wm_dirty_regions := []\<rparr>)" "ok t'"
    "t_width ops t' = t_width ops t" "t_height ops t' = t_height ops t"
    "\<And>q. q \<in> area (t_width ops t) (t_height ops t) \<Longrightarrow>
      px t' q = (if q \<in> covered (wm_dirty_regions m) then scene mem (wm_windows m) q else px t q)"
    using composite_run [OF assms(1-4)] by blast
  then show thesis using that assms(5) by (simp add: tick_def inc64_def)
qed

lemma tick_keeps:
  assumes "screen_ok ops ok px mem m" "tick ops mem m = Some (ev, m')"
  shows "screen_ok ops ok px mem m'"
proof -
  obtain t where t: "list_all window_ok (wm_windows m)" "dirty_ok (wm_dirty_regions m)" "wm_target m = Some t" "ok t"
    "\<And>q. q \<in> area (t_width ops t) (t_height ops t) \<Longrightarrow> q \<notin> covered (wm_dirty_regions m) \<Longrightarrow> px t q = scene mem (wm_windows m) q"
    using assms(1) by (auto simp: screen_ok_def split: option.splits)
  have "wm_frame m \<noteq> 0xFFFFFFFFFFFFFFFF"
  proof
    assume "wm_frame m = 0xFFFFFFFFFFFFFFFF"
    moreover obtain t' where "composite ops mem m = Some (m\<lparr>wm_target := Some t', wm_dirty_regions := []\<rparr>)"
      using composite_run [OF t(1-4)] by blast
    ultimately show False using assms(2) by (simp add: tick_def inc64_def)
  qed
  then show ?thesis
    by (rule tick_run [OF t(1-4), of mem]) (use assms(2) t in \<open>auto simp: screen_ok_def scene_awaiting windows_awaiting\<close>)
qed

lemma start_ok:
  assumes "ok t" "wm_new ops (Some t) = Some m"
  shows "screen_ok ops ok px mem m"
proof -
  have "rect_ok (screen_rect ops t)" "pts (screen_rect ops t) = area (t_width ops t) (t_height ops t)"
    using unsigned_less [of "t_width ops t", where 'a = nat] unsigned_less [of "t_height ops t", where 'a = nat]
    by (auto simp: rect_ok_def pts_def area_def screen_rect_def)
  then obtain t' where t': "t_fill ops t (screen_rect ops t) BACKGROUND_COLOUR = Some t'" "ok t'"
    "t_width ops t' = t_width ops t" "t_height ops t' = t_height ops t"
    "\<And>q. q \<in> area (t_width ops t) (t_height ops t) \<Longrightarrow> px t' q = le_bytes 4 BACKGROUND_COLOUR"
    using fill [OF assms(1), of "screen_rect ops t" BACKGROUND_COLOUR] by auto
  then show ?thesis
    using assms(2) flush [OF t'(2), of "screen_rect ops t"] by (auto simp: wm_new_def screen_ok_def scene_def)
qed

end

section \<open>Reachable states\<close>

text \<open>
  The compositor's runs on a framebuffer. Clients may also write any buffer that no window shows.
\<close>

inductive compositor_reach :: "shared_memory \<Rightarrow> framebuffer window_manager \<Rightarrow> bool" where
  start: "fb_ok t \<Longrightarrow> wm_new framebuffer_target (Some t) = Some m \<Longrightarrow> compositor_reach mem m"
| request: "compositor_reach mem m \<Longrightarrow> request_ok mem m req \<Longrightarrow> handle_request req att m mem = Some (ev, m', mem') \<Longrightarrow> compositor_reach mem' m'"
| client_write: "compositor_reach mem m \<Longrightarrow> shown mem mem' (wm_windows m) \<Longrightarrow> compositor_reach mem' m"
| frame: "compositor_reach mem m \<Longrightarrow> tick framebuffer_target mem m = Some (ev, m') \<Longrightarrow> compositor_reach mem m'"

lemma reach_screen_ok: "compositor_reach mem m \<Longrightarrow> screen_ok framebuffer_target fb_ok fb_px mem m"
proof (induction rule: compositor_reach.induct)
  case (start t m mem)
  then show ?case by (rule fbt.start_ok)
next
  case (request mem m req att ev m' mem')
  then show ?case using request_keeps [OF request.IH request.hyps(2), of att] by auto
next
  case (client_write mem m mem')
  then show ?case using scene_shown by (intro screen_ok_change [OF client_write.IH]) (auto simp: screen_ok_def)
next
  case (frame mem m ev m')
  then show ?case using fbt.tick_keeps by blast
qed

lemma reachE:
  assumes "compositor_reach mem m"
  obtains t where "list_all window_ok (wm_windows m)" "dirty_ok (wm_dirty_regions m)" "wm_target m = Some t" "fb_ok t"
    "\<And>q. q \<in> area (fb_width t) (fb_height t) \<Longrightarrow> q \<notin> covered (wm_dirty_regions m) \<Longrightarrow> fb_px t q = scene mem (wm_windows m) q"
  using reach_screen_ok [OF assms] that by (auto simp: screen_ok_def framebuffer_target_def split: option.splits)



section \<open>A run\<close>

text \<open>A screen of two pixels, a client buffer that covers it and one that covers the first pixel only.\<close>

definition demo_memory :: shared_memory where
  "demo_memory k = (if k = 0 then [10, 20, 30, 128, 1, 2, 3, 255] else [9, 9, 9, 255])"

definition demo_wide :: attachment where
  "demo_wide = \<lparr>at_id = 7, at_data = 0, at_len = 8, at_width = 2, at_height = 1\<rparr>"

definition demo_narrow :: attachment where
  "demo_narrow = \<lparr>at_id = 8, at_data = 1, at_len = 4, at_width = 1, at_height = 1\<rparr>"

definition demo_framebuffer :: framebuffer where
  "demo_framebuffer = \<lparr>fb_pixels = replicate 8 0, fb_width = 2, fb_height = 1, fb_stride = 8, fb_flushed = []\<rparr>"

definition demo_screen :: rect where
  "demo_screen = \<lparr>rx = 0, ry = 0, rwidth = 2, rheight = 1\<rparr>"

definition demo_start :: "framebuffer window_manager" where
  "demo_start = \<lparr>wm_windows = [], wm_dirty_regions = [],
     wm_target = Some \<lparr>fb_pixels = [64, 52, 46, 255, 64, 52, 46, 255], fb_width = 2, fb_height = 1, fb_stride = 8, fb_flushed = [demo_screen]\<rparr>,
     wm_next_window_id = 1, wm_frame = 0\<rparr>"

text \<open>After a window is created, given the wide buffer, made visible and committed.\<close>

definition demo_committed :: "framebuffer window_manager" where
  "demo_committed = demo_start\<lparr>wm_next_window_id := 2, wm_dirty_regions := [demo_screen],
     wm_windows := [\<lparr>w_id = 1, w_visible = True, w_position = (0, 0), w_size = (2, 1), w_pending = None, w_latched = Some demo_wide,
       w_pending_damage = [], w_awaiting_frame = True\<rparr>]\<rparr>"

definition demo_window :: window where
  "demo_window = \<lparr>w_id = 1, w_visible = True, w_position = (0, 0), w_size = (2, 1), w_pending = None, w_latched = Some demo_wide,
     w_pending_damage = [], w_awaiting_frame = False\<rparr>"

text \<open>After the next tick.\<close>

definition demo_shown :: "framebuffer window_manager" where
  "demo_shown = demo_committed\<lparr>wm_windows := [demo_window], wm_dirty_regions := [], wm_frame := 1,
     wm_target := Some \<lparr>fb_pixels = [36, 35, 37, 255, 1, 2, 3, 255], fb_width = 2, fb_height = 1, fb_stride = 8,
       fb_flushed = [demo_screen, demo_screen]\<rparr>\<rparr>"

lemma reach_request:
  "compositor_reach mem m \<Longrightarrow> handle_request req att m mem = Some (ev, m', mem') \<Longrightarrow> request_ok mem m req \<Longrightarrow> compositor_reach mem' m'"
  by (rule compositor_reach.request)

lemma demo_start_reach: "compositor_reach demo_memory demo_start"
proof (rule compositor_reach.start)
  show "fb_ok demo_framebuffer" by (simp add: fb_ok_def demo_framebuffer_def)
  show "wm_new framebuffer_target (Some demo_framebuffer) = Some demo_start" by code_simp
qed

lemmas demo_defs = demo_start_def demo_committed_def demo_wide_def demo_screen_def

lemma demo_reach: "compositor_reach demo_memory demo_committed"
proof -
  let ?w = "new_window 1"
  let ?m1 = "demo_start\<lparr>wm_next_window_id := 2, wm_windows := [?w]\<rparr>"
  let ?m2 = "demo_start\<lparr>wm_next_window_id := 2, wm_windows := [?w\<lparr>w_pending := Some demo_wide\<rparr>]\<rparr>"
  let ?m3 = "demo_start\<lparr>wm_next_window_id := 2, wm_windows := [?w\<lparr>w_pending := Some demo_wide, w_visible := True\<rparr>]\<rparr>"
  have "handle_request CreateWindow None demo_start demo_memory = Some ([WindowCreated 1], ?m1, demo_memory)"
    by (simp add: demo_defs inc64_def Let_def)
  then have "compositor_reach demo_memory ?m1"
    by (rule compositor_reach.request [OF demo_start_reach, rotated]) (simp add: request_ok_def demo_defs)
  moreover have "handle_request (AttachBuffer 1 2 1 1) (Some demo_wide) ?m1 demo_memory = Some ([], ?m2, demo_memory)"
    by (simp add: find_window_def new_window_def released_def)
  ultimately have "compositor_reach demo_memory ?m2" by (rule reach_request) (simp add: request_ok_def)
  moreover have "handle_request (SetVisible 1 True) None ?m2 demo_memory = Some ([], ?m3, demo_memory)"
    by (simp add: find_window_def new_window_def mark_dirty_def rect_is_empty_def w_rect_def)
  ultimately have "compositor_reach demo_memory ?m3" by (rule reach_request) (simp add: request_ok_def)
  moreover have "handle_request (Commit 1) None ?m3 demo_memory = Some ([], demo_committed, demo_memory)"
    by (simp add: find_window_def new_window_def latch_def released_def mark_dirty_def rect_is_empty_def w_rect_def demo_defs)
  moreover have "request_ok demo_memory ?m3 (Commit 1)"
    by (simp add: request_ok_def find_window_def new_window_def commit_ok_def latch_def window_ok_def w_rect_def rect_ok_def pts_def demo_defs)
  ultimately show ?thesis by (rule reach_request)
qed




end
