(* ===== verification/Scheme_Protocol.thy ===== *)
theory Scheme_Protocol
  imports Frame Utf8 Abi
begin

text \<open>
  The wire protocol between the kernel and a userspace scheme provider,
  \<^verbatim>\<open>panda-abi/src/scheme_protocol.rs\<close>. Strings are their UTF-8 bytes. A slice
  index that is out of bounds would panic; the length checks of the source precede
  each one, and the model reads with the checked accessors of \<^verbatim>\<open>Frame\<close>.
\<close>

section \<open>Messages\<close>

definition MSG_OPEN :: u8 where "MSG_OPEN = 1"
definition MSG_READDIR :: u8 where "MSG_READDIR = 2"
definition MSG_READ :: u8 where "MSG_READ = 3"
definition MSG_WRITE :: u8 where "MSG_WRITE = 4"
definition MSG_CLOSE :: u8 where "MSG_CLOSE = 5"
definition MSG_CONNECT :: u8 where "MSG_CONNECT = 6"

definition STATUS_OK :: u8 where "STATUS_OK = 0"
definition STATUS_ERR :: u8 where "STATUS_ERR = 1"

definition HEADER_LEN :: nat where "HEADER_LEN = 9"
definition RESP_HEADER_LEN :: nat where "RESP_HEADER_LEN = HEADER_LEN + 1"
definition MAX_TRANSFER_SIZE :: nat where "MAX_TRANSFER_SIZE = MAX_MESSAGE_SIZE - 96"
definition DIRENT_NAME_MAX :: nat where "DIRENT_NAME_MAX = 255"

lemmas scheme_consts = MSG_OPEN_def MSG_READDIR_def MSG_READ_def MSG_WRITE_def MSG_CLOSE_def
  MSG_CONNECT_def STATUS_OK_def STATUS_ERR_def HEADER_LEN_def RESP_HEADER_LEN_def DIRENT_NAME_MAX_def

definition error_to_u8 :: "error_code \<Rightarrow> u8" where
  "error_to_u8 e = ucast (error_as_u32 e)"

definition u8_to_error :: "u8 \<Rightarrow> error_code" where
  "u8_to_error b =
     (if b = 1 then EcNotFound else if b = 2 then EcInvalidOffset else if b = 3 then EcNotReadable
      else if b = 4 then EcNotWritable else if b = 5 then EcNotSeekable else if b = 6 then EcNotSupported
      else if b = 7 then EcPermissionDenied else if b = 9 then EcWouldBlock
      else if b = 10 then EcInvalidArgument else if b = 11 then EcProtocol else if b = 12 then EcInvalidHandle
      else if b = 13 then EcTooManyHandles else if b = 14 then EcChannelClosed
      else if b = 15 then EcMessageTooLarge else if b = 16 then EcBufferTooSmall
      else if b = 17 then EcAlreadyExists else if b = 18 then EcNoSpace else if b = 19 then EcNotEmpty
      else if b = 20 then EcIsDirectory else if b = 21 then EcNotDirectory else if b = 22 then EcBusy
      else EcIoError)"

datatype scheme_request =
    ReqOpen u64 bytes
  | ReqReaddir u64 bytes
  | ReqRead u64 u64 u32
  | ReqWrite u64 u64 bytes
  | ReqClose u64 u64
  | ReqConnect u64 bytes

primrec request_id :: "scheme_request \<Rightarrow> u64" where
  "request_id (ReqOpen rid path) = rid"
| "request_id (ReqReaddir rid path) = rid"
| "request_id (ReqRead rid res len) = rid"
| "request_id (ReqWrite rid res data) = rid"
| "request_id (ReqClose rid res) = rid"
| "request_id (ReqConnect rid path) = rid"

section \<open>Requests\<close>

definition encode_path :: "u8 \<Rightarrow> u64 \<Rightarrow> bytes \<Rightarrow> bytes \<Rightarrow> nat option \<times> bytes" where
  "encode_path kind rid path buf =
     (let total = HEADER_LEN + 2 + length path in
      if total > length buf \<or> length path > 65535 then (None, buf)
      else (Some total, put_all [(0, [kind]), (1, le_bytes 8 rid), (9, le_bytes 2 (of_nat (length path) :: u16)),
        (11, path)] buf))"

fun scheme_request_encode :: "scheme_request \<Rightarrow> bytes \<Rightarrow> nat option \<times> bytes" where
  "scheme_request_encode (ReqOpen rid path) buf = encode_path MSG_OPEN rid path buf"
| "scheme_request_encode (ReqReaddir rid path) buf = encode_path MSG_READDIR rid path buf"
| "scheme_request_encode (ReqConnect rid path) buf = encode_path MSG_CONNECT rid path buf"
| "scheme_request_encode (ReqRead rid res len) buf =
     sized (HEADER_LEN + 8 + 4) (put_all [(0, [MSG_READ]), (1, le_bytes 8 rid), (9, le_bytes 8 res),
       (17, le_bytes 4 len)]) buf"
| "scheme_request_encode (ReqWrite rid res data) buf =
     sized (HEADER_LEN + 8 + 4 + length data) (put_all [(0, [MSG_WRITE]), (1, le_bytes 8 rid), (9, le_bytes 8 res),
       (17, le_bytes 4 (of_nat (length data) :: u32)), (21, data)]) buf"
| "scheme_request_encode (ReqClose rid res) buf =
     sized (HEADER_LEN + 8) (put_all [(0, [MSG_CLOSE]), (1, le_bytes 8 rid), (9, le_bytes 8 res)]) buf"

definition scheme_request_decode :: "bytes \<Rightarrow> scheme_request option" where
  "scheme_request_decode buf =
     (if length buf < HEADER_LEN then None
      else do {
        kind \<leftarrow> u8_at buf 0;
        rid \<leftarrow> u64_at buf 1;
        if kind = MSG_OPEN \<or> kind = MSG_READDIR \<or> kind = MSG_CONNECT then
          if length buf < 11 then None
          else do {
            path_len \<leftarrow> u16_at buf 9;
            path \<leftarrow> get_range buf 11 (11 + unat path_len);
            if \<not> utf8_valid path then None
            else Some (if kind = MSG_OPEN then ReqOpen rid path
                       else if kind = MSG_READDIR then ReqReaddir rid path else ReqConnect rid path) }
        else if kind = MSG_READ then
          if length buf < 21 then None
          else do { res \<leftarrow> u64_at buf 9; len \<leftarrow> u32_at buf 17; Some (ReqRead rid res len) }
        else if kind = MSG_WRITE then
          if length buf < 21 then None
          else do {
            res \<leftarrow> u64_at buf 9;
            data_len \<leftarrow> u32_at buf 17;
            data \<leftarrow> get_range buf 21 (21 + unat data_len);
            Some (ReqWrite rid res data) }
        else if kind = MSG_CLOSE then
          if length buf < 17 then None
          else do { res \<leftarrow> u64_at buf 9; Some (ReqClose rid res) }
        else None })"

section \<open>Responses\<close>

record readdir_entry =
  re_name :: bytes
  re_is_dir :: bool

datatype scheme_response =
    OpenOk u64 u64
  | OpenErr u64 error_code
  | ReaddirOk u64 bytes
  | ReaddirErr u64 error_code
  | ReadOk u64 bytes
  | ReadErr u64 error_code
  | WriteOk u64 u32
  | WriteErr u64 error_code
  | CloseOk u64
  | CloseErr u64 error_code
  | ConnectOk u64
  | ConnectErr u64 error_code

primrec response_id :: "scheme_response \<Rightarrow> u64" where
  "response_id (OpenOk rid res) = rid"
| "response_id (OpenErr rid e) = rid"
| "response_id (ReaddirOk rid raw) = rid"
| "response_id (ReaddirErr rid e) = rid"
| "response_id (ReadOk rid data) = rid"
| "response_id (ReadErr rid e) = rid"
| "response_id (WriteOk rid written) = rid"
| "response_id (WriteErr rid e) = rid"
| "response_id (CloseOk rid) = rid"
| "response_id (CloseErr rid e) = rid"
| "response_id (ConnectOk rid) = rid"
| "response_id (ConnectErr rid e) = rid"

definition resp_header :: "u8 \<Rightarrow> u64 \<Rightarrow> u8 \<Rightarrow> bytes \<Rightarrow> bytes option" where
  "resp_header kind rid status buf =
     (if length buf < RESP_HEADER_LEN then None
      else Some (put_all [(0, [kind]), (1, le_bytes 8 rid), (9, [status])] buf))"

text \<open>The common shape: the total is checked, the header is written, then the payload.\<close>

definition encode_resp ::
  "nat \<Rightarrow> u8 \<Rightarrow> u64 \<Rightarrow> u8 \<Rightarrow> (nat \<times> bytes) list \<Rightarrow> bytes \<Rightarrow> nat option \<times> bytes" where
  "encode_resp total_len kind rid status payload buf =
     (if total_len > length buf then (None, buf)
      else case resp_header kind rid status buf of
        None \<Rightarrow> (None, buf)
      | Some b \<Rightarrow> (Some total_len, put_all payload b))"

definition encode_open_ok :: "u64 \<Rightarrow> u64 \<Rightarrow> bytes \<Rightarrow> nat option \<times> bytes" where
  "encode_open_ok rid res buf =
     encode_resp (RESP_HEADER_LEN + 8) MSG_OPEN rid STATUS_OK [(10, le_bytes 8 res)] buf"

definition encode_err :: "u8 \<Rightarrow> u64 \<Rightarrow> error_code \<Rightarrow> bytes \<Rightarrow> nat option \<times> bytes" where
  "encode_err kind rid e buf =
     encode_resp (RESP_HEADER_LEN + 1) kind rid STATUS_ERR [(10, [error_to_u8 e])] buf"

definition encode_read_ok :: "u64 \<Rightarrow> bytes \<Rightarrow> bytes \<Rightarrow> nat option \<times> bytes" where
  "encode_read_ok rid data buf =
     encode_resp (RESP_HEADER_LEN + 4 + length data) MSG_READ rid STATUS_OK
       [(10, le_bytes 4 (of_nat (length data) :: u32)), (14, data)] buf"

definition encode_write_ok :: "u64 \<Rightarrow> u32 \<Rightarrow> bytes \<Rightarrow> nat option \<times> bytes" where
  "encode_write_ok rid written buf =
     encode_resp (RESP_HEADER_LEN + 4) MSG_WRITE rid STATUS_OK [(10, le_bytes 4 written)] buf"

definition encode_close_ok :: "u64 \<Rightarrow> bytes \<Rightarrow> nat option \<times> bytes" where
  "encode_close_ok rid buf = encode_resp RESP_HEADER_LEN MSG_CLOSE rid STATUS_OK [] buf"

definition encode_connect_ok :: "u64 \<Rightarrow> bytes \<Rightarrow> nat option \<times> bytes" where
  "encode_connect_ok rid buf = encode_resp RESP_HEADER_LEN MSG_CONNECT rid STATUS_OK [] buf"

text \<open>The entry loop: offset and count so far, the buffer; \<^verbatim>\<open>None\<close> is the early return.\<close>

fun encode_entries ::
  "readdir_entry list \<Rightarrow> nat \<Rightarrow> u16 \<Rightarrow> bytes \<Rightarrow> (nat \<times> u16) option \<times> bytes" where
  "encode_entries [] off count buf = (Some (off, count), buf)"
| "encode_entries (e # es) off count buf =
     (if length (re_name e) > DIRENT_NAME_MAX then (None, buf)
      else let entry_len = 2 + length (re_name e) in
        if off + entry_len > length buf then (None, buf)
        else encode_entries es (off + entry_len) (count + 1)
          (put_all [(off, [of_nat (length (re_name e))]), (off + 1, [of_bool (re_is_dir e)]), (off + 2, re_name e)] buf))"

definition encode_readdir_ok :: "u64 \<Rightarrow> readdir_entry list \<Rightarrow> bytes \<Rightarrow> nat option \<times> bytes" where
  "encode_readdir_ok rid entries buf =
     (case resp_header MSG_READDIR rid STATUS_OK buf of
        None \<Rightarrow> (None, buf)
      | Some b \<Rightarrow>
          let off = RESP_HEADER_LEN + 2 in
          if off > length b then (None, b)
          else case encode_entries entries off 0 b of
            (None, b') \<Rightarrow> (None, b')
          | (Some (off', count), b') \<Rightarrow> (Some off', copy_at RESP_HEADER_LEN (le_bytes 2 count) b'))"

definition scheme_response_decode :: "bytes \<Rightarrow> scheme_response option" where
  "scheme_response_decode buf =
     (if length buf < RESP_HEADER_LEN then None
      else do {
        kind \<leftarrow> u8_at buf 0;
        rid \<leftarrow> u64_at buf 1;
        status \<leftarrow> u8_at buf 9;
        if status = STATUS_ERR then do {
          b \<leftarrow> u8_at buf 10;
          let e = u8_to_error b in
          if kind = MSG_OPEN then Some (OpenErr rid e)
          else if kind = MSG_READDIR then Some (ReaddirErr rid e)
          else if kind = MSG_READ then Some (ReadErr rid e)
          else if kind = MSG_WRITE then Some (WriteErr rid e)
          else if kind = MSG_CLOSE then Some (CloseErr rid e)
          else if kind = MSG_CONNECT then Some (ConnectErr rid e)
          else None }
        else if status \<noteq> STATUS_OK then None
        else if kind = MSG_OPEN then do { res \<leftarrow> u64_at buf 10; Some (OpenOk rid res) }
        else if kind = MSG_READDIR then do { raw \<leftarrow> get_range buf RESP_HEADER_LEN (length buf); Some (ReaddirOk rid raw) }
        else if kind = MSG_READ then do {
          data_len \<leftarrow> u32_at buf 10;
          data \<leftarrow> get_range buf 14 (14 + unat data_len);
          Some (ReadOk rid data) }
        else if kind = MSG_WRITE then do { written \<leftarrow> u32_at buf 10; Some (WriteOk rid written) }
        else if kind = MSG_CLOSE then Some (CloseOk rid)
        else if kind = MSG_CONNECT then Some (ConnectOk rid)
        else None })"

section \<open>The entry iterator\<close>

record entries_iter =
  it_remaining :: u16
  it_buf :: bytes
  it_off :: nat

definition entries_iter_new :: "bytes \<Rightarrow> entries_iter option" where
  "entries_iter_new raw = do {
     count \<leftarrow> u16_at raw 0;
     Some \<lparr>it_remaining = count, it_buf = raw, it_off = 2\<rparr> }"

definition entries_iter_next :: "entries_iter \<Rightarrow> (readdir_entry \<times> entries_iter) option" where
  "entries_iter_next it =
     (if it_remaining it = 0 then None
      else do {
        name_len \<leftarrow> u8_at (it_buf it) (it_off it);
        is_dir \<leftarrow> u8_at (it_buf it) (it_off it + 1);
        let name_start = it_off it + 2 in do {
        name \<leftarrow> get_range (it_buf it) name_start (name_start + unat name_len);
        if \<not> utf8_valid name then None
        else Some (\<lparr>re_name = name, re_is_dir = (is_dir \<noteq> 0)\<rparr>,
          it\<lparr>it_off := name_start + unat name_len, it_remaining := it_remaining it - 1\<rparr>) } })"

lemma next_remaining:
  "entries_iter_next it = Some (e, it') \<Longrightarrow> it_remaining it \<noteq> 0 \<and> it_remaining it' = it_remaining it - 1"
  by (auto simp: entries_iter_next_def Let_def bind_eq_Some_conv split: if_splits)

lemma next_decreases:
  assumes "entries_iter_next it = Some (e, it')"
  shows "unat (it_remaining it') < unat (it_remaining it)"
  using next_remaining [OF assms] by (simp add: unat_minus_one unat_gt_0)

text \<open>Collecting the iterator.\<close>

function iter_entries :: "entries_iter \<Rightarrow> readdir_entry list" where
  "iter_entries it = (case entries_iter_next it of None \<Rightarrow> [] | Some (e, it') \<Rightarrow> e # iter_entries it')"
  by pat_completeness auto

termination
  by (relation "measure (\<lambda>it. unat (it_remaining it))") (auto dest: next_decreases)

declare iter_entries.simps [simp del]

section \<open>Request frames\<close>

fun scheme_request_fields :: "scheme_request \<Rightarrow> (nat \<times> bytes) list" where
  "scheme_request_fields (ReqOpen rid path) =
     [(0, [1]), (1, le_bytes 8 rid), (9, le_bytes 2 (of_nat (length path) :: u16)), (11, path)]"
| "scheme_request_fields (ReqReaddir rid path) =
     [(0, [2]), (1, le_bytes 8 rid), (9, le_bytes 2 (of_nat (length path) :: u16)), (11, path)]"
| "scheme_request_fields (ReqRead rid res len) =
     [(0, [3]), (1, le_bytes 8 rid), (9, le_bytes 8 res), (17, le_bytes 4 len)]"
| "scheme_request_fields (ReqWrite rid res data) =
     [(0, [4]), (1, le_bytes 8 rid), (9, le_bytes 8 res), (17, le_bytes 4 (of_nat (length data) :: u32)), (21, data)]"
| "scheme_request_fields (ReqClose rid res) = [(0, [5]), (1, le_bytes 8 rid), (9, le_bytes 8 res)]"
| "scheme_request_fields (ReqConnect rid path) =
     [(0, [6]), (1, le_bytes 8 rid), (9, le_bytes 2 (of_nat (length path) :: u16)), (11, path)]"

definition scheme_request_frame :: "scheme_request \<Rightarrow> bytes" where
  "scheme_request_frame r = concat (map snd (scheme_request_fields r))"

text \<open>Paths are UTF-8 and have a 16-bit length, data a 32-bit length.\<close>

fun wf_request :: "scheme_request \<Rightarrow> bool" where
  "wf_request (ReqOpen rid path) \<longleftrightarrow> utf8_valid path \<and> length path < 2 ^ 16"
| "wf_request (ReqReaddir rid path) \<longleftrightarrow> utf8_valid path \<and> length path < 2 ^ 16"
| "wf_request (ReqConnect rid path) \<longleftrightarrow> utf8_valid path \<and> length path < 2 ^ 16"
| "wf_request (ReqWrite rid res data) \<longleftrightarrow> length data < 2 ^ 32"
| "wf_request _ \<longleftrightarrow> True"

lemma scheme_request_contiguous: "contiguous 0 (scheme_request_fields r)"
  by (cases r) simp_all

lemma scheme_request_encode_fields:
  "wf_request r \<Longrightarrow>
   scheme_request_encode r buf = sized (length (scheme_request_frame r)) (put_all (scheme_request_fields r)) buf"
  by (cases r) (auto simp: scheme_request_frame_def encode_path_def sized_def scheme_consts Let_def)

lemma scheme_request_decode_frame:
  "wf_request r \<Longrightarrow> scheme_request_decode (scheme_request_frame r @ rest) = Some r"
  by (cases r) (simp_all add: scheme_request_frame_def scheme_request_decode_def scheme_consts frame_simps)

lemma scheme_request_decode_tags:
  assumes "scheme_request_decode bs = Some r"
  obtains tag rid where "u8_at bs 0 = Some tag" "u64_at bs 1 = Some rid" "tag \<in> {1, 2, 3, 4, 5, 6}"
  using assms by (auto simp: scheme_request_decode_def scheme_consts bind_eq_Some_conv split: if_splits)

lemma scheme_request_decode_mono:
  assumes "scheme_request_decode bs = Some r"
  shows "scheme_request_decode (bs @ rest) = Some r" and "length (scheme_request_frame r) \<le> length bs"
proof -
  obtain tag rid where t: "u8_at bs 0 = Some tag" "u64_at bs 1 = Some rid" "tag \<in> {1, 2, 3, 4, 5, 6}"
    using assms by (rule scheme_request_decode_tags)
  note t' = at_mono(1) [OF t(1), of rest] at_mono(4) [OF t(2), of rest]
  have r: "get_range bs i j = Some v \<Longrightarrow> length v = j - i \<and> i \<le> j \<and> j \<le> length bs" for i j v by auto
  have "scheme_request_decode (bs @ rest) = Some r \<and> length (scheme_request_frame r) \<le> length bs"
    using t(3)
    by (elim insertE emptyE; use assms t(1,2) t' in
      \<open>force simp: scheme_request_decode_def scheme_consts bind_eq_Some_conv at_mono get_range_mono
         scheme_request_frame_def simp del: get_range_eq_Some dest: at_bound r split: if_splits\<close>)
  then show "scheme_request_decode (bs @ rest) = Some r" "length (scheme_request_frame r) \<le> length bs"
    by blast+
qed

interpretation sreq: frame_codec scheme_request_encode scheme_request_decode scheme_request_frame wf_request
proof
  fix x :: scheme_request and buf bs rest :: bytes
  show "scheme_request_encode x buf = (if length (scheme_request_frame x) \<le> length buf
       then (Some (length (scheme_request_frame x)), scheme_request_frame x @ drop (length (scheme_request_frame x)) buf)
       else (None, buf))" if "wf_request x"
    using that sized_fields [OF scheme_request_contiguous, of _ x buf]
    by (simp add: scheme_request_encode_fields scheme_request_frame_def)
  show "scheme_request_decode (scheme_request_frame x @ rest) = Some x" if "wf_request x"
    using that by (rule scheme_request_decode_frame)
  show "length (scheme_request_frame x) \<le> length bs" if "scheme_request_decode bs = Some x"
    using that by (rule scheme_request_decode_mono)
  show "scheme_request_decode (bs @ rest) = Some x" if "scheme_request_decode bs = Some x"
    using that by (rule scheme_request_decode_mono)
qed

section \<open>Response frames\<close>

lemma encode_resp_sized:
  assumes "contiguous 10 payload" "n = 10 + length (concat (map snd payload))"
  shows "encode_resp n kind rid status payload buf =
    (if n \<le> length buf
     then (Some n, (kind # le_bytes 8 rid @ status # concat (map snd payload)) @ drop n buf) else (None, buf))"
proof -
  let ?h = "[(0, [kind]), (1, le_bytes 8 rid), (9, [status])]"
  have "contiguous 0 (?h @ payload)" using assms(1) by simp
  from put_fields [OF this, of buf] show ?thesis
    using assms(2) by (auto simp: encode_resp_def resp_header_def RESP_HEADER_LEN_def HEADER_LEN_def put_all_append)
qed

lemma encode_resp_decodes:
  assumes "contiguous 10 payload" "n = 10 + length (concat (map snd payload))"
    and "scheme_response_decode (kind # le_bytes 8 rid @ status # concat (map snd payload)) = Some response"
  shows "case encode_resp n kind rid status payload buf of
      (Some n, buf') \<Rightarrow> scheme_response_decode (take n buf') = Some response
    | (None, buf') \<Rightarrow> buf' = buf"
proof -
  let ?f = "kind # le_bytes 8 rid @ status # concat (map snd payload)"
  have "n = length ?f" using assms(2) by simp
  then have "take n (?f @ drop n buf) = ?f" by (rule take_frame)
  then show ?thesis
    using assms(3) unfolding encode_resp_sized [OF assms(1,2)] by (simp del: take_append)
qed

lemma u8_to_error_to_u8: "u8_to_error (error_to_u8 e) = (if e = EcOk then EcIoError else e)"
  by (cases e) (simp_all add: u8_to_error_def error_to_u8_def)

definition entry_bytes :: "readdir_entry \<Rightarrow> bytes" where
  "entry_bytes e = of_nat (length (re_name e)) # of_bool (re_is_dir e) # re_name e"

lemma put_entry:
  assumes "off + (2 + length (re_name e)) \<le> length buf"
  shows "put_all [(off, [of_nat (length (re_name e))]), (off + 1, [of_bool (re_is_dir e)]), (off + 2, re_name e)] buf
    = take off buf @ entry_bytes e @ drop (off + length (entry_bytes e)) buf"
proof -
  let ?f = "[(off, [of_nat (length (re_name e))]), (off + 1, [of_bool (re_is_dir e)]), (off + 2, re_name e)]"
  have "contiguous off ?f" by simp
  from put_contiguous [OF this, of "take off buf" "drop off buf"] show ?thesis
    using assms by (simp add: entry_bytes_def add.commute)
qed

lemma encode_entries_result:
  assumes "encode_entries es off c buf = (Some (off', c'), buf')" "off \<le> length buf"
  shows "buf' = take off buf @ concat (map entry_bytes es) @ drop off' buf
    \<and> off' = off + length (concat (map entry_bytes es)) \<and> c' = c + of_nat (length es)
    \<and> off' \<le> length buf \<and> list_all (\<lambda>e. length (re_name e) \<le> 255) es"
  using assms
proof (induction es off c buf rule: encode_entries.induct)
  case (2 e es off c buf)
  let ?b = "take off buf @ entry_bytes e @ drop (off + length (entry_bytes e)) buf"
  have le: "length (re_name e) \<le> 255" "off + (2 + length (re_name e)) \<le> length buf"
    using 2(2) by (auto simp: DIRENT_NAME_MAX_def Let_def split: if_splits)
  have step: "encode_entries es (off + length (entry_bytes e)) (c + 1) ?b = (Some (off', c'), buf')"
    using 2(2) le unfolding put_entry [OF le(2), symmetric]
    by (simp add: DIRENT_NAME_MAX_def Let_def entry_bytes_def)
  have len: "length ?b = length buf" and l: "length (entry_bytes e) = 2 + length (re_name e)"
    using le(2) by (simp_all add: entry_bytes_def)
  have IH: "buf' = take (off + length (entry_bytes e)) ?b @ concat (map entry_bytes es) @ drop off' ?b
    \<and> off' = off + length (entry_bytes e) + length (concat (map entry_bytes es)) \<and> c' = c + 1 + of_nat (length es)
    \<and> off' \<le> length ?b \<and> list_all (\<lambda>e. length (re_name e) \<le> 255) es"
    using 2(1) le step len l put_entry [OF le(2)] by (simp add: DIRENT_NAME_MAX_def not_less)
  have "take (off + length (entry_bytes e)) ?b = take off buf @ entry_bytes e"
    "drop off' ?b = drop off' buf"
    using IH le(2) l by (simp_all add: min_def ac_simps)
  then show ?case using IH len le(1) by (simp add: add.assoc add.commute)
qed auto

lemma iter_entries_frame:
  assumes "list_all (\<lambda>e. utf8_valid (re_name e) \<and> length (re_name e) \<le> 255) es" "length es < 2 ^ 16"
  shows "iter_entries \<lparr>it_remaining = of_nat (length es), it_buf = p @ concat (map entry_bytes es) @ q,
    it_off = length p\<rparr> = es"
  using assms
proof (induction es arbitrary: p)
  case Nil
  then show ?case by (subst iter_entries.simps) (simp add: entries_iter_next_def)
next
  case (Cons e es)
  let ?it = "\<lparr>it_remaining = of_nat (length (e # es)), it_buf = p @ concat (map entry_bytes (e # es)) @ q,
    it_off = length p\<rparr>"
  have n: "(of_nat (length (e # es)) :: u16) \<noteq> 0"
    using Cons.prems(2) by (simp add: word_unat_eq_iff del: of_nat_Suc)
  have b: "it_buf ?it = p @ (of_nat (length (re_name e)) # of_bool (re_is_dir e) # re_name e @ concat (map entry_bytes es) @ q)"
    by (simp add: entry_bytes_def)
  have r: "u8_at (it_buf ?it) (length p) = Some (of_nat (length (re_name e)))"
    "u8_at (it_buf ?it) (length p + 1) = Some (of_bool (re_is_dir e))"
    unfolding b by (simp_all add: at_skip)
  have u: "unat (of_nat (length (re_name e)) :: u8) = length (re_name e)"
    using Cons.prems(1) by simp
  have g: "get_range (it_buf ?it) (length p + 2) (length p + 2 + length (re_name e)) = Some (re_name e)"
    unfolding b by (simp add: get_range_def sub_slice_def)
  have nx: "entries_iter_next ?it = Some (e,
      \<lparr>it_remaining = of_nat (length es), it_buf = (p @ entry_bytes e) @ concat (map entry_bytes es) @ q,
       it_off = length (p @ entry_bytes e)\<rparr>)"
    using n r u g Cons.prems(1)
    by (simp add: entries_iter_next_def Let_def entry_bytes_def del: get_range_eq_Some)
  show ?case
    using Cons.IH [of "p @ entry_bytes e"] Cons.prems
    by (subst iter_entries.simps) (simp only: nx option.case prod.case, simp)
qed

section \<open>Properties\<close>

text \<open>Requests to a scheme provider survive the wire. A request whose paths are valid UTF-8 of at most
  65535 bytes is encoded exactly when it fits the buffer, the frame decodes to the same
  request, bytes behind the frame are ignored and not overwritten, and no proper prefix of the frame is accepted.\<close>

theorem scheme_request_round_trip:
  assumes "wf_request r"
  shows "case scheme_request_encode r buf of
      (Some n, buf') \<Rightarrow> scheme_request_decode (take n buf') = Some r \<and> scheme_request_decode (take n buf' @ rest) = Some r
        \<and> length buf' = length buf \<and> drop n buf' = drop n buf \<and> (\<forall>i<n. scheme_request_decode (take i buf') = None)
    | (None, buf') \<Rightarrow> buf' = buf \<and> length buf < length (scheme_request_frame r)"
  using sreq.enc_frame [OF assms, of buf] sreq.dec_frame [OF assms, of "[]"] sreq.dec_frame [OF assms, of rest]
    sreq.truncated_rejected [OF assms] by auto

theorem scheme_request_round_trip_witness:
  "case scheme_request_encode (ReqOpen 7 [0x2F, 0x61]) (replicate 20 0) of
      (Some n, buf') \<Rightarrow> scheme_request_decode (take n buf') = Some (ReqOpen 7 [0x2F, 0x61])
    | (None, buf') \<Rightarrow> False"
proof -
  have "wf_request (ReqOpen 7 [0x2F, 0x61])" by (simp, code_simp)
  from scheme_request_round_trip [OF this, of "replicate 20 0" "[]"] show ?thesis
    by (simp add: encode_path_def scheme_consts)
qed



text \<open>A directory listing survives the wire: the entries a provider encodes are the ones the kernel's
  iterator yields from the decoded response, in order and completely.\<close>

theorem readdir_round_trip:
  assumes "encode_readdir_ok rid es buf = (Some n, buf')"
    and "list_all (\<lambda>e. utf8_valid (re_name e)) es" "length es < 2 ^ 16"
  shows "\<exists>raw it. scheme_response_decode (take n buf') = Some (ReaddirOk rid raw)
    \<and> entries_iter_new raw = Some it \<and> iter_entries it = es"
proof -
  let ?h = "[(0, [MSG_READDIR]), (1, le_bytes 8 rid), (9, [STATUS_OK])]"
  let ?E = "concat (map entry_bytes es)"
  have len: "12 \<le> length buf" and "resp_header MSG_READDIR rid STATUS_OK buf = Some (put_all ?h buf)"
    using assms(1) by (auto simp: encode_readdir_ok_def resp_header_def scheme_consts Let_def
        put_all_def copy_at_def split: if_splits)
  moreover define b where "b = MSG_READDIR # le_bytes 8 rid @ STATUS_OK # drop 10 buf"
  moreover have "put_all ?h buf = b"
    using put_fields [of ?h buf] by (simp add: b_def)
  moreover have lb: "length b = length buf" using len by (simp add: b_def)
  ultimately obtain c b' where enc: "encode_entries es 12 0 b = (Some (n, c), b')"
    and buf': "buf' = copy_at 10 (le_bytes 2 c) b'"
    using assms(1) by (auto simp: encode_readdir_ok_def scheme_consts Let_def split: prod.splits option.splits)
  from encode_entries_result [OF enc] lb len
  have r: "b' = take 12 b @ ?E @ drop n b" "n = 12 + length ?E" "c = of_nat (length es)" "n \<le> length b"
    "list_all (\<lambda>e. length (re_name e) \<le> 255) es" by simp_all
  have "take 10 b' = MSG_READDIR # le_bytes 8 rid @ [STATUS_OK]"
    using len by (simp add: r(1) b_def)
  moreover have "drop 12 b' = ?E @ drop n b" using lb len by (simp add: r(1))
  ultimately have "buf' = (MSG_READDIR # le_bytes 8 rid @ STATUS_OK # le_bytes 2 c @ ?E) @ drop n b"
    by (simp add: buf' copy_at_def)
  moreover have "n = length (MSG_READDIR # le_bytes 8 rid @ STATUS_OK # le_bytes 2 c @ ?E)" using r(2) by simp
  ultimately have "take n buf' = MSG_READDIR # le_bytes 8 rid @ STATUS_OK # le_bytes 2 c @ ?E"
    by (simp only: take_frame)
  then have "scheme_response_decode (take n buf') = Some (ReaddirOk rid (le_bytes 2 c @ ?E))"
    by (simp add: scheme_response_decode_def scheme_consts frame_simps get_range_def sub_slice_def)
  moreover have "entries_iter_new (le_bytes 2 c @ ?E)
      = Some \<lparr>it_remaining = c, it_buf = le_bytes 2 c @ ?E, it_off = 2\<rparr>"
    by (simp add: entries_iter_new_def frame_simps)
  moreover have "iter_entries \<lparr>it_remaining = c, it_buf = le_bytes 2 c @ ?E, it_off = 2\<rparr> = es"
    using iter_entries_frame [of es "le_bytes 2 c" "[]"] assms(2,3) r(3,5) by (simp add: list_all_iff)
  ultimately show ?thesis by blast
qed

theorem readdir_round_trip_witness:
  "\<exists>n buf' raw it. encode_readdir_ok 1 [\<lparr>re_name = [0x61], re_is_dir = True\<rparr>] (replicate 16 0) = (Some n, buf')
    \<and> scheme_response_decode (take n buf') = Some (ReaddirOk 1 raw)
    \<and> entries_iter_new raw = Some it \<and> iter_entries it = [\<lparr>re_name = [0x61], re_is_dir = True\<rparr>]"
proof -
  have "fst (encode_readdir_ok 1 [\<lparr>re_name = [0x61], re_is_dir = True\<rparr>] (replicate 16 0)) = Some 15"
    by (simp add: encode_readdir_ok_def resp_header_def scheme_consts put_all_def copy_at_def)
  then obtain buf' where e: "encode_readdir_ok 1 [\<lparr>re_name = [0x61], re_is_dir = True\<rparr>] (replicate 16 0) = (Some 15, buf')"
    by (metis prod.collapse)
  moreover have "utf8_valid [0x61]" by code_simp
  ultimately show ?thesis using readdir_round_trip [OF e] by simp
qed

end
