(* ===== verification/Elf.thy ===== *)
theory Elf
  imports Frame Abi User_Ptr
begin

text \<open>
  The ELF64 parser \<^verbatim>\<open>crates/panda-elf/src/lib.rs\<close> and the loader
  \<^verbatim>\<open>panda-kernel/src/process/elf.rs\<close>. A function that may panic has an outer
  \<^verbatim>\<open>option\<close>, whose \<^verbatim>\<open>None\<close> is the panic: an index out of range or an overflow of a
  plain addition or subtraction. The calls of the loader into the memory
  subsystem are recorded in order as operations.
\<close>

section \<open>Checked arithmetic on usize\<close>

definition checked_add :: "nat \<Rightarrow> nat \<Rightarrow> nat option" where
  "checked_add a b = (if a + b < 2 ^ 64 then Some (a + b) else None)"

definition checked_mul :: "nat \<Rightarrow> nat \<Rightarrow> nat option" where
  "checked_mul a b = (if a * b < 2 ^ 64 then Some (a * b) else None)"

section \<open>Headers\<close>

definition ELF_MAGIC :: bytes where "ELF_MAGIC = [0x7f, 0x45, 0x4c, 0x46]"
definition ELFCLASS64 :: u8 where "ELFCLASS64 = 2"
definition ELFDATA2LSB :: u8 where "ELFDATA2LSB = 1"
definition PT_LOAD :: u32 where "PT_LOAD = 1"
definition PF_X :: u32 where "PF_X = 1"
definition PF_W :: u32 where "PF_W = 2"
definition PF_R :: u32 where "PF_R = 4"
definition SIZEOF_EHDR :: nat where "SIZEOF_EHDR = 64"
definition SIZEOF_PHDR :: nat where "SIZEOF_PHDR = 56"

datatype elf_error =
    FileTooSmall
  | InvalidMagic
  | Not64Bit
  | UnsupportedEndianness
  | Overflow string
  | OutOfBounds string

record elf64_header =
  e_entry :: u64
  e_phoff :: u64
  e_phentsize :: u16
  e_phnum :: u16

record elf64_phdr =
  p_type :: u32
  p_flags :: u32
  p_offset :: u64
  p_vaddr :: u64
  p_filesz :: u64
  p_memsz :: u64

definition is_read :: "elf64_phdr \<Rightarrow> bool" where "is_read h \<longleftrightarrow> p_flags h AND PF_R \<noteq> 0"
definition is_write :: "elf64_phdr \<Rightarrow> bool" where "is_write h \<longleftrightarrow> p_flags h AND PF_W \<noteq> 0"
definition is_executable :: "elf64_phdr \<Rightarrow> bool" where "is_executable h \<longleftrightarrow> p_flags h AND PF_X \<noteq> 0"

record parsed_elf =
  pe_header :: elf64_header
  program_headers :: "elf64_phdr list"

text \<open>The readers index the slice: out of range is a panic.\<close>

definition read_u16_le :: "bytes \<Rightarrow> nat \<Rightarrow> u16 option" where "read_u16_le data off = u16_at data off"
definition read_u32_le :: "bytes \<Rightarrow> nat \<Rightarrow> u32 option" where "read_u32_le data off = u32_at data off"
definition read_u64_le :: "bytes \<Rightarrow> nat \<Rightarrow> u64 option" where "read_u64_le data off = u64_at data off"

definition parse_phdr :: "bytes \<Rightarrow> elf64_phdr option" where
  "parse_phdr data = do {
     ty \<leftarrow> read_u32_le data 0;
     fl \<leftarrow> read_u32_le data 4;
     off \<leftarrow> read_u64_le data 8;
     va \<leftarrow> read_u64_le data 16;
     fs \<leftarrow> read_u64_le data 32;
     ms \<leftarrow> read_u64_le data 40;
     Some \<lparr>p_type = ty, p_flags = fl, p_offset = off, p_vaddr = va, p_filesz = fs, p_memsz = ms\<rparr> }"

text \<open>The loop over the program headers, from index \<^verbatim>\<open>i\<close> on; it fills the buffer in place.\<close>

fun parse_phdrs :: "bytes \<Rightarrow> nat \<Rightarrow> nat \<Rightarrow> nat \<Rightarrow> nat \<Rightarrow> (elf_error + elf64_phdr list) option" where
  "parse_phdrs data phoff phentsize i 0 = Some (Inr [])"
| "parse_phdrs data phoff phentsize i (Suc n) = do {
     base \<leftarrow> Option.bind (checked_mul i phentsize) (checked_add phoff);
     limit \<leftarrow> checked_add base SIZEOF_PHDR;
     if limit > length data then Some (Inl (OutOfBounds ''program header extends beyond file''))
     else do {
       h \<leftarrow> parse_phdr (drop base data);
       r \<leftarrow> parse_phdrs data phoff phentsize (i + 1) n;
       Some (rbind r (\<lambda>hs. Inr (h # hs))) } }"

definition parse_elf :: "bytes \<Rightarrow> nat \<Rightarrow> (elf_error + parsed_elf) option" where
  "parse_elf data buf_len =
     (if length data < SIZEOF_EHDR then Some (Inl FileTooSmall)
      else if take 4 data \<noteq> ELF_MAGIC then Some (Inl InvalidMagic)
      else if data ! 4 \<noteq> ELFCLASS64 then Some (Inl Not64Bit)
      else if data ! 5 \<noteq> ELFDATA2LSB then Some (Inl UnsupportedEndianness)
      else do {
        entry \<leftarrow> read_u64_le data 24;
        phoff \<leftarrow> read_u64_le data 32;
        phentsize \<leftarrow> read_u16_le data 54;
        phnum \<leftarrow> read_u16_le data 56;
        case checked_mul (unat phentsize) (unat phnum) of
          None \<Rightarrow> Some (Inl (Overflow ''program header table size overflows''))
        | Some table_size \<Rightarrow> (case checked_add (unat phoff) table_size of
            None \<Rightarrow> Some (Inl (Overflow ''program header table offset + size overflows''))
          | Some phdr_end \<Rightarrow>
              if phdr_end > length data then Some (Inl (OutOfBounds ''program header table extends beyond file''))
              else if buf_len < unat phnum then Some (Inl (OutOfBounds ''program header buffer too small''))
              else do {
                r \<leftarrow> parse_phdrs data (unat phoff) (unat phentsize) 0 (unat phnum);
                Some (rbind r (\<lambda>hs. Inr \<lparr>pe_header = \<lparr>e_entry = entry, e_phoff = phoff, e_phentsize = phentsize,
                  e_phnum = phnum\<rparr>, program_headers = hs\<rparr>)) }) })"

definition program_headers_count :: "bytes \<Rightarrow> nat option option" where
  "program_headers_count data =
     (if length data < SIZEOF_EHDR then Some None
      else if take 4 data \<noteq> ELF_MAGIC then Some None
      else do { n \<leftarrow> read_u16_le data 56; Some (Some (unat n)) })"

section \<open>Sections\<close>

definition SIZEOF_SHDR :: nat where "SIZEOF_SHDR = 64"

text \<open>The inner option is the function's own result.\<close>

definition read_shdr_fields :: "bytes \<Rightarrow> nat \<Rightarrow> (u32 \<times> u64 \<times> u64) option option" where
  "read_shdr_fields data base = do {
     limit \<leftarrow> checked_add base SIZEOF_SHDR;
     if limit > length data then Some None
     else do {
       name_off \<leftarrow> read_u32_le data (base + 0);
       off \<leftarrow> read_u64_le data (base + 24);
       sz \<leftarrow> read_u64_le data (base + 32);
       Some (Some (name_off, off, sz)) } }"

definition slice_at :: "bytes \<Rightarrow> u64 \<Rightarrow> u64 \<Rightarrow> bytes option" where
  "slice_at data start len = do {
     end \<leftarrow> checked_add (unat start) (unat len);
     if end > length data then None else Some (sub_slice (unat start) end data) }"

definition strtab_str_at :: "bytes \<Rightarrow> u32 \<Rightarrow> bytes option" where
  "strtab_str_at strtab off =
     (if unat off > length strtab then None
      else Some (takeWhile (\<lambda>b. b \<noteq> 0) (drop (unat off) strtab)))"

fun find_section ::
  "bytes \<Rightarrow> bytes \<Rightarrow> bytes \<Rightarrow> nat \<Rightarrow> nat \<Rightarrow> nat \<Rightarrow> nat \<Rightarrow> bytes option option" where
  "find_section data strtab name shoff shentsize i 0 = Some None"
| "find_section data strtab name shoff shentsize i (Suc n) =
     (case Option.bind (checked_mul i shentsize) (checked_add shoff) of
        None \<Rightarrow> Some None
      | Some base \<Rightarrow> (case read_shdr_fields data base of
          None \<Rightarrow> None
        | Some None \<Rightarrow> Some None
        | Some (Some (name_off, sh_offset, sh_size)) \<Rightarrow> (case strtab_str_at strtab name_off of
            None \<Rightarrow> Some None
          | Some sh_name \<Rightarrow>
              if sh_name = name then Some (slice_at data sh_offset sh_size)
              else find_section data strtab name shoff shentsize (i + 1) n)))"

definition read_section :: "bytes \<Rightarrow> bytes \<Rightarrow> bytes option option" where
  "read_section data name =
     (if length data < SIZEOF_EHDR then Some None
      else if take 4 data \<noteq> ELF_MAGIC then Some None
      else if data ! 4 \<noteq> ELFCLASS64 then Some None
      else if data ! 5 \<noteq> ELFDATA2LSB then Some None
      else do {
        shoff \<leftarrow> read_u64_le data 40;
        shentsize \<leftarrow> read_u16_le data 58;
        shnum \<leftarrow> read_u16_le data 60;
        shstrndx \<leftarrow> read_u16_le data 62;
        if unat shnum = 0 \<or> unat shentsize < SIZEOF_SHDR then Some None
        else (case Option.bind (checked_mul (unat shstrndx) (unat shentsize)) (checked_add (unat shoff)) of
          None \<Rightarrow> Some None
        | Some base \<Rightarrow> (case read_shdr_fields data base of
            None \<Rightarrow> None
          | Some None \<Rightarrow> Some None
          | Some (Some (_, strtab_off, strtab_size)) \<Rightarrow> (case slice_at data strtab_off strtab_size of
              None \<Rightarrow> Some None
            | Some strtab \<Rightarrow> find_section data strtab name (unat shoff) (unat shentsize) 0 (unat shnum)))) })"

section \<open>Loading\<close>

datatype elf_load_error = LoadNot64Bit | InvalidElf string

fun elf_load_error_from :: "elf_error \<Rightarrow> elf_load_error" where
  "elf_load_error_from Not64Bit = LoadNot64Bit"
| "elf_load_error_from FileTooSmall = InvalidElf ''file too small for ELF header''"
| "elf_load_error_from InvalidMagic = InvalidElf ''invalid ELF magic number''"
| "elf_load_error_from UnsupportedEndianness = InvalidElf ''unsupported ELF endianness (not little-endian)''"
| "elf_load_error_from (Overflow msg) = InvalidElf msg"
| "elf_load_error_from (OutOfBounds msg) = InvalidElf msg"

definition validate_segment_security :: "elf64_phdr \<Rightarrow> nat \<Rightarrow> elf_load_error + nat" where
  "validate_segment_security h file_size =
     (if p_vaddr h > USER_ADDR_MAX then Inl (InvalidElf ''ELF segment p_vaddr in kernel space'')
      else rbind (ok_or (checked_add (unat (p_vaddr h)) (unat (p_memsz h)))
          (InvalidElf ''ELF segment address + size overflows'')) (\<lambda>segment_end.
        if segment_end > unat USER_ADDR_MAX then Inl (InvalidElf ''ELF segment extends into kernel space'')
        else rbind (ok_or (checked_add (unat (p_offset h)) (unat (p_filesz h)))
            (InvalidElf ''ELF file offset + size overflows'')) (\<lambda>file_end.
          if file_end > file_size then Inl (InvalidElf ''ELF segment offset exceeds file size'')
          else Inr segment_end)))"

record mapping_options =
  mo_user :: bool
  mo_executable :: bool
  mo_writable :: bool

datatype mem_op =
    UpdatePermissions nat nat mapping_options
  | AllocateAndMap nat nat mapping_options
  | WriteAt nat bytes

record loader =
  ld_ops :: "mem_op list"
  last_segment_end :: nat
  last_segment_executable :: bool

text \<open>\<^verbatim>\<open>VirtAddr::new\<close> panics on an address that is not canonical.\<close>

definition virt_addr_new :: "nat \<Rightarrow> nat option" where
  "virt_addr_new a = (if a < 2 ^ 47 \<or> 2 ^ 64 - 2 ^ 47 \<le> a then Some a else None)"

definition round_up_page :: "nat \<Rightarrow> nat" where
  "round_up_page n = (n + 4095) div 4096 * 4096"

definition load_segment :: "bytes \<Rightarrow> elf64_phdr \<Rightarrow> loader \<Rightarrow> (elf_load_error + loader) option" where
  "load_segment data h ld =
     (if p_type h \<noteq> PT_LOAD then Some (Inr ld)
      else case validate_segment_security h (length data) of
        Inl e \<Rightarrow> Some (Inl e)
      | Inr _ \<Rightarrow> do {
          virt_addr \<leftarrow> virt_addr_new (unat (p_vaddr h));
          let page_offset = virt_addr mod 4096;
              original = virt_addr - page_offset;
              full_size = unat (p_memsz h) + page_offset;
              overlapping = original < last_segment_end ld;
              overlap = last_segment_end ld - original;
              aligned_size = (if overlapping then full_size - overlap else full_size);
              perm_ops = (if overlapping \<and> is_write h
                then [UpdatePermissions original overlap \<lparr>mo_user = True, mo_executable = False, mo_writable = True\<rparr>]
                else [])
          in do {
          aligned \<leftarrow> (if overlapping then virt_addr_new (last_segment_end ld) else Some original);
          if aligned_size > 0 then
            if virt_addr < aligned then None
            else Some (Inr \<lparr>ld_ops = ld_ops ld @ perm_ops
                   @ [AllocateAndMap aligned aligned_size
                        \<lparr>mo_user = True, mo_executable = is_executable h, mo_writable = is_write h\<rparr>,
                      WriteAt (virt_addr - aligned) (sub_slice (unat (p_offset h)) (unat (p_offset h) + unat (p_filesz h)) data)],
                   last_segment_end = aligned + round_up_page aligned_size,
                   last_segment_executable = is_executable h\<rparr>)
          else Some (Inr (ld\<lparr>ld_ops := ld_ops ld @ perm_ops, last_segment_executable := is_executable h\<rparr>)) } })"

fun load_segments :: "bytes \<Rightarrow> elf64_phdr list \<Rightarrow> loader \<Rightarrow> (elf_load_error + loader) option" where
  "load_segments data [] ld = Some (Inr ld)"
| "load_segments data (h # hs) ld = do {
     r \<leftarrow> load_segment data h ld;
     case r of Inl e \<Rightarrow> Some (Inl e) | Inr ld' \<Rightarrow> load_segments data hs ld' }"

definition load_elf :: "bytes \<Rightarrow> (elf_load_error + u64 \<times> mem_op list) option" where
  "load_elf data = do {
     count \<leftarrow> program_headers_count data;
     parsed \<leftarrow> parse_elf data (case count of None \<Rightarrow> 0 | Some n \<Rightarrow> n);
     case parsed of
       Inl e \<Rightarrow> Some (Inl (elf_load_error_from e))
     | Inr elf \<Rightarrow> do {
         r \<leftarrow> load_segments data (program_headers elf) \<lparr>ld_ops = [], last_segment_end = 0, last_segment_executable = False\<rparr>;
         Some (rbind r (\<lambda>ld. Inr (e_entry (pe_header elf), ld_ops ld))) } }"

section \<open>Lemmas on the parser\<close>

lemma at_total:
  "i + 2 \<le> length data \<Longrightarrow> u16_at data i = Some (le_word (sub_slice i (i + 2) data))"
  "i + 4 \<le> length data \<Longrightarrow> u32_at data i = Some (le_word (sub_slice i (i + 4) data))"
  "i + 8 \<le> length data \<Longrightarrow> u64_at data i = Some (le_word (sub_slice i (i + 8) data))"
  by (simp_all add: u16_at_def u32_at_def u64_at_def get_range_def)

text \<open>The program header whose bytes start at an offset of the file.\<close>

definition phdr_at :: "bytes \<Rightarrow> nat \<Rightarrow> elf64_phdr" where
  "phdr_at data i = \<lparr>p_type = le_word (sub_slice i (i + 4) data), p_flags = le_word (sub_slice (i + 4) (i + 8) data),
     p_offset = le_word (sub_slice (i + 8) (i + 16) data), p_vaddr = le_word (sub_slice (i + 16) (i + 24) data),
     p_filesz = le_word (sub_slice (i + 32) (i + 40) data), p_memsz = le_word (sub_slice (i + 40) (i + 48) data)\<rparr>"

lemma sub_slice_drop: "sub_slice i j (drop b xs) = sub_slice (b + i) (b + j) xs"
  by (simp add: sub_slice_def add.commute)

lemma parse_phdr_at: "base + 56 \<le> length data \<Longrightarrow> parse_phdr (drop base data) = Some (phdr_at data base)"
  by (simp add: parse_phdr_def read_u32_le_def read_u64_le_def at_total sub_slice_drop phdr_at_def)

lemma parse_phdrs_result:
  assumes "length data < 2 ^ 63" "phoff + (i + n) * phentsize \<le> length data"
  shows "\<exists>r. parse_phdrs data phoff phentsize i n = Some r
    \<and> (r = Inl (OutOfBounds ''program header extends beyond file'')
       \<or> r = Inr (map (\<lambda>j. phdr_at data (phoff + j * phentsize)) [i..<i + n])
         \<and> (\<forall>j\<in>{i..<i + n}. phoff + j * phentsize + 56 \<le> length data))"
  using assms(2)
proof (induction n arbitrary: i)
  case (Suc n)
  have "i * phentsize \<le> (i + Suc n) * phentsize" by (rule mult_le_mono1) simp
  then have b: "phoff + i * phentsize \<le> length data" using Suc.prems by linarith
  then have arith: "checked_mul i phentsize = Some (i * phentsize)"
    "checked_add phoff (i * phentsize) = Some (phoff + i * phentsize)"
    "checked_add (phoff + i * phentsize) 56 = Some (phoff + i * phentsize + 56)"
    using assms(1) by (simp_all add: checked_mul_def checked_add_def)
  obtain r where r: "parse_phdrs data phoff phentsize (i + 1) n = Some r"
    "r = Inl (OutOfBounds ''program header extends beyond file'')
       \<or> r = Inr (map (\<lambda>j. phdr_at data (phoff + j * phentsize)) [i + 1..<i + 1 + n])
         \<and> (\<forall>j\<in>{i + 1..<i + 1 + n}. phoff + j * phentsize + 56 \<le> length data)"
    using Suc.IH [of "i + 1"] Suc.prems by auto
  show ?case
  proof (cases "phoff + i * phentsize + 56 \<le> length data")
    case True
    have up: "[i..<i + Suc n] = i # [i + 1..<i + 1 + n]" by (simp add: upt_rec)
    have set_up: "{i..<i + Suc n} = insert i {i + 1..<i + 1 + n}" by auto
    have step: "parse_phdrs data phoff phentsize i (Suc n)
        = Some (rbind r (\<lambda>hs. Inr (phdr_at data (phoff + i * phentsize) # hs)))"
      using arith True r(1) parse_phdr_at [OF True] by (simp add: SIZEOF_PHDR_def)
    from r(2) show ?thesis
    proof
      assume "r = Inl (OutOfBounds ''program header extends beyond file'')"
      then show ?thesis using step by simp
    next
      assume "r = Inr (map (\<lambda>j. phdr_at data (phoff + j * phentsize)) [i + 1..<i + 1 + n])
         \<and> (\<forall>j\<in>{i + 1..<i + 1 + n}. phoff + j * phentsize + 56 \<le> length data)"
      then show ?thesis using step True unfolding up set_up by simp
    qed
  next
    case False
    then show ?thesis using arith by (auto simp: SIZEOF_PHDR_def)
  qed
qed simp

lemma elf_fields_total:
  assumes "64 \<le> length data"
  shows "\<exists>v. read_u64_le data 24 = Some v" "\<exists>v. read_u64_le data 32 = Some v" "\<exists>v. read_u64_le data 40 = Some v"
    "\<exists>v. read_u16_le data 54 = Some v" "\<exists>v. read_u16_le data 56 = Some v" "\<exists>v. read_u16_le data 58 = Some v"
    "\<exists>v. read_u16_le data 60 = Some v" "\<exists>v. read_u16_le data 62 = Some v"
  using assms by (simp_all add: read_u64_le_def read_u16_le_def at_total)

lemma read_shdr_panics:
  assumes "length data < 2 ^ 63" "base < 2 ^ 64"
  shows "read_shdr_fields data base = None \<longleftrightarrow> 2 ^ 64 \<le> base + 64"
    and "read_shdr_fields data base = Some (Some x) \<Longrightarrow> base + 64 \<le> length data"
  using assms
  by (auto simp: read_shdr_fields_def checked_add_def SIZEOF_SHDR_def read_u32_le_def read_u64_le_def at_total
      split: if_splits)

lemma find_section_total:
  assumes "length data < 2 ^ 63" "shoff \<le> length data" "(i + n) * shentsize < 2 ^ 62"
  shows "find_section data strtab name shoff shentsize i n \<noteq> None"
  using assms(3)
proof (induction n arbitrary: i)
  case (Suc n)
  have "i * shentsize \<le> (i + Suc n) * shentsize" by (rule mult_le_mono1) simp
  then have b: "i * shentsize < 2 ^ 62" using Suc.prems by linarith
  then have arith: "Option.bind (checked_mul i shentsize) (checked_add shoff) = Some (shoff + i * shentsize)"
    using assms(1,2) by (simp add: checked_mul_def checked_add_def)
  have "shoff + i * shentsize < 2 ^ 64" "\<not> 2 ^ 64 \<le> shoff + i * shentsize + 64" using b assms(1,2) by simp_all
  then have "read_shdr_fields data (shoff + i * shentsize) \<noteq> None"
    using read_shdr_panics(1) [OF assms(1)] by blast
  then show ?case
    using arith Suc.IH [of "i + 1"] Suc.prems
    by (auto split: option.splits)
qed simp

text \<open>The checks on the identification bytes and section table fields that precede the lookup.\<close>

definition has_section_table :: "bytes \<Rightarrow> bool" where
  "has_section_table data \<longleftrightarrow> 64 \<le> length data \<and> take 4 data = ELF_MAGIC \<and> data ! 4 = ELFCLASS64
     \<and> data ! 5 = ELFDATA2LSB \<and> u16_at data 60 \<noteq> Some 0 \<and> 64 \<le> unat (the (u16_at data 58))"

definition strtab_header_offset :: "bytes \<Rightarrow> nat" where
  "strtab_header_offset data =
     unat (the (u64_at data 40)) + unat (the (u16_at data 62)) * unat (the (u16_at data 58))"

lemma read_section_panics:
  assumes "length data < 2 ^ 63"
  shows "read_section data name = None \<longleftrightarrow> has_section_table data
    \<and> 2 ^ 64 - 64 \<le> strtab_header_offset data \<and> strtab_header_offset data < 2 ^ 64"
proof (cases "has_section_table data")
  case False
  then show ?thesis
    using elf_fields_total [of data]
    by (auto simp: read_section_def has_section_table_def SIZEOF_EHDR_def SIZEOF_SHDR_def read_u16_le_def
        read_u64_le_def word_unat_eq_iff)
next
  case True
  then have len: "64 \<le> length data" by (simp add: has_section_table_def)
  obtain shoff shentsize shnum shstrndx where f: "u64_at data 40 = Some shoff" "u16_at data 58 = Some shentsize"
    "u16_at data 60 = Some shnum" "u16_at data 62 = Some shstrndx"
    using elf_fields_total [OF len] by (auto simp: read_u16_le_def read_u64_le_def)
  have u16: "unat x < 2 ^ 16" for x :: u16 using unsigned_less [of x] by simp
  have m: "unat x * unat y < 2 ^ 32" for x y :: u16
    using mult_strict_mono [OF u16 [of x] u16 [of y]] by simp
  let ?b = "strtab_header_offset data"
  have b: "?b = unat shoff + unat shstrndx * unat shentsize" by (simp add: strtab_header_offset_def f)
  have bind: "Option.bind (checked_mul (unat shstrndx) (unat shentsize)) (checked_add (unat shoff))
      = (if ?b < 2 ^ 64 then Some ?b else None)"
    using m [of shstrndx shentsize] by (simp add: checked_mul_def checked_add_def b)
  have "find_section data strtab name (unat shoff) (unat shentsize) 0 (unat shnum) \<noteq> None"
    if "?b + 64 \<le> length data" for strtab
    using that b m [of shnum shentsize] by (intro find_section_total [OF assms]) simp_all
  moreover have "read_section data name = (if ?b < 2 ^ 64 then
      (case read_shdr_fields data ?b of
            None \<Rightarrow> None
          | Some None \<Rightarrow> Some None
          | Some (Some (_, strtab_off, strtab_size)) \<Rightarrow> (case slice_at data strtab_off strtab_size of
              None \<Rightarrow> Some None
            | Some strtab \<Rightarrow> find_section data strtab name (unat shoff) (unat shentsize) 0 (unat shnum)))
      else Some None)"
    using True f unfolding read_section_def has_section_table_def read_u16_le_def read_u64_le_def
      SIZEOF_EHDR_def SIZEOF_SHDR_def
    by (simp add: bind word_unat_eq_iff)
  ultimately show ?thesis
    using True read_shdr_panics [OF assms, of ?b]
    by (auto split: option.splits)
qed

section \<open>Lemmas on the loader\<close>

lemma round_up_page_limit:
  assumes "4096 dvd a" "4096 dvd (b :: nat)" "a + n \<le> b"
  shows "a + round_up_page n \<le> b"
proof -
  obtain x y where xy: "a = 4096 * x" "b = 4096 * y" using assms(1,2) by (auto elim!: dvdE)
  then have "n \<le> 4096 * (y - x)" using assms(3) by (simp add: diff_mult_distrib2)
  then have "(n + 4095) div 4096 \<le> y - x" by linarith
  moreover have "x \<le> y" using assms(3) xy by simp
  ultimately show ?thesis by (simp add: round_up_page_def xy)
qed

lemma validate_Inr:
  assumes "validate_segment_security h n = Inr e"
  shows "unat (p_vaddr h) + unat (p_memsz h) < 2 ^ 47" "unat (p_offset h) + unat (p_filesz h) \<le> n"
  using assms
  by (auto simp: validate_segment_security_def checked_add_def USER_ADDR_MAX_def split: if_splits)

fun op_confined :: "mem_op \<Rightarrow> bool" where
  "op_confined (UpdatePermissions a n opts) \<longleftrightarrow> a + n \<le> 2 ^ 47 \<and> mo_user opts"
| "op_confined (AllocateAndMap a n opts) \<longleftrightarrow> 4096 dvd a \<and> a + round_up_page n \<le> 2 ^ 47 \<and> mo_user opts"
| "op_confined (WriteAt off d) \<longleftrightarrow> True"

text \<open>The page ranges that are mapped, in order.\<close>

fun mapped :: "mem_op list \<Rightarrow> (nat \<times> nat) list" where
  "mapped (AllocateAndMap a n opts # ops) = (a, a + round_up_page n) # mapped ops"
| "mapped (_ # ops) = mapped ops"
| "mapped [] = []"

definition loader_ok :: "loader \<Rightarrow> bool" where
  "loader_ok ld \<longleftrightarrow> list_all op_confined (ld_ops ld) \<and> 4096 dvd last_segment_end ld \<and> last_segment_end ld \<le> 2 ^ 47
     \<and> sorted_wrt (\<lambda>r s. snd r \<le> fst s) (mapped (ld_ops ld))
     \<and> list_all (\<lambda>r. snd r \<le> last_segment_end ld) (mapped (ld_ops ld))"

lemma mapped_append [simp]: "mapped (xs @ ys) = mapped xs @ mapped ys"
  by (induction xs rule: mapped.induct) simp_all

lemma page_dvd: "4096 dvd (v :: nat) - v mod 4096" "v - v mod 4096 + v mod 4096 = v"
  by (simp_all add: minus_mod_eq_mult_div)

lemma page_below:
  assumes "4096 dvd L" "v - v mod 4096 < (L :: nat)"
  shows "v < L"
proof -
  obtain y where y: "L = 4096 * y" using assms(1) by (elim dvdE)
  have v: "v = 4096 * (v div 4096) + v mod 4096" by simp
  have "v div 4096 < y" using assms(2) y by (simp add: minus_mod_eq_mult_div)
  then have "4096 * (v div 4096) + 4096 \<le> 4096 * y" by simp
  moreover have "v mod 4096 < 4096" by simp
  ultimately show ?thesis using y v by linarith
qed

text \<open>The three ways in which a loadable segment is processed.\<close>

lemma load_segment_cases:
  assumes "loader_ok ld" "p_type h = PT_LOAD" "validate_segment_security h (length data) = Inr e"
  defines "v \<equiv> unat (p_vaddr h)" and "L \<equiv> last_segment_end ld"
  defines "opts \<equiv> \<lparr>mo_user = True, mo_executable = is_executable h, mo_writable = is_write h\<rparr>"
  defines "perm \<equiv> (if is_write h then [UpdatePermissions (v - v mod 4096) (L - (v - v mod 4096))
      \<lparr>mo_user = True, mo_executable = False, mo_writable = True\<rparr>] else [])"
  shows "load_segment data h ld =
    (if v - v mod 4096 < L then
       if unat (p_memsz h) + v mod 4096 \<le> L - (v - v mod 4096) \<and> L < 2 ^ 47
       then Some (Inr (ld\<lparr>ld_ops := ld_ops ld @ perm, last_segment_executable := is_executable h\<rparr>)) else None
     else if unat (p_memsz h) + v mod 4096 > 0 then
       Some (Inr \<lparr>ld_ops = ld_ops ld @
           [AllocateAndMap (v - v mod 4096) (unat (p_memsz h) + v mod 4096) opts,
            WriteAt (v mod 4096) (sub_slice (unat (p_offset h)) (unat (p_offset h) + unat (p_filesz h)) data)],
         last_segment_end = v - v mod 4096 + round_up_page (unat (p_memsz h) + v mod 4096),
         last_segment_executable = is_executable h\<rparr>)
     else Some (Inr (ld\<lparr>last_segment_executable := is_executable h\<rparr>)))"
proof -
  have L: "4096 dvd L" "L \<le> 2 ^ 47" using assms(1) by (simp_all add: loader_ok_def L_def)
  have v: "virt_addr_new v = Some v"
    using validate_Inr(1) [OF assms(3)] by (simp add: virt_addr_new_def v_def)
  have Lv: "virt_addr_new L = (if L < 2 ^ 47 then Some L else None)"
    using L(2) by (simp add: virt_addr_new_def)
  have off: "v - (v - v mod 4096) = v mod 4096" by simp
  have below: "v - v mod 4096 < L \<Longrightarrow> v < L" by (rule page_below [OF L(1)])
  show ?thesis
    using assms(2,3) v Lv off below
    unfolding load_segment_def v_def [symmetric] L_def [symmetric]
    by (auto simp: Let_def opts_def perm_def)
qed

lemma load_segment_ok:
  assumes "loader_ok ld" "load_segment data h ld = Some (Inr ld')"
  shows "loader_ok ld'"
proof (cases "p_type h = PT_LOAD")
  case False
  then show ?thesis using assms by (simp add: load_segment_def)
next
  case True
  let ?v = "unat (p_vaddr h)" and ?L = "last_segment_end ld"
  let ?a = "?v - ?v mod 4096" and ?n = "unat (p_memsz h) + ?v mod 4096"
  obtain e where e: "validate_segment_security h (length data) = Inr e"
    using assms(2) True by (auto simp: load_segment_def split: sum.splits)
  have "?a + ?n < 2 ^ 47" using validate_Inr(1) [OF e] page_dvd(2) [of ?v] by linarith
  then have lim: "?a + round_up_page ?n \<le> 2 ^ 47"
    using page_dvd(1) [of ?v] by (intro round_up_page_limit) simp_all
  have dvd: "4096 dvd ?a + round_up_page ?n"
    by (rule dvd_add [OF page_dvd(1)]) (simp add: round_up_page_def)
  have ok: "list_all op_confined (ld_ops ld)" "4096 dvd ?L" "?L \<le> 2 ^ 47"
    "sorted_wrt (\<lambda>r s. snd r \<le> fst s) (mapped (ld_ops ld))" "list_all (\<lambda>r. snd r \<le> ?L) (mapped (ld_ops ld))"
    using assms(1) by (simp_all add: loader_ok_def)
  show ?thesis
  proof (cases "?a < ?L")
    case over: True
    then have "ld_ops ld' = ld_ops ld @ (if is_write h then [UpdatePermissions ?a (?L - ?a)
      \<lparr>mo_user = True, mo_executable = False, mo_writable = True\<rparr>] else [])" "last_segment_end ld' = ?L"
      using assms(2) load_segment_cases [OF assms(1) True e] by (auto split: if_splits)
    then show ?thesis using ok over by (auto simp: loader_ok_def)
  next
    case fresh: False
    show ?thesis
    proof (cases "?n > 0")
      case True
      then have ld': "ld_ops ld' = ld_ops ld @
           [AllocateAndMap ?a ?n \<lparr>mo_user = True, mo_executable = is_executable h, mo_writable = is_write h\<rparr>,
            WriteAt (?v mod 4096) (sub_slice (unat (p_offset h)) (unat (p_offset h) + unat (p_filesz h)) data)]"
          "last_segment_end ld' = ?a + round_up_page ?n"
        using assms(2) load_segment_cases [OF assms(1) \<open>p_type h = PT_LOAD\<close> e] fresh by auto
      have "list_all (\<lambda>r. snd r \<le> ?a) (mapped (ld_ops ld))"
        "list_all (\<lambda>r. snd r \<le> ?a + round_up_page ?n) (mapped (ld_ops ld))"
        using ok(5) fresh by (auto simp: list_all_iff)
      then show ?thesis
        using ok lim dvd page_dvd(1) [of ?v] unfolding loader_ok_def ld'
        by (simp add: sorted_wrt_append list_all_iff)
    next
      case False
      then show ?thesis
        using assms(2) load_segment_cases [OF assms(1) \<open>p_type h = PT_LOAD\<close> e] fresh ok
        by (auto simp: loader_ok_def)
    qed
  qed
qed

lemma case_sum_Some_Inr:
  "(case y of Inl e \<Rightarrow> Some (Inl (g e)) | Inr x \<Rightarrow> f x) = Some (Inr z) \<longleftrightarrow> (\<exists>x. y = Inr x \<and> f x = Some (Inr z))"
  by (cases y) auto

lemma load_segments_ok:
  "loader_ok ld \<Longrightarrow> load_segments data hs ld = Some (Inr ld') \<Longrightarrow> loader_ok ld'"
  by (induction hs arbitrary: ld)
    (auto simp: bind_eq_Some_conv case_sum_Some_Inr [where g = "\<lambda>e. e"] dest: load_segment_ok)

lemma loader_ok_start: "loader_ok \<lparr>ld_ops = [], last_segment_end = 0, last_segment_executable = False\<rparr>"
  by (simp add: loader_ok_def)

text \<open>Segments in ascending order that share no page, all of which pass validation.\<close>

fun well_laid_out :: "bytes \<Rightarrow> nat \<Rightarrow> elf64_phdr list \<Rightarrow> bool" where
  "well_laid_out data L [] \<longleftrightarrow> True"
| "well_laid_out data L (h # hs) \<longleftrightarrow>
     (if p_type h = PT_LOAD then
        let v = unat (p_vaddr h); a = v - v mod 4096; n = unat (p_memsz h) + v mod 4096 in
        (\<exists>e. validate_segment_security h (length data) = Inr e) \<and> L \<le> a \<and> 0 < n
          \<and> well_laid_out data (a + round_up_page n) hs
      else well_laid_out data L hs)"

definition segment_ops :: "bytes \<Rightarrow> elf64_phdr \<Rightarrow> mem_op list" where
  "segment_ops data h =
     (if p_type h = PT_LOAD then
        let v = unat (p_vaddr h) in
        [AllocateAndMap (v - v mod 4096) (unat (p_memsz h) + v mod 4096)
           \<lparr>mo_user = True, mo_executable = is_executable h, mo_writable = is_write h\<rparr>,
         WriteAt (v mod 4096) (sub_slice (unat (p_offset h)) (unat (p_offset h) + unat (p_filesz h)) data)]
      else [])"

lemma load_well_laid_out:
  assumes "loader_ok ld" "well_laid_out data (last_segment_end ld) hs"
  shows "\<exists>ld'. load_segments data hs ld = Some (Inr ld') \<and> ld_ops ld' = ld_ops ld @ concat (map (segment_ops data) hs)"
  using assms
proof (induction hs arbitrary: ld)
  case (Cons h hs)
  show ?case
  proof (cases "p_type h = PT_LOAD")
    case True
    let ?v = "unat (p_vaddr h)"
    let ?a = "?v - ?v mod 4096" and ?n = "unat (p_memsz h) + ?v mod 4096"
    obtain e where e: "validate_segment_security h (length data) = Inr e"
      and w: "last_segment_end ld \<le> ?a" "0 < ?n" "well_laid_out data (?a + round_up_page ?n) hs"
      using Cons.prems(2) True by (auto simp: Let_def)
    let ?ld = "\<lparr>ld_ops = ld_ops ld @ segment_ops data h, last_segment_end = ?a + round_up_page ?n,
      last_segment_executable = is_executable h\<rparr>"
    have step: "load_segment data h ld = Some (Inr ?ld)"
      using load_segment_cases [OF Cons.prems(1) True e] w(1,2) True by (simp add: segment_ops_def Let_def)
    show ?thesis
      using Cons.IH [of ?ld] load_segment_ok [OF Cons.prems(1) step] w(3) step by simp
  next
    case False
    then show ?thesis
      using Cons by (simp add: load_segment_def segment_ops_def)
  qed
qed simp

section \<open>Properties\<close>



text \<open>C36: Looking up a section panics on certain malformed files, although it is documented never to: exactly when
  the identification is valid, the section table is not empty, and the table offset places the header of the
  string table within the last 64 bytes of the 64-bit address range, so that adding the header size
  overflows. On all other files the lookup returns.\<close>

theorem read_section_panics_exactly:
  assumes "length data < 2 ^ 63"
  shows "(read_section data name = None) = (has_section_table data
    \<and> 2 ^ 64 - 64 \<le> strtab_header_offset data \<and> strtab_header_offset data < 2 ^ 64)"
  using read_section_panics [OF assms] .

text \<open>A file of 64 bytes on which the lookup panics.\<close>

definition panic_file :: bytes where
  "panic_file = ELF_MAGIC @ [2, 1] @ replicate 34 0 @ replicate 8 0xFF @ replicate 10 0 @ [64, 0, 1, 0, 0, 0]"

theorem read_section_panics_exactly_witness: "read_section panic_file [] = None"
proof -
  have len: "length panic_file = 64" by (simp add: panic_file_def ELF_MAGIC_def)
  have f: "u64_at panic_file 40 = Some 0xFFFFFFFFFFFFFFFF" "u16_at panic_file 58 = Some 64"
    "u16_at panic_file 60 = Some 1" "u16_at panic_file 62 = Some 0"
    by code_simp+
  have "has_section_table panic_file" "strtab_header_offset panic_file = 2 ^ 64 - 1"
    using len by (simp_all add: has_section_table_def strtab_header_offset_def f)
      (simp_all add: panic_file_def ELF_MAGIC_def ELFCLASS64_def ELFDATA2LSB_def)
  then show ?thesis
    using read_section_panics_exactly [of panic_file "[]"] len by simp
qed

text \<open>An executable of one segment: three bytes of code at address \<^verbatim>\<open>0x400010\<close>.\<close>

definition demo_header :: elf64_phdr where
  "demo_header = \<lparr>p_type = 1, p_flags = 5, p_offset = 120, p_vaddr = 0x400010, p_filesz = 3, p_memsz = 3\<rparr>"

definition demo_elf :: bytes where
  "demo_elf = ELF_MAGIC @ [2, 1] @ replicate 18 0 @ le_bytes 8 (0x400010 :: u64) @ le_bytes 8 (64 :: u64)
     @ replicate 14 0 @ [56, 0, 1, 0] @ replicate 6 0
     @ le_bytes 4 (1 :: u32) @ le_bytes 4 (5 :: u32) @ le_bytes 8 (120 :: u64) @ le_bytes 8 (0x400010 :: u64)
     @ replicate 8 0 @ le_bytes 8 (3 :: u64) @ le_bytes 8 (3 :: u64) @ replicate 8 0
     @ [0x90, 0x90, 0xC3]"

lemma demo_fields:
  "length demo_elf = 123" "u64_at demo_elf 24 = Some 0x400010" "u64_at demo_elf 32 = Some 64"
  "u16_at demo_elf 54 = Some 56" "u16_at demo_elf 56 = Some 1"
  by code_simp+
lemma demo_fields2:
  "take 4 demo_elf = ELF_MAGIC" "demo_elf ! 4 = ELFCLASS64" "demo_elf ! 5 = ELFDATA2LSB" "parse_phdr (drop 64 demo_elf) = Some demo_header"
  by code_simp+

lemma demo_parse:
  "program_headers_count demo_elf = Some (Some 1)"
  "parse_elf demo_elf 1 = Some (Inr \<lparr>pe_header = \<lparr>e_entry = 0x400010, e_phoff = 64, e_phentsize = 56, e_phnum = 1\<rparr>,
     program_headers = [demo_header]\<rparr>)"
  by (simp_all add: program_headers_count_def parse_elf_def demo_fields demo_fields2 read_u64_le_def read_u16_le_def
     SIZEOF_EHDR_def SIZEOF_PHDR_def checked_mul_def checked_add_def)

lemma demo_laid_out: "well_laid_out demo_elf 0 [demo_header]"
  by (simp add: demo_header_def PT_LOAD_def validate_segment_security_def demo_fields USER_ADDR_MAX_def checked_add_def)

text \<open>C16: Loading never reaches outside user memory. Whenever a load succeeds, every page it maps and every
  permission it changes lies in the user half of the address space and is marked as user memory, mapped ranges start at page
  boundaries, and no page is mapped twice.\<close>

theorem load_elf_confined:
  assumes "load_elf data = Some (Inr (entry, ops))"
  shows "list_all op_confined ops \<and> sorted_wrt (\<lambda>r s. snd r \<le> fst s) (mapped ops)"
  using assms load_segments_ok [OF loader_ok_start]
  by (auto simp: load_elf_def bind_eq_Some_conv case_sum_Some_Inr loader_ok_def)

theorem load_elf_confined_witness:
  "\<exists>entry ops. load_elf demo_elf = Some (Inr (entry, ops)) \<and> length ops = 2 \<and> list_all op_confined ops"
proof -
  obtain ld where "load_segments demo_elf [demo_header] \<lparr>ld_ops = [], last_segment_end = 0, last_segment_executable = False\<rparr>
      = Some (Inr ld)" "ld_ops ld = segment_ops demo_elf demo_header"
    using load_well_laid_out [OF loader_ok_start, of demo_elf "[demo_header]"] demo_laid_out by auto
  then have "load_elf demo_elf = Some (Inr (0x400010, segment_ops demo_elf demo_header))"
    by (simp add: load_elf_def demo_parse del: One_nat_def load_segments.simps(2))
  moreover have "length (segment_ops demo_elf demo_header) = 2"
    by (simp add: segment_ops_def demo_header_def PT_LOAD_def Let_def)
  ultimately show ?thesis
    using load_elf_confined [of demo_elf "0x400010" "segment_ops demo_elf demo_header"] by auto
qed

text \<open>Segments that ascend, pass validation and share no page are all loaded: each is mapped at its page with its own
  permissions and its bytes of the file are written at its address.\<close>

theorem load_segments_complete:
  assumes "well_laid_out data 0 hs"
  shows "\<exists>ld. load_segments data hs \<lparr>ld_ops = [], last_segment_end = 0, last_segment_executable = False\<rparr> = Some (Inr ld)
    \<and> ld_ops ld = concat (map (segment_ops data) hs)"
  using load_well_laid_out [OF loader_ok_start, of data hs] assms by simp

theorem load_segments_complete_witness:
  "\<exists>ld. load_segments demo_elf [demo_header] \<lparr>ld_ops = [], last_segment_end = 0, last_segment_executable = False\<rparr> = Some (Inr ld)
    \<and> ld_ops ld = [AllocateAndMap 0x400000 19 \<lparr>mo_user = True, mo_executable = True, mo_writable = False\<rparr>,
        WriteAt 16 (sub_slice 120 123 demo_elf)]"
  using load_segments_complete [OF demo_laid_out]
  by (simp add: segment_ops_def demo_header_def PT_LOAD_def Let_def is_executable_def is_write_def PF_X_def PF_W_def)

text \<open>A loader that has mapped up to the end of the segment's page.\<close>

definition shared_page :: loader where
  "shared_page = \<lparr>ld_ops = [], last_segment_end = 0x401000, last_segment_executable = True\<rparr>"

lemma demo_overlap:
  "loader_ok shared_page" "p_type demo_header = PT_LOAD"
  "validate_segment_security demo_header (length demo_elf) = Inr 0x400013"
  by (simp_all add: loader_ok_def shared_page_def demo_header_def PT_LOAD_def validate_segment_security_def
      demo_fields USER_ADDR_MAX_def checked_add_def)

text \<open>C37: Segments that share a page are not loaded, contrary to the scheme the module describes. A valid segment
  that begins in a page mapped before and reaches beyond it makes the loader panic, and one that ends within the
  pages mapped before is skipped: none of its bytes are written.\<close>

theorem overlapping_segment_not_loaded:
  assumes "loader_ok ld" "p_type h = PT_LOAD" "validate_segment_security h (length data) = Inr e"
    and "unat (p_vaddr h) < last_segment_end ld"
  shows "case load_segment data h ld of
      None \<Rightarrow> last_segment_end ld < unat (p_vaddr h) + unat (p_memsz h) \<or> last_segment_end ld = 2 ^ 47
    | Some (Inl e) \<Rightarrow> False
    | Some (Inr ld') \<Rightarrow> unat (p_vaddr h) + unat (p_memsz h) \<le> last_segment_end ld
        \<and> (\<exists>perm. ld_ops ld' = ld_ops ld @ perm \<and> mapped perm = [] \<and> (\<forall>off d. WriteAt off d \<notin> set perm))"
proof -
  have "unat (p_vaddr h) - unat (p_vaddr h) mod 4096 < last_segment_end ld" using assms(4) by simp
  moreover have "last_segment_end ld \<le> 2 ^ 47" using assms(1) by (simp add: loader_ok_def)
  ultimately show ?thesis
    unfolding load_segment_cases [OF assms(1-3)] using page_dvd(2) [of "unat (p_vaddr h)"] by auto
qed

theorem overlapping_segment_not_loaded_witness:
  "\<exists>ld'. load_segment demo_elf demo_header shared_page = Some (Inr ld') \<and> (\<forall>off d. WriteAt off d \<notin> set (ld_ops ld'))"
  using overlapping_segment_not_loaded [OF demo_overlap]
  by (auto simp: demo_header_def shared_page_def split: option.splits sum.splits)

end
