(* ===== verification/Ext2_Structs.thy ===== *)
theory Ext2_Structs
  imports Prelude
begin

text \<open>
  The on-disk structures of the ext2 file system: superblock, block group
  descriptors and inodes, their layout in bytes, and the checks made on a
  superblock before it is used.
\<close>

section \<open>Constants\<close>

definition EXT2_SUPER_MAGIC :: u16 where "EXT2_SUPER_MAGIC = 0xEF53"
definition EXT2_ROOT_INO :: u32 where "EXT2_ROOT_INO = 2"
definition SUPERBLOCK_OFFSET :: nat where "SUPERBLOCK_OFFSET = 1024"

definition INCOMPAT_FILETYPE :: u32 where "INCOMPAT_FILETYPE = 0x0002"
definition SUPPORTED_INCOMPAT :: u32 where "SUPPORTED_INCOMPAT = INCOMPAT_FILETYPE"

definition S_IFMT :: u16 where "S_IFMT = 0xF000"
definition S_IFREG :: u16 where "S_IFREG = 0x8000"
definition S_IFDIR :: u16 where "S_IFDIR = 0x4000"
definition S_IFLNK :: u16 where "S_IFLNK = 0xA000"

definition FT_REG_FILE :: u8 where "FT_REG_FILE = 1"
definition FT_DIR :: u8 where "FT_DIR = 2"

section \<open>Fields\<close>

text \<open>Reading an integer of a structure from its bytes.\<close>

definition le16 :: "bytes \<Rightarrow> nat \<Rightarrow> u16" where "le16 bs i = le_word (sub_slice i (i + 2) bs)"
definition le32 :: "bytes \<Rightarrow> nat \<Rightarrow> u32" where "le32 bs i = le_word (sub_slice i (i + 4) bs)"

section \<open>The superblock\<close>

record superblock =
  s_inodes_count :: u32
  s_blocks_count :: u32
  s_reserved_blocks_count :: u32
  s_free_blocks_count :: u32
  s_free_inodes_count :: u32
  s_first_data_block :: u32
  s_log_block_size :: u32
  s_log_frag_size :: u32
  s_blocks_per_group :: u32
  s_frags_per_group :: u32
  s_inodes_per_group :: u32
  s_mtime :: u32
  s_wtime :: u32
  s_mnt_count :: u16
  s_max_mnt_count :: u16
  s_magic :: u16
  s_state :: u16
  s_errors :: u16
  s_minor_rev_level :: u16
  s_lastcheck :: u32
  s_checkinterval :: u32
  s_creator_os :: u32
  s_rev_level :: u32
  s_def_resuid :: u16
  s_def_resgid :: u16
  s_first_ino :: u32
  s_inode_size :: u16
  s_block_group_nr :: u16
  s_feature_compat :: u32
  s_feature_incompat :: u32
  s_feature_ro_compat :: u32
  s_tail :: bytes

text \<open>
  \<^verbatim>\<open>s_tail\<close> stands for the fields from the identifier to the padding (uuid, volume name, last
  mount path, compression bitmap), 920 bytes that are carried along and never read.
\<close>

definition superblock_read :: "bytes \<Rightarrow> superblock" where
  "superblock_read bs = \<lparr>
     s_inodes_count = le32 bs 0, s_blocks_count = le32 bs 4, s_reserved_blocks_count = le32 bs 8,
     s_free_blocks_count = le32 bs 12, s_free_inodes_count = le32 bs 16, s_first_data_block = le32 bs 20,
     s_log_block_size = le32 bs 24, s_log_frag_size = le32 bs 28, s_blocks_per_group = le32 bs 32,
     s_frags_per_group = le32 bs 36, s_inodes_per_group = le32 bs 40, s_mtime = le32 bs 44, s_wtime = le32 bs 48,
     s_mnt_count = le16 bs 52, s_max_mnt_count = le16 bs 54, s_magic = le16 bs 56, s_state = le16 bs 58,
     s_errors = le16 bs 60, s_minor_rev_level = le16 bs 62, s_lastcheck = le32 bs 64, s_checkinterval = le32 bs 68,
     s_creator_os = le32 bs 72, s_rev_level = le32 bs 76, s_def_resuid = le16 bs 80, s_def_resgid = le16 bs 82,
     s_first_ino = le32 bs 84, s_inode_size = le16 bs 88, s_block_group_nr = le16 bs 90, s_feature_compat = le32 bs 92,
     s_feature_incompat = le32 bs 96, s_feature_ro_compat = le32 bs 100, s_tail = drop 104 bs\<rparr>"

definition superblock_to_bytes :: "superblock \<Rightarrow> bytes" where
  "superblock_to_bytes s =
     le_bytes 4 (s_inodes_count s) @ le_bytes 4 (s_blocks_count s) @ le_bytes 4 (s_reserved_blocks_count s)
     @ le_bytes 4 (s_free_blocks_count s) @ le_bytes 4 (s_free_inodes_count s) @ le_bytes 4 (s_first_data_block s)
     @ le_bytes 4 (s_log_block_size s) @ le_bytes 4 (s_log_frag_size s) @ le_bytes 4 (s_blocks_per_group s)
     @ le_bytes 4 (s_frags_per_group s) @ le_bytes 4 (s_inodes_per_group s) @ le_bytes 4 (s_mtime s)
     @ le_bytes 4 (s_wtime s) @ le_bytes 2 (s_mnt_count s) @ le_bytes 2 (s_max_mnt_count s) @ le_bytes 2 (s_magic s)
     @ le_bytes 2 (s_state s) @ le_bytes 2 (s_errors s) @ le_bytes 2 (s_minor_rev_level s) @ le_bytes 4 (s_lastcheck s)
     @ le_bytes 4 (s_checkinterval s) @ le_bytes 4 (s_creator_os s) @ le_bytes 4 (s_rev_level s)
     @ le_bytes 2 (s_def_resuid s) @ le_bytes 2 (s_def_resgid s) @ le_bytes 4 (s_first_ino s)
     @ le_bytes 2 (s_inode_size s) @ le_bytes 2 (s_block_group_nr s) @ le_bytes 4 (s_feature_compat s)
     @ le_bytes 4 (s_feature_incompat s) @ le_bytes 4 (s_feature_ro_compat s) @ s_tail s"

definition MAX_LOG_BLOCK_SIZE :: u32 where "MAX_LOG_BLOCK_SIZE = 6"
definition MAX_BLOCK_GROUPS :: nat where "MAX_BLOCK_GROUPS = 1000000"

definition sb_block_size :: "superblock \<Rightarrow> u32 option" where
  "sb_block_size s =
     (if s_log_block_size s > MAX_LOG_BLOCK_SIZE then None
      else Some (push_bit (unat (s_log_block_size s)) 1024))"

definition sb_inode_size :: "superblock \<Rightarrow> u32" where
  "sb_inode_size s = (if s_rev_level s \<ge> 1 then ucast (s_inode_size s) else 128)"

definition div_ceil :: "nat \<Rightarrow> nat \<Rightarrow> nat" where
  "div_ceil a b = (if a mod b = 0 then a div b else a div b + 1)"

definition sb_block_group_count :: "superblock \<Rightarrow> nat option" where
  "sb_block_group_count s =
     (if s_blocks_per_group s = 0 then None
      else Some (div_ceil (unat (s_blocks_count s)) (unat (s_blocks_per_group s))))"

definition sb_validate :: "superblock \<Rightarrow> string + unit" where
  "sb_validate s =
     (if s_log_block_size s > MAX_LOG_BLOCK_SIZE then Inl ''ext2: log_block_size out of range''
      else if s_blocks_count s = 0 then Inl ''ext2: blocks_count is zero''
      else if s_inodes_count s = 0 then Inl ''ext2: inodes_count is zero''
      else if s_blocks_per_group s = 0 then Inl ''ext2: blocks_per_group is zero''
      else if s_inodes_per_group s = 0 then Inl ''ext2: inodes_per_group is zero''
      else if s_rev_level s \<ge> 1 \<and> (s_inode_size s < 128 \<or> s_inode_size s > 1024)
        then Inl ''ext2: inode_size out of range''
      else if div_ceil (unat (s_blocks_count s)) (unat (s_blocks_per_group s)) > MAX_BLOCK_GROUPS
        then Inl ''ext2: too many block groups''
      else Inr ())"

definition unsupported_incompat_features :: "superblock \<Rightarrow> u32" where
  "unsupported_incompat_features s = s_feature_incompat s AND NOT SUPPORTED_INCOMPAT"

section \<open>Block group descriptors\<close>

record block_group_descriptor =
  bg_block_bitmap :: u32
  bg_inode_bitmap :: u32
  bg_inode_table :: u32
  bg_free_blocks_count :: u16
  bg_free_inodes_count :: u16
  bg_used_dirs_count :: u16
  bg_pad :: u16
  bg_reserved :: bytes

definition bgd_read :: "bytes \<Rightarrow> block_group_descriptor" where
  "bgd_read bs = \<lparr>bg_block_bitmap = le32 bs 0, bg_inode_bitmap = le32 bs 4, bg_inode_table = le32 bs 8,
     bg_free_blocks_count = le16 bs 12, bg_free_inodes_count = le16 bs 14, bg_used_dirs_count = le16 bs 16,
     bg_pad = le16 bs 18, bg_reserved = sub_slice 20 32 bs\<rparr>"

definition bgd_to_bytes :: "block_group_descriptor \<Rightarrow> bytes" where
  "bgd_to_bytes g =
     le_bytes 4 (bg_block_bitmap g) @ le_bytes 4 (bg_inode_bitmap g) @ le_bytes 4 (bg_inode_table g)
     @ le_bytes 2 (bg_free_blocks_count g) @ le_bytes 2 (bg_free_inodes_count g) @ le_bytes 2 (bg_used_dirs_count g)
     @ le_bytes 2 (bg_pad g) @ bg_reserved g"

section \<open>Inodes\<close>

record inode =
  i_mode :: u16
  i_uid :: u16
  i_size_low :: u32
  i_atime :: u32
  i_ctime :: u32
  i_mtime :: u32
  i_dtime :: u32
  i_gid :: u16
  i_links_count :: u16
  i_blocks :: u32
  i_flags :: u32
  i_osd1 :: u32
  i_block :: "u32 list"
  i_generation :: u32
  i_file_acl :: u32
  i_size_high :: u32
  i_faddr :: u32
  i_osd2 :: bytes

definition inode_read :: "bytes \<Rightarrow> inode" where
  "inode_read bs = \<lparr>i_mode = le16 bs 0, i_uid = le16 bs 2, i_size_low = le32 bs 4, i_atime = le32 bs 8,
     i_ctime = le32 bs 12, i_mtime = le32 bs 16, i_dtime = le32 bs 20, i_gid = le16 bs 24, i_links_count = le16 bs 26,
     i_blocks = le32 bs 28, i_flags = le32 bs 32, i_osd1 = le32 bs 36,
     i_block = map (\<lambda>k. le32 bs (40 + 4 * k)) [0..<15], i_generation = le32 bs 100, i_file_acl = le32 bs 104,
     i_size_high = le32 bs 108, i_faddr = le32 bs 112, i_osd2 = sub_slice 116 128 bs\<rparr>"

definition inode_to_bytes :: "inode \<Rightarrow> bytes" where
  "inode_to_bytes n =
     le_bytes 2 (i_mode n) @ le_bytes 2 (i_uid n) @ le_bytes 4 (i_size_low n) @ le_bytes 4 (i_atime n)
     @ le_bytes 4 (i_ctime n) @ le_bytes 4 (i_mtime n) @ le_bytes 4 (i_dtime n) @ le_bytes 2 (i_gid n)
     @ le_bytes 2 (i_links_count n) @ le_bytes 4 (i_blocks n) @ le_bytes 4 (i_flags n) @ le_bytes 4 (i_osd1 n)
     @ concat (map (le_bytes 4) (i_block n)) @ le_bytes 4 (i_generation n) @ le_bytes 4 (i_file_acl n)
     @ le_bytes 4 (i_size_high n) @ le_bytes 4 (i_faddr n) @ i_osd2 n"

definition inode_size :: "inode \<Rightarrow> u64" where
  "inode_size n = ucast (i_size_low n) OR push_bit 32 (ucast (i_size_high n))"

definition inode_set_size :: "u64 \<Rightarrow> inode \<Rightarrow> inode" where
  "inode_set_size sz n = n\<lparr>i_size_low := ucast sz, i_size_high := ucast (drop_bit 32 sz)\<rparr>"

definition inode_is_dir :: "inode \<Rightarrow> bool" where
  "inode_is_dir n \<longleftrightarrow> i_mode n AND S_IFMT = S_IFDIR"

definition inode_is_file :: "inode \<Rightarrow> bool" where
  "inode_is_file n \<longleftrightarrow> i_mode n AND S_IFMT = S_IFREG"

definition inode_is_symlink :: "inode \<Rightarrow> bool" where
  "inode_is_symlink n \<longleftrightarrow> i_mode n AND S_IFMT = S_IFLNK"

section \<open>Layout\<close>

lemma sub_slice_skip:
  "length a \<le> i \<Longrightarrow> i \<le> j \<Longrightarrow> sub_slice i j (a @ b) = sub_slice (i - length a) (j - length a) b"
  by (simp add: sub_slice_def)

lemma sub_slice_front: "length a = n \<Longrightarrow> sub_slice 0 n (a @ b) = a" "length a = n \<Longrightarrow> sub_slice 0 n a = a"
  by (simp_all add: sub_slice_def)

lemma le_skip:
  "length a \<le> i \<Longrightarrow> le16 (a @ b) i = le16 b (i - length a)"
  "length a \<le> i \<Longrightarrow> le32 (a @ b) i = le32 b (i - length a)"
  by (simp_all add: le16_def le32_def sub_slice_def)

lemma le_front [simp]:
  "le16 (le_bytes 2 w @ b) 0 = w" "le32 (le_bytes 4 v @ b) 0 = v"
  by (simp_all add: le16_def le32_def sub_slice_front)

lemma le_exact [simp]: "le16 (le_bytes 2 w) 0 = w" "le32 (le_bytes 4 v) 0 = v"
  by (simp_all add: le16_def le32_def sub_slice_front)

lemma superblock_read_to_bytes: "superblock_read (superblock_to_bytes s) = s"
  by (simp add: superblock_read_def superblock_to_bytes_def le_skip)

lemma length_superblock_to_bytes: "length (s_tail s) = 920 \<Longrightarrow> length (superblock_to_bytes s) = 1024"
  by (simp add: superblock_to_bytes_def)

lemma bgd_read_to_bytes: "length (bg_reserved g) = 12 \<Longrightarrow> bgd_read (bgd_to_bytes g) = g"
  by (simp add: bgd_read_def bgd_to_bytes_def le_skip sub_slice_skip sub_slice_front)

lemma length_bgd_to_bytes: "length (bg_reserved g) = 12 \<Longrightarrow> length (bgd_to_bytes g) = 32"
  by (simp add: bgd_to_bytes_def)

lemma le32_pointers:
  "k < length ps \<Longrightarrow> le32 (concat (map (le_bytes 4) ps) @ b) (4 * k) = ps ! k"
proof (induction ps arbitrary: k)
  case (Cons p ps)
  then show ?case by (cases k) (simp_all add: le_skip)
qed simp

lemma length_pointers: "length (concat (map (le_bytes 4) ps)) = 4 * length ps"
  by (simp add: length_concat o_def sum_list_triv)

lemma length_inode_to_bytes:
  "length (i_block n) = 15 \<Longrightarrow> length (i_osd2 n) = 12 \<Longrightarrow> length (inode_to_bytes n) = 128"
  by (simp add: inode_to_bytes_def length_pointers)

lemma inode_read_to_bytes:
  assumes "length (i_block n) = 15" "length (i_osd2 n) = 12"
  shows "inode_read (inode_to_bytes n) = n"
proof -
  have "map (\<lambda>k. le32 (inode_to_bytes n) (40 + 4 * k)) [0..<15] = i_block n"
    using assms(1) by (intro nth_equalityI) (simp_all add: inode_to_bytes_def le_skip le32_pointers)
  then show ?thesis
    using assms
    by (simp add: inode_read_def inode_to_bytes_def le_skip length_pointers sub_slice_skip sub_slice_front)
qed

lemma inode_size_set [simp]: "inode_size (inode_set_size sz n) = sz"
  by (rule bit_word_eqI) (auto simp: inode_size_def inode_set_size_def bit_simps)

lemma inode_set_size_simps [simp]:
  "i_block (inode_set_size sz n) = i_block n" "i_osd2 (inode_set_size sz n) = i_osd2 n"
  "i_mode (inode_set_size sz n) = i_mode n" "i_links_count (inode_set_size sz n) = i_links_count n"
  by (simp_all add: inode_set_size_def)

lemma sb_validate_Inr:
  assumes "sb_validate s = Inr ()"
  obtains k where "k \<le> 6" "sb_block_size s = Some (2 ^ (10 + k))"
    and "sb_block_group_count s = Some (div_ceil (unat (s_blocks_count s)) (unat (s_blocks_per_group s)))"
    and "div_ceil (unat (s_blocks_count s)) (unat (s_blocks_per_group s)) \<le> MAX_BLOCK_GROUPS"
    and "s_blocks_count s \<noteq> 0" "s_inodes_count s \<noteq> 0" "s_blocks_per_group s \<noteq> 0" "s_inodes_per_group s \<noteq> 0"
    and "128 \<le> sb_inode_size s" "sb_inode_size s \<le> 1024"
proof
  show "unat (s_log_block_size s) \<le> 6"
    using assms by (auto simp: sb_validate_def MAX_LOG_BLOCK_SIZE_def word_le_nat_alt not_less split: if_splits)
  show "sb_block_size s = Some (2 ^ (10 + unat (s_log_block_size s)))"
    using assms by (auto simp: sb_validate_def sb_block_size_def push_bit_eq_mult power_add split: if_splits)
qed (use assms in \<open>auto simp: sb_validate_def sb_block_group_count_def sb_inode_size_def not_less
      word_le_nat_alt unat_ucast_le split: if_splits\<close>)

end
