(* ===== verification/Block_Device.thy ===== *)
theory Block_Device
  imports Vfs "HOL-Library.Monad_Syntax"
begin

text \<open>
  Block devices: the byte-level interface that file systems are written against,
  and the virtio driver that implements it over whole sectors. The transfer of
  sectors itself is done by an external driver library and the device, and is a
  parameter of the model.
\<close>

section \<open>The interface\<close>

text \<open>
  A device is its operations together with a state. A read fills a prefix of the
  caller's buffer and returns its length; an arithmetic panic is the outer
  \<^verbatim>\<open>None\<close>.
\<close>

record 'd block_device =
  dev_read_at :: "'d \<Rightarrow> nat \<Rightarrow> bytes \<Rightarrow> (block_error + nat \<times> bytes) option"
  dev_write_at :: "'d \<Rightarrow> nat \<Rightarrow> bytes \<Rightarrow> ((block_error + nat) \<times> 'd) option"
  dev_size :: "'d \<Rightarrow> nat option"

definition fits_u64 :: "nat \<Rightarrow> nat option" where
  "fits_u64 n = (if n < 2 ^ 64 then Some n else None)"

section \<open>The virtio driver\<close>

text \<open>
  Transfers of the external library: from a start sector, a number of bytes. A
  failed transfer is reported as such and may leave the medium in any state.
\<close>

record 'h virtio_blk =
  read_blocks :: "'h \<Rightarrow> nat \<Rightarrow> nat \<Rightarrow> bytes option"
  write_blocks :: "'h \<Rightarrow> nat \<Rightarrow> bytes \<Rightarrow> bool \<times> 'h"

record 'h virtio_block_inner =
  vbi_device :: 'h
  capacity_sectors :: u64
  sector_size :: u32

definition virtio_total_size :: "'h virtio_block_inner \<Rightarrow> nat option" where
  "virtio_total_size d = fits_u64 (unat (capacity_sectors d) * unat (sector_size d))"

definition virtio_read_at ::
  "'h virtio_blk \<Rightarrow> 'h virtio_block_inner \<Rightarrow> nat \<Rightarrow> bytes \<Rightarrow> (block_error + nat \<times> bytes) option" where
  "virtio_read_at hw d offset buf =
     (if buf = [] then Some (Inr (0, buf))
      else do {
        total_size \<leftarrow> virtio_total_size d;
        if total_size \<le> offset then Some (Inr (0, buf))
        else do {
          let to_read = min (length buf) (total_size - offset);
          let start_sector = offset div unat (sector_size d);
          let offset_in_sector = offset mod unat (sector_size d);
          rounded \<leftarrow> fits_u64 (offset + to_read + unat (sector_size d));
          let num_sectors = (rounded - 1) div unat (sector_size d) - start_sector;
          if offset_in_sector = 0 \<and> to_read mod unat (sector_size d) = 0 then
            (case read_blocks hw (vbi_device d) start_sector to_read of
               None \<Rightarrow> Some (Inl BlkIoError)
             | Some bs \<Rightarrow> Some (Inr (to_read, copy_at 0 bs buf)))
          else
            (case read_blocks hw (vbi_device d) start_sector (num_sectors * unat (sector_size d)) of
               None \<Rightarrow> Some (Inl BlkIoError)
             | Some sector_buf \<Rightarrow>
                 Some (Inr (to_read, copy_at 0 (sub_slice offset_in_sector (offset_in_sector + to_read) sector_buf) buf))) } })"

definition virtio_write_at ::
  "'h virtio_blk \<Rightarrow> 'h virtio_block_inner \<Rightarrow> nat \<Rightarrow> bytes
     \<Rightarrow> ((block_error + nat) \<times> 'h virtio_block_inner) option" where
  "virtio_write_at hw d offset buf =
     (if buf = [] then Some (Inr 0, d)
      else do {
        total_size \<leftarrow> virtio_total_size d;
        if total_size \<le> offset then Some (Inl BlkInvalidOffset, d)
        else do {
          let to_write = min (length buf) (total_size - offset);
          let start_sector = offset div unat (sector_size d);
          let offset_in_sector = offset mod unat (sector_size d);
          rounded \<leftarrow> fits_u64 (offset + to_write + unat (sector_size d));
          let num_sectors = (rounded - 1) div unat (sector_size d) - start_sector;
          if offset_in_sector = 0 \<and> to_write mod unat (sector_size d) = 0 then
            (case write_blocks hw (vbi_device d) start_sector (take to_write buf) of
               (ok, h) \<Rightarrow> Some (if ok then Inr to_write else Inl BlkIoError, d\<lparr>vbi_device := h\<rparr>))
          else
            (case read_blocks hw (vbi_device d) start_sector (num_sectors * unat (sector_size d)) of
               None \<Rightarrow> Some (Inl BlkIoError, d)
             | Some sector_buf \<Rightarrow>
                 (case write_blocks hw (vbi_device d) start_sector (copy_at offset_in_sector (take to_write buf) sector_buf) of
                    (ok, h) \<Rightarrow> Some (if ok then Inr to_write else Inl BlkIoError, d\<lparr>vbi_device := h\<rparr>))) } })"

definition virtio_device :: "'h virtio_blk \<Rightarrow> 'h virtio_block_inner block_device" where
  "virtio_device hw = \<lparr>dev_read_at = virtio_read_at hw, dev_write_at = virtio_write_at hw, dev_size = virtio_total_size\<rparr>"

section \<open>The contract\<close>

text \<open>
  What a client relies on, for the device states that are \<^verbatim>\<open>valid\<close>. \<^verbatim>\<open>contents\<close> are the bytes on
  the medium: a read in range returns them, a write in range replaces exactly the bytes written.
  Transfers may fail if the device is \<^verbatim>\<open>faulty\<close>; a failed write may leave any contents.
\<close>

definition device_contract :: "'d block_device \<Rightarrow> ('d \<Rightarrow> bool) \<Rightarrow> ('d \<Rightarrow> bytes) \<Rightarrow> bool \<Rightarrow> bool" where
  "device_contract bd valid contents faulty \<longleftrightarrow>
     (\<forall>d off buf. valid d \<longrightarrow> off + length buf \<le> length (contents d) \<longrightarrow>
        (faulty \<and> (\<exists>e. dev_read_at bd d off buf = Some (Inl e))) \<or>
        dev_read_at bd d off buf = Some (Inr (length buf, sub_slice off (off + length buf) (contents d)))) \<and>
     (\<forall>d off buf. valid d \<longrightarrow> off + length buf \<le> length (contents d) \<longrightarrow>
        (\<exists>r d'. dev_write_at bd d off buf = Some (r, d') \<and> valid d' \<and> length (contents d') = length (contents d) \<and>
           (case r of Inl e \<Rightarrow> faulty
            | Inr k \<Rightarrow> k = length buf \<and> contents d' = copy_at off buf (contents d))))"

text \<open>The transfers of the external library, as its documentation describes them, on sectors of 512 bytes.\<close>

definition sector_transfers :: "'h virtio_blk \<Rightarrow> ('h \<Rightarrow> bytes) \<Rightarrow> nat \<Rightarrow> bool \<Rightarrow> bool" where
  "sector_transfers hw medium n faulty \<longleftrightarrow>
     (\<forall>h s k. length (medium h) = n \<longrightarrow> 0 < k \<longrightarrow> 512 dvd k \<longrightarrow> s * 512 + k \<le> n \<longrightarrow>
        (faulty \<and> read_blocks hw h s k = None)
        \<or> read_blocks hw h s k = Some (sub_slice (s * 512) (s * 512 + k) (medium h))) \<and>
     (\<forall>h s bs. length (medium h) = n \<longrightarrow> bs \<noteq> [] \<longrightarrow> 512 dvd length bs \<longrightarrow> s * 512 + length bs \<le> n \<longrightarrow>
        (case write_blocks hw h s bs of (ok, h') \<Rightarrow>
           length (medium h') = n \<and> (if ok then medium h' = copy_at (s * 512) bs (medium h) else faulty)))"

text \<open>A driver state that agrees with its medium.\<close>

definition virtio_valid :: "('h \<Rightarrow> bytes) \<Rightarrow> nat \<Rightarrow> 'h virtio_block_inner \<Rightarrow> bool" where
  "virtio_valid medium n d \<longleftrightarrow>
     sector_size d = 512 \<and> unat (capacity_sectors d) * 512 = n \<and> length (medium (vbi_device d)) = n"

section \<open>The driver keeps the contract\<close>

lemma sub_slice_sub_slice:
  "i + k + m \<le> j \<Longrightarrow> sub_slice k (k + m) (sub_slice i j xs) = sub_slice (i + k) (i + k + m) xs"
  by (simp add: sub_slice_def take_drop add.commute add.left_commute min_def)

lemma copy_at_zero: "length bs = length buf \<Longrightarrow> copy_at 0 bs buf = bs"
  by (simp add: copy_at_def)

lemma copy_at_sub_slice:
  assumes "i + k + length v \<le> j" "j \<le> length xs"
  shows "copy_at i (copy_at k v (sub_slice i j xs)) xs = copy_at (i + k) v xs"
proof -
  have "take i xs @ take k (take (j - i) (drop i xs)) @ zs = take (i + k) xs @ zs" for zs
    using assms by (simp add: take_add min_def)
  moreover have "drop (k + length v) (take (j - i) (drop i xs)) @ drop j xs = drop (i + k + length v) xs"
  proof -
    have "drop (k + length v) (take (j - i) (drop i xs)) = take (j - (i + k + length v)) (drop (i + k + length v) xs)"
      using assms by (simp add: drop_take add.commute add.left_commute)
    moreover have "drop j xs = drop (j - (i + k + length v)) (drop (i + k + length v) xs)"
      using assms by simp
    ultimately show ?thesis by (simp only: append_take_drop_id)
  qed
  moreover have "i + length (copy_at k v (sub_slice i j xs)) = j"
    using assms length_copy_at [of k v "sub_slice i j xs"] by simp
  ultimately show ?thesis
    by (simp only: copy_at_def [of i] copy_at_def [of k] copy_at_def [of "i + k"] sub_slice_def append_assoc)
qed

text \<open>The sectors that a range of bytes touches.\<close>

lemma sector_range:
  fixes off len :: nat
  assumes "0 < len"
  defines "s \<equiv> off div 512" and "k \<equiv> (off + len + 512 - 1) div 512 - off div 512"
  shows "s * 512 + off mod 512 = off" "off mod 512 + len \<le> k * 512" "0 < k"
    and "512 dvd n \<Longrightarrow> off + len \<le> n \<Longrightarrow> s * 512 + k * 512 \<le> n"
proof -
  show *: "s * 512 + off mod 512 = off" by (simp add: s_def)
  have "off + len \<le> (off + len + 512 - 1) div 512 * 512"
    using div_mult_mod_eq [of "off + len + 512 - 1" 512] mod_less_divisor [of 512 "off + len + 512 - 1"] by linarith
  then show le: "off mod 512 + len \<le> k * 512"
    using div_mult_mod_eq [of off 512] unfolding k_def diff_mult_distrib by linarith
  then show "0 < k" using assms(1) by (cases k) auto
  assume "512 dvd n" "off + len \<le> n"
  then have "(off + len + 512 - 1) div 512 \<le> (n + 511) div 512" "(n + 511) div 512 * 512 = n"
    by (auto intro: div_le_mono elim!: dvdE)
  then have "(off + len + 512 - 1) div 512 * 512 \<le> n"
    by (metis mult_le_mono1)
  moreover have "off div 512 \<le> (off + len + 512 - 1) div 512"
    by (rule div_le_mono) simp
  ultimately show "s * 512 + k * 512 \<le> n"
    by (simp add: k_def s_def diff_mult_distrib)
qed

lemma virtio_valid_length: "virtio_valid medium n d \<Longrightarrow> length (medium (vbi_device d)) = n"
  by (simp add: virtio_valid_def)

lemma virtio_read_at_eq:
  assumes "sector_transfers hw medium n faulty" "virtio_valid medium n d" "n < 2 ^ 63"
    and "off < n" "buf \<noteq> []"
  defines "len \<equiv> min (length buf) (n - off)"
  shows "(faulty \<and> virtio_read_at hw d off buf = Some (Inl BlkIoError)) \<or>
    virtio_read_at hw d off buf =
      Some (Inr (len, sub_slice off (off + len) (medium (vbi_device d)) @ drop len buf))"
proof -
  let ?m = "medium (vbi_device d)"
  let ?k = "(off + len + 512 - 1) div 512 - off div 512"
  have d: "unat (sector_size d) = 512" "virtio_total_size d = Some n" "length ?m = n" "512 dvd n"
    using assms(2,3) by (auto simp: virtio_valid_def virtio_total_size_def fits_u64_def)
  have len: "0 < len" "off + len \<le> n" using assms(4,5) by (auto simp: len_def min_def)
  note range = sector_range [OF len(1), where off = off]
  have fits: "fits_u64 (off + len + 512) = Some (off + len + 512)"
    using assms(3) len(2) by (simp add: fits_u64_def)
  have rd: "(faulty \<and> read_blocks hw (vbi_device d) s k = None)
      \<or> read_blocks hw (vbi_device d) s k = Some (sub_slice (s * 512) (s * 512 + k) ?m)"
    if "0 < k" "512 dvd k" "s * 512 + k \<le> n" for s k
    using assms(1) that d(3) by (auto simp: sector_transfers_def)
  have whole: "copy_at 0 (sub_slice off (off + len) ?m) buf = sub_slice off (off + len) ?m @ drop len buf"
    using len(2) d(3) by (simp add: copy_at_def)
  have unfolded: "virtio_read_at hw d off buf =
      (if off mod 512 = 0 \<and> len mod 512 = 0 then
         case read_blocks hw (vbi_device d) (off div 512) len of
           None \<Rightarrow> Some (Inl BlkIoError) | Some bs \<Rightarrow> Some (Inr (len, copy_at 0 bs buf))
       else
         case read_blocks hw (vbi_device d) (off div 512) (?k * 512) of
           None \<Rightarrow> Some (Inl BlkIoError)
         | Some bs \<Rightarrow> Some (Inr (len, copy_at 0 (sub_slice (off mod 512) (off mod 512 + len) bs) buf)))"
    using assms(4,5) by (simp add: virtio_read_at_def Let_def d fits flip: len_def)
  show ?thesis
  proof (cases "off mod 512 = 0 \<and> len mod 512 = 0")
    case True
    then have "off div 512 * 512 = off" "512 dvd len" by auto
    then show ?thesis
      using rd [OF len(1), of "off div 512"] True len(2) whole unfolded by auto
  next
    case False
    have "sub_slice (off mod 512) (off mod 512 + len) (sub_slice (off div 512 * 512) (off div 512 * 512 + ?k * 512) ?m)
        = sub_slice off (off + len) ?m"
      using sub_slice_sub_slice [of "off div 512 * 512" "off mod 512" len "off div 512 * 512 + ?k * 512" ?m] range(1,2)
      by simp
    then show ?thesis
      using rd [of "?k * 512" "off div 512"] range(3) range(4) [OF d(4) len(2)] False whole unfolded by auto
  qed
qed

lemma virtio_write_at_eq:
  assumes "sector_transfers hw medium n faulty" "virtio_valid medium n d" "n < 2 ^ 63"
    and "off < n" "buf \<noteq> []"
  defines "len \<equiv> min (length buf) (n - off)"
  shows "\<exists>r d'. virtio_write_at hw d off buf = Some (r, d') \<and> virtio_valid medium n d' \<and>
    (case r of Inl e \<Rightarrow> faulty
     | Inr k \<Rightarrow> k = len \<and> medium (vbi_device d') = copy_at off (take len buf) (medium (vbi_device d)))"
proof -
  let ?m = "medium (vbi_device d)"
  let ?k = "(off + len + 512 - 1) div 512 - off div 512"
  have d: "unat (sector_size d) = 512" "virtio_total_size d = Some n" "length ?m = n" "512 dvd n"
    using assms(2,3) by (auto simp: virtio_valid_def virtio_total_size_def fits_u64_def)
  have len: "0 < len" "off + len \<le> n" using assms(4,5) by (auto simp: len_def min_def)
  have length_taken: "length (take len buf) = len" by (simp add: len_def)
  note range = sector_range [OF len(1), where off = off]
  have fits: "fits_u64 (off + len + 512) = Some (off + len + 512)"
    using assms(3) len(2) by (simp add: fits_u64_def)
  have wr: "\<exists>r d'. (case write_blocks hw (vbi_device d) s bs of
        (ok, h) \<Rightarrow> Some (if ok then Inr len else Inl BlkIoError, d\<lparr>vbi_device := h\<rparr>)) = Some (r, d')
      \<and> virtio_valid medium n d'
      \<and> (case r of Inl e \<Rightarrow> faulty | Inr k \<Rightarrow> k = len \<and> medium (vbi_device d') = copy_at (s * 512) bs ?m)"
    if "bs \<noteq> []" "512 dvd length bs" "s * 512 + length bs \<le> n" for s bs
  proof -
    have "case write_blocks hw (vbi_device d) s bs of (ok, h') \<Rightarrow>
        length (medium h') = n \<and> (if ok then medium h' = copy_at (s * 512) bs ?m else faulty)"
      using assms(1) d(3) that by (simp add: sector_transfers_def)
    then show ?thesis
      using assms(2) by (auto simp: virtio_valid_def split: prod.splits if_splits)
  qed
  have unfolded: "virtio_write_at hw d off buf =
      (if off mod 512 = 0 \<and> len mod 512 = 0 then
         case write_blocks hw (vbi_device d) (off div 512) (take len buf) of
           (ok, h) \<Rightarrow> Some (if ok then Inr len else Inl BlkIoError, d\<lparr>vbi_device := h\<rparr>)
       else
         case read_blocks hw (vbi_device d) (off div 512) (?k * 512) of
           None \<Rightarrow> Some (Inl BlkIoError, d)
         | Some bs \<Rightarrow>
             (case write_blocks hw (vbi_device d) (off div 512) (copy_at (off mod 512) (take len buf) bs) of
                (ok, h) \<Rightarrow> Some (if ok then Inr len else Inl BlkIoError, d\<lparr>vbi_device := h\<rparr>)))"
    using assms(4,5) by (simp add: virtio_write_at_def Let_def d fits flip: len_def)
  show ?thesis
  proof (cases "off mod 512 = 0 \<and> len mod 512 = 0")
    case True
    then have al: "off div 512 * 512 = off" "512 dvd len" by auto
    then show ?thesis
      using wr [of "take len buf" "off div 512", unfolded al(1)] True len assms(5) length_taken unfolded by simp
  next
    case False
    let ?old = "sub_slice (off div 512 * 512) (off div 512 * 512 + ?k * 512) ?m"
    have rd: "(faulty \<and> read_blocks hw (vbi_device d) (off div 512) (?k * 512) = None)
      \<or> read_blocks hw (vbi_device d) (off div 512) (?k * 512) = Some ?old"
      using assms(1) d(3) range(3) range(4) [OF d(4) len(2)] by (simp add: sector_transfers_def)
    have "length ?old = ?k * 512" using range(4) [OF d(4) len(2)] d(3) by simp
    then have len_new: "length (copy_at (off mod 512) (take len buf) ?old) = ?k * 512"
      using range(2) length_taken by simp
    then have new: "copy_at (off mod 512) (take len buf) ?old \<noteq> []"
      using range(3) by (metis length_0_conv mult_eq_0_iff not_gr_zero zero_neq_numeral)
    have eq: "copy_at (off div 512 * 512) (copy_at (off mod 512) (take len buf) ?old) ?m = copy_at off (take len buf) ?m"
    proof -
      have "off div 512 * 512 + off mod 512 + len \<le> off div 512 * 512 + ?k * 512"
        using range(2) by linarith
      then have "off div 512 * 512 + off mod 512 + length (take len buf) \<le> off div 512 * 512 + ?k * 512"
        unfolding length_taken .
      from copy_at_sub_slice [OF this, of ?m] show ?thesis
        using range(4) [OF d(4) len(2)] d(3) unfolding range(1) by simp
    qed
    from rd show ?thesis
    proof (elim disjE conjE)
      assume "read_blocks hw (vbi_device d) (off div 512) (?k * 512) = None" "faulty"
      then show ?thesis
        using unfolded False assms(2) by simp
    next
      assume "read_blocks hw (vbi_device d) (off div 512) (?k * 512) = Some ?old"
      then show ?thesis
        using wr [OF new, of "off div 512", unfolded eq len_new] range(4) [OF d(4) len(2)]
        by (simp only: unfolded False if_False option.case simp_thms dvd_triv_right)
    qed
  qed
qed

text \<open>
  A device that never panics, whatever is asked of it, and fills at most the buffer it is given. Nothing
  is assumed of the data.
\<close>

definition tame_device :: "'d block_device \<Rightarrow> ('d \<Rightarrow> bool) \<Rightarrow> bool" where
  "tame_device bd valid \<longleftrightarrow>
     (\<forall>d off buf. valid d \<longrightarrow>
        (\<exists>r. dev_read_at bd d off buf = Some r \<and> (\<forall>n b. r = Inr (n, b) \<longrightarrow> length b = length buf))) \<and>
     (\<forall>d off buf. valid d \<longrightarrow> (\<exists>r d'. dev_write_at bd d off buf = Some (r, d') \<and> valid d'))"

lemma tame_read:
  assumes "tame_device bd valid" "valid d"
  obtains r where "dev_read_at bd d off buf = Some r" "\<forall>n b. r = Inr (n, b) \<longrightarrow> length b = length buf"
  using assms unfolding tame_device_def by blast

lemma tame_write:
  assumes "tame_device bd valid" "valid d"
  obtains r d' where "dev_write_at bd d off buf = Some (r, d')" "valid d'"
  using assms unfolding tame_device_def by blast

lemma virtio_tame:
  assumes "sector_transfers hw medium n faulty" "n < 2 ^ 63"
  shows "tame_device (virtio_device hw) (virtio_valid medium n)"
  unfolding tame_device_def
proof (intro conjI allI impI)
  fix d off and buf :: bytes
  assume d: "virtio_valid medium n d"
  then have total: "virtio_total_size d = Some n"
    using assms(2) by (simp add: virtio_valid_def virtio_total_size_def fits_u64_def)
  have edge: "buf = [] \<or> n \<le> off \<Longrightarrow> virtio_read_at hw d off buf = Some (Inr (0, buf))"
    "buf = [] \<or> n \<le> off \<Longrightarrow> \<exists>r. virtio_write_at hw d off buf = Some (r, d)"
    using total by (auto simp: virtio_read_at_def virtio_write_at_def)
  show "\<exists>r. dev_read_at (virtio_device hw) d off buf = Some r \<and> (\<forall>k b. r = Inr (k, b) \<longrightarrow> length b = length buf)"
    using edge(1) virtio_read_at_eq [OF assms(1) d assms(2), of off buf] virtio_valid_length [OF d]
    by (cases "buf = [] \<or> n \<le> off") (auto simp: virtio_device_def)
  show "\<exists>r d'. dev_write_at (virtio_device hw) d off buf = Some (r, d') \<and> virtio_valid medium n d'"
    using edge(2) virtio_write_at_eq [OF assms(1) d assms(2), of off buf] d
    by (cases "buf = [] \<or> n \<le> off") (auto simp: virtio_device_def)
qed

lemma virtio_contract:
  assumes "sector_transfers hw medium n faulty" "n < 2 ^ 63"
  shows "device_contract (virtio_device hw) (virtio_valid medium n) (medium \<circ> vbi_device) faulty"
  unfolding device_contract_def
proof (intro conjI allI impI)
  fix d off and buf :: bytes
  assume d: "virtio_valid medium n d" "off + length buf \<le> length ((medium \<circ> vbi_device) d)"
  then have n: "off + length buf \<le> n" by (simp add: virtio_valid_def)
  show "faulty \<and> (\<exists>e. dev_read_at (virtio_device hw) d off buf = Some (Inl e)) \<or>
      dev_read_at (virtio_device hw) d off buf =
        Some (Inr (length buf, sub_slice off (off + length buf) ((medium \<circ> vbi_device) d)))"
  proof (cases "buf = []")
    case True
    then show ?thesis by (simp add: virtio_device_def virtio_read_at_def sub_slice_def)
  next
    case False
    then have "off < n" "min (length buf) (n - off) = length buf" using n by (simp_all flip: length_greater_0_conv)
    then show ?thesis
      using virtio_read_at_eq [OF assms(1) d(1) assms(2) _ False, of off] by (auto simp: virtio_device_def)
  qed
  show "\<exists>r d'. dev_write_at (virtio_device hw) d off buf = Some (r, d') \<and> virtio_valid medium n d' \<and>
      length ((medium \<circ> vbi_device) d') = length ((medium \<circ> vbi_device) d) \<and>
      (case r of Inl e \<Rightarrow> faulty
       | Inr k \<Rightarrow> k = length buf \<and> (medium \<circ> vbi_device) d' = copy_at off buf ((medium \<circ> vbi_device) d))"
  proof (cases "buf = []")
    case True
    then show ?thesis using d(1) by (simp add: virtio_device_def virtio_write_at_def copy_at_def)
  next
    case False
    then have lt: "off < n" "min (length buf) (n - off) = length buf" using n by (simp_all flip: length_greater_0_conv)
    obtain r d' where
      "virtio_write_at hw d off buf = Some (r, d')" "virtio_valid medium n d'"
      "case r of Inl e \<Rightarrow> faulty
       | Inr k \<Rightarrow> k = length buf \<and> medium (vbi_device d') = copy_at off buf (medium (vbi_device d))"
      using virtio_write_at_eq [OF assms(1) d(1) assms(2) lt(1) False, unfolded lt(2) take_all [OF order_refl]] by blast
    then show ?thesis
      using d(1) by (cases r) (simp_all add: virtio_device_def virtio_valid_def)
  qed
qed

section \<open>A reliable disk\<close>

text \<open>
  The contract as file systems use it: a device whose transfers succeed. \<^verbatim>\<open>stored\<close> is the state of the
  device after a write.
\<close>

definition stored :: "'d block_device \<Rightarrow> 'd \<Rightarrow> nat \<Rightarrow> bytes \<Rightarrow> 'd" where
  "stored bd d off buf = snd (the (dev_write_at bd d off buf))"

locale disk =
  fixes bd :: "'d block_device" and valid :: "'d \<Rightarrow> bool" and contents :: "'d \<Rightarrow> bytes"
  assumes contract: "device_contract bd valid contents False"
begin

lemma disk_read:
  "valid d \<Longrightarrow> off + length buf \<le> length (contents d) \<Longrightarrow>
   dev_read_at bd d off buf = Some (Inr (length buf, sub_slice off (off + length buf) (contents d)))"
  using contract by (simp add: device_contract_def)

lemma disk_write:
  assumes "valid d" "off + length buf \<le> length (contents d)"
  shows "dev_write_at bd d off buf = Some (Inr (length buf), stored bd d off buf)"
    and "valid (stored bd d off buf)"
    and "contents (stored bd d off buf) = copy_at off buf (contents d)"
proof -
  obtain r d' where "dev_write_at bd d off buf = Some (r, d')" "valid d'"
    "case r of Inl e \<Rightarrow> False | Inr k \<Rightarrow> k = length buf \<and> contents d' = copy_at off buf (contents d)"
    using contract assms by (auto simp: device_contract_def) blast
  then show "dev_write_at bd d off buf = Some (Inr (length buf), stored bd d off buf)"
    and "valid (stored bd d off buf)"
    and "contents (stored bd d off buf) = copy_at off buf (contents d)"
    by (auto simp: stored_def split: sum.splits)
qed

end

text \<open>Sectors held in memory.\<close>

definition ram_transfers :: "bytes virtio_blk" where
  "ram_transfers = \<lparr>read_blocks = \<lambda>h s k. Some (sub_slice (s * 512) (s * 512 + k) h),
     write_blocks = \<lambda>h s bs. (True, copy_at (s * 512) bs h)\<rparr>"

lemma ram_sector_transfers: "sector_transfers ram_transfers (\<lambda>h. h) n False"
  by (simp add: sector_transfers_def ram_transfers_def)

text \<open>The virtio driver over a medium of one megabyte.\<close>

interpretation virtio_ram: disk "virtio_device ram_transfers" "virtio_valid (\<lambda>h. h) 0x100000" "(\<lambda>h. h) \<circ> vbi_device"
  by unfold_locales (rule virtio_contract [OF ram_sector_transfers], simp)

section \<open>Properties\<close>

text \<open>C17: The virtio driver implements byte-granular access over whole sectors. Whatever offset and length
  are asked for, aligned or not, no operation panics, a read within the device returns exactly the bytes of the medium, and a write
  changes exactly the bytes written: the rest of the first and last sector keeps its contents. Failures of the
  external transfer are reported as errors, and there are none on a medium that does not fail.\<close>

theorem virtio_device_contract:
  assumes "sector_transfers hw medium n faulty" "n < 2 ^ 63"
  shows "device_contract (virtio_device hw) (virtio_valid medium n) (medium \<circ> vbi_device) faulty
    \<and> tame_device (virtio_device hw) (virtio_valid medium n)"
  using virtio_contract [OF assms] virtio_tame [OF assms] by simp

theorem virtio_device_contract_witness:
  "device_contract (virtio_device ram_transfers) (virtio_valid (\<lambda>h. h) 1024) ((\<lambda>h. h) \<circ> vbi_device) False
   \<and> virtio_valid (\<lambda>h. h) 1024 \<lparr>vbi_device = replicate 1024 0, capacity_sectors = 2, sector_size = 512\<rparr>"
  using virtio_device_contract [OF ram_sector_transfers, of 1024] by (simp add: virtio_valid_def)

end
