(* ===== verification/Ext2_Core.thy ===== *)
theory Ext2_Core
  imports Ext2_Structs Block_Device
begin

text \<open>
  The core of the ext2 driver: the state of a mounted file system, mounting,
  access to blocks, inodes and the metadata tables, and the lookup of a block of
  a file through direct and indirect pointers. Operations are functions on the
  file system state that either panic, fail with an error, or return a value.
\<close>

section \<open>Operations\<close>

text \<open>Work that a guard leaves to be done later when it is dropped unconsumed.\<close>

datatype cleanup = FreeInode u32 | FreeBlock u32

record 'd ext2 =
  e_dev :: 'd
  e_block_size :: u32
  e_inode_size :: u32
  e_blocks_count :: u32
  e_inodes_per_group :: u32
  e_superblock :: superblock
  e_block_groups :: "block_group_descriptor list"
  e_spawned :: "cleanup list"

type_synonym ('d, 'a) ext2_io = "'d ext2 \<Rightarrow> ((fs_error + 'a) \<times> 'd ext2) option"

definition eret :: "'a \<Rightarrow> ('d, 'a) ext2_io" where
  "eret x fs = Some (Inr x, fs)"

definition efail :: "fs_error \<Rightarrow> ('d, 'a) ext2_io" where
  "efail e fs = Some (Inl e, fs)"

definition ebind :: "('d, 'a) ext2_io \<Rightarrow> ('a \<Rightarrow> ('d, 'b) ext2_io) \<Rightarrow> ('d, 'b) ext2_io" where
  "ebind m f fs = (case m fs of
      None \<Rightarrow> None
    | Some (Inl e, fs') \<Rightarrow> Some (Inl e, fs')
    | Some (Inr x, fs') \<Rightarrow> f x fs')"

text \<open>Reading a component of the state, and the panic of a checked operation.\<close>

definition egets :: "('d ext2 \<Rightarrow> 'a) \<Rightarrow> ('d, 'a) ext2_io" where
  "egets f fs = Some (Inr (f fs), fs)"

definition emodify :: "('d ext2 \<Rightarrow> 'd ext2) \<Rightarrow> ('d, unit) ext2_io" where
  "emodify f fs = Some (Inr (), f fs)"

definition echeck :: "bool \<Rightarrow> ('d, unit) ext2_io" where
  "echeck b fs = (if b then Some (Inr (), fs) else None)"

text \<open>\<^verbatim>\<open>device.read_at(..).await?\<close> and \<^verbatim>\<open>device.write_at(..).await?\<close>.\<close>

definition eread :: "'d block_device \<Rightarrow> nat \<Rightarrow> bytes \<Rightarrow> ('d, bytes) ext2_io" where
  "eread bd off buf fs = (case dev_read_at bd (e_dev fs) off buf of
      None \<Rightarrow> None
    | Some (Inl e) \<Rightarrow> Some (Inl (fs_error_from e), fs)
    | Some (Inr (_, buf')) \<Rightarrow> Some (Inr buf', fs))"

definition ewrite :: "'d block_device \<Rightarrow> nat \<Rightarrow> bytes \<Rightarrow> ('d, unit) ext2_io" where
  "ewrite bd off buf fs = (case dev_write_at bd (e_dev fs) off buf of
      None \<Rightarrow> None
    | Some (Inl e, d) \<Rightarrow> Some (Inl (fs_error_from e), fs\<lparr>e_dev := d\<rparr>)
    | Some (Inr _, d) \<Rightarrow> Some (Inr (), fs\<lparr>e_dev := d\<rparr>))"

section \<open>Pointers to blocks\<close>

definition read_block_ptr :: "'d block_device \<Rightarrow> u32 \<Rightarrow> nat \<Rightarrow> nat \<Rightarrow> ('d, u32) ext2_io" where
  "read_block_ptr bd block index block_size =
     (if block = 0 then eret 0
      else ebind (eread bd (unat block * block_size + index * 4) (replicate 4 0)) (\<lambda>buf. eret (le_word buf)))"

definition write_block_ptr :: "'d block_device \<Rightarrow> u32 \<Rightarrow> nat \<Rightarrow> nat \<Rightarrow> u32 \<Rightarrow> ('d, unit) ext2_io" where
  "write_block_ptr bd block index block_size value =
     (if block = 0 then efail IoError
      else ewrite bd (unat block * block_size + index * 4) (le_bytes 4 value))"

definition get_block_number :: "'d block_device \<Rightarrow> u32 list \<Rightarrow> nat \<Rightarrow> nat \<Rightarrow> ('d, u32) ext2_io" where
  "get_block_number bd block_pointers block_size file_block =
     (let p = block_size div 4 in
      if file_block < 12 then eret (block_pointers ! file_block)
      else let fb = file_block - 12 in
      if fb < p then read_block_ptr bd (block_pointers ! 12) fb block_size
      else let fb = fb - p in
      if fb < p * p then
        ebind (read_block_ptr bd (block_pointers ! 13) (fb div p) block_size) (\<lambda>ind.
        read_block_ptr bd ind (fb mod p) block_size)
      else let fb = fb - p * p; pp = p * p in
        ebind (read_block_ptr bd (block_pointers ! 14) (fb div pp) block_size) (\<lambda>dbl.
        ebind (read_block_ptr bd dbl ((fb mod pp) div p) block_size) (\<lambda>ind.
        read_block_ptr bd ind (fb mod p) block_size)))"

section \<open>Mounting\<close>

definition bgdt_offset :: "u32 \<Rightarrow> nat" where
  "bgdt_offset block_size = (if block_size = 1024 then 2048 else unat block_size)"

definition ext2_mount :: "'d block_device \<Rightarrow> 'd \<Rightarrow> (string + 'd ext2) option" where
  "ext2_mount bd d = (case dev_read_at bd d SUPERBLOCK_OFFSET (replicate 1024 0) of
      None \<Rightarrow> None
    | Some (Inl _) \<Rightarrow> Some (Inl ''failed to read superblock'')
    | Some (Inr (_, sb_buf)) \<Rightarrow>
        let sb = superblock_read sb_buf in
        if s_magic sb \<noteq> EXT2_SUPER_MAGIC then Some (Inl ''invalid ext2 magic number'')
        else case sb_validate sb of
          Inl e \<Rightarrow> Some (Inl e)
        | Inr _ \<Rightarrow>
            if unsupported_incompat_features sb \<noteq> 0 then Some (Inl ''ext2 filesystem has unsupported features'')
            else case sb_block_size sb of
              None \<Rightarrow> None
            | Some block_size \<Rightarrow> (case sb_block_group_count sb of
                None \<Rightarrow> None
              | Some block_group_count \<Rightarrow>
                  (case dev_read_at bd d (bgdt_offset block_size) (replicate (block_group_count * 32) 0) of
                     None \<Rightarrow> None
                   | Some (Inl _) \<Rightarrow> Some (Inl ''failed to read block group descriptors'')
                   | Some (Inr (_, bgdt_buf)) \<Rightarrow>
                       Some (Inr \<lparr>e_dev = d, e_block_size = block_size, e_inode_size = sb_inode_size sb,
                         e_blocks_count = s_blocks_count sb, e_inodes_per_group = s_inodes_per_group sb,
                         e_superblock = sb,
                         e_block_groups = map (\<lambda>i. bgd_read (sub_slice (i * 32) (i * 32 + 32) bgdt_buf))
                           [0..<block_group_count],
                         e_spawned = []\<rparr>))))"

section \<open>Blocks, inodes and tables\<close>

text \<open>Inode numbers count from one; the divisor is not zero in a mounted file system.\<close>

definition inode_offset :: "'d ext2 \<Rightarrow> u32 \<Rightarrow> nat option" where
  "inode_offset fs ino =
     (let group = (unat ino - 1) div unat (e_inodes_per_group fs);
          index = (unat ino - 1) mod unat (e_inodes_per_group fs)
      in if group \<ge> length (e_block_groups fs) then None
         else Some (unat (bg_inode_table (e_block_groups fs ! group)) * unat (e_block_size fs)
                + index * unat (e_inode_size fs)))"

definition read_inode :: "'d block_device \<Rightarrow> u32 \<Rightarrow> ('d, inode) ext2_io" where
  "read_inode bd ino =
     (if ino = 0 then efail NotFound
      else ebind (egets (\<lambda>fs. inode_offset fs ino)) (\<lambda>off. case off of
          None \<Rightarrow> efail NotFound
        | Some offset \<Rightarrow> ebind (eread bd offset (replicate 128 0)) (\<lambda>buf. eret (inode_read buf))))"

definition write_inode :: "'d block_device \<Rightarrow> u32 \<Rightarrow> inode \<Rightarrow> ('d, unit) ext2_io" where
  "write_inode bd ino n =
     (if ino = 0 then efail NotFound
      else ebind (egets (\<lambda>fs. inode_offset fs ino)) (\<lambda>off. case off of
          None \<Rightarrow> efail NotFound
        | Some offset \<Rightarrow> ewrite bd offset (inode_to_bytes n)))"

definition read_block :: "'d block_device \<Rightarrow> u32 \<Rightarrow> bytes \<Rightarrow> ('d, bytes) ext2_io" where
  "read_block bd block buf = ebind (egets (\<lambda>fs. fs)) (\<lambda>fs.
     if block \<ge> e_blocks_count fs then efail NotReadable
     else eread bd (unat block * unat (e_block_size fs)) buf)"

definition write_block :: "'d block_device \<Rightarrow> u32 \<Rightarrow> bytes \<Rightarrow> ('d, unit) ext2_io" where
  "write_block bd block data = ebind (egets (\<lambda>fs. fs)) (\<lambda>fs.
     if block \<ge> e_blocks_count fs then efail IoError
     else if length data \<noteq> unat (e_block_size fs) then efail IoError
     else ewrite bd (unat block * unat (e_block_size fs)) data)"

definition write_superblock :: "'d block_device \<Rightarrow> ('d, unit) ext2_io" where
  "write_superblock bd = ebind (egets e_superblock) (\<lambda>sb. ewrite bd SUPERBLOCK_OFFSET (superblock_to_bytes sb))"

definition write_block_group_descriptor :: "'d block_device \<Rightarrow> nat \<Rightarrow> ('d, unit) ext2_io" where
  "write_block_group_descriptor bd group_num = ebind (egets (\<lambda>fs. fs)) (\<lambda>fs.
     if group_num \<ge> length (e_block_groups fs) then efail IoError
     else ewrite bd (bgdt_offset (e_block_size fs) + group_num * 32) (bgd_to_bytes (e_block_groups fs ! group_num)))"

definition get_block :: "'d block_device \<Rightarrow> inode \<Rightarrow> nat \<Rightarrow> ('d, u32) ext2_io" where
  "get_block bd n file_block = ebind (egets (\<lambda>fs. unat (e_block_size fs))) (\<lambda>block_size.
     get_block_number bd (i_block n) block_size file_block)"

section \<open>Running operations\<close>

lemma ebind_simps [simp]:
  "ebind (eret x) f fs = f x fs"
  "ebind (efail e) f fs = Some (Inl e, fs)"
  "ebind (egets g) f fs = f (g fs) fs"
  "ebind (emodify h) k fs = k () (h fs)"
  "ebind (echeck b) k fs = (if b then k () fs else None)"
  by (simp_all add: ebind_def eret_def efail_def egets_def emodify_def echeck_def)

lemma run_simps [simp]: "eret x fs = Some (Inr x, fs)" "efail e fs = Some (Inl e, fs)"
  by (simp_all add: eret_def efail_def)

lemma ebind_Some:
  "m fs = Some (Inr x, fs') \<Longrightarrow> ebind m f fs = f x fs'"
  "m fs = Some (Inl e, fs') \<Longrightarrow> ebind m f fs = Some (Inl e, fs')"
  "m fs = None \<Longrightarrow> ebind m f fs = None"
  by (simp_all add: ebind_def)

lemma ebind_assoc: "ebind (ebind m f) g = ebind m (\<lambda>x. ebind (f x) g)"
  by (rule ext) (simp add: ebind_def split: option.splits sum.splits prod.splits)

lemma ebind_eq_Inr:
  "ebind m f fs = Some (Inr y, fs'') \<longleftrightarrow> (\<exists>x fs'. m fs = Some (Inr x, fs') \<and> f x fs' = Some (Inr y, fs''))"
  by (auto simp: ebind_def split: option.splits sum.splits prod.splits)

text \<open>
  \<^verbatim>\<open>safe P m Q\<close>: started where the invariant holds, the operation does not panic, keeps the invariant whether it
  succeeds or fails, and a value it returns satisfies \<^verbatim>\<open>Q\<close>.
\<close>

definition safe :: "('d ext2 \<Rightarrow> bool) \<Rightarrow> ('d, 'a) ext2_io \<Rightarrow> ('a \<Rightarrow> bool) \<Rightarrow> bool" where
  "safe P m Q \<longleftrightarrow>
     (\<forall>fs. P fs \<longrightarrow> (\<exists>r fs'. m fs = Some (r, fs') \<and> P fs' \<and> (\<forall>x. r = Inr x \<longrightarrow> Q x)))"

named_theorems safe_intros \<open>rules for operations that do not panic\<close>

lemma safe_eret [safe_intros]: "Q x \<Longrightarrow> safe P (eret x) Q"
  by (simp add: safe_def)

lemma safe_efail [safe_intros]: "safe P (efail e) Q"
  by (simp add: safe_def)

lemma safe_echeck [safe_intros]: "b \<Longrightarrow> Q () \<Longrightarrow> safe P (echeck b) Q"
  by (simp add: safe_def echeck_def)

lemma safe_ebind:
  assumes "safe P m R" "\<And>x. R x \<Longrightarrow> safe P (f x) Q"
  shows "safe P (ebind m f) Q"
  unfolding safe_def
proof (intro allI impI)
  fix fs assume "P fs"
  with assms(1) obtain r fs' where m: "m fs = Some (r, fs')" "P fs'" "\<forall>x. r = Inr x \<longrightarrow> R x"
    by (auto simp: safe_def)
  show "\<exists>r fs'. ebind m f fs = Some (r, fs') \<and> P fs' \<and> (\<forall>x. r = Inr x \<longrightarrow> Q x)"
  proof (cases r)
    case (Inl e)
    then show ?thesis using m by (simp add: ebind_Some)
  next
    case (Inr x)
    then show ?thesis using m assms(2) [of x] by (simp add: ebind_Some safe_def)
  qed
qed

lemma safe_egets: "(\<And>fs. P fs \<Longrightarrow> Q (f fs)) \<Longrightarrow> safe P (egets f) Q"
  by (simp add: safe_def egets_def)

lemma safe_bind_gets:
  assumes "\<And>fs. P fs \<Longrightarrow> safe (\<lambda>s. P s \<and> f s = f fs) (k (f fs)) Q"
  shows "safe P (ebind (egets f) k) Q"
  using assms by (auto simp: safe_def) blast

lemma safe_weaken: "safe P m Q \<Longrightarrow> (\<And>x. Q x \<Longrightarrow> R x) \<Longrightarrow> safe P m R"
  by (fastforce simp: safe_def)

lemma safeD: "safe P m Q \<Longrightarrow> P fs \<Longrightarrow> \<exists>r fs'. m fs = Some (r, fs') \<and> P fs' \<and> (\<forall>x. r = Inr x \<longrightarrow> Q x)"
  by (simp add: safe_def)

section \<open>Geometry\<close>

text \<open>What mounting establishes of the numbers that the driver computes with.\<close>

definition geometry :: "'d ext2 \<Rightarrow> bool" where
  "geometry fs \<longleftrightarrow>
     (\<exists>k\<le>6. e_block_size fs = 2 ^ (10 + k))
     \<and> 128 \<le> e_inode_size fs \<and> e_inode_size fs \<le> 1024
     \<and> e_inodes_per_group fs \<noteq> 0
     \<and> e_blocks_count fs \<noteq> 0 \<and> e_blocks_count fs = s_blocks_count (e_superblock fs)
     \<and> s_blocks_per_group (e_superblock fs) \<noteq> 0
     \<and> length (e_block_groups fs) =
         div_ceil (unat (e_blocks_count fs)) (unat (s_blocks_per_group (e_superblock fs)))
     \<and> length (e_block_groups fs) \<le> MAX_BLOCK_GROUPS
     \<and> length (s_tail (e_superblock fs)) = 920
     \<and> list_all (\<lambda>g. length (bg_reserved g) = 12) (e_block_groups fs)"

lemma geometry_dev [simp]: "geometry (fs\<lparr>e_dev := d\<rparr>) = geometry fs" "geometry (fs\<lparr>e_spawned := c\<rparr>) = geometry fs"
  by (simp_all add: geometry_def)

lemma unat_block_size:
  assumes "k \<le> 6"
  shows "unat (2 ^ (10 + k) :: u32) = 2 ^ (10 + k)"
proof -
  have "(2 :: nat) ^ (10 + k) < 2 ^ 32" using assms by (intro power_strict_increasing) auto
  then have "unat (of_nat (2 ^ (10 + k)) :: u32) = 2 ^ (10 + k)" by (intro unat_of_nat_small) simp
  then show ?thesis by simp
qed

lemma geometry_block_size:
  assumes "geometry fs"
  obtains k where "k \<le> 6" "unat (e_block_size fs) = 2 ^ (10 + k)"
  using assms by (auto simp: geometry_def unat_block_size)

lemma block_size_bounds:
  assumes "geometry fs"
  shows "1024 \<le> unat (e_block_size fs)" "unat (e_block_size fs) \<le> 65536" "4 dvd unat (e_block_size fs)"
proof -
  obtain k where k: "k \<le> 6" "unat (e_block_size fs) = 2 ^ (10 + k)"
    using assms by (rule geometry_block_size)
  have "(2 :: nat) ^ 10 \<le> 2 ^ (10 + k)" by (rule power_increasing) simp_all
  moreover have "(2 :: nat) ^ (10 + k) \<le> 2 ^ 16" using k(1) by (intro power_increasing) simp_all
  moreover have "(2 :: nat) ^ 2 dvd 2 ^ (10 + k)" by (rule le_imp_power_dvd) simp
  ultimately show "1024 \<le> unat (e_block_size fs)" "unat (e_block_size fs) \<le> 65536" "4 dvd unat (e_block_size fs)"
    by (simp_all add: k(2))
qed

lemma mount_geometry:
  assumes "tame_device bd valid" "valid d"
  shows "\<exists>r. ext2_mount bd d = Some r \<and> (\<forall>fs. r = Inr fs \<longrightarrow> geometry fs \<and> e_dev fs = d)"
proof -
  have tame: "\<exists>r. dev_read_at bd d off buf = Some r \<and> (\<forall>n b. r = Inr (n, b) \<longrightarrow> length b = length buf)" for off buf
    using assms by (simp add: tame_device_def)
  obtain r where r: "dev_read_at bd d SUPERBLOCK_OFFSET (replicate 1024 0) = Some r"
    "\<forall>n b. r = Inr (n, b) \<longrightarrow> length b = 1024"
    using tame [of SUPERBLOCK_OFFSET "replicate 1024 0"] by auto
  show ?thesis
  proof (cases r)
    case (Inl e)
    then show ?thesis using r by (simp add: ext2_mount_def)
  next
    case (Inr nb)
    then obtain n buf where buf: "r = Inr (n, buf)" "length buf = 1024" using r(2) by (cases nb) auto
    let ?sb = "superblock_read buf"
    show ?thesis
    proof (cases "s_magic ?sb = EXT2_SUPER_MAGIC \<and> sb_validate ?sb = Inr () \<and> unsupported_incompat_features ?sb = 0")
      case False
      then show ?thesis
        using r(1) buf by (cases "sb_validate ?sb") (auto simp: ext2_mount_def Let_def)
    next
      case True
      then obtain k where k: "k \<le> 6" "sb_block_size ?sb = Some (2 ^ (10 + k))"
        "sb_block_group_count ?sb = Some (div_ceil (unat (s_blocks_count ?sb)) (unat (s_blocks_per_group ?sb)))"
        "div_ceil (unat (s_blocks_count ?sb)) (unat (s_blocks_per_group ?sb)) \<le> MAX_BLOCK_GROUPS"
        "s_blocks_count ?sb \<noteq> 0" "s_blocks_per_group ?sb \<noteq> 0" "s_inodes_per_group ?sb \<noteq> 0"
        "128 \<le> sb_inode_size ?sb" "sb_inode_size ?sb \<le> 1024"
        using sb_validate_Inr [of ?sb] by metis
      let ?n = "div_ceil (unat (s_blocks_count ?sb)) (unat (s_blocks_per_group ?sb))"
      obtain r' where r': "dev_read_at bd d (bgdt_offset (2 ^ (10 + k))) (replicate (?n * 32) 0) = Some r'"
        "\<forall>n b. r' = Inr (n, b) \<longrightarrow> length b = ?n * 32"
        using tame [of "bgdt_offset (2 ^ (10 + k))" "replicate (?n * 32) 0"] by auto
      have res: "length (sub_slice (i * 32 + 20) (i * 32 + 32) b) = 12" if "length b = ?n * 32" "i < ?n" for b :: bytes and i
        using that by simp
      have tail: "length (s_tail ?sb) = 920" using buf(2) by (simp add: superblock_read_def)
      show ?thesis
      proof (cases r')
        case (Inl e)
        then show ?thesis using True r(1) r'(1) buf k(2,3) by (simp add: ext2_mount_def Let_def)
      next
        case (Inr mb)
        then obtain m b where b: "r' = Inr (m, b)" "length b = ?n * 32" using r'(2) by (cases mb) auto
        have "length (bg_reserved (bgd_read (sub_slice (i * 32) (i * 32 + 32) b))) = 12" if "i < ?n" for i
          using that b(2) by (simp add: bgd_read_def)
        then show ?thesis
          using True r(1) r'(1) buf b(1) k tail
          by (auto simp: ext2_mount_def Let_def geometry_def list_all_iff)
      qed
    qed
  qed
qed

section \<open>Reading never panics\<close>

definition sound :: "('d \<Rightarrow> bool) \<Rightarrow> 'd ext2 \<Rightarrow> bool" where
  "sound valid fs \<longleftrightarrow> valid (e_dev fs) \<and> geometry fs"

lemma safe_if [safe_intros]: "(b \<Longrightarrow> safe P m Q) \<Longrightarrow> (\<not> b \<Longrightarrow> safe P n Q) \<Longrightarrow> safe P (if b then m else n) Q"
  by simp

lemma safe_any: "safe P m (\<lambda>x. True) \<Longrightarrow> (\<And>x. safe P (f x) Q) \<Longrightarrow> safe P (ebind m f) Q"
  by (rule safe_ebind)

lemma safe_gets_any: "(\<And>x. safe P (f x) Q) \<Longrightarrow> safe P (ebind (egets g) f) Q"
  by (rule safe_any [OF safe_egets]) simp

lemma safe_eread:
  assumes "tame_device bd valid"
  shows "safe (sound valid) (eread bd off buf) (\<lambda>b. length b = length buf)"
  unfolding safe_def
proof (intro allI impI)
  fix fs :: "'a ext2"
  assume fs: "sound valid fs"
  then have "valid (e_dev fs)" by (simp add: sound_def)
  with assms obtain r where r: "dev_read_at bd (e_dev fs) off buf = Some r"
    "\<forall>n b. r = Inr (n, b) \<longrightarrow> length b = length buf"
    by (rule tame_read)
  then show "\<exists>r fs'. eread bd off buf fs = Some (r, fs') \<and> sound valid fs' \<and> (\<forall>x. r = Inr x \<longrightarrow> length x = length buf)"
    using fs by (cases r) (auto simp: eread_def split: prod.splits)
qed

lemma safe_ewrite:
  assumes "tame_device bd valid"
  shows "safe (sound valid) (ewrite bd off buf) (\<lambda>_. True)"
  unfolding safe_def
proof (intro allI impI)
  fix fs :: "'a ext2"
  assume fs: "sound valid fs"
  then have "valid (e_dev fs)" by (simp add: sound_def)
  with assms obtain r d where "dev_write_at bd (e_dev fs) off buf = Some (r, d)" "valid d"
    by (rule tame_write)
  then show "\<exists>r fs'. ewrite bd off buf fs = Some (r, fs') \<and> sound valid fs' \<and> (\<forall>x. r = Inr x \<longrightarrow> True)"
    using fs by (cases r) (auto simp: ewrite_def sound_def)
qed

lemma safe_read_block_ptr:
  assumes "tame_device bd valid"
  shows "safe (sound valid) (read_block_ptr bd block index block_size) (\<lambda>_. True)"
  unfolding read_block_ptr_def
  by (auto intro!: safe_intros safe_any [OF safe_weaken [OF safe_eread [OF assms]]])

lemma safe_get_block:
  assumes "tame_device bd valid"
  shows "safe (sound valid) (get_block bd n file_block) (\<lambda>_. True)"
  unfolding get_block_def get_block_number_def Let_def
  by (intro safe_gets_any safe_if safe_eret safe_any safe_read_block_ptr [OF assms] TrueI)

lemma safe_read_block:
  assumes "tame_device bd valid"
  shows "safe (sound valid) (read_block bd block buf) (\<lambda>b. length b = length buf)"
  unfolding read_block_def
  by (intro safe_gets_any safe_if safe_efail safe_eread [OF assms])

lemma safe_write_block:
  assumes "tame_device bd valid"
  shows "safe (sound valid) (write_block bd block buf) (\<lambda>_. True)"
  unfolding write_block_def
  by (intro safe_gets_any safe_if safe_efail safe_ewrite [OF assms])

lemma safe_read_inode:
  assumes "tame_device bd valid"
  shows "safe (sound valid) (read_inode bd ino) (\<lambda>n. length (i_block n) = 15)"
proof -
  have "safe (sound valid) (ebind (eread bd off (replicate 128 0)) (\<lambda>buf. eret (inode_read buf))) (\<lambda>n. length (i_block n) = 15)" for off
    by (rule safe_any [OF safe_weaken [OF safe_eread [OF assms]]]) (simp_all add: safe_eret inode_read_def)
  then show ?thesis
    unfolding read_inode_def by (auto intro!: safe_if safe_efail safe_gets_any split: option.split)
qed

lemma safe_write_inode:
  assumes "tame_device bd valid"
  shows "safe (sound valid) (write_inode bd ino n) (\<lambda>_. True)"
  unfolding write_inode_def
  by (auto intro!: safe_if safe_efail safe_gets_any safe_ewrite [OF assms] split: option.split)

section \<open>On a reliable disk\<close>

text \<open>The bytes of a block, and a block number in a block of pointers.\<close>

definition blk :: "bytes \<Rightarrow> nat \<Rightarrow> nat \<Rightarrow> bytes" where
  "blk D bs b = sub_slice (b * bs) (b * bs + bs) D"

context disk
begin

lemma eread_disk:
  "valid (e_dev fs) \<Longrightarrow> off + length buf \<le> length (contents (e_dev fs)) \<Longrightarrow>
   eread bd off buf fs = Some (Inr (sub_slice off (off + length buf) (contents (e_dev fs))), fs)"
  by (simp add: eread_def disk_read)

lemma ewrite_disk:
  "valid (e_dev fs) \<Longrightarrow> off + length buf \<le> length (contents (e_dev fs)) \<Longrightarrow>
   ewrite bd off buf fs = Some (Inr (), fs\<lparr>e_dev := stored bd (e_dev fs) off buf\<rparr>)"
  by (simp add: ewrite_def disk_write)

end

end
