(* ===== verification/Ext2_Bitmap.thy ===== *)
theory Ext2_Bitmap
  imports Ext2_Core
begin

text \<open>
  Allocation of blocks and inodes from the bitmaps of the block groups: the bit
  operations, the first-fit search over groups, freeing, and the counters of free
  blocks, free inodes and directories that are kept in memory and on disk.
\<close>

section \<open>Bits\<close>

text \<open>
  The search over the bits of one byte. \<^verbatim>\<open>None\<close> means that all eight bits are set and the
  scan goes on; otherwise the inner option is the result of the whole search.
\<close>

fun scan_bits :: "u8 \<Rightarrow> nat \<Rightarrow> nat \<Rightarrow> nat list \<Rightarrow> nat option option" where
  "scan_bits byte byte_idx max_bits [] = None"
| "scan_bits byte byte_idx max_bits (b # bits) =
     (if byte_idx * 8 + b \<ge> max_bits then Some None
      else if byte AND push_bit b 1 = 0 then Some (Some (byte_idx * 8 + b))
      else scan_bits byte byte_idx max_bits bits)"

fun scan_bytes :: "nat \<Rightarrow> bytes \<Rightarrow> nat \<Rightarrow> nat option" where
  "scan_bytes byte_idx [] max_bits = None"
| "scan_bytes byte_idx (byte # bitmap) max_bits =
     (if byte = 0xFF then scan_bytes (byte_idx + 1) bitmap max_bits
      else case scan_bits byte byte_idx max_bits [0..<8] of
        Some r \<Rightarrow> r
      | None \<Rightarrow> scan_bytes (byte_idx + 1) bitmap max_bits)"

definition find_first_clear_bit :: "bytes \<Rightarrow> nat \<Rightarrow> nat option" where
  "find_first_clear_bit bitmap max_bits = scan_bytes 0 bitmap max_bits"

text \<open>An index beyond the bitmap panics.\<close>

definition get_bit :: "bytes \<Rightarrow> nat \<Rightarrow> bool option" where
  "get_bit bitmap index =
     (if index div 8 < length bitmap then Some (bitmap ! (index div 8) AND push_bit (index mod 8) 1 \<noteq> 0) else None)"

definition set_bit :: "bytes \<Rightarrow> nat \<Rightarrow> bytes option" where
  "set_bit bitmap index =
     (if index div 8 < length bitmap
      then Some (bitmap[index div 8 := bitmap ! (index div 8) OR push_bit (index mod 8) 1]) else None)"

definition clear_bit :: "bytes \<Rightarrow> nat \<Rightarrow> bytes option" where
  "clear_bit bitmap index =
     (if index div 8 < length bitmap
      then Some (bitmap[index div 8 := bitmap ! (index div 8) AND NOT (push_bit (index mod 8) 1)]) else None)"

text \<open>A checked operation whose failure is a panic.\<close>

definition eopt :: "'a option \<Rightarrow> ('d, 'a) ext2_io" where
  "eopt x fs = (case x of None \<Rightarrow> None | Some y \<Rightarrow> Some (Inr y, fs))"

section \<open>Blocks\<close>

definition update_group :: "nat \<Rightarrow> (block_group_descriptor \<Rightarrow> block_group_descriptor) \<Rightarrow> 'd ext2 \<Rightarrow> 'd ext2" where
  "update_group g f fs = fs\<lparr>e_block_groups := (e_block_groups fs)[g := f (e_block_groups fs ! g)]\<rparr>"

definition update_super :: "(superblock \<Rightarrow> superblock) \<Rightarrow> 'd ext2 \<Rightarrow> 'd ext2" where
  "update_super f fs = fs\<lparr>e_superblock := f (e_superblock fs)\<rparr>"

text \<open>The number of bits of a group's bitmap that are searched.\<close>

definition blocks_in_group :: "'d ext2 \<Rightarrow> nat \<Rightarrow> nat option" where
  "blocks_in_group fs g =
     (let bpg = unat (s_blocks_per_group (e_superblock fs)) in
      if g = length (e_block_groups fs) - 1 then
        (if g * bpg \<le> unat (e_blocks_count fs) then Some (unat (e_blocks_count fs) - g * bpg) else None)
      else Some bpg)"

fun alloc_block_in :: "'d block_device \<Rightarrow> u32 \<Rightarrow> nat list \<Rightarrow> ('d, u32) ext2_io" where
  "alloc_block_in bd first_data_block [] = efail NoSpace"
| "alloc_block_in bd first_data_block (grp # groups) = ebind (egets (\<lambda>fs. fs)) (\<lambda>fs.
     let bgd = e_block_groups fs ! grp; bpg = unat (s_blocks_per_group (e_superblock fs)) in
     if bg_free_blocks_count bgd = 0 then alloc_block_in bd first_data_block groups
     else ebind (eopt (blocks_in_group fs grp)) (\<lambda>bits_to_scan.
       ebind (read_block bd (bg_block_bitmap bgd) (replicate (unat (e_block_size fs)) 0)) (\<lambda>bitmap.
       case find_first_clear_bit bitmap bits_to_scan of
         None \<Rightarrow> alloc_block_in bd first_data_block groups
       | Some bit_index \<Rightarrow>
           ebind (eopt (set_bit bitmap bit_index)) (\<lambda>bitmap.
           ebind (write_block bd (bg_block_bitmap bgd) bitmap) (\<lambda>_.
           ebind (echeck (s_free_blocks_count (e_superblock fs) \<noteq> 0)) (\<lambda>_.
           ebind (emodify (update_group grp (\<lambda>g. g\<lparr>bg_free_blocks_count := bg_free_blocks_count g - 1\<rparr>))) (\<lambda>_.
           ebind (emodify (update_super (\<lambda>s. s\<lparr>s_free_blocks_count := s_free_blocks_count s - 1\<rparr>))) (\<lambda>_.
           ebind (write_block_group_descriptor bd grp) (\<lambda>_.
           ebind (write_superblock bd) (\<lambda>_.
           ebind (echeck (unat first_data_block + grp * bpg + bit_index < 2 ^ 32)) (\<lambda>_.
           eret (of_nat (unat first_data_block + grp * bpg + bit_index)))))))))))))"

definition alloc_block :: "'d block_device \<Rightarrow> ('d, u32) ext2_io" where
  "alloc_block bd = ebind (egets (\<lambda>fs. fs)) (\<lambda>fs.
     alloc_block_in bd (s_first_data_block (e_superblock fs)) [0..<length (e_block_groups fs)])"

definition free_block :: "'d block_device \<Rightarrow> u32 \<Rightarrow> ('d, unit) ext2_io" where
  "free_block bd block_num = ebind (egets (\<lambda>fs. fs)) (\<lambda>fs.
     if block_num \<ge> e_blocks_count fs then efail IoError
     else
       let bpg = unat (s_blocks_per_group (e_superblock fs));
           adjusted = unat block_num - unat (s_first_data_block (e_superblock fs));
           grp = adjusted div bpg;
           bit_index = adjusted mod bpg in
       ebind (echeck (s_first_data_block (e_superblock fs) \<le> block_num)) (\<lambda>_.
       if grp \<ge> length (e_block_groups fs) then efail IoError
       else
         let bitmap_block = bg_block_bitmap (e_block_groups fs ! grp) in
         ebind (read_block bd bitmap_block (replicate (unat (e_block_size fs)) 0)) (\<lambda>bitmap.
         ebind (eopt (get_bit bitmap bit_index)) (\<lambda>b.
         if \<not> b then efail IoError
         else
           ebind (eopt (clear_bit bitmap bit_index)) (\<lambda>bitmap.
           ebind (write_block bd bitmap_block bitmap) (\<lambda>_.
           ebind (echeck (bg_free_blocks_count (e_block_groups fs ! grp) \<noteq> 0xFFFF)) (\<lambda>_.
           ebind (emodify (update_group grp (\<lambda>g. g\<lparr>bg_free_blocks_count := bg_free_blocks_count g + 1\<rparr>))) (\<lambda>_.
           ebind (echeck (s_free_blocks_count (e_superblock fs) \<noteq> 0xFFFFFFFF)) (\<lambda>_.
           ebind (emodify (update_super (\<lambda>s. s\<lparr>s_free_blocks_count := s_free_blocks_count s + 1\<rparr>))) (\<lambda>_.
           ebind (write_block_group_descriptor bd grp) (\<lambda>_.
           write_superblock bd)))))))))))"

section \<open>Inodes\<close>

text \<open>The inode number that the guard wraps.\<close>

fun alloc_inode_in :: "'d block_device \<Rightarrow> nat list \<Rightarrow> ('d, u32) ext2_io" where
  "alloc_inode_in bd [] = efail NoSpace"
| "alloc_inode_in bd (grp # groups) = ebind (egets (\<lambda>fs. fs)) (\<lambda>fs.
     let bgd = e_block_groups fs ! grp; ipg = unat (e_inodes_per_group fs) in
     if bg_free_inodes_count bgd = 0 then alloc_inode_in bd groups
     else
       ebind (read_block bd (bg_inode_bitmap bgd) (replicate (unat (e_block_size fs)) 0)) (\<lambda>bitmap.
       case find_first_clear_bit bitmap ipg of
         None \<Rightarrow> alloc_inode_in bd groups
       | Some bit_index \<Rightarrow>
           ebind (eopt (set_bit bitmap bit_index)) (\<lambda>bitmap.
           ebind (write_block bd (bg_inode_bitmap bgd) bitmap) (\<lambda>_.
           ebind (echeck (s_free_inodes_count (e_superblock fs) \<noteq> 0)) (\<lambda>_.
           ebind (emodify (update_group grp (\<lambda>g. g\<lparr>bg_free_inodes_count := bg_free_inodes_count g - 1\<rparr>))) (\<lambda>_.
           ebind (emodify (update_super (\<lambda>s. s\<lparr>s_free_inodes_count := s_free_inodes_count s - 1\<rparr>))) (\<lambda>_.
           ebind (write_block_group_descriptor bd grp) (\<lambda>_.
           ebind (write_superblock bd) (\<lambda>_.
           ebind (echeck (grp * ipg + bit_index + 1 < 2 ^ 32)) (\<lambda>_.
           eret (of_nat (grp * ipg + bit_index + 1))))))))))))"

definition alloc_inode :: "'d block_device \<Rightarrow> ('d, u32) ext2_io" where
  "alloc_inode bd = ebind (egets (\<lambda>fs. length (e_block_groups fs))) (\<lambda>num_groups.
     alloc_inode_in bd [0..<num_groups])"

definition free_inode :: "'d block_device \<Rightarrow> u32 \<Rightarrow> ('d, unit) ext2_io" where
  "free_inode bd ino = ebind (egets (\<lambda>fs. fs)) (\<lambda>fs.
     if ino = 0 then efail IoError
     else
       let ipg = unat (e_inodes_per_group fs);
           grp = (unat ino - 1) div ipg;
           bit_index = (unat ino - 1) mod ipg in
       if grp \<ge> length (e_block_groups fs) then efail IoError
       else
         let bitmap_block = bg_inode_bitmap (e_block_groups fs ! grp) in
         ebind (read_block bd bitmap_block (replicate (unat (e_block_size fs)) 0)) (\<lambda>bitmap.
         ebind (eopt (get_bit bitmap bit_index)) (\<lambda>b.
         if \<not> b then efail IoError
         else
           ebind (eopt (clear_bit bitmap bit_index)) (\<lambda>bitmap.
           ebind (write_block bd bitmap_block bitmap) (\<lambda>_.
           ebind (echeck (bg_free_inodes_count (e_block_groups fs ! grp) \<noteq> 0xFFFF)) (\<lambda>_.
           ebind (emodify (update_group grp (\<lambda>g. g\<lparr>bg_free_inodes_count := bg_free_inodes_count g + 1\<rparr>))) (\<lambda>_.
           ebind (echeck (s_free_inodes_count (e_superblock fs) \<noteq> 0xFFFFFFFF)) (\<lambda>_.
           ebind (emodify (update_super (\<lambda>s. s\<lparr>s_free_inodes_count := s_free_inodes_count s + 1\<rparr>))) (\<lambda>_.
           ebind (write_block_group_descriptor bd grp) (\<lambda>_.
           write_superblock bd))))))))))"

section \<open>Directory counts\<close>

definition inc_used_dirs_count :: "'d block_device \<Rightarrow> u32 \<Rightarrow> ('d, unit) ext2_io" where
  "inc_used_dirs_count bd ino = ebind (egets (\<lambda>fs. fs)) (\<lambda>fs.
     let grp = (unat ino - 1) div unat (e_inodes_per_group fs) in
     ebind (echeck (ino \<noteq> 0)) (\<lambda>_.
     if grp \<ge> length (e_block_groups fs) then efail IoError
     else ebind (emodify (update_group grp (\<lambda>g. g\<lparr>bg_used_dirs_count :=
         (if bg_used_dirs_count g = 0xFFFF then 0xFFFF else bg_used_dirs_count g + 1)\<rparr>))) (\<lambda>_.
       write_block_group_descriptor bd grp)))"

definition dec_used_dirs_count :: "'d block_device \<Rightarrow> u32 \<Rightarrow> ('d, unit) ext2_io" where
  "dec_used_dirs_count bd ino = ebind (egets (\<lambda>fs. fs)) (\<lambda>fs.
     let grp = (unat ino - 1) div unat (e_inodes_per_group fs) in
     ebind (echeck (ino \<noteq> 0)) (\<lambda>_.
     if grp \<ge> length (e_block_groups fs) then efail IoError
     else ebind (emodify (update_group grp (\<lambda>g. g\<lparr>bg_used_dirs_count :=
         (if bg_used_dirs_count g = 0 then 0 else bg_used_dirs_count g - 1)\<rparr>))) (\<lambda>_.
       write_block_group_descriptor bd grp)))"

text \<open>The cleanup that a dropped guard schedules; its result is discarded.\<close>

definition drop_inode_guard :: "u32 \<Rightarrow> 'd ext2 \<Rightarrow> 'd ext2" where
  "drop_inode_guard ino fs = fs\<lparr>e_spawned := e_spawned fs @ [FreeInode ino]\<rparr>"

definition drop_block_guard :: "u32 \<Rightarrow> 'd ext2 \<Rightarrow> 'd ext2" where
  "drop_block_guard block fs = fs\<lparr>e_spawned := e_spawned fs @ [FreeBlock block]\<rparr>"

definition run_cleanup :: "'d block_device \<Rightarrow> cleanup \<Rightarrow> 'd ext2 \<Rightarrow> 'd ext2 option" where
  "run_cleanup bd c fs = map_option snd (case c of
      FreeInode ino \<Rightarrow> free_inode bd ino fs
    | FreeBlock block \<Rightarrow> free_block bd block fs)"

section \<open>Facts on bits\<close>

lemma ebind_eopt [simp]: "ebind (eopt x) f fs = (case x of None \<Rightarrow> None | Some y \<Rightarrow> f y fs)"
  by (simp add: ebind_def eopt_def split: option.splits)

definition bit_at :: "bytes \<Rightarrow> nat \<Rightarrow> bool" where
  "bit_at bitmap i \<longleftrightarrow> bit (bitmap ! (i div 8)) (i mod 8)"

lemma and_push_bit_1: "w AND push_bit n 1 = (0 :: 'a::len word) \<longleftrightarrow> \<not> bit w n"
  by (simp add: and_exp_eq_0_iff_not_bit)

lemma bit_byte_FF: "b < 8 \<Longrightarrow> bit (0xFF :: u8) b"
  using bit_mask_iff [of 8 b, where 'a = "8 word"] by (simp add: mask_eq_exp_minus_1)

lemma scan_bits_cases:
  assumes "a \<le> 8"
  shows "case scan_bits byte k m [a..<8] of
      None \<Rightarrow> \<forall>b. a \<le> b \<and> b < 8 \<longrightarrow> bit byte b
    | Some None \<Rightarrow> m < k * 8 + 8 \<and> (\<forall>b. a \<le> b \<and> b < 8 \<and> k * 8 + b < m \<longrightarrow> bit byte b)
    | Some (Some i) \<Rightarrow> i < m \<and> (\<exists>c. a \<le> c \<and> c < 8 \<and> i = k * 8 + c \<and> \<not> bit byte c \<and> (\<forall>b. a \<le> b \<and> b < c \<longrightarrow> bit byte b))"
  using assms
proof (induction "8 - a" arbitrary: a)
  case (Suc n)
  have up: "[a..<8] = a # [Suc a..<8]" using Suc by (simp add: upt_conv_Cons)
  have IH: "case scan_bits byte k m [Suc a..<8] of
      None \<Rightarrow> \<forall>b. Suc a \<le> b \<and> b < 8 \<longrightarrow> bit byte b
    | Some None \<Rightarrow> m < k * 8 + 8 \<and> (\<forall>b. Suc a \<le> b \<and> b < 8 \<and> k * 8 + b < m \<longrightarrow> bit byte b)
    | Some (Some i) \<Rightarrow> i < m \<and> (\<exists>c. Suc a \<le> c \<and> c < 8 \<and> i = k * 8 + c \<and> \<not> bit byte c \<and> (\<forall>b. Suc a \<le> b \<and> b < c \<longrightarrow> bit byte b))"
    using Suc by (intro Suc.hyps(1)) auto
  show ?case
  proof (cases "k * 8 + a < m \<and> bit byte a")
    case True
    have "a \<le> b \<longleftrightarrow> b = a \<or> Suc a \<le> b" for b by auto
    then show ?thesis
      using IH True by (auto simp: up and_exp_eq_0_iff_not_bit split: option.splits)
  next
    case False
    then show ?thesis using Suc by (auto simp: up and_exp_eq_0_iff_not_bit)
  qed
qed auto

lemma scan_bytes_cases:
  "case scan_bytes k bitmap m of
     None \<Rightarrow> \<forall>j. j < 8 * length bitmap \<and> k * 8 + j < m \<longrightarrow> bit_at bitmap j
   | Some i \<Rightarrow> i < m \<and> (\<exists>c. i = k * 8 + c \<and> c < 8 * length bitmap \<and> \<not> bit_at bitmap c \<and> (\<forall>j < c. bit_at bitmap j))"
proof (induction bitmap arbitrary: k)
  case (Cons byte bitmap)
  have low: "bit_at (byte # bitmap) j = bit byte j" if "j < 8" for j
    using that by (simp add: bit_at_def)
  have high: "bit_at (byte # bitmap) (8 + j) = bit_at bitmap j" for j
    by (simp add: bit_at_def div_add_self1)
  have next_byte: ?case
    if "scan_bytes k (byte # bitmap) m = scan_bytes (k + 1) bitmap m" "\<forall>b < 8. bit byte b"
  proof (cases "scan_bytes (k + 1) bitmap m")
    case None
    then have IH: "\<And>j. j < 8 * length bitmap \<Longrightarrow> k * 8 + 8 + j < m \<Longrightarrow> bit_at bitmap j"
      using Cons [of "k + 1"] by (simp add: ac_simps)
    have "bit_at (byte # bitmap) j" if "j < 8 * length (byte # bitmap)" "k * 8 + j < m" for j
    proof (cases "j < 8")
      case True
      then show ?thesis using low \<open>\<forall>b < 8. bit byte b\<close> by simp
    next
      case False
      then obtain j' where "j = 8 + j'" by (metis le_Suc_ex not_less)
      then show ?thesis using that IH [of j'] high by simp
    qed
    then show ?thesis using that None by simp
  next
    case (Some i)
    then obtain c where c: "i < m" "i = (k + 1) * 8 + c" "c < 8 * length bitmap" "\<not> bit_at bitmap c" "\<forall>j < c. bit_at bitmap j"
      using Cons [of "k + 1"] by auto
    have "bit_at (byte # bitmap) j" if "j < 8 + c" for j
    proof (cases "j < 8")
      case True
      then show ?thesis using low \<open>\<forall>b < 8. bit byte b\<close> by simp
    next
      case False
      then obtain j' where "j = 8 + j'" by (metis le_Suc_ex not_less)
      then show ?thesis using that c(5) high by simp
    qed
    then show ?thesis using that Some c high by (auto intro!: exI [of _ "8 + c"])
  qed
  show ?case
  proof (cases "byte = 0xFF")
    case True
    then show ?thesis by (intro next_byte) (simp, metis bit_byte_FF)
  next
    case False
    note byte = scan_bits_cases [where a = 0 and byte = byte and k = k and m = m]
    show ?thesis
    proof (cases "scan_bits byte k m [0..<8]")
      case None
      then show ?thesis using False byte by (intro next_byte) simp_all
    next
      case (Some r)
      then show ?thesis using False byte low
        by (cases r) (auto)
    qed
  qed
qed simp

lemma find_first_clear_bit_cases:
  "case find_first_clear_bit bitmap m of
     None \<Rightarrow> \<forall>j. j < 8 * length bitmap \<and> j < m \<longrightarrow> bit_at bitmap j
   | Some i \<Rightarrow> i < m \<and> i < 8 * length bitmap \<and> \<not> bit_at bitmap i \<and> (\<forall>j < i. bit_at bitmap j)"
  using scan_bytes_cases [where k = 0 and bitmap = bitmap and m = m] by (auto simp: find_first_clear_bit_def split: option.splits)

lemma get_bit_eq: "i < 8 * length bitmap \<Longrightarrow> get_bit bitmap i = Some (bit_at bitmap i)"
  by (simp add: get_bit_def bit_at_def and_exp_eq_0_iff_not_bit less_mult_imp_div_less mult.commute)

lemma same_bit: "j = i \<longleftrightarrow> j div 8 = i div 8 \<and> j mod 8 = (i :: nat) mod 8"
  by (metis mult_div_mod_eq)

lemma set_bit_facts:
  assumes "i < 8 * length bitmap"
  shows "\<exists>bitmap'. set_bit bitmap i = Some bitmap' \<and> length bitmap' = length bitmap
    \<and> (\<forall>j < 8 * length bitmap. bit_at bitmap' j \<longleftrightarrow> j = i \<or> bit_at bitmap j)"
proof -
  have "i div 8 < length bitmap" using assms by (simp add: less_mult_imp_div_less mult.commute)
  then show ?thesis
    by (auto simp: set_bit_def bit_at_def same_bit [of _ i] nth_list_update bit_simps simp del: push_bit_of_1)
qed

lemma clear_bit_facts:
  assumes "i < 8 * length bitmap"
  shows "\<exists>bitmap'. clear_bit bitmap i = Some bitmap' \<and> length bitmap' = length bitmap
    \<and> (\<forall>j < 8 * length bitmap. bit_at bitmap' j \<longleftrightarrow> j \<noteq> i \<and> bit_at bitmap j)"
proof -
  have "i div 8 < length bitmap" using assms by (simp add: less_mult_imp_div_less mult.commute)
  then show ?thesis
    by (auto simp: clear_bit_def bit_at_def same_bit [of _ i] nth_list_update bit_simps simp del: push_bit_of_1)
qed

end
