(* ===== verification/Ext2_Alloc.thy ===== *)
theory Ext2_Alloc
  imports Ext2_Bitmap
begin

text \<open>
  Correctness of allocation. The free blocks of a file system are a set that is
  read off the bitmaps on disk; allocation takes its least element, freeing adds
  one, and the counters in memory agree with it.
\<close>

section \<open>Layout of the disk\<close>

text \<open>The end of the superblock and the table of group descriptors.\<close>

definition tables_end :: "'d ext2 \<Rightarrow> nat" where
  "tables_end fs = bgdt_offset (e_block_size fs) + 32 * length (e_block_groups fs)"

abbreviation bs_of :: "'d ext2 \<Rightarrow> nat" where
  "bs_of fs \<equiv> unat (e_block_size fs)"

definition put_dev :: "'d block_device \<Rightarrow> nat \<Rightarrow> bytes \<Rightarrow> 'd ext2 \<Rightarrow> 'd ext2" where
  "put_dev bd off data fs = fs\<lparr>e_dev := stored bd (e_dev fs) off data\<rparr>"

lemma put_dev_simps [simp]:
  "e_dev (put_dev bd off data fs) = stored bd (e_dev fs) off data"
  "e_block_size (put_dev bd off data fs) = e_block_size fs"
  "e_inode_size (put_dev bd off data fs) = e_inode_size fs"
  "e_blocks_count (put_dev bd off data fs) = e_blocks_count fs"
  "e_inodes_per_group (put_dev bd off data fs) = e_inodes_per_group fs"
  "e_superblock (put_dev bd off data fs) = e_superblock fs"
  "e_block_groups (put_dev bd off data fs) = e_block_groups fs"
  "geometry (put_dev bd off data fs) = geometry fs"
  by (simp_all add: put_dev_def)

lemma update_simps [simp]:
  "e_dev (update_group g f fs) = e_dev fs" "e_dev (update_super h fs) = e_dev fs"
  "e_block_size (update_group g f fs) = e_block_size fs" "e_block_size (update_super h fs) = e_block_size fs"
  "e_inode_size (update_group g f fs) = e_inode_size fs" "e_inode_size (update_super h fs) = e_inode_size fs"
  "e_blocks_count (update_group g f fs) = e_blocks_count fs" "e_blocks_count (update_super h fs) = e_blocks_count fs"
  "e_inodes_per_group (update_group g f fs) = e_inodes_per_group fs"
  "e_inodes_per_group (update_super h fs) = e_inodes_per_group fs"
  "e_superblock (update_group g f fs) = e_superblock fs" "e_superblock (update_super h fs) = h (e_superblock fs)"
  "e_block_groups (update_group g f fs) = (e_block_groups fs)[g := f (e_block_groups fs ! g)]"
  "e_block_groups (update_super h fs) = e_block_groups fs"
  by (simp_all add: update_group_def update_super_def)

lemma tables_end_simps [simp]:
  "tables_end (put_dev bd off data fs) = tables_end fs"
  "tables_end (update_group g f fs) = tables_end fs" "tables_end (update_super h fs) = tables_end fs"
  by (simp_all add: tables_end_def)

lemma map_update_same: "(\<And>x. p (f x) = p x) \<Longrightarrow> map p (xs[g := f (xs ! g)]) = map p xs"
  by (cases "g < length xs") (simp_all add: map_update list_update_same_conv list_update_beyond)

lemma geometry_update [simp]:
  "(\<And>x. bg_reserved (f x) = bg_reserved x) \<Longrightarrow> geometry (update_group g f fs) = geometry fs"
  "(\<And>s. s_tail (h s) = s_tail s) \<Longrightarrow> (\<And>s. s_blocks_count (h s) = s_blocks_count s) \<Longrightarrow>
   (\<And>s. s_blocks_per_group (h s) = s_blocks_per_group s) \<Longrightarrow> geometry (update_super h fs) = geometry fs"
proof -
  let ?P = "\<lambda>g. length (bg_reserved g) = 12"
  have all: "list_all ?P gs \<longleftrightarrow> False \<notin> set (map ?P gs)" for gs by (auto simp: list_all_iff)
  show "geometry (update_group g f fs) = geometry fs" if "\<And>x. bg_reserved (f x) = bg_reserved x"
    unfolding geometry_def all update_simps map_update_same [of ?P f, simplified that, OF refl] by simp
qed (simp add: geometry_def)

lemma bgdt_bounds:
  assumes "geometry fs"
  shows "2048 \<le> bgdt_offset (e_block_size fs)"
proof -
  obtain k where k: "k \<le> 6" "e_block_size fs = 2 ^ (10 + k)" using assms by (auto simp: geometry_def)
  have "k = 0 \<or> 2048 \<le> unat (e_block_size fs)"
  proof (cases k)
    case (Suc j)
    have "(2 :: nat) ^ 11 \<le> 2 ^ (10 + k)" by (rule power_increasing) (simp_all add: Suc)
    then show ?thesis using k unat_block_size [OF k(1)] by simp
  qed simp
  then show ?thesis using k(2) by (auto simp: bgdt_offset_def)
qed

section \<open>Blocks on disk\<close>

lemma length_blk: "(b + 1) * bs \<le> length D \<Longrightarrow> length (blk D bs b) = bs"
  by (simp add: blk_def)

lemma blk_copy_at:
  assumes "(b + 1) * bs \<le> length D" "length data = bs"
  shows "blk (copy_at (b * bs) data D) bs c = (if c = b then data else blk D bs c)"
proof (cases "c = b")
  case True
  then show ?thesis using sub_slice_copy_at_same [of "b * bs" data D] assms by (simp add: blk_def)
next
  case False
  then have "c * bs + bs \<le> b * bs \<or> b * bs + bs \<le> c * bs"
    by (metis Suc_leI add.commute linorder_neqE_nat mult_Suc mult_le_mono1)
  then show ?thesis
    using sub_slice_copy_at_other [of "b * bs" data D "c * bs" "c * bs + bs"] assms False by (simp add: blk_def add.commute)
qed

lemma blk_copy_below:
  assumes "i + length v \<le> length D" "i + length v \<le> c * bs"
  shows "blk (copy_at i v D) bs c = blk D bs c"
  using sub_slice_copy_at_other [OF assms(1), of "c * bs" "c * bs + bs"] assms(2) by (simp add: blk_def)

definition layout :: "('d \<Rightarrow> bool) \<Rightarrow> ('d \<Rightarrow> bytes) \<Rightarrow> 'd ext2 \<Rightarrow> bool" where
  "layout valid contents fs \<longleftrightarrow>
     sound valid fs \<and> unat (e_blocks_count fs) * bs_of fs \<le> length (contents (e_dev fs))
     \<and> tables_end fs \<le> length (contents (e_dev fs))"

lemma block_end: "b < e_blocks_count fs \<Longrightarrow> (unat b + 1) * n \<le> unat (e_blocks_count fs) * n"
  by (intro mult_le_mono1) (simp add: word_less_nat_alt)

context disk
begin

lemma read_block_run:
  assumes "layout valid contents fs" "b < e_blocks_count fs" "length buf = bs_of fs"
  shows "read_block bd b buf fs = Some (Inr (blk (contents (e_dev fs)) (bs_of fs) (unat b)), fs)"
proof -
  have "unat b * bs_of fs + length buf \<le> length (contents (e_dev fs))"
    using assms(1,3) block_end [OF assms(2), of "bs_of fs"] by (simp add: layout_def)
  then show ?thesis
    using assms by (simp add: read_block_def eread_disk layout_def sound_def blk_def not_le)
qed

lemma put_dev_disk:
  assumes "layout valid contents fs" "off + length data \<le> length (contents (e_dev fs))"
  shows "layout valid contents (put_dev bd off data fs)"
    and "contents (e_dev (put_dev bd off data fs)) = copy_at off data (contents (e_dev fs))"
    and "ewrite bd off data fs = Some (Inr (), put_dev bd off data fs)"
  using assms disk_write [of "e_dev fs" off data]
  by (simp_all add: layout_def sound_def ewrite_disk put_dev_def [of bd off data fs])
    (simp_all add: put_dev_def tables_end_def)

lemma write_block_run:
  assumes "layout valid contents fs" "b < e_blocks_count fs" "length data = bs_of fs"
  shows "write_block bd b data fs = Some (Inr (), put_dev bd (unat b * bs_of fs) data fs)"
    and "layout valid contents (put_dev bd (unat b * bs_of fs) data fs)"
    and "blk (contents (e_dev (put_dev bd (unat b * bs_of fs) data fs))) (bs_of fs) c =
      (if c = unat b then data else blk (contents (e_dev fs)) (bs_of fs) c)"
proof -
  have e: "(unat b + 1) * bs_of fs \<le> length (contents (e_dev fs))"
    using assms(1) block_end [OF assms(2), of "bs_of fs"] by (simp add: layout_def)
  then have off: "unat b * bs_of fs + length data \<le> length (contents (e_dev fs))"
    using assms(3) by simp
  show "write_block bd b data fs = Some (Inr (), put_dev bd (unat b * bs_of fs) data fs)"
    using assms put_dev_disk(3) [OF assms(1) off] by (simp add: write_block_def not_le)
  show "layout valid contents (put_dev bd (unat b * bs_of fs) data fs)"
    using put_dev_disk(1) [OF assms(1) off] .
  show "blk (contents (e_dev (put_dev bd (unat b * bs_of fs) data fs))) (bs_of fs) c =
      (if c = unat b then data else blk (contents (e_dev fs)) (bs_of fs) c)"
    using blk_copy_at [OF e assms(3)] put_dev_disk(2) [OF assms(1) off] by simp
qed

lemma write_bgd_run:
  assumes "layout valid contents fs" "g < length (e_block_groups fs)"
  defines "fs' \<equiv> put_dev bd (bgdt_offset (e_block_size fs) + g * 32) (bgd_to_bytes (e_block_groups fs ! g)) fs"
  shows "write_block_group_descriptor bd g fs = Some (Inr (), fs')"
    and "layout valid contents fs'"
    and "tables_end fs \<le> c * bs_of fs \<Longrightarrow>
      blk (contents (e_dev fs')) (bs_of fs) c = blk (contents (e_dev fs)) (bs_of fs) c"
proof -
  have "length (bg_reserved (e_block_groups fs ! g)) = 12"
    using assms(1,2) by (simp add: layout_def sound_def geometry_def list_all_length)
  note len = length_bgd_to_bytes [OF this]
  have e: "bgdt_offset (e_block_size fs) + g * 32 + length (bgd_to_bytes (e_block_groups fs ! g)) \<le> tables_end fs"
    using assms(2) len by (simp add: tables_end_def)
  also have t: "tables_end fs \<le> length (contents (e_dev fs))"
    using assms(1) by (simp add: layout_def)
  finally have off: "bgdt_offset (e_block_size fs) + g * 32 + length (bgd_to_bytes (e_block_groups fs ! g))
    \<le> length (contents (e_dev fs))" .
  show "write_block_group_descriptor bd g fs = Some (Inr (), fs')"
    using assms(2) put_dev_disk(3) [OF assms(1) off] by (simp add: write_block_group_descriptor_def fs'_def)
  show "layout valid contents fs'"
    using put_dev_disk(1) [OF assms(1) off] by (simp add: fs'_def)
  show "blk (contents (e_dev fs')) (bs_of fs) c = blk (contents (e_dev fs)) (bs_of fs) c" if "tables_end fs \<le> c * bs_of fs"
    using blk_copy_below [OF off, of c] e that put_dev_disk(2) [OF assms(1) off] by (simp add: fs'_def)
qed

lemma write_superblock_run:
  assumes "layout valid contents fs"
  defines "fs' \<equiv> put_dev bd SUPERBLOCK_OFFSET (superblock_to_bytes (e_superblock fs)) fs"
  shows "write_superblock bd fs = Some (Inr (), fs')"
    and "layout valid contents fs'"
    and "tables_end fs \<le> c * bs_of fs \<Longrightarrow>
      blk (contents (e_dev fs')) (bs_of fs) c = blk (contents (e_dev fs)) (bs_of fs) c"
proof -
  have g: "geometry fs" using assms(1) by (simp add: layout_def sound_def)
  have "length (superblock_to_bytes (e_superblock fs)) = 1024"
    using g by (intro length_superblock_to_bytes) (simp add: geometry_def)
  then have e: "SUPERBLOCK_OFFSET + length (superblock_to_bytes (e_superblock fs)) \<le> tables_end fs"
    using bgdt_bounds [OF g] by (simp add: tables_end_def SUPERBLOCK_OFFSET_def)
  then have off: "SUPERBLOCK_OFFSET + length (superblock_to_bytes (e_superblock fs)) \<le> length (contents (e_dev fs))"
    using assms(1) by (simp add: layout_def)
  show "write_superblock bd fs = Some (Inr (), fs')"
    using put_dev_disk(3) [OF assms(1) off] by (simp add: write_superblock_def fs'_def)
  show "layout valid contents fs'"
    using put_dev_disk(1) [OF assms(1) off] by (simp add: fs'_def)
  show "blk (contents (e_dev fs')) (bs_of fs) c = blk (contents (e_dev fs)) (bs_of fs) c" if "tables_end fs \<le> c * bs_of fs"
    using blk_copy_below [OF off, of c] e that put_dev_disk(2) [OF assms(1) off] by (simp add: fs'_def)
qed

end

section \<open>Pools\<close>

text \<open>
  Blocks and inodes are two instances of one scheme: \<^verbatim>\<open>bm\<close> is the block that holds a group's bitmap, \<^verbatim>\<open>bits\<close> the
  number of its bits that are in use, \<^verbatim>\<open>cnt\<close> and \<^verbatim>\<open>tot\<close> the counters of clear bits in the group
  and in the file system.
\<close>

definition clear_bits :: "bytes \<Rightarrow> nat \<Rightarrow> nat set" where
  "clear_bits bitmap m = {i. i < m \<and> \<not> bit_at bitmap i}"

definition group_bitmap :: "(block_group_descriptor \<Rightarrow> u32) \<Rightarrow> ('d \<Rightarrow> bytes) \<Rightarrow> 'd ext2 \<Rightarrow> nat \<Rightarrow> bytes" where
  "group_bitmap bm contents fs g = blk (contents (e_dev fs)) (bs_of fs) (unat (bm (e_block_groups fs ! g)))"

definition clear_in :: "(block_group_descriptor \<Rightarrow> u32) \<Rightarrow> ('d ext2 \<Rightarrow> nat \<Rightarrow> nat) \<Rightarrow> ('d \<Rightarrow> bytes) \<Rightarrow> 'd ext2 \<Rightarrow> nat \<Rightarrow> nat set" where
  "clear_in bm bits contents fs g = clear_bits (group_bitmap bm contents fs g) (bits fs g)"

definition pool_ok ::
  "(block_group_descriptor \<Rightarrow> u32) \<Rightarrow> (block_group_descriptor \<Rightarrow> u16) \<Rightarrow> (superblock \<Rightarrow> u32) \<Rightarrow> ('d ext2 \<Rightarrow> nat \<Rightarrow> nat)
     \<Rightarrow> ('d \<Rightarrow> bytes) \<Rightarrow> 'd ext2 \<Rightarrow> bool" where
  "pool_ok bm cnt tot bits contents fs \<longleftrightarrow>
     (\<forall>g < length (e_block_groups fs).
        bm (e_block_groups fs ! g) < e_blocks_count fs
        \<and> tables_end fs \<le> unat (bm (e_block_groups fs ! g)) * bs_of fs
        \<and> bits fs g \<le> 8 * bs_of fs \<and> bits fs g \<le> 65535
        \<and> unat (cnt (e_block_groups fs ! g)) = card (clear_in bm bits contents fs g))
     \<and> distinct (map bm (e_block_groups fs))
     \<and> unat (tot (e_superblock fs)) = (\<Sum>g < length (e_block_groups fs). unat (cnt (e_block_groups fs ! g)))"

text \<open>
  One step of an allocator: the bitmap in block \<^verbatim>\<open>b\<close> becomes \<^verbatim>\<open>new\<close>, a descriptor and the superblock are
  updated, and of the other blocks none outside the tables changes.
\<close>

definition pool_step ::
  "nat \<Rightarrow> bytes \<Rightarrow> nat \<Rightarrow> (block_group_descriptor \<Rightarrow> block_group_descriptor) \<Rightarrow> (superblock \<Rightarrow> superblock) \<Rightarrow> ('d \<Rightarrow> bytes)
     \<Rightarrow> 'd ext2 \<Rightarrow> 'd ext2 \<Rightarrow> bool" where
  "pool_step b new g f h contents fs fs' \<longleftrightarrow>
     e_block_groups fs' = (e_block_groups fs)[g := f (e_block_groups fs ! g)]
     \<and> e_superblock fs' = h (e_superblock fs)
     \<and> e_block_size fs' = e_block_size fs \<and> e_blocks_count fs' = e_blocks_count fs
     \<and> e_inode_size fs' = e_inode_size fs
     \<and> e_inodes_per_group fs' = e_inodes_per_group fs \<and> e_spawned fs' = e_spawned fs
     \<and> (\<forall>c. tables_end fs \<le> c * bs_of fs \<longrightarrow>
          blk (contents (e_dev fs')) (bs_of fs) c = (if c = b then new else blk (contents (e_dev fs)) (bs_of fs) c))"

lemma finite_clear_in [simp]: "finite (clear_in bm bits contents fs g)"
  by (simp add: clear_in_def clear_bits_def)

lemma pool_step_tables: "pool_step b new g f h contents fs fs' \<Longrightarrow> tables_end fs' = tables_end fs"
  by (simp add: pool_step_def tables_end_def)

text \<open>A step on one pool leaves the other alone.\<close>

lemma pool_other:
  assumes ok: "pool_ok bm cnt tot bits contents fs" and step: "pool_step b new g f h contents fs fs'"
    and b: "b \<notin> (unat \<circ> bm) ` set (e_block_groups fs)"
    and f: "\<And>x. bm (f x) = bm x" "\<And>x. cnt (f x) = cnt x" "\<And>s. tot (h s) = tot s"
    and bits: "bits fs' = bits fs"
  shows "pool_ok bm cnt tot bits contents fs'"
    and "k < length (e_block_groups fs) \<Longrightarrow> clear_in bm bits contents fs' k = clear_in bm bits contents fs k"
proof -
  have bm: "map bm (e_block_groups fs') = map bm (e_block_groups fs)"
    "map cnt (e_block_groups fs') = map cnt (e_block_groups fs)"
    using step f map_update_same [of bm f] map_update_same [of cnt f] by (simp_all add: pool_step_def)
  have len: "length (e_block_groups fs') = length (e_block_groups fs)"
    using step by (simp add: pool_step_def)
  have nth: "bm (e_block_groups fs' ! k) = bm (e_block_groups fs ! k)" "cnt (e_block_groups fs' ! k) = cnt (e_block_groups fs ! k)"
    if "k < length (e_block_groups fs)" for k
    using bm len that by (metis nth_map)+
  show clear: "clear_in bm bits contents fs' k = clear_in bm bits contents fs k" if "k < length (e_block_groups fs)" for k
  proof -
    have "unat (bm (e_block_groups fs ! k)) \<noteq> b" using b that by (auto simp: image_iff)
    moreover have "tables_end fs \<le> unat (bm (e_block_groups fs ! k)) * bs_of fs" using ok that by (simp add: pool_ok_def)
    ultimately show ?thesis
      using step that nth bits by (simp add: pool_step_def clear_in_def group_bitmap_def)
  qed
  show "pool_ok bm cnt tot bits contents fs'"
    using ok step clear nth bm bits f(3) len pool_step_tables [OF step] by (simp add: pool_ok_def pool_step_def)
qed

lemma pool_same:
  assumes ok: "pool_ok bm cnt tot bits contents fs" and step: "pool_step b new g f h contents fs fs'"
    and g: "g < length (e_block_groups fs)" "b = unat (bm (e_block_groups fs ! g))"
    and f: "\<And>x. bm (f x) = bm x" "unat (cnt (f (e_block_groups fs ! g))) = card (clear_bits new (bits fs g))"
    and h: "unat (tot (h (e_superblock fs))) + unat (cnt (e_block_groups fs ! g)) =
      unat (tot (e_superblock fs)) + unat (cnt (f (e_block_groups fs ! g)))"
    and bits: "bits fs' = bits fs"
  shows "pool_ok bm cnt tot bits contents fs'"
    and "k < length (e_block_groups fs) \<Longrightarrow>
      clear_in bm bits contents fs' k = (if k = g then clear_bits new (bits fs g) else clear_in bm bits contents fs k)"
proof -
  let ?gs = "e_block_groups fs" and ?gs' = "e_block_groups fs'"
  have bm: "map bm ?gs' = map bm ?gs"
    using step f map_update_same [of bm f] by (simp add: pool_step_def)
  have len: "length ?gs' = length ?gs" using step by (simp add: pool_step_def)
  have nth_bm: "bm (?gs' ! k) = bm (?gs ! k)" if "k < length ?gs" for k
    using bm len that by (metis nth_map)
  have nth_cnt: "cnt (?gs' ! k) = (if k = g then cnt (f (?gs ! g)) else cnt (?gs ! k))" if "k < length ?gs" for k
    using step that by (simp add: pool_step_def nth_list_update)
  show clear: "clear_in bm bits contents fs' k = (if k = g then clear_bits new (bits fs g) else clear_in bm bits contents fs k)"
    if "k < length ?gs" for k
  proof -
    have "bm (?gs ! k) = bm (?gs ! g) \<longleftrightarrow> k = g"
      using ok that g(1) by (auto simp: pool_ok_def distinct_conv_nth)
    then have "(unat (bm (?gs ! k)) = b) = (k = g)"
      using g(2) by (simp flip: word_unat_eq_iff)
    moreover have "tables_end fs \<le> unat (bm (?gs ! k)) * bs_of fs" using ok that by (simp add: pool_ok_def)
    ultimately show ?thesis
      using step that nth_bm bits by (simp add: pool_step_def clear_in_def group_bitmap_def)
  qed
  have "(\<Sum>k \<in> {..<length ?gs} - {g}. unat (cnt (?gs' ! k))) = (\<Sum>k \<in> {..<length ?gs} - {g}. unat (cnt (?gs ! k)))"
    by (rule sum.cong) (use nth_cnt in auto)
  then have "(\<Sum>k < length ?gs. unat (cnt (?gs' ! k))) + unat (cnt (?gs ! g)) =
      (\<Sum>k < length ?gs. unat (cnt (?gs ! k))) + unat (cnt (f (?gs ! g)))"
    using g(1) nth_cnt by (simp add: sum.remove [of "{..<length ?gs}" g])
  then have "unat (tot (e_superblock fs')) = (\<Sum>k < length ?gs. unat (cnt (?gs' ! k)))"
    using h ok step by (simp add: pool_ok_def pool_step_def)
  then show "pool_ok bm cnt tot bits contents fs'"
    using ok step clear nth_bm nth_cnt bm bits f(2) len pool_step_tables [OF step] by (simp add: pool_ok_def pool_step_def)
qed

text \<open>Taking and returning a bit.\<close>

lemma clear_bits_set:
  assumes "i \<in> clear_bits bitmap m" "m \<le> 8 * length bitmap"
  obtains bitmap' where "set_bit bitmap i = Some bitmap'" "length bitmap' = length bitmap"
    "clear_bits bitmap' m = clear_bits bitmap m - {i}"
proof -
  from assms obtain bitmap' where "set_bit bitmap i = Some bitmap'" "length bitmap' = length bitmap"
    "\<forall>j < 8 * length bitmap. bit_at bitmap' j \<longleftrightarrow> j = i \<or> bit_at bitmap j"
    using set_bit_facts [of i bitmap] by (auto simp: clear_bits_def)
  then show thesis using assms by (intro that [of bitmap']) (auto simp: clear_bits_def)
qed

lemma clear_bits_clear:
  assumes "i < m" "m \<le> 8 * length bitmap"
  obtains bitmap' where "clear_bit bitmap i = Some bitmap'" "length bitmap' = length bitmap"
    "clear_bits bitmap' m = insert i (clear_bits bitmap m)"
proof -
  from assms obtain bitmap' where "clear_bit bitmap i = Some bitmap'" "length bitmap' = length bitmap"
    "\<forall>j < 8 * length bitmap. bit_at bitmap' j \<longleftrightarrow> j \<noteq> i \<and> bit_at bitmap j"
    using clear_bit_facts [of i bitmap] by auto
  then show thesis using assms by (intro that [of bitmap']) (auto simp: clear_bits_def)
qed

lemma find_clear_bits:
  assumes "m \<le> 8 * length bitmap"
  shows "find_first_clear_bit bitmap m = (if clear_bits bitmap m = {} then None else Some (Min (clear_bits bitmap m)))"
proof (cases "find_first_clear_bit bitmap m")
  case None
  then show ?thesis using find_first_clear_bit_cases [of bitmap m] assms by (auto simp: clear_bits_def)
next
  case (Some i)
  then have "i \<in> clear_bits bitmap m" "\<forall>j \<in> clear_bits bitmap m. i \<le> j"
    using find_first_clear_bit_cases [of bitmap m] by (auto simp: clear_bits_def not_less [symmetric])
  moreover have "finite (clear_bits bitmap m)" by (simp add: clear_bits_def)
  ultimately have "Min (clear_bits bitmap m) = i" by (intro Min_eqI) auto
  then show ?thesis using Some \<open>i \<in> clear_bits bitmap m\<close> by auto
qed

section \<open>Writing a bitmap and its counters\<close>

definition put_bitmap :: "'d block_device \<Rightarrow> u32 \<Rightarrow> bytes \<Rightarrow> 'd ext2 \<Rightarrow> 'd ext2" where
  "put_bitmap bd b new fs = put_dev bd (unat b * bs_of fs) new fs"

definition put_group :: "'d block_device \<Rightarrow> nat \<Rightarrow> 'd ext2 \<Rightarrow> 'd ext2" where
  "put_group bd g fs = put_dev bd (bgdt_offset (e_block_size fs) + g * 32) (bgd_to_bytes (e_block_groups fs ! g)) fs"

definition put_super :: "'d block_device \<Rightarrow> 'd ext2 \<Rightarrow> 'd ext2" where
  "put_super bd fs = put_dev bd SUPERBLOCK_OFFSET (superblock_to_bytes (e_superblock fs)) fs"

lemma layout_update [simp]:
  "(\<And>x. bg_reserved (f x) = bg_reserved x) \<Longrightarrow>
   layout valid contents (update_group g f fs) = layout valid contents fs"
  "(\<And>s. s_tail (h s) = s_tail s) \<Longrightarrow> (\<And>s. s_blocks_count (h s) = s_blocks_count s) \<Longrightarrow>
   (\<And>s. s_blocks_per_group (h s) = s_blocks_per_group s) \<Longrightarrow>
   layout valid contents (update_super h fs) = layout valid contents fs"
  by (simp_all add: layout_def sound_def)

lemma spawned_simps [simp]:
  "e_spawned (put_dev bd off data fs) = e_spawned fs"
  "e_spawned (update_group g f fs) = e_spawned fs" "e_spawned (update_super h fs) = e_spawned fs"
  by (simp_all add: put_dev_def update_group_def update_super_def)

context disk
begin

lemma commit_run:
  assumes fs: "layout valid contents fs" and g: "g < length (e_block_groups fs)"
    and b: "b < e_blocks_count fs" "tables_end fs \<le> unat b * bs_of fs" and new: "length new = bs_of fs"
    and f: "\<And>x. bg_reserved (f x) = bg_reserved x"
    and h: "\<And>s. s_tail (h s) = s_tail s" "\<And>s. s_blocks_count (h s) = s_blocks_count s"
      "\<And>s. s_blocks_per_group (h s) = s_blocks_per_group s"
  defines "fs1 \<equiv> put_bitmap bd b new fs" and "fs2 \<equiv> update_super h (update_group g f (put_bitmap bd b new fs))"
  shows "write_block bd b new fs = Some (Inr (), fs1)"
    and "write_block_group_descriptor bd g fs2 = Some (Inr (), put_group bd g fs2)"
    and "write_superblock bd (put_group bd g fs2) = Some (Inr (), put_super bd (put_group bd g fs2))"
    and "layout valid contents (put_super bd (put_group bd g fs2))"
    and "pool_step (unat b) new g f h contents fs (put_super bd (put_group bd g fs2))"
proof -
  note w = write_block_run [OF fs b(1) new]
  show "write_block bd b new fs = Some (Inr (), fs1)"
    using w(1) by (simp add: fs1_def put_bitmap_def)
  have l2: "layout valid contents fs2" "g < length (e_block_groups fs2)"
    using w(2) f h g by (simp_all add: fs2_def put_bitmap_def)
  note d = write_bgd_run [OF l2, folded put_group_def]
  note u = write_superblock_run [OF d(2), folded put_super_def]
  show "write_block_group_descriptor bd g fs2 = Some (Inr (), put_group bd g fs2)"
    and "write_superblock bd (put_group bd g fs2) = Some (Inr (), put_super bd (put_group bd g fs2))"
    and "layout valid contents (put_super bd (put_group bd g fs2))"
    using d(1) u(1,2) .
  have s: "e_block_size fs2 = e_block_size fs" "tables_end fs2 = tables_end fs"
    "e_block_size (put_group bd g fs2) = e_block_size fs" "tables_end (put_group bd g fs2) = tables_end fs"
    by (simp_all add: fs2_def put_bitmap_def put_group_def)
  have "blk (contents (e_dev (put_super bd (put_group bd g fs2)))) (bs_of fs) c =
      (if c = unat b then new else blk (contents (e_dev fs)) (bs_of fs) c)" if "tables_end fs \<le> c * bs_of fs" for c
    using w(3) [of c] d(3) [of c] u(3) [of c] that s by (simp add: fs2_def put_bitmap_def)
  then show "pool_step (unat b) new g f h contents fs (put_super bd (put_group bd g fs2))"
    by (simp add: pool_step_def put_super_def put_group_def fs2_def put_bitmap_def)
qed

end

section \<open>The allocation invariant\<close>

definition group_blocks :: "'d ext2 \<Rightarrow> nat \<Rightarrow> nat" where
  "group_blocks fs g =
     (let bpg = unat (s_blocks_per_group (e_superblock fs)) in
      if g = length (e_block_groups fs) - 1 then unat (e_blocks_count fs) - g * bpg else bpg)"

definition group_inodes :: "'d ext2 \<Rightarrow> nat \<Rightarrow> nat" where
  "group_inodes fs g = unat (e_inodes_per_group fs)"

abbreviation clear_blocks :: "('d \<Rightarrow> bytes) \<Rightarrow> 'd ext2 \<Rightarrow> nat \<Rightarrow> nat set" where
  "clear_blocks \<equiv> clear_in bg_block_bitmap group_blocks"

abbreviation clear_inodes :: "('d \<Rightarrow> bytes) \<Rightarrow> 'd ext2 \<Rightarrow> nat \<Rightarrow> nat set" where
  "clear_inodes \<equiv> clear_in bg_inode_bitmap group_inodes"

definition block_at :: "'d ext2 \<Rightarrow> nat \<Rightarrow> nat \<Rightarrow> nat" where
  "block_at fs g i = unat (s_first_data_block (e_superblock fs)) + g * unat (s_blocks_per_group (e_superblock fs)) + i"

definition inode_at :: "'d ext2 \<Rightarrow> nat \<Rightarrow> nat \<Rightarrow> nat" where
  "inode_at fs g i = g * unat (e_inodes_per_group fs) + i + 1"

definition free_blocks :: "('d \<Rightarrow> bytes) \<Rightarrow> 'd ext2 \<Rightarrow> nat set" where
  "free_blocks contents fs = (\<Union>g < length (e_block_groups fs). block_at fs g ` clear_blocks contents fs g)"

definition free_inodes :: "('d \<Rightarrow> bytes) \<Rightarrow> 'd ext2 \<Rightarrow> nat set" where
  "free_inodes contents fs = (\<Union>g < length (e_block_groups fs). inode_at fs g ` clear_inodes contents fs g)"

text \<open>
  The bits of a last, shorter group beyond the end of the file system are set, as
  the formatting tools leave them.
\<close>

definition alloc_ok :: "('d \<Rightarrow> bool) \<Rightarrow> ('d \<Rightarrow> bytes) \<Rightarrow> 'd ext2 \<Rightarrow> bool" where
  "alloc_ok valid contents fs \<longleftrightarrow>
     layout valid contents fs
     \<and> pool_ok bg_block_bitmap bg_free_blocks_count s_free_blocks_count group_blocks contents fs
     \<and> pool_ok bg_inode_bitmap bg_free_inodes_count s_free_inodes_count group_inodes contents fs
     \<and> bg_block_bitmap ` set (e_block_groups fs) \<inter> bg_inode_bitmap ` set (e_block_groups fs) = {}
     \<and> (\<forall>b \<in> free_blocks contents fs. b < unat (e_blocks_count fs))
     \<and> length (e_block_groups fs) * unat (e_inodes_per_group fs) < 2 ^ 32"

lemma div_ceil_less:
  assumes "0 < p"
  shows "n < div_ceil B p \<longleftrightarrow> n * p < B"
proof -
  have B: "B = B div p * p + B mod p" "B mod p < p" using assms by simp_all
  show ?thesis
  proof (cases "n \<le> B div p")
    case True
    then have "n * p \<le> B div p * p" by (rule mult_le_mono1)
    then have "0 < B mod p \<Longrightarrow> n * p < B" using B(1) by linarith
    moreover have "n < B div p \<longleftrightarrow> n * p < B div p * p" using assms by simp
    moreover have "B mod p = 0 \<Longrightarrow> B div p * p = B" using B(1) by linarith
    ultimately show ?thesis using True by (auto simp: div_ceil_def)
  next
    case False
    then have "(B div p + 1) * p \<le> n * p" by (intro mult_le_mono1) simp
    then have "B div p * p + p \<le> n * p" by simp
    then have "\<not> n * p < B" using B by linarith
    then show ?thesis using False by (simp add: div_ceil_def)
  qed
qed

lemma last_group:
  assumes "geometry fs" "g < length (e_block_groups fs)"
  shows "g * unat (s_blocks_per_group (e_superblock fs)) < unat (e_blocks_count fs)"
    and "group_blocks fs g \<le> unat (s_blocks_per_group (e_superblock fs))"
    and "blocks_in_group fs g = Some (group_blocks fs g)"
proof -
  let ?B = "unat (e_blocks_count fs)" and ?p = "unat (s_blocks_per_group (e_superblock fs))"
  have p: "0 < ?p" "length (e_block_groups fs) = div_ceil ?B ?p"
    using assms(1) by (auto simp: geometry_def unat_gt_0)
  note ceil = div_ceil_less [OF p(1), of _ ?B, folded p(2)]
  show lt: "g * ?p < ?B" using assms(2) ceil by simp
  have "?B \<le> length (e_block_groups fs) * ?p" using ceil [of "length (e_block_groups fs)"] by simp
  then show "group_blocks fs g \<le> ?p"
    using assms(2) by (cases "length (e_block_groups fs)") (auto simp: group_blocks_def Let_def)
  show "blocks_in_group fs g = Some (group_blocks fs g)"
    using lt by (auto simp: blocks_in_group_def group_blocks_def Let_def)
qed

lemma pool_step_numbers:
  assumes "pool_step b new g f h contents fs fs'"
    and "\<And>s. s_first_data_block (h s) = s_first_data_block s" "\<And>s. s_blocks_per_group (h s) = s_blocks_per_group s"
  shows "block_at fs' = block_at fs" "inode_at fs' = inode_at fs" "group_blocks fs' = group_blocks fs"
    "group_inodes fs' = group_inodes fs"
  using assms by (auto simp: pool_step_def block_at_def inode_at_def group_blocks_def group_inodes_def Let_def fun_eq_iff)

text \<open>Bits of groups correspond one to one to numbers.\<close>

lemma grouped_inj:
  fixes p :: nat
  assumes "i < p" "j < p" "g * p + i = k * p + j"
  shows "g = k \<and> i = j"
proof -
  have "(g * p + i) div p = g" "(k * p + j) div p = k" using assms(1,2) by simp_all
  then show ?thesis using assms(3) by auto
qed

lemma block_at_inj:
  assumes "geometry fs" "g < length (e_block_groups fs)" "k < length (e_block_groups fs)"
    and "i < group_blocks fs g" "j < group_blocks fs k" "block_at fs g i = block_at fs k j"
  shows "g = k \<and> i = j"
  using grouped_inj [of i "unat (s_blocks_per_group (e_superblock fs))" j g k]
    last_group(2) [OF assms(1,2)] last_group(2) [OF assms(1,3)] assms(4-6)
  by (simp add: block_at_def)

abbreviation dec_free_blocks :: "block_group_descriptor \<Rightarrow> block_group_descriptor" where
  "dec_free_blocks g \<equiv> g\<lparr>bg_free_blocks_count := bg_free_blocks_count g - 1\<rparr>"

abbreviation dec_total_blocks :: "superblock \<Rightarrow> superblock" where
  "dec_total_blocks s \<equiv> s\<lparr>s_free_blocks_count := s_free_blocks_count s - 1\<rparr>"

lemma pool_counts:
  assumes "pool_ok bm cnt tot bits contents fs" "g < length (e_block_groups fs)" "length (group_bitmap bm contents fs g) = bs_of fs"
  shows "cnt (e_block_groups fs ! g) = 0 \<longleftrightarrow> clear_in bm bits contents fs g = {}"
    and "clear_in bm bits contents fs g \<noteq> {} \<Longrightarrow> tot (e_superblock fs) \<noteq> 0"
    and "find_first_clear_bit (group_bitmap bm contents fs g) (bits fs g) =
      (if clear_in bm bits contents fs g = {} then None else Some (Min (clear_in bm bits contents fs g)))"
proof -
  have c: "unat (cnt (e_block_groups fs ! g)) = card (clear_in bm bits contents fs g)"
    using assms(1,2) by (simp add: pool_ok_def)
  show "cnt (e_block_groups fs ! g) = 0 \<longleftrightarrow> clear_in bm bits contents fs g = {}"
    using c by (metis card_0_eq finite_clear_in unat_0 unat_eq_zero)
  show "tot (e_superblock fs) \<noteq> 0" if "clear_in bm bits contents fs g \<noteq> {}"
  proof -
    have "0 < unat (cnt (e_block_groups fs ! g))" using c that by (simp add: card_gt_0_iff)
    also have "\<dots> \<le> (\<Sum>g < length (e_block_groups fs). unat (cnt (e_block_groups fs ! g)))"
      using assms(2) by (intro member_le_sum) auto
    also have "\<dots> = unat (tot (e_superblock fs))" using assms(1) by (simp add: pool_ok_def)
    finally show ?thesis by auto
  qed
  show "find_first_clear_bit (group_bitmap bm contents fs g) (bits fs g) =
      (if clear_in bm bits contents fs g = {} then None else Some (Min (clear_in bm bits contents fs g)))"
    using assms find_clear_bits [of "bits fs g" "group_bitmap bm contents fs g"] by (simp add: clear_in_def pool_ok_def)
qed

context disk
begin

lemma length_group_bitmap:
  assumes "layout valid contents fs" "pool_ok bm cnt tot bits contents fs" "g < length (e_block_groups fs)"
  shows "length (group_bitmap bm contents fs g) = bs_of fs"
proof -
  have "bm (e_block_groups fs ! g) < e_blocks_count fs" using assms(2,3) by (simp add: pool_ok_def)
  from block_end [OF this, of "bs_of fs"] assms(1) show ?thesis
    by (simp add: group_bitmap_def length_blk layout_def)
qed

lemma alloc_block_in_run:
  fixes fs
  defines "n \<equiv> length (e_block_groups fs)" and "C \<equiv> clear_blocks contents fs"
  assumes ok: "alloc_ok valid contents fs" and k: "k \<le> n" "\<forall>g < k. C g = {}"
  shows "(\<forall>g < n. C g = {}) \<and> alloc_block_in bd (s_first_data_block (e_superblock fs)) [k..<n] fs = Some (Inl NoSpace, fs) \<or>
    (\<exists>g new fs'. g < n \<and> C g \<noteq> {} \<and> (\<forall>h < g. C h = {})
       \<and> alloc_block_in bd (s_first_data_block (e_superblock fs)) [k..<n] fs = Some (Inr (of_nat (block_at fs g (Min (C g)))), fs')
       \<and> layout valid contents fs'
       \<and> pool_step (unat (bg_block_bitmap (e_block_groups fs ! g))) new g dec_free_blocks dec_total_blocks contents fs fs'
       \<and> clear_bits new (group_blocks fs g) = C g - {Min (C g)})"
  using k
proof (induction "n - k" arbitrary: k)
  case 0
  then show ?case by simp
next
  case (Suc m)
  then have kn: "k < n" by simp
  then have up: "[k..<n] = k # [Suc k..<n]" by (simp add: upt_conv_Cons)
  let ?bgd = "e_block_groups fs ! k"
  have l: "layout valid contents fs" "geometry fs"
    and pool: "pool_ok bg_block_bitmap bg_free_blocks_count s_free_blocks_count group_blocks contents fs"
    using ok by (auto simp: alloc_ok_def layout_def sound_def)
  have len: "length (group_bitmap bg_block_bitmap contents fs k) = bs_of fs"
    using length_group_bitmap [OF l(1) pool] kn by (simp add: n_def)
  note cnt = pool_counts [OF pool _ len, folded C_def n_def, OF kn]
  have bm: "bg_block_bitmap ?bgd < e_blocks_count fs" "tables_end fs \<le> unat (bg_block_bitmap ?bgd) * bs_of fs"
    "group_blocks fs k \<le> 8 * bs_of fs"
    using pool kn by (simp_all add: pool_ok_def n_def)
  show ?case
  proof (cases "C k = {}")
    case True
    then have "\<forall>g < Suc k. C g = {}" using Suc.prems(2) by (simp add: less_Suc_eq)
    from Suc.hyps(1) [of "Suc k", OF _ _ this] Suc.hyps(2) kn True cnt(1) show ?thesis
      by (simp add: up Let_def)
  next
    case False
    let ?i = "Min (C k)"
    have i: "?i \<in> C k" using False by (simp add: C_def)
    then obtain new where new: "set_bit (group_bitmap bg_block_bitmap contents fs k) ?i = Some new"
      "length new = bs_of fs" "clear_bits new (group_blocks fs k) = C k - {?i}"
      using clear_bits_set [of ?i "group_bitmap bg_block_bitmap contents fs k" "group_blocks fs k"] bm(3) len
      by (auto simp: C_def clear_in_def)
    have "block_at fs k ?i \<in> free_blocks contents fs"
      using i kn by (auto simp: free_blocks_def C_def n_def)
    then have num: "block_at fs k ?i < unat (e_blocks_count fs)" using ok by (simp add: alloc_ok_def)
    then have num32: "block_at fs k ?i < 4294967296" using unsigned_less [of "e_blocks_count fs", where 'a = nat] by simp
    note c = commit_run [OF l(1) _ bm(1,2) new(2), of k dec_free_blocks dec_total_blocks, simplified, folded n_def, OF kn]
    have "alloc_block_in bd (s_first_data_block (e_superblock fs)) [k..<n] fs =
      Some (Inr (of_nat (block_at fs k ?i)), put_super bd (put_group bd k
        (update_super dec_total_blocks (update_group k dec_free_blocks (put_bitmap bd (bg_block_bitmap ?bgd) new fs)))))"
      using False cnt bm num32 kn
      by (simp add: up Let_def last_group(3) [OF l(2), folded n_def] new(1) c(1-3)
          read_block_run [OF l(1) bm(1), folded group_bitmap_def] ebind_def [of "read_block bd b buf" for b buf]
          ebind_def [of "write_block bd b buf" for b buf] ebind_def [of "write_superblock bd"]
          ebind_def [of "write_block_group_descriptor bd g" for g]
          flip: block_at_def)
    then show ?thesis
      using False kn Suc.prems(2) c new(3) by blast
  qed
qed

end

lemma unat_dec: "w \<noteq> 0 \<Longrightarrow> unat (w - 1) + 1 = unat (w :: 'a::len word)"
  by (simp add: unat_minus_one unat_gt_0)

lemma disjoint_bitmaps:
  assumes "alloc_ok valid contents fs" "g < length (e_block_groups fs)"
  shows "unat (bg_block_bitmap (e_block_groups fs ! g)) \<notin> (unat \<circ> bg_inode_bitmap) ` set (e_block_groups fs)"
    and "unat (bg_inode_bitmap (e_block_groups fs ! g)) \<notin> (unat \<circ> bg_block_bitmap) ` set (e_block_groups fs)"
proof -
  have d: "bg_block_bitmap ` set (e_block_groups fs) \<inter> bg_inode_bitmap ` set (e_block_groups fs) = {}"
    using assms(1) by (simp add: alloc_ok_def)
  have g: "e_block_groups fs ! g \<in> set (e_block_groups fs)" using assms(2) by simp
  show "unat (bg_block_bitmap (e_block_groups fs ! g)) \<notin> (unat \<circ> bg_inode_bitmap) ` set (e_block_groups fs)"
    "unat (bg_inode_bitmap (e_block_groups fs ! g)) \<notin> (unat \<circ> bg_block_bitmap) ` set (e_block_groups fs)"
    using d g unfolding disjoint_iff by (fastforce simp flip: word_unat_eq_iff)+
qed

lemma images_update_same:
  assumes "\<And>x. p (f x) = p x"
  shows "p ` set (xs[g := f (xs ! g)]) = p ` set xs"
  using arg_cong [OF map_update_same [of p f xs g, OF assms], of set] by simp

text \<open>A step that changes the set of free blocks of one group, from \<^verbatim>\<open>C\<close> to that of the new bitmap.\<close>

lemma block_step:
  assumes ok: "alloc_ok valid contents fs" and l: "layout valid contents fs'"
    and step: "pool_step (unat (bg_block_bitmap (e_block_groups fs ! g))) new g f h contents fs fs'"
    and g: "g < length (e_block_groups fs)"
    and f: "\<And>x. bg_block_bitmap (f x) = bg_block_bitmap x" "\<And>x. bg_inode_bitmap (f x) = bg_inode_bitmap x"
      "\<And>x. bg_free_inodes_count (f x) = bg_free_inodes_count x"
      "unat (bg_free_blocks_count (f (e_block_groups fs ! g))) = card (clear_bits new (group_blocks fs g))"
    and h: "\<And>s. s_first_data_block (h s) = s_first_data_block s" "\<And>s. s_blocks_per_group (h s) = s_blocks_per_group s"
      "\<And>s. s_free_inodes_count (h s) = s_free_inodes_count s"
      "unat (s_free_blocks_count (h (e_superblock fs))) + unat (bg_free_blocks_count (e_block_groups fs ! g)) =
       unat (s_free_blocks_count (e_superblock fs)) + unat (bg_free_blocks_count (f (e_block_groups fs ! g)))"
    and fits: "\<forall>i \<in> clear_bits new (group_blocks fs g). block_at fs g i < unat (e_blocks_count fs)"
  shows "alloc_ok valid contents fs'"
    and "free_inodes contents fs' = free_inodes contents fs"
    and "k < length (e_block_groups fs) \<Longrightarrow>
      clear_blocks contents fs' k = (if k = g then clear_bits new (group_blocks fs g) else clear_blocks contents fs k)"
proof -
  have pools: "pool_ok bg_block_bitmap bg_free_blocks_count s_free_blocks_count group_blocks contents fs"
    "pool_ok bg_inode_bitmap bg_free_inodes_count s_free_inodes_count group_inodes contents fs"
    using ok by (simp_all add: alloc_ok_def)
  note num = pool_step_numbers [OF step h(1,2)]
  note same = pool_same [where bm = bg_block_bitmap and cnt = bg_free_blocks_count and tot = s_free_blocks_count
      and bits = group_blocks, OF pools(1) step g refl f(1) f(4) h(4) num(3)]
  note other = pool_other [where bm = bg_inode_bitmap and cnt = bg_free_inodes_count and tot = s_free_inodes_count
      and bits = group_inodes, OF pools(2) step disjoint_bitmaps(1) [OF ok g] f(2,3) h(3) num(4)]
  have eq: "length (e_block_groups fs') = length (e_block_groups fs)" "e_blocks_count fs' = e_blocks_count fs"
    "e_inodes_per_group fs' = e_inodes_per_group fs"
    using step by (simp_all add: pool_step_def)
  show clear: "clear_blocks contents fs' k = (if k = g then clear_bits new (group_blocks fs g) else clear_blocks contents fs k)"
    if "k < length (e_block_groups fs)" for k
    using same(2) [OF that] .
  show "free_inodes contents fs' = free_inodes contents fs"
    by (simp add: free_inodes_def num(2) eq(1) other(2))
  have "b < unat (e_blocks_count fs)" if "b \<in> free_blocks contents fs'" for b
  proof -
    from that obtain k i where b: "k < length (e_block_groups fs)" "i \<in> clear_blocks contents fs' k" "b = block_at fs k i"
      by (auto simp: free_blocks_def num(1) eq(1))
    have "i \<in> clear_blocks contents fs k \<Longrightarrow> b \<in> free_blocks contents fs" using b by (auto simp: free_blocks_def)
    then show ?thesis
      using b fits ok clear [OF b(1)] by (auto simp: alloc_ok_def split: if_splits)
  qed
  moreover have "bg_block_bitmap ` set (e_block_groups fs') = bg_block_bitmap ` set (e_block_groups fs)"
    "bg_inode_bitmap ` set (e_block_groups fs') = bg_inode_bitmap ` set (e_block_groups fs)"
    using step images_update_same [of bg_block_bitmap f, OF f(1)] images_update_same [of bg_inode_bitmap f, OF f(2)]
    by (simp_all add: pool_step_def)
  ultimately show "alloc_ok valid contents fs'"
    using ok l same(1) other(1) eq by (simp add: alloc_ok_def)
qed

lemma clear_bound: "i \<in> clear_in bm bits contents fs g \<Longrightarrow> i < bits fs g"
  by (simp add: clear_in_def clear_bits_def)

lemma finite_free_blocks [simp]: "finite (free_blocks contents fs)"
  by (simp add: free_blocks_def)

lemma free_blocks_step:
  assumes geo: "geometry fs" "length (e_block_groups fs') = length (e_block_groups fs)" "block_at fs' = block_at fs"
    and g: "g < length (e_block_groups fs)" "i < group_blocks fs g"
    and clear: "\<And>k. k < length (e_block_groups fs) \<Longrightarrow>
      clear_blocks contents fs' k = (if k = g then C else clear_blocks contents fs k)"
  shows "C = clear_blocks contents fs g - {i} \<Longrightarrow> free_blocks contents fs' = free_blocks contents fs - {block_at fs g i}"
    and "C = insert i (clear_blocks contents fs g) \<Longrightarrow> free_blocks contents fs' = insert (block_at fs g i) (free_blocks contents fs)"
proof -
  let ?n = "length (e_block_groups fs)"
  have inj: "block_at fs k j = block_at fs g i \<longleftrightarrow> k = g \<and> j = i" if "k < ?n" "j \<in> clear_blocks contents fs k" for k j
    using block_at_inj [OF geo(1) that(1) g(1) clear_bound [OF that(2)] g(2)] by blast
  have free': "free_blocks contents fs' = (\<Union>k < ?n. block_at fs k ` (if k = g then C else clear_blocks contents fs k))"
    using clear by (simp add: free_blocks_def geo)
  show "free_blocks contents fs' = free_blocks contents fs - {block_at fs g i}" if "C = clear_blocks contents fs g - {i}"
  proof -
    have "block_at fs k ` (if k = g then C else clear_blocks contents fs k)
        = block_at fs k ` clear_blocks contents fs k - {block_at fs g i}" if "k < ?n" for k
      using inj [OF that] \<open>C = _\<close> by auto
    then have "free_blocks contents fs' = (\<Union>k < ?n. block_at fs k ` clear_blocks contents fs k - {block_at fs g i})"
      by (simp add: free')
    then show ?thesis unfolding free_blocks_def [of contents fs] by auto
  qed
  show "free_blocks contents fs' = insert (block_at fs g i) (free_blocks contents fs)" if "C = insert i (clear_blocks contents fs g)"
  proof -
    have "block_at fs k ` (if k = g then C else clear_blocks contents fs k)
        = (if k = g then insert (block_at fs g i) (block_at fs k ` clear_blocks contents fs k)
           else block_at fs k ` clear_blocks contents fs k)" for k
      using \<open>C = _\<close> by auto
    then have "free_blocks contents fs' = (\<Union>k < ?n. if k = g then insert (block_at fs g i) (block_at fs k ` clear_blocks contents fs k)
        else block_at fs k ` clear_blocks contents fs k)"
      by (simp only: free')
    then show ?thesis using g(1) unfolding free_blocks_def [of contents fs] by (auto split: if_splits)
  qed
qed

lemma first_fit_least:
  assumes "geometry fs" "g < length (e_block_groups fs)" "clear_blocks contents fs g \<noteq> {}" "\<forall>h < g. clear_blocks contents fs h = {}"
  shows "Min (free_blocks contents fs) = block_at fs g (Min (clear_blocks contents fs g))"
proof (rule Min_eqI)
  let ?i = "Min (clear_blocks contents fs g)" and ?p = "unat (s_blocks_per_group (e_superblock fs))"
  have i: "?i \<in> clear_blocks contents fs g" using assms(3) by simp
  then show "block_at fs g ?i \<in> free_blocks contents fs" using assms(2) by (auto simp: free_blocks_def)
  have ip: "?i < ?p" using clear_bound [OF i] last_group(2) [OF assms(1,2)] by simp
  fix b assume "b \<in> free_blocks contents fs"
  then obtain k j where b: "k < length (e_block_groups fs)" "j \<in> clear_blocks contents fs k" "b = block_at fs k j"
    by (auto simp: free_blocks_def)
  then have "g \<le> k" using assms(4) by (metis empty_iff not_less)
  moreover have "?i \<le> j" if "k = g" using b(2) that by simp
  moreover have "g * ?p + ?i \<le> k * ?p" if "g < k"
  proof -
    have "(g + 1) * ?p \<le> k * ?p" using that by (intro mult_le_mono1) simp
    then show ?thesis using ip by simp
  qed
  ultimately show "block_at fs g ?i \<le> b" using b(3) by (cases "k = g") (auto simp: block_at_def)
qed simp

text \<open>Blocks outside the tables and bitmaps keep their contents.\<close>

definition data_kept :: "('d \<Rightarrow> bytes) \<Rightarrow> 'd ext2 \<Rightarrow> 'd ext2 \<Rightarrow> bool" where
  "data_kept contents fs fs' \<longleftrightarrow>
     (\<forall>c. tables_end fs \<le> c * bs_of fs
        \<and> c \<notin> (unat \<circ> bg_block_bitmap) ` set (e_block_groups fs) \<union> (unat \<circ> bg_inode_bitmap) ` set (e_block_groups fs)
        \<longrightarrow> blk (contents (e_dev fs')) (bs_of fs) c = blk (contents (e_dev fs)) (bs_of fs) c)"

lemma pool_step_data_kept:
  assumes "pool_step (unat (bm (e_block_groups fs ! g))) new g f h contents fs fs'" "g < length (e_block_groups fs)"
    "bm = bg_block_bitmap \<or> bm = bg_inode_bitmap"
  shows "data_kept contents fs fs'"
proof -
  have "e_block_groups fs ! g \<in> set (e_block_groups fs)" using assms(2) by simp
  then have "unat (bm (e_block_groups fs ! g)) \<in> (unat \<circ> bg_block_bitmap) ` set (e_block_groups fs)
      \<union> (unat \<circ> bg_inode_bitmap) ` set (e_block_groups fs)"
    using assms(3) by auto
  then show ?thesis using assms(1) unfolding data_kept_def pool_step_def by metis
qed

text \<open>What never changes after mounting: the geometry and where the tables lie.\<close>

definition shape :: "'d ext2 \<Rightarrow> (u32 \<times> u32 \<times> u32 \<times> u32) \<times> (u32 \<times> u32 \<times> u32) list" where
  "shape fs = ((e_block_size fs, e_inode_size fs, e_blocks_count fs, e_inodes_per_group fs),
     map (\<lambda>g. (bg_block_bitmap g, bg_inode_bitmap g, bg_inode_table g)) (e_block_groups fs))"

lemma pool_step_shape:
  assumes "pool_step b new g f h contents fs fs'"
    "\<And>x. (bg_block_bitmap (f x), bg_inode_bitmap (f x), bg_inode_table (f x)) = (bg_block_bitmap x, bg_inode_bitmap x, bg_inode_table x)"
  shows "shape fs' = shape fs"
  using assms(1) map_update_same [of "\<lambda>g. (bg_block_bitmap g, bg_inode_bitmap g, bg_inode_table g)" f, OF assms(2)]
  by (simp add: pool_step_def shape_def)

lemma card_remove_count:
  assumes "unat (c :: 'a::len word) = card C" "i \<in> C" "finite C"
  shows "unat (c - 1) = card (C - {i})" "unat (c - 1) + 1 = unat c"
proof -
  have "c \<noteq> 0" using assms by (metis card_0_eq empty_iff unat_0)
  then show "unat (c - 1) + 1 = unat c" by (rule unat_dec)
  then show "unat (c - 1) = card (C - {i})" using assms by simp
qed

context disk
begin

lemma alloc_block_spec:
  assumes ok: "alloc_ok valid contents fs"
  shows "if free_blocks contents fs = {} then alloc_block bd fs = Some (Inl NoSpace, fs)
    else \<exists>b fs'. alloc_block bd fs = Some (Inr b, fs') \<and> unat b = Min (free_blocks contents fs)
      \<and> free_blocks contents fs' = free_blocks contents fs - {unat b}
      \<and> free_inodes contents fs' = free_inodes contents fs
      \<and> alloc_ok valid contents fs' \<and> data_kept contents fs fs' \<and> shape fs' = shape fs"
proof -
  let ?C = "clear_blocks contents fs" and ?n = "length (e_block_groups fs)"
  have geo: "geometry fs" and pool: "pool_ok bg_block_bitmap bg_free_blocks_count s_free_blocks_count group_blocks contents fs"
    using ok by (auto simp: alloc_ok_def layout_def sound_def)
  consider (full) "\<forall>g < ?n. ?C g = {}" "alloc_block bd fs = Some (Inl NoSpace, fs)"
    | (found) g new fs' where "g < ?n" "?C g \<noteq> {}" "\<forall>h < g. ?C h = {}"
      "alloc_block bd fs = Some (Inr (of_nat (block_at fs g (Min (?C g)))), fs')" "layout valid contents fs'"
      "pool_step (unat (bg_block_bitmap (e_block_groups fs ! g))) new g dec_free_blocks dec_total_blocks contents fs fs'"
      "clear_bits new (group_blocks fs g) = ?C g - {Min (?C g)}"
    using alloc_block_in_run [OF ok, of 0] by (simp add: alloc_block_def) blast
  then show ?thesis
  proof cases
    case full
    then show ?thesis by (simp add: free_blocks_def)
  next
    case found
    let ?i = "Min (?C g)"
    have i: "?i \<in> ?C g" using found(2) by simp
    have free: "block_at fs g ?i \<in> free_blocks contents fs" using i found(1) by (auto simp: free_blocks_def)
    then have lt: "block_at fs g ?i < unat (e_blocks_count fs)" using ok by (simp add: alloc_ok_def)
    then have b: "unat (of_nat (block_at fs g ?i) :: u32) = block_at fs g ?i"
      using unsigned_less [of "e_blocks_count fs", where 'a = nat] by (intro unat_of_nat_small) simp
    have count: "unat (bg_free_blocks_count (e_block_groups fs ! g)) = card (?C g)"
      using pool found(1) by (simp add: pool_ok_def)
    note dec = card_remove_count [OF count i finite_clear_in]
    have tot: "s_free_blocks_count (e_superblock fs) \<noteq> 0"
      using pool_counts(2) [OF pool found(1) length_group_bitmap [OF _ pool found(1)]] ok found(2) by (simp add: alloc_ok_def)
    have fits: "\<forall>j \<in> ?C g - {?i}. block_at fs g j < unat (e_blocks_count fs)"
      using ok found(1) by (auto simp: alloc_ok_def free_blocks_def)
    have step: "alloc_ok valid contents fs'" "free_inodes contents fs' = free_inodes contents fs"
      "\<And>k. k < ?n \<Longrightarrow> clear_blocks contents fs' k = (if k = g then ?C g - {?i} else ?C k)"
      using block_step [OF ok found(5,6,1)] dec unat_dec [OF tot] fits found(7) by simp_all
    have num: "block_at fs' = block_at fs" using pool_step_numbers(1) [OF found(6)] by simp
    have len: "length (e_block_groups fs') = ?n" using found(6) by (simp add: pool_step_def)
    have "free_blocks contents fs' = free_blocks contents fs - {block_at fs g ?i}"
      using free_blocks_step(1) [OF geo len num found(1) clear_bound [OF i] step(3)] by simp
    moreover have "Min (free_blocks contents fs) = block_at fs g ?i"
      using first_fit_least [OF geo found(1-3)] .
    ultimately show ?thesis
      using free found(4) b step(1,2) pool_step_data_kept [where bm = bg_block_bitmap, OF found(6,1)]
        pool_step_shape [OF found(6)] by auto
  qed
qed

end

section \<open>Freeing a block\<close>

lemma card_free_blocks:
  assumes "alloc_ok valid contents fs"
  shows "unat (s_free_blocks_count (e_superblock fs)) = card (free_blocks contents fs)"
proof -
  let ?C = "clear_blocks contents fs" and ?n = "length (e_block_groups fs)"
  have geo: "geometry fs" and pool: "pool_ok bg_block_bitmap bg_free_blocks_count s_free_blocks_count group_blocks contents fs"
    using assms by (auto simp: alloc_ok_def layout_def sound_def)
  have inj: "k = l \<and> i = j" if "k < ?n" "l < ?n" "i \<in> ?C k" "j \<in> ?C l" "block_at fs k i = block_at fs l j" for k l i j
    using block_at_inj [OF geo that(1,2) clear_bound [OF that(3)] clear_bound [OF that(4)] that(5)] .
  have "card (free_blocks contents fs) = (\<Sum>k < ?n. card (block_at fs k ` ?C k))"
    unfolding free_blocks_def using inj by (intro card_UN_disjoint) (auto simp: disjoint_iff)
  also have "\<dots> = (\<Sum>k < ?n. card (?C k))"
    by (intro sum.cong refl card_image) (simp add: inj_on_def block_at_def)
  also have "\<dots> = unat (s_free_blocks_count (e_superblock fs))"
    using pool by (simp add: pool_ok_def)
  finally show ?thesis ..
qed

lemma locate_block:
  assumes "geometry fs" "s_first_data_block (e_superblock fs) \<le> b" "b < e_blocks_count fs"
  defines "adj \<equiv> unat b - unat (s_first_data_block (e_superblock fs))" and "p \<equiv> unat (s_blocks_per_group (e_superblock fs))"
  shows "adj div p < length (e_block_groups fs)" "adj mod p < group_blocks fs (adj div p)" "block_at fs (adj div p) (adj mod p) = unat b"
proof -
  have p: "0 < p" "length (e_block_groups fs) = div_ceil (unat (e_blocks_count fs)) p"
    using assms(1) by (auto simp: geometry_def unat_gt_0 p_def)
  have le: "unat (s_first_data_block (e_superblock fs)) \<le> unat b" "adj < unat (e_blocks_count fs)"
    using assms(2,3) by (simp_all add: word_le_nat_alt word_less_nat_alt adj_def)
  have split: "adj div p * p + adj mod p = adj" by simp
  then have "adj div p * p < unat (e_blocks_count fs)" using le(2) by linarith
  then show g: "adj div p < length (e_block_groups fs)"
    using div_ceil_less [OF p(1)] p(2) by simp
  have "adj mod p < unat (e_blocks_count fs) - adj div p * p" using le(2) split by linarith
  then show "adj mod p < group_blocks fs (adj div p)"
    using p(1) by (auto simp: group_blocks_def Let_def p_def)
  show "block_at fs (adj div p) (adj mod p) = unat b"
    using split le(1) unfolding block_at_def p_def [symmetric] by (simp add: adj_def)
qed

abbreviation inc_free_blocks :: "block_group_descriptor \<Rightarrow> block_group_descriptor" where
  "inc_free_blocks g \<equiv> g\<lparr>bg_free_blocks_count := bg_free_blocks_count g + 1\<rparr>"

abbreviation inc_total_blocks :: "superblock \<Rightarrow> superblock" where
  "inc_total_blocks s \<equiv> s\<lparr>s_free_blocks_count := s_free_blocks_count s + 1\<rparr>"

lemma mem_free_blocks:
  assumes "geometry fs" "g < length (e_block_groups fs)" "i < group_blocks fs g"
  shows "block_at fs g i \<in> free_blocks contents fs \<longleftrightarrow> i \<in> clear_blocks contents fs g"
proof
  assume "block_at fs g i \<in> free_blocks contents fs"
  then obtain k j where k: "k < length (e_block_groups fs)" "j \<in> clear_blocks contents fs k" "block_at fs g i = block_at fs k j"
    by (auto simp: free_blocks_def)
  then show "i \<in> clear_blocks contents fs g"
    using block_at_inj [OF assms(1,2) k(1) assms(3) clear_bound [OF k(2)] k(3)] by simp
qed (use assms(2) in \<open>auto simp: free_blocks_def\<close>)

lemma unat_inc: "unat w + 1 < 2 ^ LENGTH('a) \<Longrightarrow> unat (w + 1) = unat (w :: 'a::len word) + 1"
  by (simp add: unat_word_ariths)

context disk
begin

lemma free_block_spec:
  assumes ok: "alloc_ok valid contents fs"
    and b: "s_first_data_block (e_superblock fs) \<le> b" "b < e_blocks_count fs"
  shows "if unat b \<in> free_blocks contents fs then free_block bd b fs = Some (Inl IoError, fs)
    else \<exists>fs'. free_block bd b fs = Some (Inr (), fs')
      \<and> free_blocks contents fs' = insert (unat b) (free_blocks contents fs)
      \<and> free_inodes contents fs' = free_inodes contents fs
      \<and> alloc_ok valid contents fs' \<and> data_kept contents fs fs' \<and> shape fs' = shape fs"
proof -
  let ?C = "clear_blocks contents fs" and ?n = "length (e_block_groups fs)"
  let ?p = "unat (s_blocks_per_group (e_superblock fs))"
  let ?adj = "unat b - unat (s_first_data_block (e_superblock fs))"
  let ?g = "?adj div ?p" and ?i = "?adj mod ?p"
  let ?bgd = "e_block_groups fs ! ?g"
  have l: "layout valid contents fs" "geometry fs"
    and pool: "pool_ok bg_block_bitmap bg_free_blocks_count s_free_blocks_count group_blocks contents fs"
    using ok by (auto simp: alloc_ok_def layout_def sound_def)
  note loc = locate_block [OF l(2) b]
  let ?bitmap = "group_bitmap bg_block_bitmap contents fs ?g"
  have len: "length ?bitmap = bs_of fs" using length_group_bitmap [OF l(1) pool loc(1)] .
  have bm: "bg_block_bitmap ?bgd < e_blocks_count fs" "tables_end fs \<le> unat (bg_block_bitmap ?bgd) * bs_of fs"
    "group_blocks fs ?g \<le> 8 * bs_of fs" "group_blocks fs ?g \<le> 65535" "unat (bg_free_blocks_count ?bgd) = card (?C ?g)"
    using pool loc(1) by (simp_all add: pool_ok_def)
  have bit: "get_bit ?bitmap ?i = Some (bit_at ?bitmap ?i)" using get_bit_eq loc(2) bm(3) len by simp
  have free: "unat b \<in> free_blocks contents fs \<longleftrightarrow> \<not> bit_at ?bitmap ?i"
    using mem_free_blocks [OF l(2) loc(1,2), of contents] loc(2,3) by (simp add: clear_in_def clear_bits_def)
  note unfolded = free_block_def Let_def bit read_block_run [OF l(1) bm(1), folded group_bitmap_def]
    ebind_def [of "read_block bd b buf" for b buf]
  show ?thesis
  proof (cases "unat b \<in> free_blocks contents fs")
    case True
    then show ?thesis using free b loc(1) by (simp add: unfolded not_le)
  next
    case False
    then have notin: "?i \<notin> ?C ?g" using free by (simp add: clear_in_def clear_bits_def)
    obtain new where new: "clear_bit ?bitmap ?i = Some new" "length new = bs_of fs"
      "clear_bits new (group_blocks fs ?g) = insert ?i (?C ?g)"
      using clear_bits_clear [OF loc(2), of ?bitmap] bm(3) len by (auto simp: clear_in_def)
    have "insert ?i (?C ?g) \<subseteq> {..<group_blocks fs ?g}" using loc(2) clear_bound by auto
    then have "card (insert ?i (?C ?g)) \<le> group_blocks fs ?g" using card_mono [of "{..<group_blocks fs ?g}"] by simp
    then have cnt: "unat (bg_free_blocks_count ?bgd) + 1 \<le> 65535" "card (insert ?i (?C ?g)) = unat (bg_free_blocks_count ?bgd) + 1"
      using notin bm(4,5) by simp_all
    have "insert (unat b) (free_blocks contents fs) \<subseteq> {..<unat (e_blocks_count fs)}"
      using ok b(2) by (auto simp: alloc_ok_def word_less_nat_alt)
    then have "card (insert (unat b) (free_blocks contents fs)) \<le> unat (e_blocks_count fs)"
      using card_mono [of "{..<unat (e_blocks_count fs)}"] by simp
    then have tot: "unat (s_free_blocks_count (e_superblock fs)) + 1 < 2 ^ 32"
      using False card_free_blocks [OF ok] unsigned_less [of "e_blocks_count fs", where 'a = nat] by simp
    have nmax: "bg_free_blocks_count ?bgd \<noteq> 0xFFFF" "s_free_blocks_count (e_superblock fs) \<noteq> 0xFFFFFFFF"
      using cnt(1) tot by auto
    have inc: "unat (bg_free_blocks_count ?bgd + 1) = unat (bg_free_blocks_count ?bgd) + 1"
      "unat (s_free_blocks_count (e_superblock fs) + 1) = unat (s_free_blocks_count (e_superblock fs)) + 1"
      using cnt(1) tot by (simp_all add: unat_inc del: One_nat_def)
    note c = commit_run [OF l(1) loc(1) bm(1,2) new(2), of inc_free_blocks inc_total_blocks, simplified]
    let ?fs' = "put_super bd (put_group bd ?g
      (update_super inc_total_blocks (update_group ?g inc_free_blocks (put_bitmap bd (bg_block_bitmap ?bgd) new fs))))"
    have run: "free_block bd b fs = Some (Inr (), ?fs')"
      using False free b loc(1) nmax
      by (simp add: unfolded not_le new(1) c(1-3) ebind_def [of "write_block bd b buf" for b buf]
          ebind_def [of "write_block_group_descriptor bd g" for g])
    have fits: "\<forall>j \<in> insert ?i (?C ?g). block_at fs ?g j < unat (e_blocks_count fs)"
      using ok loc(1,3) b(2) by (auto simp: alloc_ok_def free_blocks_def word_less_nat_alt)
    have step: "alloc_ok valid contents ?fs'" "free_inodes contents ?fs' = free_inodes contents fs"
      "\<And>k. k < ?n \<Longrightarrow> clear_blocks contents ?fs' k = (if k = ?g then insert ?i (?C ?g) else ?C k)"
      using block_step [OF ok c(4,5) loc(1)] cnt(2) inc fits new(3) by simp_all
    have num: "block_at ?fs' = block_at fs" using pool_step_numbers(1) [OF c(5)] by simp
    have "length (e_block_groups ?fs') = ?n" using c(5) by (simp add: pool_step_def)
    from free_blocks_step(2) [OF l(2) this num loc(1,2) step(3)]
    have "free_blocks contents ?fs' = insert (unat b) (free_blocks contents fs)" by (simp add: loc(3))
    then show ?thesis
      using False run step(1,2) pool_step_data_kept [where bm = bg_block_bitmap, OF c(5) loc(1)]
        pool_step_shape [OF c(5)] by simp
  qed
qed

end

section \<open>Properties\<close>

text \<open>C6: Block allocation is exact. On a file system whose counters agree with its bitmaps, allocating
  reports that there is no space exactly when no block is free and then changes nothing; otherwise it returns the
  least free block, that block and no other leaves the free set, the counters and bitmaps on disk still agree, the free
  inodes are the same, and no block outside the tables and bitmaps is written.\<close>

theorem alloc_block_least_free:
  assumes "device_contract bd valid contents False" "alloc_ok valid contents fs"
  shows "if free_blocks contents fs = {} then alloc_block bd fs = Some (Inl NoSpace, fs)
    else \<exists>b fs'. alloc_block bd fs = Some (Inr b, fs') \<and> unat b = Min (free_blocks contents fs)
      \<and> free_blocks contents fs' = free_blocks contents fs - {unat b}
      \<and> free_inodes contents fs' = free_inodes contents fs
      \<and> alloc_ok valid contents fs' \<and> data_kept contents fs fs' \<and> shape fs' = shape fs"
  by (rule disk.alloc_block_spec [OF disk.intro [OF assms(1)] assms(2)])

text \<open>C21: Freeing a block of the file system adds exactly that block to the free set and keeps the counters, the
  free inodes and the data; freeing a block that is free already is refused and changes nothing, so no block is ever
  handed out twice through a double free.\<close>

theorem free_block_exact:
  assumes "device_contract bd valid contents False" "alloc_ok valid contents fs"
    "s_first_data_block (e_superblock fs) \<le> b" "b < e_blocks_count fs"
  shows "if unat b \<in> free_blocks contents fs then free_block bd b fs = Some (Inl IoError, fs)
    else \<exists>fs'. free_block bd b fs = Some (Inr (), fs')
      \<and> free_blocks contents fs' = insert (unat b) (free_blocks contents fs)
      \<and> free_inodes contents fs' = free_inodes contents fs
      \<and> alloc_ok valid contents fs' \<and> data_kept contents fs fs' \<and> shape fs' = shape fs"
  by (rule disk.free_block_spec [OF disk.intro [OF assms(1)] assms(2-4)])

section \<open>A small disk\<close>

text \<open>
  Twelve blocks of one kilobyte in one group: the tables in blocks 1 and 2, the bitmaps in blocks 3 and 4, the inode
  table in block 5, the root directory in block 6. Blocks 7 to 11 are free, and so are inodes 4 to 8.
\<close>

definition demo_image :: "bytes \<Rightarrow> bytes \<Rightarrow> bytes" where
  "demo_image table root = replicate 3072 0 @ (0x3F # 0xF8 # replicate 1022 0xFF) @ (0x07 # replicate 1023 0xFF)
     @ table @ root @ replicate 5120 0"

definition demo_fs :: "bytes \<Rightarrow> bytes \<Rightarrow> bytes virtio_block_inner ext2" where
  "demo_fs table root = \<lparr>e_dev = \<lparr>vbi_device = demo_image table root, capacity_sectors = 24, sector_size = 512\<rparr>,
     e_block_size = 1024, e_inode_size = 128, e_blocks_count = 12, e_inodes_per_group = 8,
     e_superblock = (superblock_read (replicate 1024 0))\<lparr>s_blocks_count := 12, s_free_blocks_count := 5,
       s_free_inodes_count := 5, s_first_data_block := 1, s_blocks_per_group := 8192, s_inodes_per_group := 8\<rparr>,
     e_block_groups = [\<lparr>bg_block_bitmap = 3, bg_inode_bitmap = 4, bg_inode_table = 5, bg_free_blocks_count = 5,
       bg_free_inodes_count = 5, bg_used_dirs_count = 1, bg_pad = 0, bg_reserved = replicate 12 0\<rparr>],
     e_spawned = []\<rparr>"

abbreviation demo_valid :: "bytes virtio_block_inner \<Rightarrow> bool" where
  "demo_valid \<equiv> virtio_valid (\<lambda>h. h) 12288"

lemma demo_contract: "device_contract (virtio_device ram_transfers) demo_valid vbi_device False"
  using virtio_contract [OF ram_sector_transfers, of 12288] by (simp add: comp_def)

lemma demo_bitmaps:
  "blk (demo_image table root) 1024 3 = 0x3F # 0xF8 # replicate 1022 0xFF"
  "blk (demo_image table root) 1024 4 = 0x07 # replicate 1023 0xFF"
  by (simp_all add: demo_image_def blk_def sub_slice_def)

lemma demo_clear:
  "clear_blocks vbi_device (demo_fs table root) 0 = {6, 7, 8, 9, 10}"
  "clear_inodes vbi_device (demo_fs table root) 0 = {3, 4, 5, 6, 7}"
proof -
  have less: "i < 8 \<longleftrightarrow> i \<in> {0, 1, 2, 3, 4, 5, 6, 7}" "i < 12 \<longleftrightarrow> i \<in> {0, 1, 2, 3, 4, 5, 6, 7, 8, 9, 10, 11}" for i :: nat
    by (simp_all only: insert_iff empty_iff simp_thms, arith+)
  have "clear_bits (0x3F # 0xF8 # rest) 12 = {6, 7, 8, 9, 10}" "clear_bits (0x07 # rest) 8 = {3, 4, 5, 6, 7}" for rest
    by (auto simp: clear_bits_def bit_at_def less bit_numeral_rec)
  then show "clear_blocks vbi_device (demo_fs table root) 0 = {6, 7, 8, 9, 10}"
    "clear_inodes vbi_device (demo_fs table root) 0 = {3, 4, 5, 6, 7}"
    by (simp_all add: clear_in_def group_bitmap_def demo_fs_def group_blocks_def group_inodes_def demo_bitmaps)
qed

lemma demo_free: "free_blocks vbi_device (demo_fs table root) = {7, 8, 9, 10, 11}"
proof -
  have "length (e_block_groups (demo_fs table root)) = 1" by (simp add: demo_fs_def)
  then have "free_blocks vbi_device (demo_fs table root) = block_at (demo_fs table root) 0 ` {6, 7, 8, 9, 10}"
    by (simp add: free_blocks_def demo_clear lessThan_Suc)
  then show ?thesis by (simp add: block_at_def demo_fs_def)
qed

lemma demo_alloc_ok:
  assumes "length table = 1024" "length root = 1024"
  shows "alloc_ok demo_valid vbi_device (demo_fs table root)"
proof -
  let ?fs = "demo_fs table root"
  have n: "length (e_block_groups ?fs) = 1" by (simp add: demo_fs_def)
  have geo: "geometry ?fs"
    by (auto simp: geometry_def demo_fs_def div_ceil_def MAX_BLOCK_GROUPS_def superblock_read_def intro: exI [of _ 0])
  have len: "length (demo_image table root) = 12288" using assms by (simp add: demo_image_def)
  have "layout demo_valid vbi_device ?fs"
    using geo len by (simp add: layout_def sound_def tables_end_def)
      (simp add: demo_fs_def virtio_valid_def bgdt_offset_def len)
  moreover have "pool_ok bg_block_bitmap bg_free_blocks_count s_free_blocks_count group_blocks vbi_device ?fs"
    "pool_ok bg_inode_bitmap bg_free_inodes_count s_free_inodes_count group_inodes vbi_device ?fs"
    by (simp_all add: pool_ok_def n demo_clear lessThan_Suc)
      (simp_all add: demo_fs_def tables_end_def bgdt_offset_def group_blocks_def group_inodes_def)
  ultimately show ?thesis
    by (simp add: alloc_ok_def demo_free n) (simp add: demo_fs_def)
qed

abbreviation demo_empty :: "bytes virtio_block_inner ext2" where
  "demo_empty \<equiv> demo_fs (replicate 1024 0) (replicate 1024 0)"

lemmas demo_empty_ok = demo_alloc_ok [of "replicate 1024 0" "replicate 1024 0", simplified]

theorem alloc_block_least_free_witness:
  "\<exists>fs'. alloc_block (virtio_device ram_transfers) demo_empty = Some (Inr 7, fs') \<and> free_blocks vbi_device fs' = {8, 9, 10, 11}"
proof -
  obtain b fs' where run: "alloc_block (virtio_device ram_transfers) demo_empty = Some (Inr b, fs')"
    "unat b = 7" "free_blocks vbi_device fs' = {7, 8, 9, 10, 11} - {unat b}"
    using alloc_block_least_free [OF demo_contract demo_empty_ok] by (auto simp: demo_free)
  moreover have "b = 7" using run(2) by (simp add: word_unat_eq_iff)
  ultimately show ?thesis by auto
qed

theorem free_block_exact_witness:
  "free_block (virtio_device ram_transfers) 9 demo_empty = Some (Inl IoError, demo_empty)
   \<and> (\<exists>fs'. free_block (virtio_device ram_transfers) 6 demo_empty = Some (Inr (), fs')
        \<and> free_blocks vbi_device fs' = {6, 7, 8, 9, 10, 11})"
  using free_block_exact [OF demo_contract demo_empty_ok, of 9] free_block_exact [OF demo_contract demo_empty_ok, of 6]
  by (auto simp: demo_free) (auto simp: demo_fs_def)

end
