(* ===== verification/Ext2_Map.thy ===== *)
theory Ext2_Map
  imports Ext2_Alloc
begin

text \<open>
  The map from the blocks of a file to blocks of the disk, on the writing side:
  recording a block in the direct slots or in index blocks that are allocated on the
  way, and giving back all blocks of an inode.
\<close>

section \<open>Recording a block\<close>

text \<open>The code that allocates an index block, which the source repeats at every level.\<close>

definition alloc_zeroed :: "'d block_device \<Rightarrow> ('d, u32) ext2_io" where
  "alloc_zeroed bd = ebind (alloc_block bd) (\<lambda>ind. ebind (egets (\<lambda>fs. unat (e_block_size fs))) (\<lambda>block_size.
     ebind (write_block bd ind (replicate block_size 0)) (\<lambda>_. eret ind)))"

text \<open>The inode that a failing operation leaves behind is kept beside its result.\<close>

type_synonym ('d, 'a) inode_io = "inode \<Rightarrow> 'd ext2 \<Rightarrow> ((fs_error + 'a) \<times> inode \<times> 'd ext2) option"

definition with_inode :: "('d, 'a) ext2_io \<Rightarrow> ('d, 'a) inode_io" where
  "with_inode m n fs = (case m fs of None \<Rightarrow> None | Some (r, fs') \<Rightarrow> Some (r, n, fs'))"

text \<open>An empty slot of the inode is filled with a new index block; the result counts it.\<close>

definition ensure_slot :: "'d block_device \<Rightarrow> nat \<Rightarrow> (u32 \<Rightarrow> u32 \<Rightarrow> ('d, u32) ext2_io) \<Rightarrow> ('d, u32) inode_io" where
  "ensure_slot bd slot k n fs =
     (if i_block n ! slot = 0 then
        (case alloc_zeroed bd fs of
           None \<Rightarrow> None
         | Some (Inl e, fs') \<Rightarrow> Some (Inl e, n, fs')
         | Some (Inr ind, fs') \<Rightarrow> with_inode (k ind 1) (n\<lparr>i_block := (i_block n)[slot := ind]\<rparr>) fs')
      else with_inode (k (i_block n ! slot) 0) n fs)"

definition ensure_ptr :: "'d block_device \<Rightarrow> u32 \<Rightarrow> nat \<Rightarrow> nat \<Rightarrow> (u32 \<Rightarrow> u32 \<Rightarrow> ('d, u32) ext2_io) \<Rightarrow> u32 \<Rightarrow> ('d, u32) ext2_io" where
  "ensure_ptr bd block index block_size k meta_blocks =
     ebind (read_block_ptr bd block index block_size) (\<lambda>ind.
     if ind = 0 then
       ebind (alloc_zeroed bd) (\<lambda>new_ind.
       ebind (write_block_ptr bd block index block_size new_ind) (\<lambda>_.
       k new_ind (meta_blocks + 1)))
     else k ind meta_blocks)"

definition set_block_number :: "'d block_device \<Rightarrow> nat \<Rightarrow> u32 \<Rightarrow> ('d, u32) inode_io" where
  "set_block_number bd file_block value n fs =
     (let block_size = unat (e_block_size fs); p = block_size div 4 in
      if file_block < 12 then Some (Inr 0, n\<lparr>i_block := (i_block n)[file_block := value]\<rparr>, fs)
      else let fb = file_block - 12 in
      if fb < p then
        ensure_slot bd 12 (\<lambda>ind meta_blocks.
          ebind (write_block_ptr bd ind fb block_size value) (\<lambda>_. eret meta_blocks)) n fs
      else let fb = fb - p in
      if fb < p * p then
        ensure_slot bd 13 (\<lambda>dbl meta_blocks.
          ensure_ptr bd dbl (fb div p) block_size (\<lambda>ind meta_blocks.
            ebind (write_block_ptr bd ind (fb mod p) block_size value) (\<lambda>_. eret meta_blocks)) meta_blocks) n fs
      else let fb = fb - p * p; pp = p * p in
        ensure_slot bd 14 (\<lambda>tri meta_blocks.
          ensure_ptr bd tri (fb div pp) block_size (\<lambda>dbl meta_blocks.
            ensure_ptr bd dbl ((fb mod pp) div p) block_size (\<lambda>ind meta_blocks.
              ebind (write_block_ptr bd ind (fb mod p) block_size value) (\<lambda>_. eret meta_blocks)) meta_blocks) meta_blocks) n fs)"

section \<open>Giving blocks back\<close>

text \<open>The buffer is a whole block, so every pointer lies in it.\<close>

definition read_block_ptr_from_buf :: "bytes \<Rightarrow> nat \<Rightarrow> u32" where
  "read_block_ptr_from_buf buf index = le_word (sub_slice (index * 4) (index * 4 + 4) buf)"

fun for_each :: "('x \<Rightarrow> ('d, unit) ext2_io) \<Rightarrow> 'x list \<Rightarrow> ('d, unit) ext2_io" where
  "for_each f [] = eret ()"
| "for_each f (x # xs) = ebind (f x) (\<lambda>_. for_each f xs)"

text \<open>The depth is one, two or three; the recursion counts it down from one less.\<close>

fun free_indirect_block :: "'d block_device \<Rightarrow> nat \<Rightarrow> nat \<Rightarrow> nat \<Rightarrow> u32 \<Rightarrow> ('d, unit) ext2_io" where
  "free_indirect_block bd block_size ptrs_per_block 0 block_num =
     ebind (read_block bd block_num (replicate block_size 0)) (\<lambda>buf.
     ebind (for_each (\<lambda>i. let ptr = read_block_ptr_from_buf buf i in
         if ptr = 0 then eret () else free_block bd ptr) [0..<ptrs_per_block]) (\<lambda>_.
     free_block bd block_num))"
| "free_indirect_block bd block_size ptrs_per_block (Suc depth) block_num =
     ebind (read_block bd block_num (replicate block_size 0)) (\<lambda>buf.
     ebind (for_each (\<lambda>i. let ptr = read_block_ptr_from_buf buf i in
         if ptr = 0 then eret () else free_indirect_block bd block_size ptrs_per_block depth ptr) [0..<ptrs_per_block]) (\<lambda>_.
     free_block bd block_num))"

definition free_inode_blocks :: "'d block_device \<Rightarrow> inode \<Rightarrow> ('d, unit) ext2_io" where
  "free_inode_blocks bd n = ebind (egets (\<lambda>fs. unat (e_block_size fs))) (\<lambda>block_size.
     ebind (for_each (\<lambda>i. if i_block n ! i \<noteq> 0 then free_block bd (i_block n ! i) else eret ()) [0..<12]) (\<lambda>_.
     for_each (\<lambda>(slot, depth). if i_block n ! slot \<noteq> 0
         then free_indirect_block bd block_size (block_size div 4) depth (i_block n ! slot) else eret ())
       [(12, 0), (13, 1), (14, 2)]))"

section \<open>The block map of an inode\<close>

text \<open>
  The pure view of the map: a file block is a slot of the inode and a path of indices through
  index blocks.
\<close>

definition ptr :: "bytes \<Rightarrow> nat \<Rightarrow> u32 \<Rightarrow> nat \<Rightarrow> u32" where
  "ptr D bs b i = (if b = 0 then 0 else le_word (sub_slice (unat b * bs + i * 4) (unat b * bs + i * 4 + 4) D))"

fun follow :: "bytes \<Rightarrow> nat \<Rightarrow> u32 \<Rightarrow> nat list \<Rightarrow> u32" where
  "follow D bs b [] = b"
| "follow D bs b (i # path) = follow D bs (ptr D bs b i) path"

definition file_path :: "nat \<Rightarrow> nat \<Rightarrow> nat \<times> nat list" where
  "file_path p file_block =
     (if file_block < 12 then (file_block, [])
      else let fb = file_block - 12 in
      if fb < p then (12, [fb])
      else let fb = fb - p in
      if fb < p * p then (13, [fb div p, fb mod p])
      else let fb = fb - p * p in (14, [fb div (p * p), fb mod (p * p) div p, fb mod p]))"

text \<open>The last block that the map can hold, plus one.\<close>

definition max_file_blocks :: "nat \<Rightarrow> nat" where
  "max_file_blocks p = 12 + p + p * p + p * p * p"

lemma file_path_cases:
  assumes "fb < max_file_blocks p" "file_path p fb = (slot, path)"
  obtains "slot < 12" "path = []" | "slot = 12" "length path = 1" "\<forall>i \<in> set path. i < p"
    | "slot = 13" "length path = 2" "\<forall>i \<in> set path. i < p" | "slot = 14" "length path = 3" "\<forall>i \<in> set path. i < p"
proof -
  have p: "0 < p" if "\<not> fb < 12" using assms(1) that by (cases p) (auto simp: max_file_blocks_def)
  consider "fb < 12" | "\<not> fb < 12" "fb - 12 < p" | "\<not> fb < 12" "\<not> fb - 12 < p" "fb - 12 - p < p * p"
    | "\<not> fb < 12" "\<not> fb - 12 < p" "\<not> fb - 12 - p < p * p" "fb - 12 - p - p * p < p * p * p"
  proof -
    have "fb - 12 - p - p * p < p * p * p" if "\<not> fb < 12" "\<not> fb - 12 < p" "\<not> fb - 12 - p < p * p"
      using assms(1) that unfolding max_file_blocks_def by linarith
    then show ?thesis using that by blast
  qed
  then show thesis
  proof cases
    case 1
    then have "slot = fb" "path = []" using assms(2) by (simp_all add: file_path_def)
    then show thesis using 1 by (intro that(1)) simp_all
  next
    case 2
    then have "slot = 12" "path = [fb - 12]" using assms(2) by (simp_all add: file_path_def)
    then show thesis using 2 by (intro that(2)) simp_all
  next
    case 3
    then have "slot = 13" "path = [(fb - 12 - p) div p, (fb - 12 - p) mod p]"
      using assms(2) by (simp_all add: file_path_def Let_def)
    moreover have "(fb - 12 - p) div p < p" using 3(3) by (rule less_mult_imp_div_less)
    moreover have "(fb - 12 - p) mod p < p" using p [OF 3(1)] by (rule mod_less_divisor)
    ultimately show thesis by (intro that(3)) (simp_all only: list.set length_Cons, simp_all)
  next
    case 4
    then have "slot = 14" "path = [(fb - 12 - p - p * p) div (p * p), (fb - 12 - p - p * p) mod (p * p) div p, (fb - 12 - p - p * p) mod p]"
      using assms(2) by (simp_all add: file_path_def Let_def)
    moreover have "(fb - 12 - p - p * p) div (p * p) < p" using 4(4) by (simp add: less_mult_imp_div_less mult.assoc)
    moreover have "(fb - 12 - p - p * p) mod (p * p) div p < p" using p [OF 4(1)] by (simp add: less_mult_imp_div_less)
    moreover have "(fb - 12 - p - p * p) mod p < p" using p [OF 4(1)] by (rule mod_less_divisor)
    ultimately show thesis by (intro that(4)) (simp_all only: list.set length_Cons, simp_all)
  qed
qed

fun path_block :: "nat \<Rightarrow> nat \<times> nat list \<Rightarrow> nat" where
  "path_block p (slot, [i]) = 12 + i"
| "path_block p (slot, [i, j]) = 12 + p + (i * p + j)"
| "path_block p (slot, [i, j, k]) = 12 + p + p * p + (i * (p * p) + (j * p + k))"
| "path_block p (slot, path) = slot"

lemma path_block_file_path: "path_block p (file_path p fb) = fb"
proof -
  have three: "x div (p * p) * (p * p) + (x mod (p * p) div p * p + x mod p) = x" for x
  proof -
    have "x mod (p * p) mod p = x mod p" by (simp add: mod_mod_cancel)
    then show ?thesis using div_mult_mod_eq [of "x mod (p * p)" p] div_mult_mod_eq [of x "p * p"] by linarith
  qed
  consider "fb < 12" | x where "fb = 12 + x" "x < p" | x where "fb = 12 + p + x" "x < p * p"
    | x where "fb = 12 + p + p * p + x"
    by (metis add.assoc le_Suc_ex not_le)
  then show ?thesis
  proof cases
    case 4
    then show ?thesis using three [of x] by (simp add: file_path_def Let_def)
  qed (simp_all add: file_path_def Let_def)
qed

lemma file_path_inj: "file_path p a = file_path p b \<Longrightarrow> a = b"
  by (metis path_block_file_path)

section \<open>The reference version of recording\<close>

text \<open>One recursive function for the three levels that the source spells out.\<close>

fun grow :: "'d block_device \<Rightarrow> nat \<Rightarrow> u32 \<Rightarrow> nat list \<Rightarrow> u32 \<Rightarrow> u32 \<Rightarrow> ('d, u32) ext2_io" where
  "grow bd bs b [] value meta_blocks = eret meta_blocks"
| "grow bd bs b [i] value meta_blocks = ebind (write_block_ptr bd b i bs value) (\<lambda>_. eret meta_blocks)"
| "grow bd bs b (i # j # path) value meta_blocks =
     ensure_ptr bd b i bs (\<lambda>c meta_blocks. grow bd bs c (j # path) value meta_blocks) meta_blocks"

lemma set_block_number_grow:
  "set_block_number bd fb value n fs =
     (case file_path (bs_of fs div 4) fb of (slot, path) \<Rightarrow>
        if path = [] then Some (Inr 0, n\<lparr>i_block := (i_block n)[slot := value]\<rparr>, fs)
        else ensure_slot bd slot (\<lambda>b meta_blocks. grow bd (bs_of fs) b path value meta_blocks) n fs)"
proof -
  have eta: "grow bd bs b [i] value = (\<lambda>meta_blocks. ebind (write_block_ptr bd b i bs value) (\<lambda>_. eret meta_blocks))"
    "grow bd bs b (i # j # path) value = ensure_ptr bd b i bs (\<lambda>c. grow bd bs c (j # path) value)" for bs b i j path
    by (rule ext, simp)+
  show ?thesis by (simp add: set_block_number_def file_path_def Let_def eta)
qed

lemma get_block_number_follow:
  "get_block_number bd block bs fb = (case file_path (bs div 4) fb of (slot, path) \<Rightarrow>
     foldl (\<lambda>m i. ebind m (\<lambda>b. read_block_ptr bd b i bs)) (eret (block ! slot)) path)"
proof -
  have unit: "ebind (eret x) f = f x" for x :: u32 and f :: "u32 \<Rightarrow> ('a, u32) ext2_io"
    by (rule ext) simp
  show ?thesis by (simp add: get_block_number_def file_path_def Let_def unit ebind_assoc)
qed

section \<open>Data blocks\<close>

text \<open>
  Of the blocks behind the superblock and the group descriptors, the plain ones are no bitmaps; among them are the blocks of
  the inode tables, and the others hold data.
\<close>

definition plain_block :: "'d ext2 \<Rightarrow> nat \<Rightarrow> bool" where
  "plain_block fs b \<longleftrightarrow> b < unat (e_blocks_count fs) \<and> tables_end fs \<le> b * bs_of fs
     \<and> (\<forall>g \<in> set (e_block_groups fs). b \<noteq> unat (bg_block_bitmap g) \<and> b \<noteq> unat (bg_inode_bitmap g))"

definition table_blocks :: "'d ext2 \<Rightarrow> block_group_descriptor \<Rightarrow> nat set" where
  "table_blocks fs g = {unat (bg_inode_table g)
     ..< unat (bg_inode_table g) + div_ceil (unat (e_inodes_per_group fs) * unat (e_inode_size fs)) (bs_of fs)}"

definition data_block :: "'d ext2 \<Rightarrow> nat \<Rightarrow> bool" where
  "data_block fs b \<longleftrightarrow> plain_block fs b \<and> (\<forall>g \<in> set (e_block_groups fs). b \<notin> table_blocks fs g)"

definition tables_ok :: "'d ext2 \<Rightarrow> bool" where
  "tables_ok fs \<longleftrightarrow> (\<forall>g \<in> set (e_block_groups fs). \<forall>b \<in> table_blocks fs g. plain_block fs b)
     \<and> (\<forall>g < length (e_block_groups fs). \<forall>h < length (e_block_groups fs). g \<noteq> h \<longrightarrow>
          table_blocks fs (e_block_groups fs ! g) \<inter> table_blocks fs (e_block_groups fs ! h) = {})"

definition fs_ok :: "('d \<Rightarrow> bool) \<Rightarrow> ('d \<Rightarrow> bytes) \<Rightarrow> 'd ext2 \<Rightarrow> bool" where
  "fs_ok valid contents fs \<longleftrightarrow> alloc_ok valid contents fs \<and> tables_ok fs \<and> (\<forall>b \<in> free_blocks contents fs. data_block fs b)"

text \<open>The plain blocks outside a set are the same in both states.\<close>

definition kept :: "('d \<Rightarrow> bytes) \<Rightarrow> nat set \<Rightarrow> 'd ext2 \<Rightarrow> 'd ext2 \<Rightarrow> bool" where
  "kept contents W fs fs' \<longleftrightarrow> shape fs' = shape fs \<and>
     (\<forall>c. plain_block fs c \<and> c \<notin> W \<longrightarrow> blk (contents (e_dev fs')) (bs_of fs) c = blk (contents (e_dev fs)) (bs_of fs) c)"

lemma shape_fields:
  assumes "shape fs' = shape fs"
  shows "e_block_size fs' = e_block_size fs" "e_inode_size fs' = e_inode_size fs" "e_blocks_count fs' = e_blocks_count fs"
    "e_inodes_per_group fs' = e_inodes_per_group fs" "length (e_block_groups fs') = length (e_block_groups fs)"
    "map bg_block_bitmap (e_block_groups fs') = map bg_block_bitmap (e_block_groups fs)"
    "map bg_inode_bitmap (e_block_groups fs') = map bg_inode_bitmap (e_block_groups fs)"
    "map bg_inode_table (e_block_groups fs') = map bg_inode_table (e_block_groups fs)"
proof -
  let ?t = "\<lambda>g. (bg_block_bitmap g, bg_inode_bitmap g, bg_inode_table g)"
  have t: "map ?t (e_block_groups fs') = map ?t (e_block_groups fs)" using assms by (simp add: shape_def)
  from arg_cong [OF t, of length] arg_cong [OF t, of "map fst"] arg_cong [OF t, of "map (fst \<circ> snd)"] arg_cong [OF t, of "map (snd \<circ> snd)"]
  show "length (e_block_groups fs') = length (e_block_groups fs)"
    "map bg_block_bitmap (e_block_groups fs') = map bg_block_bitmap (e_block_groups fs)"
    "map bg_inode_bitmap (e_block_groups fs') = map bg_inode_bitmap (e_block_groups fs)"
    "map bg_inode_table (e_block_groups fs') = map bg_inode_table (e_block_groups fs)"
    by (simp_all add: comp_def)
qed (use assms in \<open>simp_all add: shape_def\<close>)

lemma map_eq_ball: "map f xs = map f ys \<Longrightarrow> (\<forall>x \<in> set xs. P (f x)) \<longleftrightarrow> (\<forall>y \<in> set ys. P (f y))"
proof -
  assume eq: "map f xs = map f ys"
  have "(\<forall>x \<in> set zs. P (f x)) \<longleftrightarrow> (\<forall>y \<in> set (map f zs). P y)" for zs by simp
  then show ?thesis by (simp only: eq)
qed

lemma map_eq_nth: "map f xs = map f ys \<Longrightarrow> i < length ys \<Longrightarrow> f (xs ! i) = f (ys ! i)"
  by (metis length_map nth_map)

lemma table_blocks_cong:
  "shape fs' = shape fs \<Longrightarrow> bg_inode_table g' = bg_inode_table g \<Longrightarrow> table_blocks fs' g' = table_blocks fs g"
  using shape_fields(1,2,4) [of fs' fs] by (simp add: table_blocks_def)

lemma shape_facts:
  assumes "shape fs' = shape fs"
  shows "bs_of fs' = bs_of fs" "e_blocks_count fs' = e_blocks_count fs" "data_block fs' = data_block fs"
    "plain_block fs' = plain_block fs" "tables_ok fs' = tables_ok fs"
proof -
  note f = shape_fields [OF assms]
  show "bs_of fs' = bs_of fs" "e_blocks_count fs' = e_blocks_count fs" using f by simp_all
  have b: "(\<forall>g \<in> set (e_block_groups fs'). P (bg_block_bitmap g)) = (\<forall>g \<in> set (e_block_groups fs). P (bg_block_bitmap g))"
    "(\<forall>g \<in> set (e_block_groups fs'). P (bg_inode_bitmap g)) = (\<forall>g \<in> set (e_block_groups fs). P (bg_inode_bitmap g))"
    "(\<forall>g \<in> set (e_block_groups fs'). P (bg_inode_table g)) = (\<forall>g \<in> set (e_block_groups fs). P (bg_inode_table g))" for P
    by (rule map_eq_ball [OF f(6)], rule map_eq_ball [OF f(7)], rule map_eq_ball [OF f(8)])
  show plain: "plain_block fs' = plain_block fs"
  proof
    fix c
    show "plain_block fs' c = plain_block fs c"
      using f(1-5) b(1) [of "\<lambda>w. c \<noteq> unat w"] b(2) [of "\<lambda>w. c \<noteq> unat w"]
      by (simp add: plain_block_def tables_end_def ball_conj_distrib)
  qed
  have tb: "table_blocks fs' = table_blocks fs"
    by (rule ext) (rule table_blocks_cong [OF assms refl])
  have set: "(\<forall>g \<in> set (e_block_groups fs'). P (table_blocks fs g)) = (\<forall>g \<in> set (e_block_groups fs). P (table_blocks fs g))" for P
    using b(3) [of "\<lambda>t. P {unat t ..< unat t + div_ceil (unat (e_inodes_per_group fs) * unat (e_inode_size fs)) (bs_of fs)}"]
    by (simp only: table_blocks_def)
  show "data_block fs' = data_block fs"
  proof
    fix c
    show "data_block fs' c = data_block fs c" using set [of "\<lambda>T. c \<notin> T"] plain tb by (simp add: data_block_def)
  qed
  have nth: "table_blocks fs (e_block_groups fs' ! g) = table_blocks fs (e_block_groups fs ! g)" if "g < length (e_block_groups fs)" for g
    using map_eq_nth [OF f(8) that] by (simp add: table_blocks_def)
  show "tables_ok fs' = tables_ok fs"
    using set [of "\<lambda>T. \<forall>b \<in> T. plain_block fs b"] plain tb nth f(5) by (simp add: tables_ok_def)
qed

lemma data_block_plain: "data_block fs b \<Longrightarrow> plain_block fs b"
  by (simp add: data_block_def)

lemma kept_facts:
  assumes "kept contents W fs fs'"
  shows "bs_of fs' = bs_of fs" "e_blocks_count fs' = e_blocks_count fs" "data_block fs' = data_block fs"
    "plain_block fs' = plain_block fs"
  using assms shape_facts [of fs' fs] by (simp_all add: kept_def)

lemma kept_trans: "kept contents W fs fs' \<Longrightarrow> kept contents W' fs' fs'' \<Longrightarrow> kept contents (W \<union> W') fs fs''"
  using shape_facts [of fs' fs] by (simp add: kept_def)

lemma kept_mono: "kept contents W fs fs' \<Longrightarrow> W \<subseteq> W' \<Longrightarrow> kept contents W' fs fs'"
  by (auto simp: kept_def)

lemma data_kept_kept: "data_kept contents fs fs' \<Longrightarrow> shape fs' = shape fs \<Longrightarrow> kept contents {} fs fs'"
  by (auto simp: data_kept_def kept_def plain_block_def)

section \<open>Writing a data block\<close>

lemma data_block_pos: "geometry fs \<Longrightarrow> data_block fs b \<Longrightarrow> 0 < b"
  using bgdt_bounds [of fs] by (cases b) (auto simp: data_block_def plain_block_def tables_end_def)

lemma data_block_less: "data_block fs (unat b) \<Longrightarrow> b < e_blocks_count fs"
  by (simp add: data_block_def plain_block_def word_less_nat_alt)

lemma fs_ok_facts:
  assumes "fs_ok valid contents fs"
  shows "layout valid contents fs" "geometry fs" "unat (e_blocks_count fs) * bs_of fs \<le> length (contents (e_dev fs))"
    "1024 \<le> bs_of fs" "4 dvd bs_of fs" "finite (free_blocks contents fs)"
  using assms block_size_bounds [of fs] by (auto simp: fs_ok_def alloc_ok_def layout_def sound_def)

lemma ptr_blk:
  assumes "i < bs div 4" "b \<noteq> 0"
  shows "ptr D bs b i = le_word (sub_slice (i * 4) (i * 4 + 4) (blk D bs (unat b)))"
proof -
  have "i * 4 + 4 \<le> bs" using assms(1) by linarith
  then have "sub_slice (i * 4) (i * 4 + 4) (blk D bs (unat b)) = sub_slice (unat b * bs + i * 4) (unat b * bs + i * 4 + 4) D"
    unfolding blk_def by (intro sub_slice_sub_slice) simp
  then show ?thesis using assms(2) by (simp add: ptr_def)
qed

context disk
begin

lemma data_write:
  assumes ok: "fs_ok valid contents fs" and b: "plain_block fs b"
    and off: "i + length data \<le> bs_of fs"
  defines "fs' \<equiv> put_dev bd (b * bs_of fs + i) data fs"
  shows "ewrite bd (b * bs_of fs + i) data fs = Some (Inr (), fs')"
    and "fs_ok valid contents fs'" "free_blocks contents fs' = free_blocks contents fs"
    and "free_inodes contents fs' = free_inodes contents fs" "kept contents {b} fs fs'"
    and "blk (contents (e_dev fs')) (bs_of fs) b = copy_at i data (blk (contents (e_dev fs)) (bs_of fs) b)"
proof -
  let ?D = "contents (e_dev fs)" and ?bs = "bs_of fs"
  note f = fs_ok_facts [OF ok]
  have bb: "b < unat (e_blocks_count fs)" "tables_end fs \<le> b * ?bs" using b by (simp_all add: plain_block_def)
  then have end1: "b * ?bs + ?bs \<le> unat (e_blocks_count fs) * ?bs"
    using mult_le_mono1 [of "b + 1" "unat (e_blocks_count fs)" ?bs] by simp
  then have end2: "b * ?bs + ?bs \<le> length ?D" using f(3) by simp
  then have inside: "b * ?bs + i + length data \<le> length ?D" using off by simp
  note put = put_dev_disk [OF f(1) inside, folded fs'_def]
  show "ewrite bd (b * ?bs + i) data fs = Some (Inr (), fs')" by (rule put(3))
  have other: "blk (contents (e_dev fs')) ?bs c = blk ?D ?bs c" if "c \<noteq> b" for c
  proof -
    have "c * ?bs + ?bs \<le> b * ?bs \<or> b * ?bs + ?bs \<le> c * ?bs"
      using that by (metis Suc_leI add.commute linorder_neqE_nat mult_Suc mult_le_mono1)
    then have "c * ?bs + ?bs \<le> b * ?bs + i \<or> b * ?bs + i + length data \<le> c * ?bs" using off by linarith
    then show ?thesis
      unfolding put(2) blk_def using sub_slice_copy_at_other [OF inside, of "c * ?bs" "c * ?bs + ?bs"] by simp
  qed
  show "blk (contents (e_dev fs')) ?bs b = copy_at i data (blk ?D ?bs b)"
  proof -
    have "sub_slice (b * ?bs) (b * ?bs + ?bs) (copy_at (b * ?bs) (copy_at i data (blk ?D ?bs b)) ?D) = copy_at i data (blk ?D ?bs b)"
      using sub_slice_copy_at_same [of "b * ?bs" "copy_at i data (blk ?D ?bs b)" ?D] end2 off by (simp add: blk_def)
    moreover have "copy_at (b * ?bs) (copy_at i data (blk ?D ?bs b)) ?D = copy_at (b * ?bs + i) data ?D"
      unfolding blk_def using copy_at_sub_slice [of "b * ?bs" i data "b * ?bs + ?bs" ?D] off end2 by simp
    ultimately show ?thesis unfolding put(2) by (simp add: blk_def)
  qed
  have shape: "shape fs' = shape fs" by (simp add: fs'_def shape_def)
  show "kept contents {b} fs fs'" using shape other by (simp add: kept_def)
  let ?new = "blk (contents (e_dev fs')) ?bs b"
  have step: "pool_step b ?new 0 (\<lambda>x. x) (\<lambda>x. x) contents fs fs'"
    using other by (simp add: pool_step_def fs'_def put_dev_def)
  have bits: "group_blocks fs' = group_blocks fs" "group_inodes fs' = group_inodes fs" "block_at fs' = block_at fs" "inode_at fs' = inode_at fs"
    using pool_step_numbers [OF step] by simp_all
  have len: "length (e_block_groups fs') = length (e_block_groups fs)" by (simp add: fs'_def)
  have pools: "pool_ok bg_block_bitmap bg_free_blocks_count s_free_blocks_count group_blocks contents fs"
    "pool_ok bg_inode_bitmap bg_free_inodes_count s_free_inodes_count group_inodes contents fs"
    using ok by (simp_all add: fs_ok_def alloc_ok_def)
  have out: "b \<notin> (unat \<circ> bg_block_bitmap) ` set (e_block_groups fs)" "b \<notin> (unat \<circ> bg_inode_bitmap) ` set (e_block_groups fs)"
    using b by (auto simp: plain_block_def)
  note blocks = pool_other [where bm = bg_block_bitmap and cnt = bg_free_blocks_count and tot = s_free_blocks_count,
      OF pools(1) step out(1) refl refl refl bits(1)]
  note inodes = pool_other [where bm = bg_inode_bitmap and cnt = bg_free_inodes_count and tot = s_free_inodes_count,
      OF pools(2) step out(2) refl refl refl bits(2)]
  show free: "free_blocks contents fs' = free_blocks contents fs"
    unfolding free_blocks_def len bits using blocks(2) by (intro SUP_cong refl) simp
  show "free_inodes contents fs' = free_inodes contents fs"
    unfolding free_inodes_def len bits using inodes(2) by (intro SUP_cong refl) simp
  have "alloc_ok valid contents fs'"
    using ok put(1) blocks(1) inodes(1) free by (simp add: fs_ok_def alloc_ok_def) (simp add: fs'_def)
  then show "fs_ok valid contents fs'"
    using ok free shape_facts(3,5) [OF shape] by (simp add: fs_ok_def)
qed

text \<open>A new block with given contents.\<close>

lemma alloc_filled_run:
  assumes ok: "fs_ok valid contents fs" and data: "length data = bs_of fs"
  shows "if free_blocks contents fs = {} then alloc_block bd fs = Some (Inl NoSpace, fs)
    else \<exists>b fs1 fs'. alloc_block bd fs = Some (Inr b, fs1) \<and> bs_of fs1 = bs_of fs \<and> write_block bd b data fs1 = Some (Inr (), fs')
      \<and> unat b \<in> free_blocks contents fs \<and> free_blocks contents fs' = free_blocks contents fs - {unat b}
      \<and> free_inodes contents fs' = free_inodes contents fs
      \<and> fs_ok valid contents fs' \<and> kept contents {unat b} fs fs'
      \<and> blk (contents (e_dev fs')) (bs_of fs) (unat b) = data"
proof (cases "free_blocks contents fs = {}")
  case True
  then show ?thesis using alloc_block_spec [of fs] ok by (simp add: fs_ok_def)
next
  case False
  then obtain b fs1 where b: "alloc_block bd fs = Some (Inr b, fs1)" "unat b = Min (free_blocks contents fs)"
    "free_blocks contents fs1 = free_blocks contents fs - {unat b}" "free_inodes contents fs1 = free_inodes contents fs"
    "alloc_ok valid contents fs1" "data_kept contents fs fs1" "shape fs1 = shape fs"
    using alloc_block_spec [of fs] ok by (auto simp: fs_ok_def)
  have mem: "unat b \<in> free_blocks contents fs" using b(2) False fs_ok_facts(6) [OF ok] by simp
  then have db: "data_block fs (unat b)" using ok by (simp add: fs_ok_def)
  note sh = shape_facts [OF b(7)]
  have ok1: "fs_ok valid contents fs1" using b(3,5) ok sh(3,5) by (auto simp: fs_ok_def)
  have db1: "data_block fs1 (unat b)" using db sh(3) by simp
  let ?fs' = "put_dev bd (unat b * bs_of fs1) data fs1"
  have data1: "length data = bs_of fs1" using data sh(1) by simp
  note w = data_write [OF ok1 data_block_plain [OF db1], of 0 data, simplified, OF eq_imp_le [OF data1]]
  have lt: "b < e_blocks_count fs1" using db1 by (rule data_block_less)
  have run: "write_block bd b data fs1 = Some (Inr (), ?fs')"
    by (rule write_block_run(1) [OF fs_ok_facts(1) [OF ok1] lt data1])
  have "length (blk (contents (e_dev fs1)) (bs_of fs1) (unat b)) = bs_of fs1"
    using length_blk [of "unat b" "bs_of fs1" "contents (e_dev fs1)"] block_end [OF lt, of "bs_of fs1"] fs_ok_facts(3) [OF ok1]
    by simp
  then have "copy_at 0 data (blk (contents (e_dev fs1)) (bs_of fs1) (unat b)) = data" using data1 by (simp add: copy_at_def)
  moreover have "kept contents {unat b} fs ?fs'"
    using kept_trans [OF data_kept_kept [OF b(6,7)] w(5)] by simp
  ultimately show ?thesis using False mem w b(1,3,4) run sh(1) by simp
qed

lemma alloc_zeroed_run:
  assumes ok: "fs_ok valid contents fs"
  shows "if free_blocks contents fs = {} then alloc_zeroed bd fs = Some (Inl NoSpace, fs)
    else \<exists>b fs'. alloc_zeroed bd fs = Some (Inr b, fs') \<and> unat b \<in> free_blocks contents fs
      \<and> free_blocks contents fs' = free_blocks contents fs - {unat b}
      \<and> free_inodes contents fs' = free_inodes contents fs
      \<and> fs_ok valid contents fs' \<and> kept contents {unat b} fs fs'
      \<and> blk (contents (e_dev fs')) (bs_of fs) (unat b) = replicate (bs_of fs) 0"
proof (cases "free_blocks contents fs = {}")
  case True
  then show ?thesis using alloc_filled_run [OF ok, of "replicate (bs_of fs) 0"] by (simp add: alloc_zeroed_def ebind_Some)
next
  case False
  then obtain b fs1 fs' where "alloc_block bd fs = Some (Inr b, fs1)" "bs_of fs1 = bs_of fs"
    "write_block bd b (replicate (bs_of fs) 0) fs1 = Some (Inr (), fs')" "unat b \<in> free_blocks contents fs"
    "free_blocks contents fs' = free_blocks contents fs - {unat b}" "free_inodes contents fs' = free_inodes contents fs"
    "fs_ok valid contents fs'" "kept contents {unat b} fs fs'" "blk (contents (e_dev fs')) (bs_of fs) (unat b) = replicate (bs_of fs) 0"
    using alloc_filled_run [OF ok, of "replicate (bs_of fs) 0"] by auto
  then show ?thesis using False by (simp add: alloc_zeroed_def ebind_Some)
qed

lemma write_ptr_run:
  assumes ok: "fs_ok valid contents fs" and b: "data_block fs (unat b)" and i: "i < bs_of fs div 4"
  shows "\<exists>fs'. write_block_ptr bd b i (bs_of fs) v fs = Some (Inr (), fs')
    \<and> fs_ok valid contents fs' \<and> free_blocks contents fs' = free_blocks contents fs
    \<and> free_inodes contents fs' = free_inodes contents fs \<and> kept contents {unat b} fs fs'
    \<and> (\<forall>j < bs_of fs div 4. ptr (contents (e_dev fs')) (bs_of fs) b j =
         (if j = i then v else ptr (contents (e_dev fs)) (bs_of fs) b j))"
proof -
  have nz: "b \<noteq> 0" using data_block_pos [OF fs_ok_facts(2) [OF ok] b] by auto
  have fit: "i * 4 + length (le_bytes 4 v) \<le> bs_of fs" using i by simp
  note w = data_write [OF ok data_block_plain [OF b] fit]
  let ?B = "blk (contents (e_dev fs)) (bs_of fs) (unat b)"
  have "b < e_blocks_count fs" using b by (rule data_block_less)
  then have len: "length ?B = bs_of fs"
    using length_blk [of "unat b" "bs_of fs" "contents (e_dev fs)"] block_end [of b fs "bs_of fs"] fs_ok_facts(3) [OF ok]
    by simp
  have "sub_slice (j * 4) (j * 4 + 4) (copy_at (i * 4) (le_bytes 4 v) ?B) =
      (if j = i then le_bytes 4 v else sub_slice (j * 4) (j * 4 + 4) ?B)" if "j < bs_of fs div 4" for j
    using sub_slice_copy_at_same [of "i * 4" "le_bytes 4 v" ?B] sub_slice_copy_at_other [of "i * 4" "le_bytes 4 v" ?B "j * 4" "j * 4 + 4"]
      fit len that by (cases "j = i") (simp, simp, linarith)
  then show ?thesis
    using w nz by (simp add: write_block_ptr_def ptr_blk add.assoc)
qed

lemma read_ptr_run:
  assumes ok: "fs_ok valid contents fs" and b: "b = 0 \<or> data_block fs (unat b)" and i: "i < bs_of fs div 4"
  shows "read_block_ptr bd b i (bs_of fs) fs = Some (Inr (ptr (contents (e_dev fs)) (bs_of fs) b i), fs)"
proof (cases "b = 0")
  case False
  then have "b < e_blocks_count fs" using b by (simp add: data_block_less)
  then have "unat b * bs_of fs + bs_of fs \<le> length (contents (e_dev fs))"
    using block_end [of b fs "bs_of fs"] fs_ok_facts(3) [OF ok] by simp
  then have "unat b * bs_of fs + i * 4 + 4 \<le> length (contents (e_dev fs))" using i by linarith
  then show ?thesis
    using False fs_ok_facts(1) [OF ok] by (simp add: read_block_ptr_def ebind_def eread_disk layout_def sound_def ptr_def)
qed (simp add: read_block_ptr_def ptr_def)

end

section \<open>Nodes\<close>

text \<open>
  Every block of an inode, index block or data block, is a node: a slot and a path of indices no longer than the
  slot's depth. In a sound inode no two nodes are the same block.
\<close>

type_synonym node_id = "nat \<times> nat list"

definition depth :: "nat \<Rightarrow> nat" where "depth slot = slot - 11"

definition is_node :: "nat \<Rightarrow> node_id \<Rightarrow> bool" where
  "is_node p \<nu> \<longleftrightarrow> fst \<nu> < 15 \<and> length (snd \<nu>) \<le> depth (fst \<nu>) \<and> (\<forall>i \<in> set (snd \<nu>). i < p)"

definition is_leaf :: "nat \<Rightarrow> node_id \<Rightarrow> bool" where
  "is_leaf p \<nu> \<longleftrightarrow> is_node p \<nu> \<and> length (snd \<nu>) = depth (fst \<nu>)"

definition node :: "('d \<Rightarrow> bytes) \<Rightarrow> 'd ext2 \<Rightarrow> inode \<Rightarrow> node_id \<Rightarrow> u32" where
  "node contents fs n \<nu> = follow (contents (e_dev fs)) (bs_of fs) (i_block n ! fst \<nu>) (snd \<nu>)"

definition inode_ok :: "('d \<Rightarrow> bytes) \<Rightarrow> 'd ext2 \<Rightarrow> inode \<Rightarrow> bool" where
  "inode_ok contents fs n \<longleftrightarrow> length (i_block n) = 15
     \<and> (\<forall>\<nu>. is_node (bs_of fs div 4) \<nu> \<and> node contents fs n \<nu> \<noteq> 0 \<longrightarrow>
          data_block fs (unat (node contents fs n \<nu>)) \<and> unat (node contents fs n \<nu>) \<notin> free_blocks contents fs)
     \<and> (\<forall>\<nu> \<mu>. is_node (bs_of fs div 4) \<nu> \<and> is_node (bs_of fs div 4) \<mu> \<and> node contents fs n \<nu> \<noteq> 0
          \<and> node contents fs n \<nu> = node contents fs n \<mu> \<longrightarrow> \<nu> = \<mu>)"

definition index_blocks :: "('d \<Rightarrow> bytes) \<Rightarrow> 'd ext2 \<Rightarrow> inode \<Rightarrow> nat set" where
  "index_blocks contents fs n = {unat (node contents fs n \<nu>) | \<nu>.
     is_node (bs_of fs div 4) \<nu> \<and> \<not> is_leaf (bs_of fs div 4) \<nu> \<and> node contents fs n \<nu> \<noteq> 0}"

lemma index_blocksI:
  "is_node (bs_of fs div 4) \<nu> \<Longrightarrow> \<not> is_leaf (bs_of fs div 4) \<nu> \<Longrightarrow> node contents fs n \<nu> \<noteq> 0
   \<Longrightarrow> unat (node contents fs n \<nu>) \<in> index_blocks contents fs n"
  unfolding index_blocks_def by blast

lemma follow_snoc: "follow D bs b (path @ [i]) = ptr D bs (follow D bs b path) i"
  by (induction path arbitrary: b) auto

lemma ptr_zero [simp]: "ptr D bs 0 i = 0"
  by (simp add: ptr_def)

lemma follow_zero [simp]: "follow D bs 0 path = 0"
  by (induction path) auto

lemma node_snoc: "node contents fs n (s, path @ [i]) = ptr (contents (e_dev fs)) (bs_of fs) (node contents fs n (s, path)) i"
  by (simp add: node_def follow_snoc)

lemma is_node_snoc: "is_node p (s, path @ [i]) \<longleftrightarrow> is_node p (s, path) \<and> \<not> is_leaf p (s, path) \<and> i < p"
  by (auto simp: is_node_def is_leaf_def)

lemma inode_okD:
  assumes "inode_ok contents fs n" "is_node (bs_of fs div 4) \<nu>" "node contents fs n \<nu> \<noteq> 0"
  shows "data_block fs (unat (node contents fs n \<nu>))" "unat (node contents fs n \<nu>) \<notin> free_blocks contents fs"
    "is_node (bs_of fs div 4) \<mu> \<Longrightarrow> node contents fs n \<mu> = node contents fs n \<nu> \<Longrightarrow> \<mu> = \<nu>"
proof -
  show "data_block fs (unat (node contents fs n \<nu>))" "unat (node contents fs n \<nu>) \<notin> free_blocks contents fs"
    using assms by (simp_all add: inode_ok_def del: split_paired_All)
  show "\<mu> = \<nu>" if "is_node (bs_of fs div 4) \<mu>" "node contents fs n \<mu> = node contents fs n \<nu>"
    using assms that unfolding inode_ok_def by metis
qed

lemma ptr_kept:
  assumes "kept contents W fs fs'" "data_block fs (unat b)" "unat b \<notin> W" "i < bs_of fs div 4"
  shows "ptr (contents (e_dev fs')) (bs_of fs) b i = ptr (contents (e_dev fs)) (bs_of fs) b i"
  using assms by (cases "b = 0") (simp_all add: ptr_blk kept_def data_block_plain)

text \<open>Where the index blocks are the same, so are all nodes.\<close>

lemma node_kept:
  assumes ok: "inode_ok contents fs n" and k: "kept contents W fs fs'" and W: "W \<inter> index_blocks contents fs n = {}"
    and \<nu>: "is_node (bs_of fs div 4) \<nu>"
  shows "node contents fs' n \<nu> = node contents fs n \<nu>"
proof -
  have bs: "bs_of fs' = bs_of fs" using kept_facts(1) [OF k] .
  have "is_node (bs_of fs div 4) (s, path) \<Longrightarrow> node contents fs' n (s, path) = node contents fs n (s, path)" for s path
  proof (induction path rule: rev_induct)
    case (snoc i path)
    let ?b = "node contents fs n (s, path)"
    have in_node: "is_node (bs_of fs div 4) (s, path)" "\<not> is_leaf (bs_of fs div 4) (s, path)" "i < bs_of fs div 4"
      using snoc.prems by (simp_all add: is_node_snoc)
    have "ptr (contents (e_dev fs')) (bs_of fs) ?b i = ptr (contents (e_dev fs)) (bs_of fs) ?b i"
    proof (cases "?b = 0")
      case False
      then have "unat ?b \<in> index_blocks contents fs n" using in_node by (auto simp: index_blocks_def)
      then show ?thesis
        using ptr_kept [OF k inode_okD(1) [OF ok in_node(1) False]] W in_node(3) by blast
    qed simp
    then show ?case using snoc.IH in_node(1) bs by (simp add: node_snoc)
  qed (simp add: node_def)
  then show ?thesis using \<nu> by (cases \<nu>) simp
qed

text \<open>
  A pointer in an index block changes exactly the node it points to, when neither the old nor
  the new block has nodes below it.
\<close>

lemma node_pointer:
  assumes ok: "inode_ok contents fs n" and k: "kept contents {unat b} fs fs'"
    and b: "is_node (bs_of fs div 4) (s, path)" "\<not> is_leaf (bs_of fs div 4) (s, path)" "node contents fs n (s, path) = b" "b \<noteq> 0"
    and set: "\<forall>j < bs_of fs div 4. ptr (contents (e_dev fs')) (bs_of fs) b j =
      (if j = i then c else ptr (contents (e_dev fs)) (bs_of fs) b j)"
    and below: "is_leaf (bs_of fs div 4) (s, path @ [i]) \<or>
      (ptr (contents (e_dev fs)) (bs_of fs) b i = 0 \<and> (\<forall>j < bs_of fs div 4. ptr (contents (e_dev fs')) (bs_of fs) c j = 0))"
    and \<nu>: "is_node (bs_of fs div 4) \<nu>"
  shows "node contents fs' n \<nu> = (if \<nu> = (s, path @ [i]) then c else node contents fs n \<nu>)"
proof -
  have bs: "bs_of fs' = bs_of fs" using kept_facts(1) [OF k] .
  have "is_node (bs_of fs div 4) (t, \<rho>) \<Longrightarrow>
    node contents fs' n (t, \<rho>) = (if (t, \<rho>) = (s, path @ [i]) then c else node contents fs n (t, \<rho>))" for t \<rho>
  proof (induction \<rho> rule: rev_induct)
    case (snoc j \<rho>)
    let ?x = "node contents fs n (t, \<rho>)"
    have x: "is_node (bs_of fs div 4) (t, \<rho>)" "\<not> is_leaf (bs_of fs div 4) (t, \<rho>)" "j < bs_of fs div 4"
      using snoc.prems by (simp_all add: is_node_snoc)
    note IH = snoc.IH [OF x(1)]
    show ?case
    proof (cases "(t, \<rho>) = (s, path @ [i])")
      case True
      then have "ptr (contents (e_dev fs)) (bs_of fs) b i = 0" "ptr (contents (e_dev fs')) (bs_of fs) c j = 0"
        using below x(2,3) by auto
      then have "node contents fs n (t, \<rho>) = 0" "ptr (contents (e_dev fs')) (bs_of fs) (node contents fs' n (t, \<rho>)) j = 0"
        using True IH b(3) node_snoc [of contents fs n s path i] by simp_all
      then show ?thesis
        using True bs node_snoc [of contents fs n t \<rho> j] node_snoc [of contents fs' n t \<rho> j] by auto
    next
      case other: False
      then have same: "node contents fs' n (t, \<rho>) = ?x" using IH by auto
      show ?thesis
      proof (cases "?x = b")
        case True
        then have "(t, \<rho>) = (s, path)" using inode_okD(3) [OF ok b(1)] b(3,4) x(1) by simp
        then show ?thesis using same True set x(3) bs by (simp add: node_snoc)
      next
        case False
        then have ne: "(t, \<rho>) \<noteq> (s, path)" using b(3) by auto
        have "ptr (contents (e_dev fs')) (bs_of fs) ?x j = ptr (contents (e_dev fs)) (bs_of fs) ?x j"
          using ptr_kept [OF k inode_okD(1) [OF ok x(1)] _ x(3)] False
          by (cases "?x = 0") (simp_all flip: word_unat_eq_iff)
        then show ?thesis using same ne bs by (auto simp: node_snoc)
      qed
    qed
  qed (simp add: node_def)
  then show ?thesis using \<nu> by (cases \<nu>) simp
qed

lemma node_slot:
  assumes ok: "inode_ok contents fs n" and k: "kept contents W fs fs'" and W: "W \<inter> index_blocks contents fs n = {}"
    and s: "s < 15"
    and below: "depth s = 0 \<or> (i_block n ! s = 0 \<and> (\<forall>j < bs_of fs div 4. ptr (contents (e_dev fs')) (bs_of fs) c j = 0))"
    and \<nu>: "is_node (bs_of fs div 4) \<nu>"
  shows "node contents fs' (n\<lparr>i_block := (i_block n)[s := c]\<rparr>) \<nu> = (if \<nu> = (s, []) then c else node contents fs n \<nu>)"
proof -
  have bs: "bs_of fs' = bs_of fs" using kept_facts(1) [OF k] .
  have len: "length (i_block n) = 15" using ok by (simp add: inode_ok_def)
  obtain t \<rho> where t: "\<nu> = (t, \<rho>)" by (cases \<nu>)
  show ?thesis
  proof (cases "t = s")
    case False
    then have "node contents fs' (n\<lparr>i_block := (i_block n)[s := c]\<rparr>) \<nu> = node contents fs' n \<nu>"
      by (simp add: node_def t)
    then show ?thesis using node_kept [OF ok k W \<nu>] False t by simp
  next
    case True
    then show ?thesis
    proof (cases \<rho>)
      case Nil
      then show ?thesis using True t s len by (simp add: node_def)
    next
      case (Cons j \<sigma>)
      then have "j < bs_of fs div 4" "depth s \<noteq> 0" using \<nu> True t by (auto simp: is_node_def)
      then show ?thesis using below Cons True t s len bs by (simp add: node_def)
    qed
  qed
qed

lemma inode_ok_update:
  assumes ok: "inode_ok contents fs n" and sh: "shape fs' = shape fs" and free: "free_blocks contents fs' \<subseteq> free_blocks contents fs"
    and len: "length (i_block n') = 15"
    and new: "c = 0 \<or> (data_block fs (unat c) \<and> unat c \<notin> free_blocks contents fs'
      \<and> (\<forall>\<mu>. is_node (bs_of fs div 4) \<mu> \<longrightarrow> node contents fs n \<mu> \<noteq> c))"
    and upd: "\<And>\<mu>. is_node (bs_of fs div 4) \<mu> \<Longrightarrow> node contents fs' n' \<mu> = (if \<mu> = \<nu> then c else node contents fs n \<mu>)"
  shows "inode_ok contents fs' n'"
proof -
  note f = shape_facts [OF sh]
  have fresh: "node contents fs n \<mu> \<noteq> c" if "is_node (bs_of fs div 4) \<mu>" "c \<noteq> 0" for \<mu>
    using new that by metis
  have "data_block fs' (unat (node contents fs' n' \<mu>)) \<and> unat (node contents fs' n' \<mu>) \<notin> free_blocks contents fs'"
    if "is_node (bs_of fs' div 4) \<mu>" "node contents fs' n' \<mu> \<noteq> 0" for \<mu>
  proof (cases "\<mu> = \<nu>")
    case True
    then show ?thesis using that upd [of \<mu>] new f by (simp del: split_paired_All)
  next
    case False
    then show ?thesis using that upd [of \<mu>] f inode_okD(1,2) [OF ok, of \<mu>] free by auto
  qed
  moreover have "\<mu> = \<kappa>" if n: "is_node (bs_of fs' div 4) \<mu>" "is_node (bs_of fs' div 4) \<kappa>"
    and eq: "node contents fs' n' \<mu> \<noteq> 0" "node contents fs' n' \<mu> = node contents fs' n' \<kappa>" for \<mu> \<kappa>
  proof -
    have m: "is_node (bs_of fs div 4) \<mu>" "is_node (bs_of fs div 4) \<kappa>" using n f(1) by simp_all
    consider "\<mu> = \<nu>" "\<kappa> = \<nu>" | "\<mu> = \<nu>" "\<kappa> \<noteq> \<nu>" | "\<mu> \<noteq> \<nu>" "\<kappa> = \<nu>" | "\<mu> \<noteq> \<nu>" "\<kappa> \<noteq> \<nu>" by metis
    then show ?thesis
    proof cases
      case 2
      then show ?thesis using upd [OF m(1)] upd [OF m(2)] eq fresh [OF m(2)] by simp
    next
      case 3
      then show ?thesis using upd [OF m(1)] upd [OF m(2)] eq fresh [OF m(1)] by simp
    next
      case 4
      then have "node contents fs n \<kappa> \<noteq> 0" "node contents fs n \<mu> = node contents fs n \<kappa>"
        using upd [OF m(1)] upd [OF m(2)] eq by simp_all
      then show ?thesis by (rule inode_okD(3) [OF ok m(2) _ m(1)])
    qed simp
  qed
  ultimately show ?thesis using len unfolding inode_ok_def by metis
qed

text \<open>How the map of an inode grows: everything but the nodes themselves.\<close>

definition grown :: "('d \<Rightarrow> bool) \<Rightarrow> ('d \<Rightarrow> bytes) \<Rightarrow> 'd ext2 \<Rightarrow> inode \<Rightarrow> 'd ext2 \<Rightarrow> inode \<Rightarrow> bool" where
  "grown valid contents fs n fs' n' \<longleftrightarrow> fs_ok valid contents fs' \<and> inode_ok contents fs' n'
     \<and> free_blocks contents fs' \<subseteq> free_blocks contents fs \<and> free_inodes contents fs' = free_inodes contents fs
     \<and> index_blocks contents fs' n' \<subseteq> index_blocks contents fs n \<union> (free_blocks contents fs - free_blocks contents fs')
     \<and> kept contents (index_blocks contents fs n \<union> (free_blocks contents fs - free_blocks contents fs')) fs fs'"

lemma grown_refl: "fs_ok valid contents fs \<Longrightarrow> inode_ok contents fs n \<Longrightarrow> grown valid contents fs n fs n"
  by (simp add: grown_def kept_def)

lemma grown_trans:
  assumes "grown valid contents fs n fs1 n1" "grown valid contents fs1 n1 fs2 n2"
  shows "grown valid contents fs n fs2 n2"
proof -
  let ?F = "free_blocks contents" and ?I = "index_blocks contents"
  have sub: "?I fs1 n1 \<union> (?F fs1 - ?F fs2) \<subseteq> ?I fs n \<union> (?F fs - ?F fs2)" "?F fs2 \<subseteq> ?F fs1" "?F fs1 \<subseteq> ?F fs"
    using assms by (auto simp: grown_def)
  have "kept contents (?I fs n \<union> (?F fs - ?F fs1) \<union> (?I fs1 n1 \<union> (?F fs1 - ?F fs2))) fs fs2"
    using assms by (auto simp: grown_def intro: kept_trans)
  then have "kept contents (?I fs n \<union> (?F fs - ?F fs2)) fs fs2"
    using sub by (elim kept_mono) auto
  moreover have "?I fs2 n2 \<subseteq> ?I fs n \<union> (?F fs - ?F fs2)" using assms(2) sub(1) by (auto simp: grown_def)
  ultimately show ?thesis using assms sub by (simp add: grown_def)
qed

lemma index_blocks_update:
  assumes bs: "bs_of fs' = bs_of fs"
    and upd: "\<And>\<mu>. is_node (bs_of fs div 4) \<mu> \<Longrightarrow> node contents fs' n' \<mu> = (if \<mu> = \<nu> then c else node contents fs n \<mu>)"
  shows "index_blocks contents fs' n' \<subseteq> index_blocks contents fs n \<union> (if is_leaf (bs_of fs div 4) \<nu> then {} else {unat c})"
proof
  fix x assume "x \<in> index_blocks contents fs' n'"
  then obtain \<mu> where \<mu>: "x = unat (node contents fs' n' \<mu>)" "is_node (bs_of fs div 4) \<mu>" "\<not> is_leaf (bs_of fs div 4) \<mu>"
    "node contents fs' n' \<mu> \<noteq> 0"
    using bs by (auto simp: index_blocks_def)
  then show "x \<in> index_blocks contents fs n \<union> (if is_leaf (bs_of fs div 4) \<nu> then {} else {unat c})"
    using upd [OF \<mu>(2)] index_blocksI [of fs \<mu> contents n] by (auto split: if_splits)
qed

text \<open>
  The outcome of recording block \<^verbatim>\<open>v\<close> at a leaf: the number of index blocks added to the count, at
  most \<^verbatim>\<open>k\<close> of them, or no space left after fewer than \<^verbatim>\<open>k\<close> and no leaf changed.
\<close>

definition recorded ::
  "('d \<Rightarrow> bool) \<Rightarrow> ('d \<Rightarrow> bytes) \<Rightarrow> nat \<Rightarrow> node_id \<Rightarrow> u32 \<Rightarrow> u32 \<Rightarrow> 'd ext2 \<Rightarrow> inode \<Rightarrow> fs_error + u32 \<Rightarrow> 'd ext2 \<Rightarrow> inode \<Rightarrow> bool" where
  "recorded valid contents k leaf v meta fs n r fs' n' \<longleftrightarrow> grown valid contents fs n fs' n' \<and> (case r of
      Inl e \<Rightarrow> e = NoSpace \<and> free_blocks contents fs' = {} \<and> card (free_blocks contents fs) < k
        \<and> (\<forall>\<mu>. is_leaf (bs_of fs div 4) \<mu> \<longrightarrow> node contents fs' n' \<mu> = node contents fs n \<mu>)
    | Inr meta' \<Rightarrow> meta' = meta + of_nat (card (free_blocks contents fs - free_blocks contents fs'))
        \<and> card (free_blocks contents fs - free_blocks contents fs') \<le> k
        \<and> (\<forall>\<mu>. is_leaf (bs_of fs div 4) \<mu> \<longrightarrow> node contents fs' n' \<mu> = (if \<mu> = leaf then v else node contents fs n \<mu>)))"

lemma recorded_mono:
  "recorded valid contents k leaf v meta fs n r fs' n' \<Longrightarrow> k \<le> j \<Longrightarrow> recorded valid contents j leaf v meta fs n r fs' n'"
  by (auto simp: recorded_def split: sum.splits)

lemma recorded_leaf:
  assumes "recorded valid contents k leaf v meta fs n r fs' n'" "is_leaf (bs_of fs div 4) \<mu>"
  shows "node contents fs' n' \<mu> = (if \<mu> = leaf \<and> \<not> isl r then v else node contents fs n \<mu>)"
  using assms by (cases r) (simp_all add: recorded_def del: split_paired_All)

text \<open>Recording after an index block was added.\<close>

lemma recorded_after:
  assumes d: "unat d \<in> free_blocks contents fs" "free_blocks contents fs2 = free_blocks contents fs - {unat d}"
    "grown valid contents fs n fs2 n2"
    and leaves: "\<And>\<mu>. is_leaf (bs_of fs div 4) \<mu> \<Longrightarrow> node contents fs2 n2 \<mu> = node contents fs n \<mu>"
    and r: "recorded valid contents k leaf v (meta + 1) fs2 n2 r fs' n'"
  shows "recorded valid contents (Suc k) leaf v meta fs n r fs' n'"
proof -
  have g: "grown valid contents fs2 n2 fs' n'" using r by (simp add: recorded_def)
  have bs: "bs_of fs2 = bs_of fs" using d(3) kept_facts(1) by (auto simp: grown_def)
  have "free_blocks contents fs - free_blocks contents fs' = insert (unat d) (free_blocks contents fs2 - free_blocks contents fs')"
    using d(1,2) g by (auto simp: grown_def)
  then have "card (free_blocks contents fs - free_blocks contents fs') = Suc (card (free_blocks contents fs2 - free_blocks contents fs'))"
    using d(2) by simp
  moreover have "card (free_blocks contents fs) = Suc (card (free_blocks contents fs2))"
    using d(1,2) card_Suc_Diff1 [of "free_blocks contents fs" "unat d"] by simp
  ultimately show ?thesis
    using grown_trans [OF d(3) g] r leaves bs unfolding recorded_def by (cases r) (auto simp: ac_simps)
qed

lemma file_path_leaf: "fb < max_file_blocks p \<Longrightarrow> is_leaf p (file_path p fb)"
  by (cases "file_path p fb") (erule (1) file_path_cases; auto simp: is_leaf_def is_node_def depth_def)

lemma zeroed_ptr:
  assumes "blk D bs (unat c) = replicate bs 0" "j < bs div 4"
  shows "ptr D bs c j = 0"
proof (cases "c = 0")
  case False
  have "j * 4 + 4 \<le> bs" using assms(2) by linarith
  then show ?thesis using ptr_blk [OF assms(2) False, of D] assms(1) by (simp add: sub_slice_def numeral_eq_Suc)
qed simp

text \<open>A block taken from the free ones, before the map has it.\<close>

lemma fresh_block:
  assumes ok: "fs_ok valid contents fs" "inode_ok contents fs n"
    and c: "unat c \<in> free_blocks contents fs" "free_blocks contents fs1 = free_blocks contents fs - {unat c}"
      "free_inodes contents fs1 = free_inodes contents fs" "fs_ok valid contents fs1" "kept contents {unat c} fs fs1"
  shows "c \<noteq> 0" "data_block fs (unat c)" "\<And>\<mu>. is_node (bs_of fs div 4) \<mu> \<Longrightarrow> node contents fs n \<mu> \<noteq> c"
    "unat c \<notin> index_blocks contents fs n" "\<And>\<mu>. is_node (bs_of fs div 4) \<mu> \<Longrightarrow> node contents fs1 n \<mu> = node contents fs n \<mu>"
    "grown valid contents fs n fs1 n"
proof -
  show dc: "data_block fs (unat c)" using c(1) ok(1) by (simp add: fs_ok_def)
  show c0: "c \<noteq> 0" using data_block_pos [OF fs_ok_facts(2) [OF ok(1)] dc] by auto
  show fresh: "node contents fs n \<mu> \<noteq> c" if "is_node (bs_of fs div 4) \<mu>" for \<mu>
    using inode_okD(2) [OF ok(2) that] c(1) c0 by auto
  show out: "unat c \<notin> index_blocks contents fs n"
    using fresh by (auto simp: index_blocks_def simp flip: word_unat_eq_iff)
  show same: "node contents fs1 n \<mu> = node contents fs n \<mu>" if "is_node (bs_of fs div 4) \<mu>" for \<mu>
    using node_kept [OF ok(2) c(5) _ that] out by simp
  have ok1: "inode_ok contents fs1 n"
    by (rule inode_ok_update [where c = 0 and \<nu> = "(15, [])", OF ok(2)])
      (use c(2,5) same ok(2) in \<open>auto simp: kept_def inode_ok_def is_node_def\<close>)
  have "index_blocks contents fs1 n \<subseteq> index_blocks contents fs n"
  proof
    fix x assume "x \<in> index_blocks contents fs1 n"
    then obtain \<mu> where "x = unat (node contents fs1 n \<mu>)" "is_node (bs_of fs div 4) \<mu>" "\<not> is_leaf (bs_of fs div 4) \<mu>"
      "node contents fs1 n \<mu> \<noteq> 0"
      using kept_facts(1) [OF c(5)] by (auto simp: index_blocks_def)
    then show "x \<in> index_blocks contents fs n" using same [of \<mu>] index_blocksI [of fs \<mu> contents n] by simp
  qed
  moreover have "kept contents (index_blocks contents fs n \<union> (free_blocks contents fs - free_blocks contents fs1)) fs fs1"
    using c(1,2,5) by (elim kept_mono) auto
  ultimately show "grown valid contents fs n fs1 n" using c(2-4) ok1 by (auto simp: grown_def)
qed

section \<open>Recording a block keeps the map sound\<close>

context disk
begin

lemma alloc_zeroed_fresh:
  assumes ok: "fs_ok valid contents fs" "inode_ok contents fs n" and some: "free_blocks contents fs \<noteq> {}"
  obtains c fs1 where "alloc_zeroed bd fs = Some (Inr c, fs1)" "unat c \<in> free_blocks contents fs"
    "free_blocks contents fs1 = free_blocks contents fs - {unat c}" "kept contents {unat c} fs fs1"
    "blk (contents (e_dev fs1)) (bs_of fs) (unat c) = replicate (bs_of fs) 0"
    "c \<noteq> 0" "data_block fs (unat c)" "\<And>\<mu>. is_node (bs_of fs div 4) \<mu> \<Longrightarrow> node contents fs n \<mu> \<noteq> c"
    "unat c \<notin> index_blocks contents fs n" "\<And>\<mu>. is_node (bs_of fs div 4) \<mu> \<Longrightarrow> node contents fs1 n \<mu> = node contents fs n \<mu>"
    "grown valid contents fs n fs1 n"
proof -
  obtain c fs1 where c: "alloc_zeroed bd fs = Some (Inr c, fs1)" "unat c \<in> free_blocks contents fs"
    "free_blocks contents fs1 = free_blocks contents fs - {unat c}" "free_inodes contents fs1 = free_inodes contents fs"
    "fs_ok valid contents fs1" "kept contents {unat c} fs fs1"
    "blk (contents (e_dev fs1)) (bs_of fs) (unat c) = replicate (bs_of fs) 0"
    using alloc_zeroed_run [OF ok(1)] some by auto
  with that fresh_block [OF ok c(2-6)] show thesis by blast
qed

lemma add_index_block:
  assumes ok: "fs_ok valid contents fs" "inode_ok contents fs n"
    and b: "is_node (bs_of fs div 4) (s, path @ [i])" "\<not> is_leaf (bs_of fs div 4) (s, path @ [i])"
      "node contents fs n (s, path) = b" "b \<noteq> 0" "ptr (contents (e_dev fs)) (bs_of fs) b i = 0"
    and some: "free_blocks contents fs \<noteq> {}"
  obtains c fs1 fs2 where "alloc_zeroed bd fs = Some (Inr c, fs1)" "write_block_ptr bd b i (bs_of fs) c fs1 = Some (Inr (), fs2)"
    "unat c \<in> free_blocks contents fs" "free_blocks contents fs2 = free_blocks contents fs - {unat c}"
    "grown valid contents fs n fs2 n" "c \<noteq> 0"
    "\<And>\<mu>. is_node (bs_of fs div 4) \<mu> \<Longrightarrow> node contents fs2 n \<mu> = (if \<mu> = (s, path @ [i]) then c else node contents fs n \<mu>)"
proof -
  let ?p = "bs_of fs div 4"
  have par: "is_node ?p (s, path)" "\<not> is_leaf ?p (s, path)" "i < ?p" using b(1) by (simp_all add: is_node_snoc)
  have bI: "unat b \<in> index_blocks contents fs n" using index_blocksI [OF par(1,2), of contents n] b(3,4) by simp
  have bd_: "data_block fs (unat b)" "unat b \<notin> free_blocks contents fs" using inode_okD(1,2) [OF ok(2) par(1)] b(3,4) by simp_all
  obtain c fs1 where c: "alloc_zeroed bd fs = Some (Inr c, fs1)" "unat c \<in> free_blocks contents fs"
    "free_blocks contents fs1 = free_blocks contents fs - {unat c}" "kept contents {unat c} fs fs1"
    "blk (contents (e_dev fs1)) (bs_of fs) (unat c) = replicate (bs_of fs) 0"
    and c0: "c \<noteq> 0" and dc: "data_block fs (unat c)" and fresh: "\<And>\<mu>. is_node ?p \<mu> \<Longrightarrow> node contents fs n \<mu> \<noteq> c"
    and out: "unat c \<notin> index_blocks contents fs n"
    and same1: "\<And>\<mu>. is_node ?p \<mu> \<Longrightarrow> node contents fs1 n \<mu> = node contents fs n \<mu>" and g: "grown valid contents fs n fs1 n"
    by (rule alloc_zeroed_fresh [OF ok some]) (rule that)
  note k1 = kept_facts [OF c(4)]
  have ok1: "fs_ok valid contents fs1" "inode_ok contents fs1 n" using g by (simp_all add: grown_def)
  obtain fs2 where w: "write_block_ptr bd b i (bs_of fs1) c fs1 = Some (Inr (), fs2)"
    "fs_ok valid contents fs2" "free_blocks contents fs2 = free_blocks contents fs1"
    "free_inodes contents fs2 = free_inodes contents fs1" "kept contents {unat b} fs1 fs2"
    "\<forall>j < bs_of fs1 div 4. ptr (contents (e_dev fs2)) (bs_of fs1) b j = (if j = i then c else ptr (contents (e_dev fs1)) (bs_of fs1) b j)"
    using write_ptr_run [OF ok1(1), of b i c] bd_(1) par(3) k1 by auto
  have bc: "unat b \<noteq> unat c" using bd_(2) c(2) by auto
  have old: "ptr (contents (e_dev fs1)) (bs_of fs1) b i = 0"
    using ptr_kept [OF c(4) bd_(1) _ par(3)] bc b(5) k1(1) by simp
  have zero: "ptr (contents (e_dev fs2)) (bs_of fs1) c j = 0" if "j < bs_of fs1 div 4" for j
    using ptr_kept [OF w(5) _ _ that] dc k1 bc zeroed_ptr [OF c(5), of j] that by simp
  have upd: "node contents fs2 n \<mu> = (if \<mu> = (s, path @ [i]) then c else node contents fs n \<mu>)" if "is_node ?p \<mu>" for \<mu>
    using node_pointer [OF ok1(2) w(5), of s path i c \<mu>] par that same1 b(3,4) w(6) old zero k1(1) by simp
  have k: "kept contents {unat c, unat b} fs fs2" using kept_trans [OF c(4) w(5)] by (simp add: insert_commute)
  have ok2: "inode_ok contents fs2 n"
    by (rule inode_ok_update [where c = c and \<nu> = "(s, path @ [i])", OF ok(2)])
      (use k c(2,3) w(3) fresh upd ok(2) dc in \<open>auto simp: kept_def inode_ok_def\<close>)
  have "grown valid contents fs n fs2 n"
    unfolding grown_def
  proof (intro conjI)
    show "index_blocks contents fs2 n \<subseteq> index_blocks contents fs n \<union> (free_blocks contents fs - free_blocks contents fs2)"
      using index_blocks_update [OF kept_facts(1) [OF k] upd] b(2) w(3) c(2,3) by auto
    show "kept contents (index_blocks contents fs n \<union> (free_blocks contents fs - free_blocks contents fs2)) fs fs2"
      using k bI w(3) c(2,3) by (elim kept_mono) auto
  qed (use w c ok2 g in \<open>auto simp: grown_def\<close>)
  then show thesis using that [of c fs1 fs2] c(1-3) w(1,3) c0 upd k1(1) by simp
qed

lemma grow_leaf:
  assumes ok: "fs_ok valid contents fs" "inode_ok contents fs n"
    and b: "is_leaf (bs_of fs div 4) (s, path @ [i])" "node contents fs n (s, path) = b" "b \<noteq> 0"
    and v: "data_block fs (unat v)" "unat v \<notin> free_blocks contents fs" "\<And>\<mu>. is_node (bs_of fs div 4) \<mu> \<Longrightarrow> node contents fs n \<mu> \<noteq> v"
  shows "\<exists>fs'. write_block_ptr bd b i (bs_of fs) v fs = Some (Inr (), fs')
    \<and> recorded valid contents 0 (s, path @ [i]) v meta fs n (Inr meta) fs' n"
proof -
  let ?p = "bs_of fs div 4"
  have par: "is_node ?p (s, path)" "\<not> is_leaf ?p (s, path)" "i < ?p" using b(1) by (auto simp: is_leaf_def is_node_def)
  have dv: "data_block fs (unat b)" using inode_okD(1) [OF ok(2) par(1)] b by simp
  obtain fs' where w: "write_block_ptr bd b i (bs_of fs) v fs = Some (Inr (), fs')"
    "fs_ok valid contents fs'" "free_blocks contents fs' = free_blocks contents fs"
    "free_inodes contents fs' = free_inodes contents fs" "kept contents {unat b} fs fs'"
    "\<forall>j < ?p. ptr (contents (e_dev fs')) (bs_of fs) b j = (if j = i then v else ptr (contents (e_dev fs)) (bs_of fs) b j)"
    using write_ptr_run [OF ok(1) dv par(3), of v] by auto
  have upd: "node contents fs' n \<mu> = (if \<mu> = (s, path @ [i]) then v else node contents fs n \<mu>)" if "is_node ?p \<mu>" for \<mu>
    using node_pointer [OF ok(2) w(5) par(1,2) b(2,3) w(6) _ that] b(1) by simp
  have ok2: "inode_ok contents fs' n"
    by (rule inode_ok_update [where c = v and \<nu> = "(s, path @ [i])", OF ok(2)])
      (use w(3,5) v upd ok(2) in \<open>auto simp: kept_def inode_ok_def\<close>)
  have "grown valid contents fs n fs' n"
    unfolding grown_def
  proof (intro conjI)
    show "index_blocks contents fs' n \<subseteq> index_blocks contents fs n \<union> (free_blocks contents fs - free_blocks contents fs')"
      using index_blocks_update [OF kept_facts(1) [OF w(5)] upd] b(1) by auto
    show "kept contents (index_blocks contents fs n \<union> (free_blocks contents fs - free_blocks contents fs')) fs fs'"
      using w(5) index_blocksI [OF par(1,2), of contents n] b by (elim kept_mono) auto
  qed (use w ok2 in auto)
  then show ?thesis using w(1,3) upd by (simp add: recorded_def is_leaf_def)
qed

text \<open>Recording a block in the tree below an index block.\<close>

lemma grow_spec:
  assumes "fs_ok valid contents fs" "inode_ok contents fs n"
    and "is_leaf (bs_of fs div 4) (s, path @ rest)" "rest \<noteq> []" "node contents fs n (s, path) = b" "b \<noteq> 0"
    and "data_block fs (unat v)" "unat v \<notin> free_blocks contents fs" "\<And>\<mu>. is_node (bs_of fs div 4) \<mu> \<Longrightarrow> node contents fs n \<mu> \<noteq> v"
  shows "\<exists>r fs'. grow bd (bs_of fs) b rest v meta fs = Some (r, fs') \<and> recorded valid contents (length rest - 1) (s, path @ rest) v meta fs n r fs' n"
  using assms
proof (induction rest arbitrary: fs path b meta)
  case (Cons i rest)
  let ?p = "bs_of fs div 4"
  note ok = Cons.prems(1,2) and leaf = Cons.prems(3) and b = Cons.prems(5,6) and v = Cons.prems(7-9)
  show ?case
  proof (cases rest)
    case Nil
    then show ?thesis using grow_leaf [OF ok _ b v, of i meta] leaf by (auto simp: ebind_Some)
  next
    case more: (Cons j rest')
    have child: "is_node ?p (s, path @ [i])" "\<not> is_leaf ?p (s, path @ [i])" "is_leaf ?p (s, (path @ [i]) @ rest)" "rest \<noteq> []"
      using leaf more by (auto simp: is_leaf_def is_node_def)
    then have par: "is_node ?p (s, path)" "i < ?p" by (simp_all add: is_node_snoc)
    let ?c = "ptr (contents (e_dev fs)) (bs_of fs) b i"
    have read: "read_block_ptr bd b i (bs_of fs) fs = Some (Inr ?c, fs)"
      using read_ptr_run [OF ok(1) _ par(2), of b] inode_okD(1) [OF ok(2) par(1)] b by simp
    have c: "node contents fs n (s, path @ [i]) = ?c" using b(1) by (simp add: node_snoc)
    note run = more read ensure_ptr_def ebind_Some
    consider "?c \<noteq> 0" | "?c = 0" "free_blocks contents fs = {}" | "?c = 0" "free_blocks contents fs \<noteq> {}" by blast
    then show ?thesis
    proof cases
      case 1
      then show ?thesis using Cons.IH [OF ok child(3,4) c 1 v, of meta] recorded_mono [where k = "length rest - 1"] by (fastforce simp: run)
    next
      case 2
      then have "alloc_zeroed bd fs = Some (Inl NoSpace, fs)" using alloc_zeroed_run [OF ok(1)] by simp
      then show ?thesis using 2 grown_refl [OF ok] by (simp add: run recorded_def)
    next
      case 3
      from add_index_block [OF ok child(1,2) b 3] obtain d fs1 fs2 where d: "alloc_zeroed bd fs = Some (Inr d, fs1)"
        "write_block_ptr bd b i (bs_of fs) d fs1 = Some (Inr (), fs2)" "unat d \<in> free_blocks contents fs"
        "free_blocks contents fs2 = free_blocks contents fs - {unat d}" "grown valid contents fs n fs2 n" "d \<noteq> 0"
        "\<And>\<mu>. is_node ?p \<mu> \<Longrightarrow> node contents fs2 n \<mu> = (if \<mu> = (s, path @ [i]) then d else node contents fs n \<mu>)"
        by metis
      then have k: "fs_ok valid contents fs2" "inode_ok contents fs2 n" "bs_of fs2 = bs_of fs" "data_block fs2 = data_block fs"
        using kept_facts by (auto simp: grown_def)
      have "\<exists>r fs'. grow bd (bs_of fs2) d rest v (meta + 1) fs2 = Some (r, fs')
          \<and> recorded valid contents (length rest - 1) (s, (path @ [i]) @ rest) v (meta + 1) fs2 n r fs' n"
        using child d v k by (intro Cons.IH) auto
      moreover have "node contents fs2 n \<mu> = node contents fs n \<mu>" if "is_leaf ?p \<mu>" for \<mu>
        using d(7) [of \<mu>] that child(2) by (auto simp: is_leaf_def)
      ultimately show ?thesis using 3(1) d(1,2) k(3) recorded_after [OF d(3-5)] by (auto simp: run)
    qed
  qed
qed simp

lemma add_slot_block:
  assumes ok: "fs_ok valid contents fs" "inode_ok contents fs n"
    and s: "12 \<le> s" "s < 15" "i_block n ! s = 0" and some: "free_blocks contents fs \<noteq> {}"
  obtains c fs1 where "alloc_zeroed bd fs = Some (Inr c, fs1)"
    "unat c \<in> free_blocks contents fs" "free_blocks contents fs1 = free_blocks contents fs - {unat c}"
    "grown valid contents fs n fs1 (n\<lparr>i_block := (i_block n)[s := c]\<rparr>)" "c \<noteq> 0"
    "\<And>\<mu>. is_node (bs_of fs div 4) \<mu> \<Longrightarrow>
      node contents fs1 (n\<lparr>i_block := (i_block n)[s := c]\<rparr>) \<mu> = (if \<mu> = (s, []) then c else node contents fs n \<mu>)"
proof -
  let ?p = "bs_of fs div 4"
  obtain c fs1 where c: "alloc_zeroed bd fs = Some (Inr c, fs1)" "unat c \<in> free_blocks contents fs"
    "free_blocks contents fs1 = free_blocks contents fs - {unat c}" "kept contents {unat c} fs fs1"
    "blk (contents (e_dev fs1)) (bs_of fs) (unat c) = replicate (bs_of fs) 0"
    and c0: "c \<noteq> 0" and dc: "data_block fs (unat c)" and fresh: "\<And>\<mu>. is_node ?p \<mu> \<Longrightarrow> node contents fs n \<mu> \<noteq> c"
    and out: "unat c \<notin> index_blocks contents fs n"
    and same1: "\<And>\<mu>. is_node ?p \<mu> \<Longrightarrow> node contents fs1 n \<mu> = node contents fs n \<mu>" and g: "grown valid contents fs n fs1 n"
    by (rule alloc_zeroed_fresh [OF ok some]) (rule that)
  let ?n = "n\<lparr>i_block := (i_block n)[s := c]\<rparr>"
  note upd = node_slot [OF ok(2) c(4) _ s(2), of c]
  have upd: "node contents fs1 ?n \<mu> = (if \<mu> = (s, []) then c else node contents fs n \<mu>)" if "is_node ?p \<mu>" for \<mu>
    using upd that s(3) out zeroed_ptr [OF c(5)] by simp
  have leaf: "\<not> is_leaf ?p (s, [])" using s(1) by (simp add: is_leaf_def depth_def)
  have ok1: "inode_ok contents fs1 ?n"
    by (rule inode_ok_update [where c = c and \<nu> = "(s, [])", OF ok(2)])
      (use c(2-4) fresh upd ok(2) dc in \<open>auto simp: kept_def inode_ok_def\<close>)
  have "grown valid contents fs n fs1 ?n"
    unfolding grown_def
  proof (intro conjI)
    show "index_blocks contents fs1 ?n \<subseteq> index_blocks contents fs n \<union> (free_blocks contents fs - free_blocks contents fs1)"
      using index_blocks_update [OF kept_facts(1) [OF c(4)] upd] leaf c(2,3) by auto
    show "kept contents (index_blocks contents fs n \<union> (free_blocks contents fs - free_blocks contents fs1)) fs fs1"
      using c(2-4) by (elim kept_mono) auto
  qed (use c ok1 g in \<open>auto simp: grown_def\<close>)
  then show thesis using that [of c fs1] c(1-3) c0 upd by simp
qed

lemma set_block_number_spec:
  assumes ok: "fs_ok valid contents fs" "inode_ok contents fs n" and fb: "fb < max_file_blocks (bs_of fs div 4)"
    and v: "data_block fs (unat v)" "unat v \<notin> free_blocks contents fs" "\<And>\<mu>. is_node (bs_of fs div 4) \<mu> \<Longrightarrow> node contents fs n \<mu> \<noteq> v"
  shows "\<exists>r bl fs'. set_block_number bd fb v n fs = Some (r, n\<lparr>i_block := bl\<rparr>, fs')
    \<and> recorded valid contents 3 (file_path (bs_of fs div 4) fb) v 0 fs n r fs' (n\<lparr>i_block := bl\<rparr>)"
proof -
  let ?p = "bs_of fs div 4"
  obtain s path where sp: "file_path ?p fb = (s, path)" by force
  then have leaf: "is_leaf ?p (s, path)" using file_path_leaf [OF fb] by simp
  then have s: "s < 15" "path = [] \<longleftrightarrow> s < 12" "length path \<le> 3" by (auto simp: is_leaf_def is_node_def depth_def)
  have len: "length (i_block n) = 15" using ok(2) by (simp add: inode_ok_def)
  note run = set_block_number_grow [of bd fb v n fs, unfolded sp prod.case]
  consider "path = []" | "path \<noteq> []" "i_block n ! s \<noteq> 0" | "path \<noteq> []" "i_block n ! s = 0" "free_blocks contents fs = {}"
    | "path \<noteq> []" "i_block n ! s = 0" "free_blocks contents fs \<noteq> {}" by blast
  then show ?thesis
  proof cases
    case 1
    have k: "kept contents {} fs fs" by (simp add: kept_def)
    let ?n = "n\<lparr>i_block := (i_block n)[s := v]\<rparr>"
    have upd: "node contents fs ?n \<mu> = (if \<mu> = (s, []) then v else node contents fs n \<mu>)" if "is_node ?p \<mu>" for \<mu>
      using node_slot [OF ok(2) k _ s(1) _ that] s 1 by (simp add: depth_def)
    have ok2: "inode_ok contents fs ?n"
      by (rule inode_ok_update [where c = v and \<nu> = "(s, [])", OF ok(2)]) (use v upd len in auto)
    have "grown valid contents fs n fs ?n"
      using ok(1) ok2 k index_blocks_update [OF refl upd] leaf 1 kept_mono [OF k] by (auto simp: grown_def)
    then show ?thesis using run sp 1 upd by (auto simp: recorded_def is_leaf_def)
  next
    case 2
    have "node contents fs n (s, []) = i_block n ! s" by (simp add: node_def)
    from grow_spec [OF ok, of s "[]" path, unfolded append_Nil, OF leaf 2(1) this 2(2) v, of 0] obtain r fs' where
      "grow bd (bs_of fs) (i_block n ! s) path v 0 fs = Some (r, fs')" "recorded valid contents (length path - 1) (s, path) v 0 fs n r fs' n"
      by auto
    moreover from this(2) have "recorded valid contents 3 (s, path) v 0 fs n r fs' n"
      by (rule recorded_mono) (use s(3) in simp)
    ultimately show ?thesis using run sp 2 by (auto simp: ensure_slot_def with_inode_def intro!: exI [of _ "i_block n"])
  next
    case 3
    then have "alloc_zeroed bd fs = Some (Inl NoSpace, fs)" using alloc_zeroed_run [OF ok(1)] by simp
    then show ?thesis
      using run sp 3 grown_refl [OF ok] by (auto simp: ensure_slot_def recorded_def intro!: exI [of _ "i_block n"])
  next
    case 4
    then have s12: "12 \<le> s" using s(2) by simp
    from add_slot_block [OF ok s12 s(1) 4(2,3)] obtain c fs1 where c: "alloc_zeroed bd fs = Some (Inr c, fs1)"
      "unat c \<in> free_blocks contents fs" "free_blocks contents fs1 = free_blocks contents fs - {unat c}"
      "grown valid contents fs n fs1 (n\<lparr>i_block := (i_block n)[s := c]\<rparr>)" "c \<noteq> 0"
      "\<And>\<mu>. is_node ?p \<mu> \<Longrightarrow>
        node contents fs1 (n\<lparr>i_block := (i_block n)[s := c]\<rparr>) \<mu> = (if \<mu> = (s, []) then c else node contents fs n \<mu>)"
      by metis
    let ?n = "n\<lparr>i_block := (i_block n)[s := c]\<rparr>"
    have k: "fs_ok valid contents fs1" "inode_ok contents fs1 ?n" "bs_of fs1 = bs_of fs" "data_block fs1 = data_block fs"
      using c(4) kept_facts by (auto simp: grown_def)
    have root: "is_node ?p (s, [])" "\<not> is_leaf ?p (s, [])" using s s12 by (simp_all add: is_node_def is_leaf_def depth_def)
    have "\<exists>r fs'. grow bd (bs_of fs1) c path v (0 + 1) fs1 = Some (r, fs') \<and> recorded valid contents (length path - 1) (s, [] @ path) v (0 + 1) fs1 ?n r fs' ?n"
      using leaf 4(1) c v k root by (intro grow_spec) auto
    then obtain r fs' where r: "grow bd (bs_of fs) c path v 1 fs1 = Some (r, fs')" "recorded valid contents (length path - 1) (s, path) v (0 + 1) fs1 ?n r fs' ?n"
      using k(3) by auto
    have "node contents fs1 ?n \<mu> = node contents fs n \<mu>" if "is_leaf ?p \<mu>" for \<mu>
      using c(6) [of \<mu>] that root(2) by (auto simp: is_leaf_def)
    from recorded_after [OF c(2-4) this r(2)] have "recorded valid contents (Suc (length path - 1)) (s, path) v 0 fs n r fs' ?n" .
    moreover have "Suc (length path - 1) \<le> 3" using s(3) 4(1) by (cases path) simp_all
    ultimately have "recorded valid contents 3 (s, path) v 0 fs n r fs' ?n" by (rule recorded_mono)
    then show ?thesis
      using run sp 4 c(1) r(1) by (auto simp: ensure_slot_def with_inode_def)
  qed
qed

text \<open>Reading the map.\<close>

lemma get_block_run:
  assumes ok: "fs_ok valid contents fs" "inode_ok contents fs n" and fb: "fb < max_file_blocks (bs_of fs div 4)"
  shows "get_block bd n fb fs = Some (Inr (node contents fs n (file_path (bs_of fs div 4) fb)), fs)"
proof -
  let ?p = "bs_of fs div 4" and ?get = "\<lambda>m i. ebind m (\<lambda>b. read_block_ptr bd b i (bs_of fs))"
  have *: "is_node ?p (s, path) \<Longrightarrow> foldl ?get (eret (i_block n ! s)) path fs = Some (Inr (node contents fs n (s, path)), fs)" for s path
  proof (induction path rule: rev_induct)
    case (snoc i path)
    then have par: "is_node ?p (s, path)" "i < ?p" by (simp_all add: is_node_snoc)
    have "node contents fs n (s, path) = 0 \<or> data_block fs (unat (node contents fs n (s, path)))"
      using inode_okD(1) [OF ok(2) par(1)] by blast
    then show ?case using snoc.IH [OF par(1)] read_ptr_run [OF ok(1) _ par(2)] by (simp add: ebind_Some node_snoc)
  qed (simp add: node_def)
  have "is_node ?p (file_path ?p fb)" using file_path_leaf [OF fb] by (simp add: is_leaf_def)
  then show ?thesis
    using * by (cases "file_path ?p fb") (simp add: get_block_def get_block_number_follow)
qed

lemma set_get_block:
  assumes ok: "fs_ok valid contents fs" "inode_ok contents fs n" and fb: "fb < max_file_blocks (bs_of fs div 4)"
    and v: "data_block fs (unat v)" "unat v \<notin> free_blocks contents fs" "\<And>\<mu>. is_node (bs_of fs div 4) \<mu> \<Longrightarrow> node contents fs n \<mu> \<noteq> v"
  shows "\<exists>r n' fs'. set_block_number bd fb v n fs = Some (r, n', fs') \<and> fs_ok valid contents fs' \<and> inode_ok contents fs' n'
    \<and> (case r of
         Inl e \<Rightarrow> e = NoSpace \<and> card (free_blocks contents fs) < 3
       | Inr meta_blocks \<Rightarrow> unat meta_blocks = card (free_blocks contents fs - free_blocks contents fs'))
    \<and> (\<forall>fb' < max_file_blocks (bs_of fs div 4). \<exists>b. get_block bd n fb' fs = Some (Inr b, fs)
         \<and> get_block bd n' fb' fs' = Some (Inr (if fb' = fb \<and> \<not> isl r then v else b), fs'))"
proof -
  let ?p = "bs_of fs div 4"
  obtain r n' fs' where run: "set_block_number bd fb v n fs = Some (r, n', fs')"
    and r: "recorded valid contents 3 (file_path ?p fb) v 0 fs n r fs' n'"
    using set_block_number_spec [OF ok fb v] by blast
  then have g: "fs_ok valid contents fs'" "inode_ok contents fs' n'" "bs_of fs' = bs_of fs"
    using kept_facts by (auto simp: recorded_def grown_def)
  have "node contents fs' n' (file_path ?p fb') =
      (if fb' = fb \<and> \<not> isl r then v else node contents fs n (file_path ?p fb'))" if "fb' < max_file_blocks ?p" for fb'
    using recorded_leaf [OF r file_path_leaf [OF that]] file_path_inj [of ?p fb' fb] by auto
  moreover have "unat (of_nat k :: u32) = k" if "k \<le> 3" for k using that by (simp add: unat_of_nat_small)
  ultimately show ?thesis
    using run g get_block_run [OF ok] get_block_run [OF g(1,2)] r
    by (cases r) (auto simp: recorded_def)
qed

end

section \<open>Properties\<close>

text \<open>C38: Recording a block in the map of a file. For every file block that the map can hold, direct or through one, two or
  three levels of index blocks, the operation either records the block, so that looking the file block up returns it
  and every other lookup returns what it returned before, and reports how many index blocks it took from the free blocks; or it
  runs out of space, which needs fewer than three free blocks, and then every lookup is as before. Bitmaps, counters and the map stay
  consistent.\<close>

theorem set_block_number_maps:
  assumes "device_contract bd valid contents False" "fs_ok valid contents fs" "inode_ok contents fs n"
    and "fb < max_file_blocks (bs_of fs div 4)" "data_block fs (unat v)" "unat v \<notin> free_blocks contents fs"
    and "\<And>\<mu>. is_node (bs_of fs div 4) \<mu> \<Longrightarrow> node contents fs n \<mu> \<noteq> v"
  shows "\<exists>r n' fs'. set_block_number bd fb v n fs = Some (r, n', fs') \<and> fs_ok valid contents fs' \<and> inode_ok contents fs' n'
    \<and> (case r of
         Inl e \<Rightarrow> e = NoSpace \<and> card (free_blocks contents fs) < 3
       | Inr meta_blocks \<Rightarrow> unat meta_blocks = card (free_blocks contents fs - free_blocks contents fs'))
    \<and> (\<forall>fb' < max_file_blocks (bs_of fs div 4). \<exists>b. get_block bd n fb' fs = Some (Inr b, fs)
         \<and> get_block bd n' fb' fs' = Some (Inr (if fb' = fb \<and> \<not> isl r then v else b), fs'))"
  by (rule disk.set_get_block [OF disk.intro [OF assms(1)] assms(2-7)])

lemma inode_ok_empty:
  assumes "i_block n = replicate 15 0"
  shows "inode_ok contents fs n"
proof -
  have "node contents fs n \<nu> = 0" if "is_node (bs_of fs div 4) \<nu>" for \<nu>
    using that assms by (simp add: node_def is_node_def)
  then show ?thesis using assms unfolding inode_ok_def by auto
qed

lemma demo_fs_ok:
  assumes "length table = 1024" "length root = 1024"
  shows "fs_ok demo_valid vbi_device (demo_fs table root)"
proof -
  let ?fs = "demo_fs table root"
  have e: "bs_of ?fs = 1024" "unat (e_blocks_count ?fs) = 12" "tables_end ?fs = 2080"
    "set (e_block_groups ?fs) = {hd (e_block_groups ?fs)}" "length (e_block_groups ?fs) = 1"
    "unat (bg_block_bitmap (hd (e_block_groups ?fs))) = 3" "unat (bg_inode_bitmap (hd (e_block_groups ?fs))) = 4"
    "table_blocks ?fs (hd (e_block_groups ?fs)) = {5}"
    by (auto simp: demo_fs_def tables_end_def bgdt_offset_def table_blocks_def div_ceil_def)
  then show ?thesis
    using demo_alloc_ok [OF assms] by (simp add: fs_ok_def tables_ok_def demo_free data_block_def plain_block_def)
qed

theorem set_block_number_maps_witness:
  "\<exists>r n' fs'. set_block_number (virtio_device ram_transfers) 12 6 (inode_read (replicate 128 0)) demo_empty = Some (Inr r, n', fs')
     \<and> get_block (virtio_device ram_transfers) n' 12 fs' = Some (Inr 6, fs')"
proof -
  have n: "i_block (inode_read (replicate 128 0)) = replicate 15 0" by code_simp
  have bs: "bs_of demo_empty = 1024" by (simp add: demo_fs_def)
  have ok: "fs_ok demo_valid vbi_device demo_empty" by (rule demo_fs_ok) simp_all
  have d: "data_block demo_empty (unat (6 :: u32))"
    by (auto simp: demo_fs_def tables_end_def bgdt_offset_def table_blocks_def div_ceil_def data_block_def plain_block_def)
  have fb: "12 < max_file_blocks (bs_of demo_empty div 4)" by (simp add: bs max_file_blocks_def)
  have nodes: "node vbi_device demo_empty (inode_read (replicate 128 0)) \<mu> \<noteq> 6" if "is_node (bs_of demo_empty div 4) \<mu>" for \<mu>
    using that n by (simp add: node_def is_node_def)
  have "unat (6 :: u32) \<notin> free_blocks vbi_device demo_empty" by (simp add: demo_free)
  from set_block_number_maps [OF demo_contract ok inode_ok_empty [OF n] fb d this nodes] obtain r n' fs' where
    "set_block_number (virtio_device ram_transfers) 12 6 (inode_read (replicate 128 0)) demo_empty = Some (r, n', fs')"
    "case r of Inl e \<Rightarrow> e = NoSpace \<and> card (free_blocks vbi_device demo_empty) < 3 | Inr m \<Rightarrow> True"
    "\<exists>b. get_block (virtio_device ram_transfers) n' 12 fs' = Some (Inr (if 12 = (12 :: nat) \<and> \<not> isl r then 6 else b), fs')"
    using fb by (fastforce split: sum.splits)
  then show ?thesis by (cases r) (auto simp: demo_free)
qed

end
