(* ===== verification/Ext2_Dir.thy ===== *)
theory Ext2_Dir
  imports Ext2_Map Utf8
begin

text \<open>
  Directories of ext2: the records of a directory block, the walk over the entries of a
  directory, and adding and removing an entry. A directory block is a chain of
  records; the live ones among them are what the block means.
\<close>

section \<open>Records\<close>

definition DIR_ENTRY_HEADER_SIZE :: nat where "DIR_ENTRY_HEADER_SIZE = 8"

definition align4 :: "nat \<Rightarrow> nat" where
  "align4 val = (val + 3) div 4 * 4"

definition entry_size :: "nat \<Rightarrow> nat" where
  "entry_size name_len = align4 (DIR_ENTRY_HEADER_SIZE + name_len)"

record dir_entry_raw =
  dr_inode :: u32
  dr_rec_len :: u16
  dr_name_len :: u8
  dr_file_type :: u8

text \<open>\<^verbatim>\<open>core::ptr::read\<close> of a record whose eight bytes lie in the buffer.\<close>

definition dir_entry_read :: "bytes \<Rightarrow> nat \<Rightarrow> dir_entry_raw" where
  "dir_entry_read buf pos = \<lparr>dr_inode = le32 buf pos, dr_rec_len = le16 buf (pos + 4),
     dr_name_len = buf ! (pos + 6), dr_file_type = buf ! (pos + 7)\<rparr>"

text \<open>\<^verbatim>\<open>buf[pos..pos + v.len()].copy_from_slice(v)\<close>, which panics out of range.\<close>

definition put_at :: "nat \<Rightarrow> bytes \<Rightarrow> bytes \<Rightarrow> bytes option" where
  "put_at pos v buf = (if pos + length v \<le> length buf then Some (copy_at pos v buf) else None)"

definition write_dir_entry :: "bytes \<Rightarrow> nat \<Rightarrow> u32 \<Rightarrow> u16 \<Rightarrow> bytes \<Rightarrow> u8 \<Rightarrow> bytes option" where
  "write_dir_entry buf pos ino rec_len name file_type = do {
     buf \<leftarrow> put_at pos (le_bytes 4 ino) buf;
     buf \<leftarrow> put_at (pos + 4) (le_bytes 2 rec_len) buf;
     buf \<leftarrow> put_at (pos + 6) [of_nat (length name)] buf;
     buf \<leftarrow> put_at (pos + 7) [file_type] buf;
     let name_start = pos + DIR_ENTRY_HEADER_SIZE;
     buf \<leftarrow> put_at name_start name buf;
     let padded_end = pos + align4 (DIR_ENTRY_HEADER_SIZE + length name);
     let name_end = name_start + length name;
     if padded_end > name_end \<and> padded_end \<le> pos + unat rec_len
     then put_at name_end (replicate (padded_end - name_end) 0) buf
     else Some buf }"

section \<open>Walking a directory\<close>

text \<open>
  The closure is a function on its captured state; \<^verbatim>\<open>Some\<close> is \<^verbatim>\<open>ControlFlow::Break\<close>.
  The walk over one block.
\<close>

type_synonym ('s, 't) visitor = "dir_entry_raw \<Rightarrow> bytes \<Rightarrow> 's \<Rightarrow> 't option \<times> 's"

function walk_block :: "('s, 't) visitor \<Rightarrow> bytes \<Rightarrow> nat \<Rightarrow> 's \<Rightarrow> 't option \<times> 's" where
  "walk_block f buf pos s =
     (if pos < length buf \<and> pos + 8 \<le> length buf then
        let entry = dir_entry_read buf pos; rec_len = unat (dr_rec_len entry) in
        if rec_len < 8 \<or> pos + rec_len > length buf then (None, s)
        else
          let name_len = unat (dr_name_len entry) in
          case (if dr_inode entry \<noteq> 0 \<and> name_len \<le> rec_len - 8
                then f entry (sub_slice (pos + 8) (pos + 8 + name_len) buf) s else (None, s)) of
            (Some value, s') \<Rightarrow> (Some value, s')
          | (None, s') \<Rightarrow> walk_block f buf (pos + rec_len) s'
      else (None, s))"
  by pat_completeness auto
termination by (relation "measure (\<lambda>(f, buf, pos, s). length buf - pos)") auto

declare walk_block.simps [simp del]

fun walk_blocks :: "'d block_device \<Rightarrow> inode \<Rightarrow> ('s, 't) visitor \<Rightarrow> nat list \<Rightarrow> bytes \<Rightarrow> 's \<Rightarrow> ('d, 't option \<times> 's) ext2_io" where
  "walk_blocks bd dir f [] block_buf s = eret (None, s)"
| "walk_blocks bd dir f (file_block # rest) block_buf s =
     ebind (get_block bd dir file_block) (\<lambda>block_num.
     if block_num = 0 then walk_blocks bd dir f rest block_buf s
     else ebind (read_block bd block_num block_buf) (\<lambda>block_buf.
       case walk_block f block_buf 0 s of
         (Some value, s') \<Rightarrow> eret (Some value, s')
       | (None, s') \<Rightarrow> walk_blocks bd dir f rest block_buf s'))"

text \<open>The number of blocks is cut to 32 bits.\<close>

definition for_each_dir_entry :: "'d block_device \<Rightarrow> inode \<Rightarrow> ('s, 't) visitor \<Rightarrow> 's \<Rightarrow> ('d, 't option \<times> 's) ext2_io" where
  "for_each_dir_entry bd dir f s = ebind (egets (\<lambda>fs. unat (e_block_size fs))) (\<lambda>block_size.
     walk_blocks bd dir f [0..<div_ceil (unat (inode_size dir)) block_size mod 2 ^ 32] (replicate block_size 0) s)"

definition find_visitor :: "bytes \<Rightarrow> (unit, u32) visitor" where
  "find_visitor name entry entry_name s = (if entry_name = name then (Some (dr_inode entry), s) else (None, s))"

definition find_entry :: "'d block_device \<Rightarrow> inode \<Rightarrow> bytes \<Rightarrow> ('d, u32) ext2_io" where
  "find_entry bd dir name = ebind (for_each_dir_entry bd dir (find_visitor name) ()) (\<lambda>(found, _).
     case found of None \<Rightarrow> efail NotFound | Some ino \<Rightarrow> eret ino)"

text \<open>Paths are strings of characters and names on disk are bytes.\<close>

definition str_bytes :: "string \<Rightarrow> bytes" where
  "str_bytes = map of_char"

definition bytes_str :: "bytes \<Rightarrow> string" where
  "bytes_str = map (\<lambda>b. char_of (unat b))"

definition list_visitor :: "(dir_entry list, unit) visitor" where
  "list_visitor entry name_bytes entries =
     (None,
      if utf8_valid name_bytes \<and> name_bytes \<noteq> str_bytes ''.'' \<and> name_bytes \<noteq> str_bytes ''..''
      then entries @ [\<lparr>de_name = bytes_str name_bytes, de_is_dir = (dr_file_type entry = FT_DIR)\<rparr>] else entries)"

definition list_dir :: "'d block_device \<Rightarrow> inode \<Rightarrow> ('d, dir_entry list) ext2_io" where
  "list_dir bd dir = ebind (for_each_dir_entry bd dir list_visitor []) (\<lambda>(_, entries). eret entries)"

definition empty_visitor :: "(unit, unit) visitor" where
  "empty_visitor entry name_bytes s =
     (if name_bytes \<noteq> str_bytes ''.'' \<and> name_bytes \<noteq> str_bytes ''..'' then (Some (), s) else (None, s))"

definition is_dir_empty :: "'d block_device \<Rightarrow> inode \<Rightarrow> ('d, bool) ext2_io" where
  "is_dir_empty bd dir = ebind (for_each_dir_entry bd dir empty_visitor ()) (\<lambda>(found, _). eret (found = None))"

section \<open>Adding an entry\<close>

text \<open>What the scan of one block for space ends with.\<close>

datatype slot = Duplicate | Placed bytes | NoRoom

function place_entry :: "bytes \<Rightarrow> nat \<Rightarrow> bytes \<Rightarrow> u32 \<Rightarrow> u8 \<Rightarrow> slot option" where
  "place_entry buf pos name ino file_type =
     (if pos < length buf \<and> pos + DIR_ENTRY_HEADER_SIZE \<le> length buf then
        let entry = dir_entry_read buf pos; rec_len = unat (dr_rec_len entry); needed = entry_size (length name) in
        if rec_len < 8 \<or> pos + rec_len > length buf then Some NoRoom
        else if dr_inode entry \<noteq> 0 then
          let ename_len = unat (dr_name_len entry) in
          if ename_len = length name \<and> ename_len \<le> rec_len - 8 \<and> sub_slice (pos + 8) (pos + 8 + ename_len) buf = name
          then Some Duplicate
          else let actual = entry_size ename_len in
            if rec_len < actual then None
            else if rec_len - actual \<ge> needed then
              map_option Placed (write_dir_entry
                (buf[pos + 4 := of_nat actual, pos + 5 := of_nat (actual div 256)])
                (pos + actual) ino (of_nat (rec_len - actual)) name file_type)
            else place_entry buf (pos + rec_len) name ino file_type
        else if rec_len \<ge> needed then map_option Placed (write_dir_entry buf pos ino (dr_rec_len entry) name file_type)
        else place_entry buf (pos + rec_len) name ino file_type
      else Some NoRoom)"
  by pat_completeness auto
termination
  by (relation "measure (\<lambda>(buf, pos, name, ino, ft). length buf - pos)") (auto simp: DIR_ENTRY_HEADER_SIZE_def)

declare place_entry.simps [simp del]

text \<open>An error before the commit point drops the guard of the inode.\<close>

definition guarding :: "('d ext2 \<Rightarrow> 'd ext2) \<Rightarrow> ('d, 'a) ext2_io \<Rightarrow> ('d, 'a) ext2_io" where
  "guarding release m fs = (case m fs of
      None \<Rightarrow> None
    | Some (Inl e, fs') \<Rightarrow> Some (Inl e, release fs')
    | Some (Inr x, fs') \<Rightarrow> Some (Inr x, fs'))"

text \<open>The new block of a directory whose blocks have no room.\<close>

definition extend_dir :: "'d block_device \<Rightarrow> inode \<Rightarrow> nat \<Rightarrow> bytes \<Rightarrow> u32 \<Rightarrow> u8 \<Rightarrow> ('d, u32 \<times> inode) ext2_io" where
  "extend_dir bd dir_inode num_blocks name ino file_type =
     ebind (guarding (drop_inode_guard ino) (alloc_block bd)) (\<lambda>new_block.
     ebind (egets (\<lambda>fs. unat (e_block_size fs))) (\<lambda>block_size.
     ebind (eopt (write_dir_entry (replicate block_size 0) 0 ino (of_nat block_size) name file_type)) (\<lambda>new_buf.
     ebind (write_block bd new_block new_buf) (\<lambda>_.
     ebind (\<lambda>fs. case set_block_number bd num_blocks new_block dir_inode fs of
         None \<Rightarrow> None
       | Some (Inl e, _, fs') \<Rightarrow> Some (Inl e, fs')
       | Some (Inr meta_blocks, dir_inode', fs') \<Rightarrow> Some (Inr (meta_blocks, dir_inode'), fs')) (\<lambda>(meta_blocks, dir_inode).
     let blocks = unat (i_blocks dir_inode) + (1 + unat meta_blocks) * (block_size div 512);
         sz = unat (inode_size dir_inode) + block_size in
     ebind (echeck (blocks < 2 ^ 32)) (\<lambda>_.
     ebind (echeck (sz < 2 ^ 64)) (\<lambda>_.
     eret (ino, inode_set_size (of_nat sz) (dir_inode\<lparr>i_blocks := of_nat blocks\<rparr>)))))))))"

fun add_in_blocks :: "'d block_device \<Rightarrow> inode \<Rightarrow> bytes \<Rightarrow> u32 \<Rightarrow> u8 \<Rightarrow> nat \<Rightarrow> nat list \<Rightarrow> bytes \<Rightarrow> ('d, u32 \<times> inode) ext2_io" where
  "add_in_blocks bd dir_inode name ino file_type num_blocks [] block_buf =
     extend_dir bd dir_inode num_blocks name ino file_type"
| "add_in_blocks bd dir_inode name ino file_type num_blocks (file_block # rest) block_buf =
     ebind (guarding (drop_inode_guard ino) (get_block bd dir_inode file_block)) (\<lambda>block_num.
     if block_num = 0 then add_in_blocks bd dir_inode name ino file_type num_blocks rest block_buf
     else ebind (guarding (drop_inode_guard ino) (read_block bd block_num block_buf)) (\<lambda>block_buf.
       ebind (eopt (place_entry block_buf 0 name ino file_type)) (\<lambda>r. case r of
         Duplicate \<Rightarrow> guarding (drop_inode_guard ino) (efail AlreadyExists)
       | Placed block_buf \<Rightarrow> ebind (write_block bd block_num block_buf) (\<lambda>_. eret (ino, dir_inode))
       | NoRoom \<Rightarrow> add_in_blocks bd dir_inode name ino file_type num_blocks rest block_buf)))"

definition add_dir_entry :: "'d block_device \<Rightarrow> inode \<Rightarrow> bytes \<Rightarrow> u32 \<Rightarrow> u8 \<Rightarrow> ('d, u32 \<times> inode) ext2_io" where
  "add_dir_entry bd dir_inode name ino file_type =
     (if name = [] \<or> length name > 255 then guarding (drop_inode_guard ino) (efail IoError)
      else ebind (egets (\<lambda>fs. unat (e_block_size fs))) (\<lambda>block_size.
        ebind (echeck (unat (inode_size dir_inode) + block_size < 2 ^ 64)) (\<lambda>_.
        let num_blocks = (unat (inode_size dir_inode) + block_size - 1) div block_size mod 2 ^ 32 in
        add_in_blocks bd dir_inode name ino file_type num_blocks [0..<num_blocks] (replicate block_size 0))))"

section \<open>Removing an entry\<close>

text \<open>\<^verbatim>\<open>None\<close> when the block has no entry of that name.\<close>

function remove_entry :: "bytes \<Rightarrow> nat \<Rightarrow> nat option \<Rightarrow> bytes \<Rightarrow> (u32 \<times> bytes) option" where
  "remove_entry buf pos prev_pos name =
     (if pos < length buf \<and> pos + DIR_ENTRY_HEADER_SIZE \<le> length buf then
        let entry = dir_entry_read buf pos; rec_len = unat (dr_rec_len entry); ename_len = unat (dr_name_len entry) in
        if rec_len < 8 \<or> pos + rec_len > length buf then None
        else if dr_inode entry \<noteq> 0 \<and> ename_len = length name \<and> ename_len \<le> rec_len - 8
            \<and> sub_slice (pos + 8) (pos + 8 + ename_len) buf = name then
          Some (dr_inode entry,
            case prev_pos of
              Some pp \<Rightarrow>
                let merged_len = unat (dr_rec_len (dir_entry_read buf pp)) + rec_len in
                buf[pp + 4 := of_nat merged_len, pp + 5 := of_nat (merged_len div 256)]
            | None \<Rightarrow> buf[pos := 0, pos + 1 := 0, pos + 2 := 0, pos + 3 := 0])
        else remove_entry buf (pos + rec_len) (Some pos) name
      else None)"
  by pat_completeness auto
termination
  by (relation "measure (\<lambda>(buf, pos, prev, name). length buf - pos)") (auto simp: DIR_ENTRY_HEADER_SIZE_def)

declare remove_entry.simps [simp del]

fun remove_in_blocks :: "'d block_device \<Rightarrow> inode \<Rightarrow> bytes \<Rightarrow> nat list \<Rightarrow> bytes \<Rightarrow> ('d, u32 \<times> inode) ext2_io" where
  "remove_in_blocks bd dir_inode name [] block_buf = efail NotFound"
| "remove_in_blocks bd dir_inode name (file_block # rest) block_buf =
     ebind (get_block bd dir_inode file_block) (\<lambda>block_num.
     if block_num = 0 then remove_in_blocks bd dir_inode name rest block_buf
     else ebind (read_block bd block_num block_buf) (\<lambda>block_buf.
       case remove_entry block_buf 0 None name of
         Some (removed_ino, block_buf) \<Rightarrow> ebind (write_block bd block_num block_buf) (\<lambda>_. eret (removed_ino, dir_inode))
       | None \<Rightarrow> remove_in_blocks bd dir_inode name rest block_buf))"

definition remove_dir_entry :: "'d block_device \<Rightarrow> inode \<Rightarrow> bytes \<Rightarrow> ('d, u32 \<times> inode) ext2_io" where
  "remove_dir_entry bd dir_inode name = ebind (egets (\<lambda>fs. unat (e_block_size fs))) (\<lambda>block_size.
     ebind (echeck (unat (inode_size dir_inode) + block_size < 2 ^ 64)) (\<lambda>_.
     let num_blocks = (unat (inode_size dir_inode) + block_size - 1) div block_size mod 2 ^ 32 in
     remove_in_blocks bd dir_inode name [0..<num_blocks] (replicate block_size 0)))"

section \<open>New directories\<close>

definition init_dir_block :: "nat \<Rightarrow> u32 \<Rightarrow> u32 \<Rightarrow> bytes option" where
  "init_dir_block block_size self_ino parent_ino = do {
     buf \<leftarrow> write_dir_entry (replicate block_size 0) 0 self_ino 12 (str_bytes ''.'') FT_DIR;
     write_dir_entry buf 12 parent_ino (of_nat (block_size - 12)) (str_bytes ''..'') FT_DIR }"

section \<open>Blocks as lists of records\<close>

text \<open>
  A well-formed block is the concatenation of its records. The body of a record is everything after its
  header: the name, padding, and what is left of records merged into it.
\<close>

record dir_rec =
  r_ino :: u32
  r_name_len :: u8
  r_type :: u8
  r_body :: bytes

definition r_len :: "dir_rec \<Rightarrow> nat" where "r_len r = 8 + length (r_body r)"

definition rec_bytes :: "dir_rec \<Rightarrow> bytes" where
  "rec_bytes r = le_bytes 4 (r_ino r) @ le_bytes 2 (of_nat (r_len r) :: u16) @ [r_name_len r, r_type r] @ r_body r"

definition rec_ok :: "dir_rec \<Rightarrow> bool" where
  "rec_ok r \<longleftrightarrow> r_len r < 65536 \<and> (r_ino r \<noteq> 0 \<longrightarrow> entry_size (unat (r_name_len r)) \<le> r_len r)"

definition rec_name :: "dir_rec \<Rightarrow> bytes" where
  "rec_name r = take (unat (r_name_len r)) (r_body r)"

definition block_of :: "dir_rec list \<Rightarrow> bytes" where
  "block_of rs = concat (map rec_bytes rs)"

definition live :: "dir_rec list \<Rightarrow> (bytes \<times> u32 \<times> u8) list" where
  "live rs = map (\<lambda>r. (rec_name r, r_ino r, r_type r)) (filter (\<lambda>r. r_ino r \<noteq> 0) rs)"

lemma length_rec_bytes [simp]: "length (rec_bytes r) = r_len r"
  by (simp add: rec_bytes_def r_len_def)

lemma block_of_simps [simp]: "block_of [] = []" "block_of (r # rs) = rec_bytes r @ block_of rs"
  "block_of (rs @ ss) = block_of rs @ block_of ss"
  by (simp_all add: block_of_def)

lemma live_simps [simp]: "live [] = []"
  "live (r # rs) = (if r_ino r \<noteq> 0 then [(rec_name r, r_ino r, r_type r)] else []) @ live rs"
  "live (rs @ ss) = live rs @ live ss"
  by (simp_all add: live_def)

lemma entry_size_bounds: "8 + n \<le> entry_size n" "entry_size n \<le> 8 + n + 3" "8 \<le> entry_size n"
  by (simp_all add: entry_size_def align4_def DIR_ENTRY_HEADER_SIZE_def)

lemma unat_r_len: "rec_ok r \<Longrightarrow> unat (of_nat (r_len r) :: u16) = r_len r"
  by (rule unat_of_nat_small) (simp add: rec_ok_def)

lemma dir_entry_read_at:
  assumes "pos = length pre"
  shows "dir_entry_read (pre @ rec_bytes r @ post) pos =
    \<lparr>dr_inode = r_ino r, dr_rec_len = of_nat (r_len r), dr_name_len = r_name_len r, dr_file_type = r_type r\<rparr>"
  by (simp add: dir_entry_read_def assms rec_bytes_def le32_def le16_def sub_slice_def nth_append)

lemma name_at:
  assumes "n \<le> r_len r - 8"
  shows "sub_slice (length pre + 8) (length pre + 8 + n) (pre @ rec_bytes r @ post) = take n (r_body r)"
  using assms by (simp add: sub_slice_def rec_bytes_def r_len_def)

lemma put_at_pre:
  assumes "length old = length v" "pos = length pre"
  shows "put_at pos v (pre @ old @ post) = Some (pre @ v @ post)"
  using assms by (simp add: put_at_def copy_at_def)

lemma le_bytes_2: "m < 65536 \<Longrightarrow> le_bytes 2 (of_nat m :: u16) = [of_nat m, of_nat (m div 256)]"
proof -
  assume m: "m < 65536"
  have "le_bytes 2 (of_nat m :: u16) = [ucast (of_nat m :: u16), ucast (drop_bit 8 (of_nat m :: u16))]"
    by (simp add: le_bytes_def numeral_2_eq_2)
  moreover have "ucast (of_nat m :: u16) = (of_nat m :: u8)"
    by (rule bit_word_eqI) (simp add: bit_simps)
  moreover have "ucast (drop_bit 8 (of_nat m :: u16)) = (of_nat (m div 256) :: u8)"
  proof (rule bit_word_eqI)
    fix i assume "i < LENGTH(8)"
    then show "bit (ucast (drop_bit 8 (of_nat m :: u16)) :: u8) i = bit (of_nat (m div 256) :: u8) i"
      by (simp add: bit_simps) (simp add: bit_iff_odd div_mult2_eq [symmetric] power_add)
  qed
  ultimately show ?thesis by simp
qed

lemma update_len:
  assumes "m < 65536"
  shows "(pre @ rec_bytes r @ post)[length pre + 4 := of_nat m, length pre + 5 := of_nat (m div 256)] =
    pre @ le_bytes 4 (r_ino r) @ le_bytes 2 (of_nat m :: u16) @ [r_name_len r, r_type r] @ r_body r @ post"
proof -
  obtain a b where "le_bytes 2 (of_nat (r_len r) :: u16) = [a, b]"
    by (simp add: le_bytes_def numeral_2_eq_2)
  then show ?thesis
    using le_bytes_2 [OF assms] by (simp add: rec_bytes_def list_update_append)
qed

definition new_rec :: "u32 \<Rightarrow> bytes \<Rightarrow> u8 \<Rightarrow> bytes \<Rightarrow> dir_rec" where
  "new_rec ino name ft old = \<lparr>r_ino = ino, r_name_len = of_nat (length name), r_type = ft,
     r_body = name @ replicate (entry_size (length name) - (8 + length name)) 0 @ drop (entry_size (length name)) old\<rparr>"

lemma copy_at_consecutive:
  assumes "i \<le> length xs"
  shows "copy_at (i + length a) b (copy_at i a xs) = copy_at i (a @ b) xs"
  using assms by (simp add: copy_at_def ac_simps)

lemma write_dir_entry_at:
  assumes "pos = length pre" "length old < 65536" "entry_size (length name) \<le> length old"
  shows "write_dir_entry (pre @ old @ post) pos ino (of_nat (length old)) name ft =
    Some (pre @ rec_bytes (new_rec ino name ft old) @ post)"
proof -
  let ?buf = "pre @ old @ post" and ?pad = "entry_size (length name) - (8 + length name)"
  let ?hd = "le_bytes 4 ino @ le_bytes 2 (of_nat (length old) :: u16) @ [of_nat (length name)] @ [ft] @ name"
  have len: "unat (of_nat (length old) :: u16) = length old" using assms(2) by (simp add: unat_of_nat_small)
  have e: "8 + length name \<le> entry_size (length name)" by (rule entry_size_bounds)
  have put: "put_at (pos + length a) v (copy_at pos a ?buf) = Some (copy_at pos (a @ v) ?buf)"
    if "length (a @ v) \<le> length old" for a v
    using that assms(1) copy_at_consecutive [of pos ?buf a v] by (simp add: put_at_def)
  have first: "put_at pos (le_bytes 4 ino) ?buf = Some (copy_at pos (le_bytes 4 ino) ?buf)"
    using assms(1,3) e by (simp add: put_at_def)
  have steps:
    "put_at (pos + 4) (le_bytes 2 (of_nat (length old) :: u16)) (copy_at pos (le_bytes 4 ino) ?buf) =
      Some (copy_at pos (le_bytes 4 ino @ le_bytes 2 (of_nat (length old) :: u16)) ?buf)"
    "put_at (pos + 6) [of_nat (length name)] (copy_at pos (le_bytes 4 ino @ le_bytes 2 (of_nat (length old) :: u16)) ?buf) =
      Some (copy_at pos ((le_bytes 4 ino @ le_bytes 2 (of_nat (length old) :: u16)) @ [of_nat (length name)]) ?buf)"
    "put_at (pos + 7) [ft] (copy_at pos ((le_bytes 4 ino @ le_bytes 2 (of_nat (length old) :: u16)) @ [of_nat (length name)]) ?buf) =
      Some (copy_at pos (((le_bytes 4 ino @ le_bytes 2 (of_nat (length old) :: u16)) @ [of_nat (length name)]) @ [ft]) ?buf)"
    "put_at (pos + 8) name (copy_at pos (((le_bytes 4 ino @ le_bytes 2 (of_nat (length old) :: u16)) @ [of_nat (length name)]) @ [ft]) ?buf) =
      Some (copy_at pos ?hd ?buf)"
    "put_at (pos + 8 + length name) (replicate ?pad 0) (copy_at pos ?hd ?buf) = Some (copy_at pos (?hd @ replicate ?pad 0) ?buf)"
    using put [of "le_bytes 4 ino" "le_bytes 2 (of_nat (length old) :: u16)"]
      put [of "le_bytes 4 ino @ le_bytes 2 (of_nat (length old) :: u16)" "[of_nat (length name)]"]
      put [of "(le_bytes 4 ino @ le_bytes 2 (of_nat (length old) :: u16)) @ [of_nat (length name)]" "[ft]"]
      put [of "((le_bytes 4 ino @ le_bytes 2 (of_nat (length old) :: u16)) @ [of_nat (length name)]) @ [ft]" name]
      put [of ?hd "replicate ?pad 0"] assms(3) e
    by (simp_all add: ac_simps)
  have "write_dir_entry ?buf pos ino (of_nat (length old)) name ft = Some (copy_at pos (?hd @ replicate ?pad 0) ?buf)"
    using steps first len assms(3) e
    by (auto simp: write_dir_entry_def Let_def DIR_ENTRY_HEADER_SIZE_def entry_size_def)
  also have "copy_at pos (?hd @ replicate ?pad 0) ?buf = pre @ rec_bytes (new_rec ino name ft old) @ post"
  proof -
    have copy: "copy_at pos w ?buf = pre @ w @ drop (length w) old @ post" if "length w \<le> length old" for w
      using that assms(1) by (simp add: copy_at_def)
    have "length (?hd @ replicate ?pad 0) = entry_size (length name)" using e by simp
    then show ?thesis
      using copy [of "?hd @ replicate ?pad 0"] assms(3) e by (simp add: rec_bytes_def new_rec_def r_len_def)
  qed
  finally show ?thesis .
qed


lemma new_rec_facts [simp]:
  "r_ino (new_rec ino name ft old) = ino" "r_type (new_rec ino name ft old) = ft"
  "entry_size (length name) \<le> length old \<Longrightarrow> r_len (new_rec ino name ft old) = length old"
  "length name < 256 \<Longrightarrow> rec_name (new_rec ino name ft old) = name"
  using entry_size_bounds(1) [of "length name"]
  by (simp_all add: new_rec_def r_len_def rec_name_def unat_of_nat_small)

lemma new_rec_ok:
  "entry_size (length name) \<le> length old \<Longrightarrow> length name < 256 \<Longrightarrow> length old < 65536 \<Longrightarrow> rec_ok (new_rec ino name ft old)"
  by (simp add: rec_ok_def) (simp add: new_rec_def unat_of_nat_small)

section \<open>Walking records\<close>

fun visit :: "('s, 't) visitor \<Rightarrow> dir_rec list \<Rightarrow> 's \<Rightarrow> 't option \<times> 's" where
  "visit f [] s = (None, s)"
| "visit f (r # rs) s = (if r_ino r = 0 then visit f rs s
     else case f \<lparr>dr_inode = r_ino r, dr_rec_len = of_nat (r_len r), dr_name_len = r_name_len r, dr_file_type = r_type r\<rparr>
         (rec_name r) s of
       (Some v, s') \<Rightarrow> (Some v, s') | (None, s') \<Rightarrow> visit f rs s')"

lemma live_fits: "rec_ok r \<Longrightarrow> r_ino r \<noteq> 0 \<Longrightarrow> unat (r_name_len r) \<le> r_len r - 8"
  using entry_size_bounds(1) [of "unat (r_name_len r)"] by (simp add: rec_ok_def r_len_def)

lemma walk_block_records:
  assumes "list_all rec_ok rs"
  shows "walk_block f (pre @ block_of rs) (length pre) s = visit f rs s"
  using assms
proof (induction rs arbitrary: pre s)
  case Nil
  then show ?case by (simp add: walk_block.simps [of f pre "length pre"])
next
  case (Cons r rs)
  then have ok: "rec_ok r" and rs: "list_all rec_ok rs" by simp_all
  let ?buf = "pre @ rec_bytes r @ block_of rs"
  have IH: "walk_block f ?buf (length pre + r_len r) s' = visit f rs s'" for s'
    using Cons.IH [OF rs, of "pre @ rec_bytes r"] by simp
  have "8 \<le> r_len r" by (simp add: r_len_def)
  then show ?case
    using IH live_fits [OF ok] name_at [of "unat (r_name_len r)" r pre "block_of rs"]
    by (simp add: walk_block.simps [of f ?buf "length pre"] Let_def dir_entry_read_at unat_r_len [OF ok] rec_name_def split: prod.split option.split)
qed


section \<open>Adding a record\<close>

text \<open>The scan on records: \<^verbatim>\<open>None\<close> is a duplicate, \<^verbatim>\<open>Some None\<close> no room.\<close>

fun place_rec :: "dir_rec list \<Rightarrow> bytes \<Rightarrow> u32 \<Rightarrow> u8 \<Rightarrow> dir_rec list option option" where
  "place_rec [] name ino ft = Some None"
| "place_rec (r # rs) name ino ft =
     (let actual = entry_size (unat (r_name_len r)); more = map_option (map_option ((#) r)) (place_rec rs name ino ft) in
      if r_ino r \<noteq> 0 then
        if rec_name r = name then None
        else if r_len r - actual \<ge> entry_size (length name) then
          Some (Some (r\<lparr>r_body := take (actual - 8) (r_body r)\<rparr> # new_rec ino name ft (drop (actual - 8) (r_body r)) # rs))
        else more
      else if r_len r \<ge> entry_size (length name) then Some (Some (new_rec ino name ft (rec_bytes r) # rs))
      else more)"

definition slot_of :: "bytes \<Rightarrow> dir_rec list option option \<Rightarrow> slot" where
  "slot_of pre p = (case p of None \<Rightarrow> Duplicate | Some None \<Rightarrow> NoRoom | Some (Some rs) \<Rightarrow> Placed (pre @ block_of rs))"

lemma slot_of_more: "slot_of pre (map_option (map_option ((#) r)) p) = slot_of (pre @ rec_bytes r) p"
  by (cases p; cases "the p") (auto simp: slot_of_def)

lemma name_match:
  "n \<le> r_len r - 8 \<Longrightarrow> n = unat (r_name_len r) \<Longrightarrow> (n = length name \<and> take n (r_body r) = name) = (rec_name r = name)"
  by (auto simp: rec_name_def r_len_def)

lemma place_entry_records:
  assumes "list_all rec_ok rs" "length name < 256"
  shows "place_entry (pre @ block_of rs) (length pre) name ino ft = Some (slot_of pre (place_rec rs name ino ft))"
  using assms(1)
proof (induction rs arbitrary: pre)
  case Nil
  then show ?case by (simp add: place_entry.simps [of pre "length pre"] slot_of_def)
next
  case (Cons r rs)
  then have ok: "rec_ok r" and rs: "list_all rec_ok rs" by simp_all
  let ?buf = "pre @ rec_bytes r @ block_of rs" and ?n = "unat (r_name_len r)"
  let ?actual = "entry_size ?n" and ?needed = "entry_size (length name)"
  have IH: "place_entry ?buf (length pre + r_len r) name ino ft = Some (slot_of (pre @ rec_bytes r) (place_rec rs name ino ft))"
    using Cons.IH [OF rs, of "pre @ rec_bytes r"] by simp
  have 8: "8 \<le> r_len r" "r_len r < 65536" using ok by (simp_all add: r_len_def rec_ok_def)
  note unfolded = place_entry.simps [of ?buf "length pre"] Let_def DIR_ENTRY_HEADER_SIZE_def dir_entry_read_at unat_r_len [OF ok]
    slot_of_more
  show ?case
  proof (cases "r_ino r = 0")
    case True
    have "write_dir_entry ?buf (length pre) ino (of_nat (r_len r)) name ft =
        Some (pre @ rec_bytes (new_rec ino name ft (rec_bytes r)) @ block_of rs)" if "?needed \<le> r_len r"
      using write_dir_entry_at [of "length pre" pre "rec_bytes r" name "block_of rs"] that 8 by simp
    then show ?thesis using True 8 IH by (simp add: unfolded) (simp add: slot_of_def)
  next
    case False
    note fits = live_fits [OF ok False]
    have actual: "?actual \<le> r_len r" "8 \<le> ?actual" using ok False entry_size_bounds(3) by (simp_all add: rec_ok_def)
    let ?r = "r\<lparr>r_body := take (?actual - 8) (r_body r)\<rparr>" and ?old = "drop (?actual - 8) (r_body r)"
    have split: "write_dir_entry (?buf[length pre + 4 := of_nat ?actual, length pre + 5 := of_nat (?actual div 256)])
        (length pre + ?actual) ino (of_nat (r_len r - ?actual)) name ft =
        Some (pre @ rec_bytes ?r @ rec_bytes (new_rec ino name ft ?old) @ block_of rs)" if "?needed \<le> r_len r - ?actual"
    proof -
      have len: "r_len ?r = ?actual" "length ?old = r_len r - ?actual" using actual by (simp_all add: r_len_def)
      have "?actual < 65536" using actual 8 by simp
      then have "?buf[length pre + 4 := of_nat ?actual, length pre + 5 := of_nat (?actual div 256)] =
          (pre @ rec_bytes ?r) @ ?old @ block_of rs"
        using len(1) by (simp add: update_len) (simp add: rec_bytes_def)
      then show ?thesis
        using write_dir_entry_at [of "length pre + ?actual" "pre @ rec_bytes ?r" ?old name "block_of rs"] that len 8 by simp
    qed
    show ?thesis
      using False 8 IH fits actual split name_at [OF fits, of pre "block_of rs"] name_match [OF fits refl, of name]
      by (simp add: unfolded) (auto simp: slot_of_def)
  qed
qed

text \<open>The bytes that a record could give away.\<close>

definition r_slack :: "dir_rec \<Rightarrow> nat" where
  "r_slack r = (if r_ino r \<noteq> 0 then r_len r - entry_size (unat (r_name_len r)) else r_len r)"

definition inserted :: "'a \<Rightarrow> 'a list \<Rightarrow> 'a list \<Rightarrow> bool" where
  "inserted x zs zs' \<longleftrightarrow> (\<exists>xs ys. zs = xs @ ys \<and> zs' = xs @ x # ys)"

lemma inserted_simps [simp]: "inserted x zs (x # zs)" "inserted x (y # zs) (y # x # zs)"
  unfolding inserted_def by (metis append.left_neutral) (metis append.left_neutral append_Cons)

lemma inserted_Cons: "inserted x zs zs' \<Longrightarrow> inserted x (y # zs) (y # zs')"
  unfolding inserted_def by (metis append_Cons)

lemma place_rec_live:
  assumes "list_all rec_ok rs" "length name < 256" "ino \<noteq> 0" "name \<notin> fst ` set (live rs)"
  shows "\<exists>r. place_rec rs name ino ft = Some r
    \<and> (case r of None \<Rightarrow> \<forall>r \<in> set rs. r_slack r < entry_size (length name)
       | Some rs' \<Rightarrow> list_all rec_ok rs' \<and> length (block_of rs') = length (block_of rs)
           \<and> inserted (name, ino, ft) (live rs) (live rs'))"
  using assms
proof (induction rs)
  case (Cons r rs)
  let ?actual = "entry_size (unat (r_name_len r))"
  have ok: "rec_ok r" "r_len r < 65536" "list_all rec_ok rs" using Cons.prems(1) by (simp_all add: rec_ok_def [of r])
  obtain p where p: "place_rec rs name ino ft = Some p" and IH: "case p of
      None \<Rightarrow> \<forall>r \<in> set rs. r_slack r < entry_size (length name)
    | Some rs' \<Rightarrow> list_all rec_ok rs' \<and> length (block_of rs') = length (block_of rs)
        \<and> inserted (name, ino, ft) (live rs) (live rs')"
    using Cons.IH [OF ok(3) Cons.prems(2,3)] Cons.prems(4) by fastforce
  have more: "case p of
      None \<Rightarrow> \<forall>r \<in> set rs. r_slack r < entry_size (length name)
    | Some rs' \<Rightarrow> list_all rec_ok (r # rs') \<and> length (block_of (r # rs')) = length (block_of (r # rs))
        \<and> inserted (name, ino, ft) (live (r # rs)) (live (r # rs'))"
    using IH ok(1) by (simp add: inserted_Cons split: option.splits)
  show ?case
  proof (cases "r_ino r = 0")
    case True
    then show ?thesis
      using p more Cons.prems(2,3) ok new_rec_ok [of name "rec_bytes r"]
      by (simp add: Let_def r_slack_def [of r] split: option.splits)
  next
    case False
    have b: "8 + unat (r_name_len r) \<le> ?actual" "8 \<le> ?actual" "?actual \<le> r_len r"
      using entry_size_bounds [of "unat (r_name_len r)"] ok(1) False by (simp_all add: rec_ok_def)
    let ?r = "r\<lparr>r_body := take (?actual - 8) (r_body r)\<rparr>" and ?old = "drop (?actual - 8) (r_body r)"
    have r: "r_len ?r = ?actual" "length ?old = r_len r - ?actual" "rec_name ?r = rec_name r" "rec_ok ?r"
      using b ok False by (auto simp: r_len_def rec_name_def rec_ok_def min_def)
    have "length ?old < 65536" "rec_name r \<noteq> name" using ok r(2) Cons.prems(4) False by auto
    then show ?thesis
      using p more Cons.prems(2,3) ok False r b new_rec_ok [of name ?old]
      by (simp add: Let_def r_slack_def [of r] split: option.splits)
  qed
qed simp

section \<open>Removing a record\<close>

text \<open>The scan on records; the record before the scanned ones, if any, is part of the result.\<close>

fun remove_rec :: "dir_rec option \<Rightarrow> dir_rec list \<Rightarrow> bytes \<Rightarrow> (u32 \<times> dir_rec list) option" where
  "remove_rec prev [] name = None"
| "remove_rec prev (r # rs) name =
     (if r_ino r \<noteq> 0 \<and> rec_name r = name then
        Some (r_ino r, case prev of None \<Rightarrow> r\<lparr>r_ino := 0\<rparr> # rs | Some p \<Rightarrow> p\<lparr>r_body := r_body p @ rec_bytes r\<rparr> # rs)
      else map_option (map_prod id ((@) (case prev of None \<Rightarrow> [] | Some p \<Rightarrow> [p]))) (remove_rec (Some r) rs name))"

abbreviation prev_bytes :: "dir_rec option \<Rightarrow> bytes" where
  "prev_bytes prev \<equiv> (case prev of None \<Rightarrow> [] | Some p \<Rightarrow> rec_bytes p)"

lemma clear_ino:
  "(pre @ rec_bytes r @ post)[length pre := 0, length pre + 1 := 0, length pre + 2 := 0, length pre + 3 := 0] =
   pre @ rec_bytes (r\<lparr>r_ino := 0\<rparr>) @ post"
proof -
  obtain a b c d where "le_bytes 4 (r_ino r) = [a, b, c, d]"
    by (simp add: le_bytes_def numeral_eq_Suc upt_rec)
  moreover have "le_bytes 4 (0 :: u32) = [0, 0, 0, 0]" by (simp add: le_bytes_def numeral_eq_Suc upt_rec)
  ultimately show ?thesis by (simp add: rec_bytes_def list_update_append r_len_def numeral_eq_Suc)
qed

lemma remove_entry_records:
  assumes "list_all rec_ok rs" "length (pre @ prev_bytes prev @ block_of rs) < 65536" "\<forall>p. prev = Some p \<longrightarrow> rec_ok p"
  shows "remove_entry (pre @ prev_bytes prev @ block_of rs) (length (pre @ prev_bytes prev)) (map_option (\<lambda>_. length pre) prev) name =
    map_option (map_prod id (\<lambda>rs'. pre @ block_of rs')) (remove_rec prev rs name)"
  using assms
proof (induction rs arbitrary: pre prev)
  case Nil
  then show ?case by (simp add: remove_entry.simps [of "pre @ prev_bytes prev"] split: option.split)
next
  case (Cons r rs)
  then have ok: "rec_ok r" "list_all rec_ok rs" by simp_all
  let ?pre = "pre @ prev_bytes prev"
  let ?buf = "?pre @ rec_bytes r @ block_of rs" and ?n = "unat (r_name_len r)"
  have 8: "8 \<le> r_len r" by (simp add: r_len_def)
  have IH: "remove_entry ?buf (length ?pre + r_len r) (Some (length ?pre)) name =
      map_option (map_prod id (\<lambda>rs'. ?pre @ block_of rs')) (remove_rec (Some r) rs name)"
    using Cons.IH [OF ok(2), of ?pre "Some r"] Cons.prems(2) ok(1) by (simp add: add.assoc id_def)
  have hit: "(case map_option (\<lambda>_. length pre) prev of
        Some pp \<Rightarrow> let merged_len = unat (dr_rec_len (dir_entry_read ?buf pp)) + r_len r in
          ?buf[pp + 4 := of_nat merged_len, pp + 5 := of_nat (merged_len div 256)]
      | None \<Rightarrow> ?buf[length ?pre := 0, length ?pre + 1 := 0, length ?pre + 2 := 0, length ?pre + 3 := 0]) =
      pre @ block_of (case prev of None \<Rightarrow> r\<lparr>r_ino := 0\<rparr> # rs | Some p \<Rightarrow> p\<lparr>r_body := r_body p @ rec_bytes r\<rparr> # rs)"
  proof (cases prev)
    case None
    then show ?thesis using clear_ino [of pre r "block_of rs"] by simp
  next
    case (Some p)
    then have p: "rec_ok p" using Cons.prems(3) by simp
    let ?p = "p\<lparr>r_body := r_body p @ rec_bytes r\<rparr>"
    have len: "r_len p + r_len r < 65536" "r_len ?p = r_len p + r_len r" using Cons.prems(2) Some by (simp_all add: r_len_def)
    then show ?thesis
      using Some update_len [OF len(1), of pre p "rec_bytes r @ block_of rs"]
        dir_entry_read_at [OF refl, of pre p "rec_bytes r @ block_of rs"] unat_r_len [OF p]
      by (simp add: Let_def rec_bytes_def [of ?p])
  qed
  obtain P where P: "P = ?pre" by simp
  have step: "remove_entry (P @ rec_bytes r @ block_of rs) (length P) pp name =
      (if r_ino r \<noteq> 0 \<and> rec_name r = name then
         Some (r_ino r, case pp of
             Some pp \<Rightarrow> let merged_len = unat (dr_rec_len (dir_entry_read (P @ rec_bytes r @ block_of rs) pp)) + r_len r in
               (P @ rec_bytes r @ block_of rs)[pp + 4 := of_nat merged_len, pp + 5 := of_nat (merged_len div 256)]
           | None \<Rightarrow> (P @ rec_bytes r @ block_of rs)[length P := 0, length P + 1 := 0, length P + 2 := 0, length P + 3 := 0])
       else remove_entry (P @ rec_bytes r @ block_of rs) (length P + r_len r) (Some (length P)) name)" for pp
    using 8 live_fits [OF ok(1)] name_at [of ?n r P "block_of rs"] name_match [of ?n r name]
    by (auto simp: remove_entry.simps [of _ "length P"] Let_def DIR_ENTRY_HEADER_SIZE_def dir_entry_read_at unat_r_len [OF ok(1)] split: option.split)
  show ?case
    using step [unfolded P, of "map_option (\<lambda>_. length pre) prev"] hit IH
    by (cases prev; cases "remove_rec (Some r) rs name") auto
qed


lemma remove_rec_live:
  assumes "list_all rec_ok rs" "\<forall>p. prev = Some p \<longrightarrow> rec_ok p" "length (prev_bytes prev @ block_of rs) < 65536"
  shows "case remove_rec prev rs name of
      None \<Rightarrow> name \<notin> fst ` set (live rs)
    | Some (ino, rs') \<Rightarrow> list_all rec_ok rs' \<and> length (block_of rs') = length (prev_bytes prev @ block_of rs)
        \<and> (\<exists>xs ft ys. live rs = xs @ (name, ino, ft) # ys \<and> name \<notin> fst ` set xs
            \<and> live rs' = live (case prev of None \<Rightarrow> [] | Some p \<Rightarrow> [p]) @ xs @ ys)"
  using assms
proof (induction rs arbitrary: prev)
  case (Cons r rs)
  then have ok: "rec_ok r" "list_all rec_ok rs" by simp_all
  have IH: "case remove_rec (Some r) rs name of
      None \<Rightarrow> name \<notin> fst ` set (live rs)
    | Some (ino, rs') \<Rightarrow> list_all rec_ok rs' \<and> length (block_of rs') = length (rec_bytes r @ block_of rs)
        \<and> (\<exists>xs ft ys. live rs = xs @ (name, ino, ft) # ys \<and> name \<notin> fst ` set xs \<and> live rs' = live [r] @ xs @ ys)"
    using Cons.IH [OF ok(2), of "Some r", unfolded option.case] Cons.prems(3) ok(1) by simp
  show ?case
  proof (cases "r_ino r \<noteq> 0 \<and> rec_name r = name")
    case True
    then show ?thesis
    proof (cases prev)
      case None
      have "rec_ok (r\<lparr>r_ino := 0\<rparr>)" using ok(1) by (simp add: rec_ok_def r_len_def)
      then show ?thesis using True None ok(2) by (auto simp: r_len_def intro!: exI [of _ "[]"])
    next
      case (Some p)
      let ?p = "p\<lparr>r_body := r_body p @ rec_bytes r\<rparr>"
      have p: "rec_ok p" "r_len p + r_len r < 65536" "r_len ?p = r_len p + r_len r"
        using Cons.prems(2,3) Some by (simp_all add: r_len_def)
      then have "rec_ok ?p" by (auto simp: rec_ok_def)
      moreover have "rec_name ?p = rec_name p" if "r_ino p \<noteq> 0"
        using live_fits [OF p(1) that] by (simp add: rec_name_def r_len_def)
      ultimately show ?thesis using True Some ok(2) p by (auto intro!: exI [of _ "[]"])
    qed
  next
    case False
    show ?thesis
    proof (cases "remove_rec (Some r) rs name")
      case None
      then show ?thesis using IH False by auto
    next
      case (Some x)
      obtain ino rs' where x: "x = (ino, rs')" by (cases x)
      then obtain xs ft ys where "list_all rec_ok rs'" "length (block_of rs') = r_len r + length (block_of rs)"
        "live rs = xs @ (name, ino, ft) # ys" "name \<notin> fst ` set xs" "live rs' = live [r] @ xs @ ys"
        using IH Some by auto
      then show ?thesis
        using False Some x Cons.prems(2) by (cases prev) (auto intro!: exI [of _ "live [r] @ xs"])
    qed
  qed
qed simp

end
