(* ===== verification/Ext2_Inodes.thy ===== *)
theory Ext2_Inodes
  imports Ext2_Map
begin

text \<open>
  The inode tables as a map: writing an inode and reading it back, and the independence of different inodes,
  which lie in different bytes of the tables.
\<close>

section \<open>Positions in the tables\<close>

definition inode_wf :: "inode \<Rightarrow> bool" where
  "inode_wf n \<longleftrightarrow> length (i_block n) = 15 \<and> length (i_osd2 n) = 12"

text \<open>Inode numbers of the file system.\<close>

definition valid_ino :: "'d ext2 \<Rightarrow> u32 \<Rightarrow> bool" where
  "valid_ino fs ino \<longleftrightarrow> ino \<noteq> 0 \<and> (unat ino - 1) div unat (e_inodes_per_group fs) < length (e_block_groups fs)"

text \<open>The block of a table that an inode lies in, and its offset there; inodes do not straddle blocks.\<close>

definition ino_slot :: "'d ext2 \<Rightarrow> u32 \<Rightarrow> nat \<times> nat" where
  "ino_slot fs ino =
     (let index = (unat ino - 1) mod unat (e_inodes_per_group fs);
          g = e_block_groups fs ! ((unat ino - 1) div unat (e_inodes_per_group fs)) in
      (unat (bg_inode_table g) + index * unat (e_inode_size fs) div bs_of fs, index * unat (e_inode_size fs) mod bs_of fs))"

definition inodes_aligned :: "'d ext2 \<Rightarrow> bool" where
  "inodes_aligned fs \<longleftrightarrow> unat (e_inode_size fs) dvd bs_of fs"

lemma inodes_aligned_shape: "shape fs' = shape fs \<Longrightarrow> inodes_aligned fs' = inodes_aligned fs"
  by (auto simp: inodes_aligned_def shape_def)

lemma valid_ino_shape: "shape fs' = shape fs \<Longrightarrow> valid_ino fs' = valid_ino fs"
  using shape_fields(4,5) [of fs' fs] by (auto simp: valid_ino_def fun_eq_iff)

lemma ino_slot_shape:
  assumes "shape fs' = shape fs" "valid_ino fs ino"
  shows "ino_slot fs' ino = ino_slot fs ino"
  using shape_fields(1,2,4) [OF assms(1)] map_eq_nth [OF shape_fields(8) [OF assms(1)]] assms(2)
  by (simp add: ino_slot_def valid_ino_def Let_def)

lemma aligned_chunk:
  fixes a d m :: nat
  assumes "d dvd m" "0 < m" "d dvd a"
  shows "a mod m + d \<le> m"
proof -
  have "d dvd a mod m" using assms(1,3) by (simp add: dvd_mod)
  moreover have "a mod m < m" using assms(2) by simp
  ultimately show ?thesis
    using assms(1) by (metis Suc_leI dvd_def less_imp_add_positive add_le_cancel_left dvd_add_right_iff dvd_imp_le)
qed

lemma ino_slot_facts:
  assumes ok: "fs_ok valid contents fs" and al: "inodes_aligned fs" and ino: "valid_ino fs ino"
  shows "inode_offset fs ino = Some (fst (ino_slot fs ino) * bs_of fs + snd (ino_slot fs ino))"
    and "snd (ino_slot fs ino) + 128 \<le> bs_of fs"
    and "fst (ino_slot fs ino) \<in> table_blocks fs (e_block_groups fs ! ((unat ino - 1) div unat (e_inodes_per_group fs)))"
    and "plain_block fs (fst (ino_slot fs ino))" "\<not> data_block fs (fst (ino_slot fs ino))"
proof -
  let ?bs = "bs_of fs" and ?isz = "unat (e_inode_size fs)" and ?ipg = "unat (e_inodes_per_group fs)"
  let ?idx = "(unat ino - 1) mod ?ipg" and ?g = "e_block_groups fs ! ((unat ino - 1) div ?ipg)"
  have geo: "geometry fs" and bs: "0 < ?bs" using fs_ok_facts(2,4) [OF ok] by auto
  have isz: "128 \<le> ?isz" "0 < ?ipg" using geo by (auto simp: geometry_def word_le_nat_alt unat_gt_0)
  have g: "?g \<in> set (e_block_groups fs)" using ino by (simp add: valid_ino_def)
  show "inode_offset fs ino = Some (fst (ino_slot fs ino) * ?bs + snd (ino_slot fs ino))"
    using ino by (simp add: inode_offset_def ino_slot_def valid_ino_def Let_def not_le add_mult_distrib add.assoc)
  have "?idx * ?isz mod ?bs + ?isz \<le> ?bs" using al bs by (intro aligned_chunk) (simp_all add: inodes_aligned_def)
  then show "snd (ino_slot fs ino) + 128 \<le> ?bs" using isz by (simp add: ino_slot_def Let_def)
  have "?idx < ?ipg" using isz by simp
  then have "?idx * ?isz + ?isz \<le> ?ipg * ?isz" by (metis Suc_leI add.commute mult_Suc mult_le_mono1)
  then have "?idx * ?isz div ?bs * ?bs < ?ipg * ?isz" using isz(1) div_times_less_eq_dividend [of "?idx * ?isz" ?bs] by linarith
  then have "?idx * ?isz div ?bs < div_ceil (?ipg * ?isz) ?bs" using div_ceil_less [OF bs] by simp
  then show t: "fst (ino_slot fs ino) \<in> table_blocks fs ?g" by (simp add: ino_slot_def table_blocks_def Let_def)
  show "plain_block fs (fst (ino_slot fs ino))" using ok t g by (auto simp: fs_ok_def tables_ok_def)
  show "\<not> data_block fs (fst (ino_slot fs ino))" using t g by (auto simp: data_block_def)
qed

text \<open>Different inodes lie in different bytes.\<close>

lemma ino_slot_disjoint:
  assumes ok: "fs_ok valid contents fs" and al: "inodes_aligned fs"
    and ino: "valid_ino fs ino" "valid_ino fs jno" "ino \<noteq> jno" "fst (ino_slot fs ino) = fst (ino_slot fs jno)"
  shows "snd (ino_slot fs ino) + 128 \<le> snd (ino_slot fs jno) \<or> snd (ino_slot fs jno) + 128 \<le> snd (ino_slot fs ino)"
proof -
  let ?bs = "bs_of fs" and ?isz = "unat (e_inode_size fs)" and ?ipg = "unat (e_inodes_per_group fs)"
  let ?i = "unat ino - 1" and ?j = "unat jno - 1"
  have geo: "geometry fs" using fs_ok_facts(2) [OF ok] .
  have isz: "128 \<le> ?isz" "0 < ?ipg" using geo by (auto simp: geometry_def word_le_nat_alt unat_gt_0)
  have grp: "?i div ?ipg = ?j div ?ipg"
  proof (rule ccontr)
    assume "?i div ?ipg \<noteq> ?j div ?ipg"
    then have "table_blocks fs (e_block_groups fs ! (?i div ?ipg)) \<inter> table_blocks fs (e_block_groups fs ! (?j div ?ipg)) = {}"
      using ok ino(1,2) by (auto simp: fs_ok_def tables_ok_def valid_ino_def)
    then show False using ino_slot_facts(3) [OF ok al ino(1)] ino_slot_facts(3) [OF ok al ino(2)] ino(4) by auto
  qed
  have "unat ino \<noteq> unat jno" "0 < unat ino" "0 < unat jno"
    using ino(1-3) by (auto simp: valid_ino_def unat_gt_0 simp flip: word_unat_eq_iff)
  then have "?i \<noteq> ?j" by linarith
  then have ne: "?i mod ?ipg \<noteq> ?j mod ?ipg" using grp by (metis div_mult_mod_eq)
  have apart: "a * ?isz mod ?bs + 128 \<le> b * ?isz mod ?bs" if "a < b" "a * ?isz div ?bs = b * ?isz div ?bs" for a b
  proof -
    have "a * ?isz + ?isz \<le> b * ?isz" using that(1) by (metis Suc_leI add.commute mult_Suc mult_le_mono1)
    then show ?thesis
      using isz(1) div_mult_mod_eq [of "a * ?isz" ?bs] div_mult_mod_eq [of "b * ?isz" ?bs] unfolding that(2) by linarith
  qed
  have "?i mod ?ipg * ?isz div ?bs = ?j mod ?ipg * ?isz div ?bs" using ino(4) grp by (simp add: ino_slot_def Let_def)
  then show ?thesis
    using ne apart [of "?i mod ?ipg" "?j mod ?ipg"] apart [of "?j mod ?ipg" "?i mod ?ipg"]
    by (cases "?i mod ?ipg < ?j mod ?ipg") (simp_all add: ino_slot_def Let_def)
qed

section \<open>Reading and writing\<close>

text \<open>The inode that the disk holds.\<close>

definition disk_inode :: "('d \<Rightarrow> bytes) \<Rightarrow> 'd ext2 \<Rightarrow> u32 \<Rightarrow> inode" where
  "disk_inode contents fs ino =
     (case ino_slot fs ino of (b, i) \<Rightarrow> inode_read (sub_slice i (i + 128) (blk (contents (e_dev fs)) (bs_of fs) b)))"

lemma inode_wf_disk_inode:
  assumes "fs_ok valid contents fs" "inodes_aligned fs" "valid_ino fs ino"
  shows "inode_wf (disk_inode contents fs ino)"
proof -
  note s = ino_slot_facts [OF assms]
  have "(fst (ino_slot fs ino) + 1) * bs_of fs \<le> unat (e_blocks_count fs) * bs_of fs"
    using s(4) by (intro mult_le_mono1) (simp add: plain_block_def)
  then have "length (blk (contents (e_dev fs)) (bs_of fs) (fst (ino_slot fs ino))) = bs_of fs"
    using fs_ok_facts(3) [OF assms(1)] by (intro length_blk) simp
  then show ?thesis
    using s(2) by (simp add: inode_wf_def disk_inode_def split_beta inode_read_def sub_slice_def)
qed

lemma disk_inode_kept:
  assumes k: "kept contents W fs fs'" and ok: "fs_ok valid contents fs" "inodes_aligned fs" "valid_ino fs ino"
    and W: "fst (ino_slot fs ino) \<notin> W"
  shows "disk_inode contents fs' ino = disk_inode contents fs ino"
  using k W ino_slot_facts(4) [OF ok] ino_slot_shape [of fs' fs ino] ok(3) kept_facts(1) [OF k]
  by (simp add: kept_def disk_inode_def split_beta)

lemma disk_inode_kept_data:
  assumes "kept contents W fs fs'" "fs_ok valid contents fs" "inodes_aligned fs" "valid_ino fs ino" "\<forall>b \<in> W. data_block fs b"
  shows "disk_inode contents fs' ino = disk_inode contents fs ino"
  using assms ino_slot_facts(5) [OF assms(2-4)] by (intro disk_inode_kept) auto

context disk
begin

lemma read_inode_run:
  assumes ok: "fs_ok valid contents fs" "inodes_aligned fs" "valid_ino fs ino"
  shows "read_inode bd ino fs = Some (Inr (disk_inode contents fs ino), fs)"
proof -
  note s = ino_slot_facts [OF ok]
  obtain b i where bi: "ino_slot fs ino = (b, i)" by force
  have "(b + 1) * bs_of fs \<le> unat (e_blocks_count fs) * bs_of fs"
    using s(4) bi by (intro mult_le_mono1) (simp add: plain_block_def)
  then have e: "b * bs_of fs + i + 128 \<le> length (contents (e_dev fs))" using s(2) bi fs_ok_facts(3) [OF ok(1)] by simp
  have "sub_slice (b * bs_of fs + i) (b * bs_of fs + i + 128) (contents (e_dev fs)) =
      sub_slice i (i + 128) (blk (contents (e_dev fs)) (bs_of fs) b)"
    unfolding blk_def using s(2) bi by (intro sub_slice_sub_slice [symmetric]) simp
  then show ?thesis
    using ok(3) s(1) bi e eread_disk [of fs "b * bs_of fs + i" "replicate 128 0"] fs_ok_facts(1) [OF ok(1)]
    by (simp add: read_inode_def valid_ino_def disk_inode_def layout_def sound_def ebind_Some)
qed

lemma write_inode_run:
  assumes ok: "fs_ok valid contents fs" "inodes_aligned fs" "valid_ino fs ino" and n: "inode_wf n"
  obtains fs' where "write_inode bd ino n fs = Some (Inr (), fs')" "fs_ok valid contents fs'"
    "free_blocks contents fs' = free_blocks contents fs" "free_inodes contents fs' = free_inodes contents fs"
    "kept contents {fst (ino_slot fs ino)} fs fs'"
    "\<And>jno. valid_ino fs jno \<Longrightarrow> disk_inode contents fs' jno = (if jno = ino then n else disk_inode contents fs jno)"
proof -
  note s = ino_slot_facts [OF ok]
  obtain b i where bi: "ino_slot fs ino = (b, i)" by force
  have len: "length (inode_to_bytes n) = 128" using n by (simp add: inode_wf_def length_inode_to_bytes)
  let ?fs' = "put_dev bd (b * bs_of fs + i) (inode_to_bytes n) fs" and ?B = "blk (contents (e_dev fs)) (bs_of fs) b"
  have fit: "plain_block fs b" "i + length (inode_to_bytes n) \<le> bs_of fs" using s(2,4) bi len by simp_all
  note w = data_write [OF ok(1) fit]
  have "(b + 1) * bs_of fs \<le> unat (e_blocks_count fs) * bs_of fs"
    using s(4) bi by (intro mult_le_mono1) (simp add: plain_block_def)
  then have lenB: "length ?B = bs_of fs" using fs_ok_facts(3) [OF ok(1)] by (intro length_blk) simp
  have sh: "shape ?fs' = shape fs" "bs_of ?fs' = bs_of fs" using w(5) kept_facts(1) [OF w(5)] by (simp_all add: kept_def)
  have map: "disk_inode contents ?fs' jno = (if jno = ino then n else disk_inode contents fs jno)" if j: "valid_ino fs jno" for jno
  proof (cases "fst (ino_slot fs jno) = b")
    case False
    then show ?thesis using disk_inode_kept [OF w(5) ok(1,2) j] bi by auto
  next
    case True
    obtain k where bk: "ino_slot fs jno = (b, k)" using True by (cases "ino_slot fs jno") simp
    have slot: "ino_slot ?fs' jno = (b, k)" using ino_slot_shape [OF sh(1) j] bk by simp
    have part: "sub_slice k (k + 128) (copy_at i (inode_to_bytes n) ?B) = (if jno = ino then inode_to_bytes n else sub_slice k (k + 128) ?B)"
      using sub_slice_copy_at_same [of i "inode_to_bytes n" ?B] sub_slice_copy_at_other [of i "inode_to_bytes n" ?B k "k + 128"]
        ino_slot_disjoint [OF ok(1,2,3) j] bi bk lenB fit(2) len by (cases "jno = ino") auto
    show ?thesis
      using part slot bk sh(2) w(6) n by (simp add: disk_inode_def inode_read_to_bytes inode_wf_def)
  qed
  have "write_inode bd ino n fs = Some (Inr (), ?fs')"
    using ok(3) s(1) bi w(1) by (simp add: write_inode_def valid_ino_def)
  then show thesis using that [of ?fs'] w(2-5) map bi by simp
qed

end

end
