(* ===== verification/Ext2_File.thy ===== *)
theory Ext2_File
  imports Ext2_Inodes
begin

text \<open>
  Open files of ext2: sequential reading and writing at a position, with a cache of the
  index block that was used last. Operations act on the open file and on the file system.
\<close>

section \<open>Open files\<close>

record ext2_file =
  f_inode :: inode
  f_ino :: u32
  f_size :: u64
  f_pos :: u64
  f_cache :: "(u32 \<times> u32 list) option"

type_synonym ('d, 'a) file_io = "ext2_file \<Rightarrow> 'd ext2 \<Rightarrow> ((fs_error + 'a) \<times> ext2_file \<times> 'd ext2) option"

definition ext2_file_new :: "inode \<Rightarrow> u32 \<Rightarrow> ext2_file" where
  "ext2_file_new n ino = \<lparr>f_inode = n, f_ino = ino, f_size = inode_size n, f_pos = 0, f_cache = None\<rparr>"

definition fret :: "'a \<Rightarrow> ('d, 'a) file_io" where
  "fret x f fs = Some (Inr x, f, fs)"

definition fbind :: "('d, 'a) file_io \<Rightarrow> ('a \<Rightarrow> ('d, 'b) file_io) \<Rightarrow> ('d, 'b) file_io" where
  "fbind m k f fs = (case m f fs of
      None \<Rightarrow> None
    | Some (Inl e, f', fs') \<Rightarrow> Some (Inl e, f', fs')
    | Some (Inr x, f', fs') \<Rightarrow> k x f' fs')"

text \<open>An operation of the file system, on which the open file does not depend.\<close>

definition on_fs :: "('d, 'a) ext2_io \<Rightarrow> ('d, 'a) file_io" where
  "on_fs m f fs = (case m fs of None \<Rightarrow> None | Some (r, fs') \<Rightarrow> Some (r, f, fs'))"

section \<open>Finding a block\<close>

definition read_cached_ptr :: "'d block_device \<Rightarrow> u32 \<Rightarrow> nat \<Rightarrow> ('d, u32) file_io" where
  "read_cached_ptr bd block index f fs =
     (if block = 0 then Some (Inr 0, f, fs)
      else
        let block_size = unat (e_block_size fs);
            miss = (case eread bd (unat block * block_size) (replicate block_size 0) fs of
                None \<Rightarrow> None
              | Some (Inl e, fs') \<Rightarrow> Some (Inl e, f, fs')
              | Some (Inr buf, fs') \<Rightarrow>
                  let pointers = map (\<lambda>i. le_word (sub_slice (i * 4) (i * 4 + 4) buf)) [0..<block_size div 4] in
                  Some (Inr (if index < length pointers then pointers ! index else 0), f\<lparr>f_cache := Some (block, pointers)\<rparr>, fs'))
        in case f_cache f of
            Some (cached_block, pointers) \<Rightarrow>
              if cached_block = block then Some (Inr (if index < length pointers then pointers ! index else 0), f, fs)
              else miss
          | None \<Rightarrow> miss)"

definition get_block_indirect :: "'d block_device \<Rightarrow> nat \<Rightarrow> nat \<Rightarrow> ('d, u32) file_io" where
  "get_block_indirect bd file_block p f fs =
     (let block = i_block (f_inode f); fb = file_block - 12 in
      if fb < p then read_cached_ptr bd (block ! 12) fb f fs
      else let fb = fb - p in
      if fb < p * p then
        fbind (read_cached_ptr bd (block ! 13) (fb div p)) (\<lambda>ind. read_cached_ptr bd ind (fb mod p)) f fs
      else let fb = fb - p * p; pp = p * p in
        fbind (read_cached_ptr bd (block ! 14) (fb div pp)) (\<lambda>dbl.
        fbind (read_cached_ptr bd dbl ((fb mod pp) div p)) (\<lambda>ind.
        read_cached_ptr bd ind (fb mod p))) f fs)"

definition file_get_block :: "'d block_device \<Rightarrow> nat \<Rightarrow> ('d, u32) file_io" where
  "file_get_block bd file_block f fs =
     (let p = unat (e_block_size fs) div 4 in
      if file_block < 12 then Some (Inr (i_block (f_inode f) ! file_block), f, fs)
      else get_block_indirect bd file_block p f fs)"

section \<open>Reading\<close>

lemma chunk_progress:
  fixes n filled bs pos :: nat
  assumes "filled < n" "0 < bs"
  shows "n - (filled + min (bs - pos mod bs) (n - filled)) < n - filled"
  using assms mod_less_divisor [OF assms(2), of pos] by linarith

text \<open>
  The loop: the bytes already filled in are part of the buffer. A block size of zero would be a
  division by zero.
\<close>

function read_loop :: "'d block_device \<Rightarrow> nat \<Rightarrow> nat \<Rightarrow> bytes \<Rightarrow> ext2_file \<Rightarrow> 'd ext2 \<Rightarrow> ((fs_error + nat) \<times> bytes \<times> ext2_file \<times> 'd ext2) option" where
  "read_loop bd to_read filled buf f fs =
     (let bs = unat (e_block_size fs) in
      if \<not> filled < to_read then Some (Inr filled, buf, f, fs)
      else if bs = 0 then None
      else
        let file_block = unat (f_pos f) div bs mod 2 ^ 32;
            block_off = unat (f_pos f) mod bs;
            chunk = min (bs - block_off) (to_read - filled) in
        case file_get_block bd file_block f fs of
          None \<Rightarrow> None
        | Some (Inl e, f', fs') \<Rightarrow> Some (Inl e, buf, f', fs')
        | Some (Inr block_num, f', fs') \<Rightarrow>
            if block_num = 0 then
              read_loop bd to_read (filled + chunk) (copy_at filled (replicate chunk 0) buf)
                (f'\<lparr>f_pos := f_pos f' + of_nat chunk\<rparr>) fs'
            else
              (case eread bd (unat block_num * bs + block_off) (sub_slice filled (filled + chunk) buf) fs' of
                 None \<Rightarrow> None
               | Some (Inl e, fs'') \<Rightarrow> Some (Inl e, buf, f', fs'')
               | Some (Inr data, fs'') \<Rightarrow>
                   read_loop bd to_read (filled + chunk) (copy_at filled data buf)
                     (f'\<lparr>f_pos := f_pos f' + of_nat chunk\<rparr>) fs''))"
  by pat_completeness auto
termination
  by (relation "measure (\<lambda>(bd, to_read, filled, buf, f, fs). to_read - filled)") (auto intro: chunk_progress)

declare read_loop.simps [simp del]

definition file_read :: "'d block_device \<Rightarrow> bytes \<Rightarrow> ext2_file \<Rightarrow> 'd ext2 \<Rightarrow> ((fs_error + nat) \<times> bytes \<times> ext2_file \<times> 'd ext2) option" where
  "file_read bd buf f fs =
     (if f_pos f \<ge> f_size f then Some (Inr 0, buf, f, fs)
      else read_loop bd (min (length buf) (unat (f_size f - f_pos f))) 0 buf f fs)"

section \<open>Writing\<close>

text \<open>
  The allocation of a block for a hole. The inode of the open file is changed as far as the operations got,
  also when one of them fails.
\<close>

definition fill_hole :: "'d block_device \<Rightarrow> nat \<Rightarrow> ('d, u32) file_io" where
  "fill_hole bd file_block f fs =
     (case alloc_zeroed bd fs of
        None \<Rightarrow> None
      | Some (Inl e, fs') \<Rightarrow> Some (Inl e, f, fs')
      | Some (Inr block_num, fs') \<Rightarrow>
          (case set_block_number bd file_block block_num (f_inode f) fs' of
             None \<Rightarrow> None
           | Some (Inl e, n, fs'') \<Rightarrow> Some (Inl e, f\<lparr>f_inode := n\<rparr>, fs'')
           | Some (Inr meta_blocks, n, fs'') \<Rightarrow>
               let blocks = unat (i_blocks n) + (1 + unat meta_blocks) * (unat (e_block_size fs) div 512) in
               if blocks < 2 ^ 32 then
                 Some (Inr block_num,
                   f\<lparr>f_inode := n\<lparr>i_blocks := of_nat blocks\<rparr>, f_cache := (if file_block \<ge> 12 then None else f_cache f)\<rparr>, fs'')
               else None))"

text \<open>Writing part of a block reads it first.\<close>

definition store_chunk :: "'d block_device \<Rightarrow> u32 \<Rightarrow> nat \<Rightarrow> bytes \<Rightarrow> ('d, unit) ext2_io" where
  "store_chunk bd block_num block_off data = ebind (egets (\<lambda>fs. unat (e_block_size fs))) (\<lambda>block_size.
     if length data = block_size then write_block bd block_num data
     else ebind (read_block bd block_num (replicate block_size 0)) (\<lambda>block_buf.
       write_block bd block_num (copy_at block_off data block_buf)))"

text \<open>The position after a chunk, and the size it may extend.\<close>

definition advance :: "nat \<Rightarrow> ext2_file \<Rightarrow> bool \<Rightarrow> ext2_file \<times> bool" where
  "advance chunk f dirty =
     (let pos = f_pos f + of_nat chunk in
      if pos > f_size f then (f\<lparr>f_pos := pos, f_size := pos, f_inode := inode_set_size pos (f_inode f)\<rparr>, True)
      else (f\<lparr>f_pos := pos\<rparr>, dirty))"

function write_loop :: "'d block_device \<Rightarrow> bytes \<Rightarrow> nat \<Rightarrow> bool \<Rightarrow> ext2_file \<Rightarrow> 'd ext2 \<Rightarrow> ((fs_error + nat \<times> bool) \<times> ext2_file \<times> 'd ext2) option" where
  "write_loop bd buf filled dirty f fs =
     (let bs = unat (e_block_size fs) in
      if \<not> filled < length buf then Some (Inr (filled, dirty), f, fs)
      else if bs = 0 then None
      else
        let file_block = unat (f_pos f) div bs mod 2 ^ 32;
            block_off = unat (f_pos f) mod bs;
            chunk = min (bs - block_off) (length buf - filled) in
        case file_get_block bd file_block f fs of
          None \<Rightarrow> None
        | Some (Inl e, f1, fs1) \<Rightarrow> Some (Inl e, f1, fs1)
        | Some (Inr block, f1, fs1) \<Rightarrow>
            (case (if block = 0 then fill_hole bd file_block f1 fs1 else Some (Inr block, f1, fs1)) of
               None \<Rightarrow> None
             | Some (Inl e, f2, fs2) \<Rightarrow> Some (Inl e, f2, fs2)
             | Some (Inr block_num, f2, fs2) \<Rightarrow>
                 (case store_chunk bd block_num block_off (sub_slice filled (filled + chunk) buf) fs2 of
                    None \<Rightarrow> None
                  | Some (Inl e, fs3) \<Rightarrow> Some (Inl e, f2, fs3)
                  | Some (Inr _, fs3) \<Rightarrow>
                      if unat (f_pos f2) + chunk < 2 ^ 64 then
                        write_loop bd buf (filled + chunk) (snd (advance chunk f2 (dirty \<or> block = 0)))
                          (fst (advance chunk f2 (dirty \<or> block = 0))) fs3
                      else None)))"
  by pat_completeness auto
termination
  by (relation "measure (\<lambda>(bd, buf, filled, dirty, f, fs). length buf - filled)") (auto intro: chunk_progress)

declare write_loop.simps [simp del]

definition file_write :: "'d block_device \<Rightarrow> bytes \<Rightarrow> ('d, nat) file_io" where
  "file_write bd buf f fs =
     (if buf = [] then Some (Inr 0, f, fs)
      else case write_loop bd buf 0 False f fs of
          None \<Rightarrow> None
        | Some (Inl e, f', fs') \<Rightarrow> Some (Inl e, f', fs')
        | Some (Inr (filled, dirty), f', fs') \<Rightarrow>
            if dirty then
              (case write_inode bd (f_ino f') (f_inode f') fs' of
                 None \<Rightarrow> None
               | Some (Inl e, fs'') \<Rightarrow> Some (Inl e, f', fs'')
               | Some (Inr _, fs'') \<Rightarrow> Some (Inr filled, f', fs''))
            else Some (Inr filled, f', fs'))"

section \<open>Seeking and metadata\<close>

definition file_seek :: "seek_from \<Rightarrow> ext2_file \<Rightarrow> ((fs_error + u64) \<times> ext2_file) option" where
  "file_seek sk f =
     (case (case sk of
          SeekStart n \<Rightarrow> Some (sint n)
        | SeekCurrent n \<Rightarrow> checked_add_i64 (sint (f_pos f)) (sint n)
        | SeekEnd n \<Rightarrow> checked_add_i64 (sint (f_size f)) (sint n)) of
        None \<Rightarrow> None
      | Some new_pos \<Rightarrow>
          if new_pos < 0 then Some (Inl InvalidOffset, f)
          else Some (Inr (word_of_int new_pos), f\<lparr>f_pos := word_of_int new_pos\<rparr>))"

definition file_stat_of :: "ext2_file \<Rightarrow> file_stat" where
  "file_stat_of f = \<lparr>st_size = f_size f, st_is_dir = False, st_mode = i_mode (f_inode f), st_inode = ucast (f_ino f),
     st_nlinks = ucast (i_links_count (f_inode f)), st_mtime = ucast (i_mtime (f_inode f)),
     st_ctime = ucast (i_ctime (f_inode f)), st_atime = ucast (i_atime (f_inode f))\<rparr>"

section \<open>The cache agrees with the disk\<close>

text \<open>The cached block is an index block of the file.\<close>

definition cache_ok :: "('d \<Rightarrow> bytes) \<Rightarrow> 'd ext2 \<Rightarrow> ext2_file \<Rightarrow> bool" where
  "cache_ok contents fs f \<longleftrightarrow> (\<forall>b ps. f_cache f = Some (b, ps) \<longrightarrow>
     unat b \<in> index_blocks contents fs (f_inode f) \<and> ps = map (ptr (contents (e_dev fs)) (bs_of fs) b) [0..<bs_of fs div 4])"

lemma fbind_assoc: "fbind (fbind m k) l = fbind m (\<lambda>x. fbind (k x) l)"
  by (intro ext) (simp add: fbind_def split: option.splits sum.splits prod.splits)

lemma fbind_Some: "m f fs = Some (Inr x, f', fs') \<Longrightarrow> fbind m k f fs = k x f' fs'"
  by (simp add: fbind_def)

lemma fbind_fret: "fbind (fret x) k = k x"
  by (intro ext) (simp add: fbind_def fret_def)

lemma file_get_block_follow:
  "file_get_block bd fb f fs = (case file_path (bs_of fs div 4) fb of (slot, path) \<Rightarrow>
     foldl (\<lambda>m i. fbind m (\<lambda>b. read_cached_ptr bd b i)) (fret (i_block (f_inode f) ! slot)) path f fs)"
  by (simp add: file_get_block_def get_block_indirect_def file_path_def Let_def fbind_fret fbind_assoc) (simp add: fret_def)

context disk
begin

lemma read_cached_ptr_run:
  assumes ok: "fs_ok valid contents fs" and b: "b = 0 \<or> data_block fs (unat b)" and i: "i < bs_of fs div 4" and c: "cache_ok contents fs f"
    and idx: "b \<noteq> 0 \<Longrightarrow> unat b \<in> index_blocks contents fs (f_inode f)"
  shows "\<exists>c. read_cached_ptr bd b i f fs = Some (Inr (ptr (contents (e_dev fs)) (bs_of fs) b i), f\<lparr>f_cache := c\<rparr>, fs)
    \<and> cache_ok contents fs (f\<lparr>f_cache := c\<rparr>)"
proof (cases "b = 0")
  case True
  then show ?thesis using c by (auto simp: read_cached_ptr_def intro!: exI [of _ "f_cache f"])
next
  case False
  let ?D = "contents (e_dev fs)" and ?bs = "bs_of fs"
  let ?ps = "map (ptr ?D ?bs b) [0..<?bs div 4]"
  have lt: "b < e_blocks_count fs" using b False by (simp add: data_block_less)
  have read: "eread bd (unat b * ?bs) (replicate ?bs 0) fs = Some (Inr (blk ?D ?bs (unat b)), fs)"
    using eread_disk [of fs "unat b * ?bs" "replicate ?bs 0"] block_end [OF lt, of ?bs] fs_ok_facts(1,3) [OF ok]
    by (simp add: layout_def sound_def blk_def)
  have ps: "map (\<lambda>j. le_word (sub_slice (j * 4) (j * 4 + 4) (blk ?D ?bs (unat b)))) [0..<?bs div 4] = ?ps"
    using False by (simp add: ptr_blk)
  show ?thesis
  proof (cases "\<exists>ps. f_cache f = Some (b, ps)")
    case True
    then show ?thesis using False c i by (auto simp: read_cached_ptr_def cache_ok_def intro!: exI [of _ "f_cache f"])
  next
    case miss: False
    then have "read_cached_ptr bd b i f fs = Some (Inr (ptr ?D ?bs b i), f\<lparr>f_cache := Some (b, ?ps)\<rparr>, fs)"
      using False i read ps by (auto simp: read_cached_ptr_def Let_def split: option.split)
    then show ?thesis using idx False by (auto simp: cache_ok_def index_blocks_def)
  qed
qed

lemma file_get_block_run:
  assumes ok: "fs_ok valid contents fs" "inode_ok contents fs (f_inode f)" and fb: "fb < max_file_blocks (bs_of fs div 4)"
    and c: "cache_ok contents fs f"
  shows "\<exists>c. file_get_block bd fb f fs =
      Some (Inr (node contents fs (f_inode f) (file_path (bs_of fs div 4) fb)), f\<lparr>f_cache := c\<rparr>, fs)
    \<and> cache_ok contents fs (f\<lparr>f_cache := c\<rparr>)"
proof -
  let ?p = "bs_of fs div 4" and ?get = "\<lambda>m i. fbind m (\<lambda>b. read_cached_ptr bd b i)"
  let ?n = "f_inode f"
  have *: "is_node ?p (s, path) \<Longrightarrow> \<exists>c. foldl ?get (fret (i_block ?n ! s)) path f fs =
      Some (Inr (node contents fs ?n (s, path)), f\<lparr>f_cache := c\<rparr>, fs) \<and> cache_ok contents fs (f\<lparr>f_cache := c\<rparr>)" for s path
  proof (induction path rule: rev_induct)
    case Nil
    show ?case using c by (auto simp: node_def fret_def intro!: exI [of _ "f_cache f"])
  next
    case (snoc i path)
    then have par: "is_node ?p (s, path)" "i < ?p" by (simp_all add: is_node_snoc)
    obtain c where IH: "foldl ?get (fret (i_block ?n ! s)) path f fs = Some (Inr (node contents fs ?n (s, path)), f\<lparr>f_cache := c\<rparr>, fs)"
      "cache_ok contents fs (f\<lparr>f_cache := c\<rparr>)"
      using snoc.IH [OF par(1)] by blast
    have "node contents fs ?n (s, path) = 0 \<or> data_block fs (unat (node contents fs ?n (s, path)))"
      using inode_okD(1) [OF ok(2) par(1)] by blast
    moreover have "node contents fs ?n (s, path) \<noteq> 0 \<Longrightarrow> unat (node contents fs ?n (s, path)) \<in> index_blocks contents fs ?n"
      using snoc.prems by (intro index_blocksI) (simp_all add: is_node_snoc)
    ultimately show ?case
      using IH(1) read_cached_ptr_run [OF ok(1) _ par(2) IH(2)] by (auto simp: fbind_Some node_snoc)
  qed
  have "is_node ?p (file_path ?p fb)" using file_path_leaf [OF fb] by (simp add: is_leaf_def)
  then show ?thesis using * by (cases "file_path ?p fb") (simp add: file_get_block_follow)
qed

end

section \<open>The contents of a file\<close>

definition file_byte :: "('d \<Rightarrow> bytes) \<Rightarrow> 'd ext2 \<Rightarrow> inode \<Rightarrow> nat \<Rightarrow> u8" where
  "file_byte contents fs n q =
     (let b = node contents fs n (file_path (bs_of fs div 4) (q div bs_of fs)) in
      if b = 0 then 0 else blk (contents (e_dev fs)) (bs_of fs) (unat b) ! (q mod bs_of fs))"

definition file_range :: "('d \<Rightarrow> bytes) \<Rightarrow> 'd ext2 \<Rightarrow> inode \<Rightarrow> nat \<Rightarrow> nat \<Rightarrow> bytes" where
  "file_range contents fs n i j = map (file_byte contents fs n) [i..<j]"

text \<open>Positions whose block index fits 32 bits and lies in the map.\<close>

definition max_file_size :: "'d ext2 \<Rightarrow> nat" where
  "max_file_size fs = min (max_file_blocks (bs_of fs div 4)) (2 ^ 32) * bs_of fs"

lemma max_file_size_block:
  assumes "pos < max_file_size fs" "0 < bs_of fs"
  shows "pos div bs_of fs mod 2 ^ 32 = pos div bs_of fs" "pos div bs_of fs < max_file_blocks (bs_of fs div 4)"
proof -
  have "pos div bs_of fs < min (max_file_blocks (bs_of fs div 4)) (2 ^ 32)"
    using assms(1) unfolding max_file_size_def by (rule less_mult_imp_div_less)
  then show "pos div bs_of fs mod 2 ^ 32 = pos div bs_of fs" "pos div bs_of fs < max_file_blocks (bs_of fs div 4)" by simp_all
qed

lemma within_block:
  fixes pos bs :: nat
  assumes "pos mod bs + j < bs"
  shows "(pos + j) div bs = pos div bs" "(pos + j) mod bs = pos mod bs + j"
proof -
  have "pos + j = (pos mod bs + j) + bs * (pos div bs)" using div_mult_mod_eq [of pos bs] by (simp add: ac_simps)
  then show "(pos + j) div bs = pos div bs" "(pos + j) mod bs = pos mod bs + j"
    using assms by (metis add.right_neutral div_less div_mult_self2 gr_implies_not0 add.commute) (metis mod_less mod_mult_self2 \<open>pos + j = _\<close> assms)
qed

lemma length_file_range [simp]: "length (file_range contents fs n i j) = j - i"
  by (simp add: file_range_def)

lemma file_range_split: "i \<le> j \<Longrightarrow> j \<le> k \<Longrightarrow> file_range contents fs n i j @ file_range contents fs n j k = file_range contents fs n i k"
  using upt_add_eq_append [of i j "k - j"] by (simp add: file_range_def flip: map_append)

lemma file_range_block:
  fixes b :: u32
  assumes "pos mod bs_of fs + k \<le> bs_of fs" "b \<noteq> 0 \<Longrightarrow> length (blk (contents (e_dev fs)) (bs_of fs) (unat b)) = bs_of fs"
    and b: "b = node contents fs n (file_path (bs_of fs div 4) (pos div bs_of fs))"
  shows "file_range contents fs n pos (pos + k) =
    (if b = 0 then replicate k 0
     else sub_slice (pos mod bs_of fs) (pos mod bs_of fs + k) (blk (contents (e_dev fs)) (bs_of fs) (unat b)))"
proof (rule nth_equalityI)
  fix j assume "j < length (file_range contents fs n pos (pos + k))"
  then have j: "j < k" by simp
  then have "pos mod bs_of fs + j < bs_of fs" using assms(1) by simp
  note w = within_block [OF this]
  show "file_range contents fs n pos (pos + k) ! j =
    (if b = 0 then replicate k 0
     else sub_slice (pos mod bs_of fs) (pos mod bs_of fs + k) (blk (contents (e_dev fs)) (bs_of fs) (unat b))) ! j"
    using j w assms(1,2) b by (simp add: file_range_def file_byte_def Let_def sub_slice_def)
qed (use assms in auto)

context disk
begin

lemma length_data_block:
  fixes b :: u32
  assumes "fs_ok valid contents fs" "data_block fs (unat b)"
  shows "length (blk (contents (e_dev fs)) (bs_of fs) (unat b)) = bs_of fs"
  using length_blk [of "unat b" "bs_of fs" "contents (e_dev fs)"] block_end [OF data_block_less [OF assms(2)], of "bs_of fs"]
    fs_ok_facts(3) [OF assms(1)] by simp

lemma eread_in_block:
  fixes b :: u32
  assumes ok: "fs_ok valid contents fs" and b: "data_block fs (unat b)" and "off + length buf \<le> bs_of fs"
  shows "eread bd (unat b * bs_of fs + off) buf fs =
    Some (Inr (sub_slice off (off + length buf) (blk (contents (e_dev fs)) (bs_of fs) (unat b))), fs)"
proof -
  have "unat b * bs_of fs + bs_of fs \<le> length (contents (e_dev fs))"
    using block_end [OF data_block_less [OF b], of "bs_of fs"] fs_ok_facts(3) [OF ok] by simp
  then have "unat b * bs_of fs + off + length buf \<le> length (contents (e_dev fs))" using assms(3) by simp
  then show ?thesis
    using eread_disk [of fs "unat b * bs_of fs + off" buf] fs_ok_facts(1) [OF ok] assms(3)
      sub_slice_sub_slice [of "unat b * bs_of fs" off "length buf" "unat b * bs_of fs + bs_of fs" "contents (e_dev fs)"]
    by (simp add: layout_def sound_def blk_def)
qed

lemma read_loop_run:
  assumes ok: "fs_ok valid contents fs" "inode_ok contents fs (f_inode f)" "cache_ok contents fs f"
    and len: "filled \<le> to_read" "to_read \<le> length buf"
    and pos: "unat (f_pos f) + (to_read - filled) \<le> max_file_size fs" "unat (f_pos f) + (to_read - filled) < 2 ^ 64"
  shows "\<exists>c. read_loop bd to_read filled buf f fs =
      Some (Inr to_read,
        take filled buf @ file_range contents fs (f_inode f) (unat (f_pos f)) (unat (f_pos f) + (to_read - filled)) @ drop to_read buf,
        f\<lparr>f_pos := f_pos f + of_nat (to_read - filled), f_cache := c\<rparr>, fs)
    \<and> cache_ok contents fs (f\<lparr>f_cache := c\<rparr>)"
  using ok(2,3) len pos
proof (induction "to_read - filled" arbitrary: filled buf f rule: less_induct)
  case less
  let ?bs = "bs_of fs" and ?n = "f_inode f" and ?pos = "unat (f_pos f)"
  have bs: "0 < ?bs" using fs_ok_facts(4) [OF ok(1)] by simp
  show ?case
  proof (cases "filled < to_read")
    case False
    then have "filled = to_read" using less.prems(3) by simp
    then show ?thesis
      using less.prems(2,4) read_loop.simps [of bd to_read filled buf f fs]
      by (auto simp: file_range_def intro!: exI [of _ "f_cache f"])
  next
    case True
    obtain off chunk b where defs: "off = ?pos mod ?bs" "chunk = min (?bs - off) (to_read - filled)"
      "b = node contents fs ?n (file_path (?bs div 4) (?pos div ?bs))" by blast
    have chunk: "0 < chunk" "chunk \<le> to_read - filled" "off + chunk \<le> ?bs"
      using True bs mod_less_divisor [OF bs, of ?pos] unfolding defs by linarith+
    have "?pos < max_file_size fs" using True less.prems(5) by linarith
    note block = max_file_size_block [OF this bs]
    obtain c where get: "file_get_block bd (?pos div ?bs mod 2 ^ 32) f fs = Some (Inr b, f\<lparr>f_cache := c\<rparr>, fs)"
      "cache_ok contents fs (f\<lparr>f_cache := c\<rparr>)"
      using file_get_block_run [OF ok(1) less.prems(1) block(2) less.prems(2)] block(1) defs(3) by auto
    have data: "b \<noteq> 0 \<Longrightarrow> data_block fs (unat b)"
      using inode_okD(1) [OF less.prems(1)] file_path_leaf [OF block(2)] by (simp add: is_leaf_def defs(3))
    let ?part = "file_range contents fs ?n ?pos (?pos + chunk)"
    have part: "?part = (if b = 0 then replicate chunk 0
        else sub_slice off (off + chunk) (blk (contents (e_dev fs)) ?bs (unat b)))"
      unfolding defs(1) by (rule file_range_block [OF _ length_data_block [OF ok(1) data] defs(3)]) (use chunk(3) defs(1) in simp)
    let ?f = "f\<lparr>f_cache := c, f_pos := f_pos f + of_nat chunk\<rparr>" and ?buf = "copy_at filled ?part buf"
    have "length (sub_slice filled (filled + chunk) buf) = chunk" using chunk(2) less.prems(4) True by simp
    then have "eread bd (unat b * ?bs + off) (sub_slice filled (filled + chunk) buf) fs =
        Some (Inr (sub_slice off (off + chunk) (blk (contents (e_dev fs)) ?bs (unat b))), fs)" if "b \<noteq> 0"
      using eread_in_block [OF ok(1) data [OF that], of off "sub_slice filled (filled + chunk) buf"] chunk(3) by simp
    then have run: "read_loop bd to_read filled buf f fs = read_loop bd to_read (filled + chunk) ?buf ?f fs"
      using True bs get(1) unfolding part
      by (subst read_loop.simps) (simp add: Let_def flip: defs(1) del: min_def, simp flip: defs(2))
    have upos: "unat (f_pos ?f) = ?pos + chunk"
      using chunk(2) less.prems(6) by (simp add: unat_word_ariths unat_of_nat)
    have IH: "\<exists>c. read_loop bd to_read (filled + chunk) ?buf ?f fs =
        Some (Inr to_read,
          take (filled + chunk) ?buf @ file_range contents fs (f_inode ?f) (unat (f_pos ?f)) (unat (f_pos ?f) + (to_read - (filled + chunk))) @ drop to_read ?buf,
          ?f\<lparr>f_pos := f_pos ?f + of_nat (to_read - (filled + chunk)), f_cache := c\<rparr>, fs)
        \<and> cache_ok contents fs (?f\<lparr>f_cache := c\<rparr>)"
    proof (rule less.hyps)
      show "to_read - (filled + chunk) < to_read - filled" using chunk True by linarith
      show "filled + chunk \<le> to_read" using chunk(2) True by linarith
      show "to_read \<le> length ?buf" using chunk(2) less.prems(4) True by simp
      have "?pos + chunk + (to_read - (filled + chunk)) = ?pos + (to_read - filled)" using chunk(2) True by linarith
      then show "unat (f_pos ?f) + (to_read - (filled + chunk)) \<le> max_file_size fs"
        "unat (f_pos ?f) + (to_read - (filled + chunk)) < 2 ^ 64"
        using upos less.prems(5,6) by simp_all
    qed (use less.prems(1) get(2) in \<open>simp_all add: cache_ok_def\<close>)
    have sum: "chunk + (to_read - (filled + chunk)) = to_read - filled" using chunk(2) True by linarith
    then have "of_nat chunk + of_nat (to_read - (filled + chunk)) = (of_nat (to_read - filled) :: u64)" by (metis of_nat_add)
    moreover have "take (filled + chunk) ?buf = take filled buf @ ?part" "drop to_read ?buf = drop to_read buf"
      using chunk(2) less.prems(4) True by (simp_all add: copy_at_def)
    moreover have "?part @ file_range contents fs ?n (?pos + chunk) (?pos + (to_read - filled)) =
        file_range contents fs ?n ?pos (?pos + (to_read - filled))"
      using chunk(2) by (intro file_range_split) simp_all
    ultimately show ?thesis using IH run upos sum by (auto simp: cache_ok_def add.assoc)
  qed
qed

end

section \<open>Reading returns the contents\<close>

text \<open>C39: Reading an open file. On a consistent file system, with an open file whose size the block map can hold, a
  read copies the bytes of the file from the position up to the length of the buffer or the end of the file, whichever comes first,
  holes reading as zeros, whatever the number of blocks, levels of index blocks and cached index blocks involved; it leaves the rest of the buffer alone,
  returns the number of bytes, advances the position by it, changes nothing on the disk and keeps the cache consistent with it.\<close>

theorem file_read_contents:
  assumes "device_contract bd valid contents False" "fs_ok valid contents fs" "inode_ok contents fs (f_inode f)" "cache_ok contents fs f"
    and "unat (f_size f) \<le> max_file_size fs"
  shows "\<exists>k c. k = min (length buf) (unat (f_size f) - unat (f_pos f))
    \<and> file_read bd buf f fs =
        Some (Inr k, file_range contents fs (f_inode f) (unat (f_pos f)) (unat (f_pos f) + k) @ drop k buf,
          f\<lparr>f_pos := f_pos f + of_nat k, f_cache := c\<rparr>, fs)
    \<and> cache_ok contents fs (f\<lparr>f_pos := f_pos f + of_nat k, f_cache := c\<rparr>)"
proof (cases "f_pos f \<ge> f_size f")
  case True
  then show ?thesis using assms(4) by (auto simp: file_read_def word_le_nat_alt file_range_def intro!: exI [of _ "f_cache f"])
next
  case False
  then have sub: "unat (f_size f - f_pos f) = unat (f_size f) - unat (f_pos f)" by (simp add: unat_sub)
  let ?k = "min (length buf) (unat (f_size f) - unat (f_pos f))"
  have "unat (f_pos f) + ?k \<le> unat (f_size f)" using False by (simp add: not_le word_less_nat_alt)
  moreover have "unat (f_size f) < 2 ^ 64" using unsigned_less [of "f_size f"] by simp
  ultimately have pos: "unat (f_pos f) + (?k - 0) \<le> max_file_size fs" "unat (f_pos f) + (?k - 0) < 2 ^ 64"
    using assms(5) by linarith+
  from disk.read_loop_run [OF disk.intro [OF assms(1)] assms(2-4) _ _ pos, of buf] show ?thesis
    using False sub by (auto simp: file_read_def cache_ok_def)
qed

text \<open>A file of 1500 bytes: one block, then a hole.\<close>

definition demo_root :: bytes where
  "demo_root = replicate 1020 0 @ [1, 2, 3, 4]"

definition demo_inode :: inode where
  "demo_inode = inode_set_size 1500 ((inode_read (replicate 128 0))\<lparr>i_block := 6 # replicate 14 0\<rparr>)"

text \<open>It is inode four of the table.\<close>

definition demo_disk :: "bytes virtio_block_inner ext2" where
  "demo_disk = demo_fs (replicate 384 0 @ inode_to_bytes demo_inode @ replicate 512 0) demo_root"

definition demo_file :: ext2_file where
  "demo_file = (ext2_file_new demo_inode 4)\<lparr>f_pos := 1020\<rparr>"

lemma demo_table: "length (inode_to_bytes demo_inode) = 128" "inode_wf demo_inode"
  by (simp_all add: demo_inode_def inode_wf_def inode_read_def length_inode_to_bytes)

lemma demo_facts:
  "fs_ok demo_valid vbi_device demo_disk" "bs_of demo_disk = 1024"
  "blk (vbi_device (e_dev demo_disk)) 1024 6 = demo_root"
  "f_inode demo_file = demo_inode" "f_size demo_file = 1500" "f_cache demo_file = None"
  "i_block demo_inode = 6 # replicate 14 0" "f_pos demo_file = 1020" "free_blocks vbi_device demo_disk = {7, 8, 9, 10, 11}"
proof -
  note len = demo_table(1)
  show "fs_ok demo_valid vbi_device demo_disk"
    unfolding demo_disk_def by (rule demo_fs_ok) (simp_all add: len demo_root_def)
  show "free_blocks vbi_device demo_disk = {7, 8, 9, 10, 11}" unfolding demo_disk_def by (rule demo_free)
  show "blk (vbi_device (e_dev demo_disk)) 1024 6 = demo_root"
    by (simp add: demo_disk_def demo_fs_def blk_def demo_image_def sub_slice_def len) (simp add: demo_root_def)
qed (simp_all add: demo_disk_def demo_fs_def demo_file_def ext2_file_new_def, simp_all add: demo_inode_def)

lemma demo_node:
  assumes "is_node p \<nu>" "bs_of fs = 1024"
  shows "node vbi_device fs demo_inode \<nu> = (if \<nu> = (0, []) then 6 else 0)"
proof -
  obtain s path where \<nu>: "\<nu> = (s, path)" by force
  then show ?thesis using assms demo_facts(7) by (cases s) (auto simp: node_def is_node_def depth_def)
qed

lemma demo_inode_ok: "inode_ok vbi_device demo_disk demo_inode"
proof -
  let ?fs = "demo_disk"
  have "data_block ?fs 6"
    by (auto simp: demo_disk_def demo_fs_def tables_end_def bgdt_offset_def table_blocks_def div_ceil_def data_block_def plain_block_def)
  then show ?thesis
    using demo_node [OF _ demo_facts(2)] demo_facts(7) by (auto simp: inode_ok_def demo_facts(2,9) split: if_splits)
qed

theorem file_read_contents_witness:
  "\<exists>f'. file_read (virtio_device ram_transfers) (replicate 9 0xFF) demo_file demo_disk =
     Some (Inr 9, [1, 2, 3, 4, 0, 0, 0, 0, 0], f', demo_disk) \<and> f_pos f' = 1029"
proof -
  let ?fs = "demo_disk"
  have c: "cache_ok vbi_device ?fs demo_file" by (simp add: cache_ok_def demo_facts)
  have sz: "unat (f_size demo_file) \<le> max_file_size ?fs" by (simp add: demo_facts max_file_size_def max_file_blocks_def)
  have up: "[1020..<1029] = [1020, 1021, 1022, 1023, 1024, 1025, 1026, 1027, 1028]" by (simp add: upt_rec)
  have nodes: "node vbi_device ?fs demo_inode (0, []) = 6" "node vbi_device ?fs demo_inode (Suc 0, []) = 0"
    by (simp_all add: node_def demo_facts)
  have "file_range vbi_device ?fs demo_inode 1020 1029 = [1, 2, 3, 4, 0, 0, 0, 0, 0]"
    using nodes by (simp add: file_range_def up file_byte_def demo_facts(2,3) file_path_def nodes) (simp add: demo_root_def nth_append)
  then show ?thesis
    using file_read_contents [OF demo_contract demo_facts(1), of demo_file "replicate 9 0xFF"] demo_inode_ok c sz
    by (auto simp: demo_facts)
qed

end
