(* ===== verification/Ext2_Write.thy ===== *)
theory Ext2_Write
  imports Ext2_File
begin

text \<open>
  What writing an open file does: the file is an array of bytes, of which a write replaces a range; the blocks come from the
  free blocks, and no other file is touched.
\<close>

section \<open>Files with the same block map\<close>

lemma node_cong: "i_block n' = i_block n \<Longrightarrow> node contents fs n' = node contents fs n"
  by (rule ext) (simp add: node_def)

lemma index_blocks_cong: "i_block n' = i_block n \<Longrightarrow> index_blocks contents fs n' = index_blocks contents fs n"
  by (simp add: index_blocks_def node_cong [of n' n])

lemma inode_ok_cong: "i_block n' = i_block n \<Longrightarrow> inode_ok contents fs n' = inode_ok contents fs n"
  by (simp add: inode_ok_def node_cong [of n' n])

lemma file_byte_cong: "i_block n' = i_block n \<Longrightarrow> file_byte contents fs n' = file_byte contents fs n"
  by (rule ext) (simp add: file_byte_def node_cong [of n' n])

section \<open>The blocks of a file\<close>

definition owned :: "('d \<Rightarrow> bytes) \<Rightarrow> 'd ext2 \<Rightarrow> inode \<Rightarrow> nat set" where
  "owned contents fs n = {unat (node contents fs n \<nu>) | \<nu>. is_node (bs_of fs div 4) \<nu> \<and> node contents fs n \<nu> \<noteq> 0}"

lemma owned_cong: "i_block n' = i_block n \<Longrightarrow> owned contents fs n' = owned contents fs n"
  by (simp add: owned_def node_cong [of n' n])

lemma ownedI: "is_node (bs_of fs div 4) \<nu> \<Longrightarrow> node contents fs n \<nu> \<noteq> 0 \<Longrightarrow> unat (node contents fs n \<nu>) \<in> owned contents fs n"
  unfolding owned_def by blast

lemma index_owned: "index_blocks contents fs n \<subseteq> owned contents fs n"
  unfolding index_blocks_def owned_def by blast

lemma owned_data:
  assumes "inode_ok contents fs n" "b \<in> owned contents fs n"
  shows "data_block fs b" "b \<notin> free_blocks contents fs"
proof -
  obtain \<nu> where "b = unat (node contents fs n \<nu>)" "is_node (bs_of fs div 4) \<nu>" "node contents fs n \<nu> \<noteq> 0"
    using assms(2) unfolding owned_def by blast
  then show "data_block fs b" "b \<notin> free_blocks contents fs" using inode_okD(1,2) [OF assms(1)] by simp_all
qed

lemma leaf_not_index:
  assumes ok: "inode_ok contents fs n" and l: "is_leaf (bs_of fs div 4) \<nu>" "node contents fs n \<nu> \<noteq> 0"
  shows "unat (node contents fs n \<nu>) \<notin> index_blocks contents fs n"
proof
  assume "unat (node contents fs n \<nu>) \<in> index_blocks contents fs n"
  then obtain \<mu> where \<mu>: "is_node (bs_of fs div 4) \<mu>" "\<not> is_leaf (bs_of fs div 4) \<mu>" "node contents fs n \<mu> = node contents fs n \<nu>"
    by (auto simp: index_blocks_def simp flip: word_unat_eq_iff)
  have "is_node (bs_of fs div 4) \<nu>" using l(1) by (simp add: is_leaf_def)
  then have "\<mu> = \<nu>" using inode_okD(3) [OF ok _ l(2) \<mu>(1,3)] by simp
  then show False using \<mu>(2) l(1) by simp
qed

lemma file_leaf:
  assumes "q < max_file_size fs" "0 < bs_of fs"
  shows "is_leaf (bs_of fs div 4) (file_path (bs_of fs div 4) (q div bs_of fs))"
  using max_file_size_block(2) [OF assms] by (rule file_path_leaf)

lemma file_byte_kept:
  assumes k: "kept contents W fs fs'" and ok: "inode_ok contents fs n"
    and \<nu>: "is_node (bs_of fs div 4) (file_path (bs_of fs div 4) (q div bs_of fs))"
    and same: "node contents fs' n' (file_path (bs_of fs div 4) (q div bs_of fs)) = node contents fs n (file_path (bs_of fs div 4) (q div bs_of fs))"
    and W: "unat (node contents fs n (file_path (bs_of fs div 4) (q div bs_of fs))) \<notin> W"
  shows "file_byte contents fs' n' q = file_byte contents fs n q"
proof (cases "node contents fs n (file_path (bs_of fs div 4) (q div bs_of fs)) = 0")
  case True
  then show ?thesis using same kept_facts(1) [OF k] by (simp add: file_byte_def)
next
  case False
  then show ?thesis
    using inode_okD(1) [OF ok \<nu> False] same W k kept_facts(1) [OF k] by (simp add: file_byte_def kept_def data_block_plain)
qed

lemma cache_ok_kept:
  assumes c: "cache_ok contents fs f" and ok: "inode_ok contents fs (f_inode f)" and k: "kept contents W fs fs'"
    and W: "W \<inter> index_blocks contents fs (f_inode f) = {}"
    and sub: "index_blocks contents fs (f_inode f) \<subseteq> index_blocks contents fs' (f_inode f')" and same: "f_cache f' = f_cache f"
  shows "cache_ok contents fs' f'"
  unfolding cache_ok_def
proof (intro allI impI)
  fix b ps assume "f_cache f' = Some (b, ps)"
  then have b: "unat b \<in> index_blocks contents fs (f_inode f)" "ps = map (ptr (contents (e_dev fs)) (bs_of fs) b) [0..<bs_of fs div 4]"
    using c same by (simp_all add: cache_ok_def)
  have "data_block fs (unat b)" using owned_data(1) [OF ok] b(1) index_owned by blast
  then have "ptr (contents (e_dev fs')) (bs_of fs) b j = ptr (contents (e_dev fs)) (bs_of fs) b j" if "j < bs_of fs div 4" for j
    using ptr_kept [OF k _ _ that] b(1) W by blast
  then show "unat b \<in> index_blocks contents fs' (f_inode f') \<and> ps = map (ptr (contents (e_dev fs')) (bs_of fs') b) [0..<bs_of fs' div 4]"
    using b sub kept_facts(1) [OF k] by auto
qed

text \<open>A map none of whose index blocks is written stays as it is.\<close>

lemma index_frame:
  assumes ok: "inode_ok contents fs n" and k: "kept contents W fs fs'" and W: "W \<inter> index_blocks contents fs n = {}"
    and free: "free_blocks contents fs' \<inter> owned contents fs n = {}"
  shows "\<And>\<nu>. is_node (bs_of fs div 4) \<nu> \<Longrightarrow> node contents fs' n \<nu> = node contents fs n \<nu>"
    "inode_ok contents fs' n" "owned contents fs' n = owned contents fs n" "index_blocks contents fs' n = index_blocks contents fs n"
proof -
  note bs = kept_facts [OF k]
  show nodes: "node contents fs' n \<nu> = node contents fs n \<nu>" if "is_node (bs_of fs div 4) \<nu>" for \<nu>
    by (rule node_kept [OF ok k W that])
  show "owned contents fs' n = owned contents fs n"
    unfolding owned_def bs(1) using nodes by (metis (no_types, lifting))
  show "index_blocks contents fs' n = index_blocks contents fs n"
    unfolding index_blocks_def bs(1) using nodes by (metis (no_types, lifting))
  have "data_block fs' (unat (node contents fs' n \<mu>)) \<and> unat (node contents fs' n \<mu>) \<notin> free_blocks contents fs'"
    if "is_node (bs_of fs' div 4) \<mu>" "node contents fs' n \<mu> \<noteq> 0" for \<mu>
    using that nodes [of \<mu>] inode_okD(1) [OF ok, of \<mu>] ownedI [of fs \<mu> contents n] free bs by auto
  moreover have "\<mu> = \<kappa>" if "is_node (bs_of fs' div 4) \<mu>" "is_node (bs_of fs' div 4) \<kappa>"
    "node contents fs' n \<mu> \<noteq> 0" "node contents fs' n \<mu> = node contents fs' n \<kappa>" for \<mu> \<kappa>
    using that nodes [of \<mu>] nodes [of \<kappa>] inode_okD(3) [OF ok, of \<kappa> \<mu>] bs by simp
  ultimately show "inode_ok contents fs' n" using ok unfolding inode_ok_def by metis
qed

section \<open>Touching one file only\<close>

text \<open>
  A sound open file. The count of sectors in the inode has room for all free blocks, so that it cannot overflow; it has
  in a file system whose size in sectors fits 32 bits.
\<close>

definition file_ok :: "('d \<Rightarrow> bool) \<Rightarrow> ('d \<Rightarrow> bytes) \<Rightarrow> 'd ext2 \<Rightarrow> ext2_file \<Rightarrow> bool" where
  "file_ok valid contents fs f \<longleftrightarrow> fs_ok valid contents fs \<and> inode_ok contents fs (f_inode f) \<and> inode_wf (f_inode f)
     \<and> unat (i_blocks (f_inode f)) + card (free_blocks contents fs) * (bs_of fs div 512) < 2 ^ 32"

definition touched :: "('d \<Rightarrow> bool) \<Rightarrow> ('d \<Rightarrow> bytes) \<Rightarrow> 'd ext2 \<Rightarrow> ext2_file \<Rightarrow> 'd ext2 \<Rightarrow> ext2_file \<Rightarrow> bool" where
  "touched valid contents fs f fs' f' \<longleftrightarrow> file_ok valid contents fs' f' \<and> f_ino f' = f_ino f
     \<and> free_blocks contents fs' \<subseteq> free_blocks contents fs \<and> free_inodes contents fs' = free_inodes contents fs
     \<and> owned contents fs' (f_inode f') \<subseteq> owned contents fs (f_inode f) \<union> free_blocks contents fs
     \<and> kept contents (owned contents fs (f_inode f) \<union> free_blocks contents fs) fs fs'
     \<and> (inode_size (f_inode f) = f_size f \<longrightarrow> inode_size (f_inode f') = f_size f')"

lemma touched_refl: "file_ok valid contents fs f \<Longrightarrow> touched valid contents fs f fs f"
  by (simp add: touched_def kept_def)

lemma touched_trans:
  assumes "touched valid contents fs f fs1 f1" "touched valid contents fs1 f1 fs2 f2"
  shows "touched valid contents fs f fs2 f2"
proof -
  let ?W = "owned contents fs (f_inode f) \<union> free_blocks contents fs"
  have sub: "owned contents fs1 (f_inode f1) \<union> free_blocks contents fs1 \<subseteq> ?W"
    using assms(1) by (auto simp: touched_def)
  have "kept contents (?W \<union> (owned contents fs1 (f_inode f1) \<union> free_blocks contents fs1)) fs fs2"
    using assms kept_trans by (auto simp: touched_def)
  then have "kept contents ?W fs fs2" using sub by (simp add: Un_absorb2)
  then show ?thesis using assms sub by (auto simp: touched_def)
qed

lemma file_okD:
  assumes "file_ok valid contents fs f"
  shows "fs_ok valid contents fs" "inode_ok contents fs (f_inode f)" "0 < bs_of fs"
  using assms fs_ok_facts(4) [of valid contents fs] by (auto simp: file_ok_def)

section \<open>Filling a hole\<close>

lemma grown_owned:
  assumes "grown valid contents fs n fs' n'" and n: "inode_ok contents fs n"
    and leaves: "\<And>\<mu>. is_leaf (bs_of fs div 4) \<mu> \<Longrightarrow> node contents fs' n' \<mu> \<noteq> 0 \<Longrightarrow>
      node contents fs' n' \<mu> = node contents fs n \<mu> \<or> unat (node contents fs' n' \<mu>) \<in> free_blocks contents fs"
  shows "owned contents fs' n' \<subseteq> owned contents fs n \<union> free_blocks contents fs"
    "kept contents (owned contents fs n \<union> free_blocks contents fs) fs fs'"
proof -
  have bs: "bs_of fs' = bs_of fs" using assms(1) kept_facts(1) by (auto simp: grown_def)
  have idx: "index_blocks contents fs' n' \<subseteq> index_blocks contents fs n \<union> free_blocks contents fs"
    using assms(1) by (auto simp: grown_def)
  show "owned contents fs' n' \<subseteq> owned contents fs n \<union> free_blocks contents fs"
  proof
    fix x assume "x \<in> owned contents fs' n'"
    then obtain \<mu> where \<mu>: "x = unat (node contents fs' n' \<mu>)" "is_node (bs_of fs div 4) \<mu>" "node contents fs' n' \<mu> \<noteq> 0"
      unfolding owned_def bs by blast
    show "x \<in> owned contents fs n \<union> free_blocks contents fs"
    proof (cases "is_leaf (bs_of fs div 4) \<mu>")
      case True
      then show ?thesis using leaves [OF True \<mu>(3)] ownedI [OF \<mu>(2), of contents n] \<mu> by auto
    next
      case False
      then have "x \<in> index_blocks contents fs' n'" using index_blocksI [of fs' \<mu> contents n'] \<mu> bs by simp
      then show ?thesis using idx index_owned by blast
    qed
  qed
  have "index_blocks contents fs n \<union> (free_blocks contents fs - free_blocks contents fs') \<subseteq> owned contents fs n \<union> free_blocks contents fs"
    using index_owned by blast
  then show "kept contents (owned contents fs n \<union> free_blocks contents fs) fs fs'"
    using assms(1) by (auto simp: grown_def elim: kept_mono)
qed

text \<open>The contents of a file when a hole gets a block of zeros, or an index block on the way to it.\<close>

lemma grown_file_byte:
  assumes g: "grown valid contents fs n fs' n'" and n: "inode_ok contents fs n"
    and leaf: "is_leaf (bs_of fs div 4) (file_path (bs_of fs div 4) (q div bs_of fs))"
    and same: "node contents fs' n' (file_path (bs_of fs div 4) (q div bs_of fs)) = node contents fs n (file_path (bs_of fs div 4) (q div bs_of fs))"
  shows "file_byte contents fs' n' q = file_byte contents fs n q"
proof -
  let ?\<nu> = "file_path (bs_of fs div 4) (q div bs_of fs)" and ?W = "index_blocks contents fs n \<union> (free_blocks contents fs - free_blocks contents fs')"
  have k: "kept contents ?W fs fs'" using g by (simp add: grown_def)
  have node: "is_node (bs_of fs div 4) ?\<nu>" using leaf by (simp add: is_leaf_def)
  show ?thesis
  proof (cases "node contents fs n ?\<nu> = 0")
    case True
    then show ?thesis using same kept_facts(1) [OF k] by (simp add: file_byte_def)
  next
    case False
    then have "unat (node contents fs n ?\<nu>) \<notin> ?W"
      using leaf_not_index [OF n leaf False] inode_okD(2) [OF n node False] by simp
    then show ?thesis by (rule file_byte_kept [OF k n node same])
  qed
qed

context disk
begin

lemma fill_hole_cache:
  assumes ok: "inode_ok contents fs n" and fb: "fb < 12" and c: "cache_ok contents fs f" "f_inode f = n"
    and v: "kept contents {unat v} fs fs1" "unat v \<notin> index_blocks contents fs n"
    and f': "i_block (f_inode f') = (i_block n)[fb := v]" "f_cache f' = f_cache f"
  shows "cache_ok contents fs1 f'"
proof -
  have d: "depth fb = 0" using fb by (simp add: depth_def)
  have "index_blocks contents fs n \<subseteq> index_blocks contents fs1 (f_inode f')"
  proof
    fix x assume "x \<in> index_blocks contents fs n"
    then obtain \<mu> where \<mu>: "x = unat (node contents fs n \<mu>)" "is_node (bs_of fs div 4) \<mu>" "\<not> is_leaf (bs_of fs div 4) \<mu>" "node contents fs n \<mu> \<noteq> 0"
      unfolding index_blocks_def by blast
    have "\<mu> \<noteq> (fb, [])" using \<mu>(3) fb by (auto simp: is_leaf_def is_node_def depth_def)
    then have "node contents fs1 (f_inode f') \<mu> = node contents fs n \<mu>"
      using node_slot [OF ok v(1) _ _ _ \<mu>(2), of fb v] v(2) fb d node_cong [of "f_inode f'" "n\<lparr>i_block := (i_block n)[fb := v]\<rparr>" contents fs1] f'(1) by simp
    then show "x \<in> index_blocks contents fs1 (f_inode f')"
      using index_blocksI [of fs1 \<mu> contents "f_inode f'"] \<mu> kept_facts(1) [OF v(1)] by simp
  qed
  then show ?thesis using cache_ok_kept [OF c(1) _ v(1)] ok c(2) v(2) f'(2) by simp
qed

text \<open>A block taken from the free ones and recorded in the map.\<close>

lemma record_leaf:
  assumes ok: "fs_ok valid contents fs" "inode_ok contents fs n" and fb: "fb < max_file_blocks (bs_of fs div 4)"
    and v: "unat v \<in> free_blocks contents fs" "free_blocks contents fs1 = free_blocks contents fs - {unat v}"
      "free_inodes contents fs1 = free_inodes contents fs" "fs_ok valid contents fs1" "kept contents {unat v} fs fs1"
  obtains r bl fs2 where "set_block_number bd fb v n fs1 = Some (r, n\<lparr>i_block := bl\<rparr>, fs2)"
    "grown valid contents fs n fs2 (n\<lparr>i_block := bl\<rparr>)"
    "\<And>\<mu>. is_leaf (bs_of fs div 4) \<mu> \<Longrightarrow> node contents fs2 (n\<lparr>i_block := bl\<rparr>) \<mu> =
      (if \<mu> = file_path (bs_of fs div 4) fb \<and> \<not> isl r then v else node contents fs n \<mu>)"
    "blk (contents (e_dev fs2)) (bs_of fs) (unat v) = blk (contents (e_dev fs1)) (bs_of fs) (unat v)"
    "case r of Inl e \<Rightarrow> e = NoSpace \<and> free_blocks contents fs2 = {} \<and> card (free_blocks contents fs) < 4
     | Inr meta \<Rightarrow> unat meta \<le> 3 \<and> 1 + unat meta + card (free_blocks contents fs2) = card (free_blocks contents fs)"
proof -
  let ?p = "bs_of fs div 4" and ?leaf = "file_path (bs_of fs div 4) fb"
  note fresh = fresh_block [OF ok v]
  have ok1: "inode_ok contents fs1 n" using fresh(6) by (simp add: grown_def)
  note k1 = kept_facts [OF v(5)]
  have "\<exists>r bl fs2. set_block_number bd fb v n fs1 = Some (r, n\<lparr>i_block := bl\<rparr>, fs2)
      \<and> recorded valid contents 3 (file_path (bs_of fs1 div 4) fb) v 0 fs1 n r fs2 (n\<lparr>i_block := bl\<rparr>)"
    using v(4) ok1 fb v(2) fresh k1 by (intro set_block_number_spec) simp_all
  then obtain r bl fs2 where r: "set_block_number bd fb v n fs1 = Some (r, n\<lparr>i_block := bl\<rparr>, fs2)"
    "recorded valid contents 3 ?leaf v 0 fs1 n r fs2 (n\<lparr>i_block := bl\<rparr>)"
    using k1(1) by auto
  let ?n = "n\<lparr>i_block := bl\<rparr>"
  have g2: "grown valid contents fs1 n fs2 ?n" using r(2) by (simp add: recorded_def)
  have leaves: "node contents fs2 ?n \<mu> = (if \<mu> = ?leaf \<and> \<not> isl r then v else node contents fs n \<mu>)" if "is_leaf ?p \<mu>" for \<mu>
    using recorded_leaf [OF r(2)] that fresh(5) k1(1) by (simp add: is_leaf_def)
  have "unat v \<notin> index_blocks contents fs1 n"
    using fresh(3,5) k1(1) by (auto simp: index_blocks_def simp flip: word_unat_eq_iff)
  then have data: "blk (contents (e_dev fs2)) (bs_of fs) (unat v) = blk (contents (e_dev fs1)) (bs_of fs) (unat v)"
    using g2 v(2) fresh(2) k1 by (auto simp: grown_def kept_def data_block_plain)
  have "case r of Inl e \<Rightarrow> e = NoSpace \<and> free_blocks contents fs2 = {} \<and> card (free_blocks contents fs) < 4
     | Inr meta \<Rightarrow> unat meta \<le> 3 \<and> 1 + unat meta + card (free_blocks contents fs2) = card (free_blocks contents fs)"
  proof (cases r)
    case (Inr meta)
    have sub: "free_blocks contents fs2 \<subseteq> free_blocks contents fs1" using g2 by (simp add: grown_def)
    have meta: "unat meta = card (free_blocks contents fs1 - free_blocks contents fs2)" "card (free_blocks contents fs1 - free_blocks contents fs2) \<le> 3"
      using r(2) Inr by (simp_all add: recorded_def unat_of_nat_small)
    note meta(1)
    also have "card (free_blocks contents fs1 - free_blocks contents fs2) = card (free_blocks contents fs1) - card (free_blocks contents fs2)"
      using sub by (simp add: card_Diff_subset finite_subset)
    finally show ?thesis
      using Inr meta v(1,2) card_mono [OF _ sub] card_Suc_Diff1 [of "free_blocks contents fs" "unat v"] by simp
  next
    case (Inl e)
    then show ?thesis using r(2) v(1,2) card_Suc_Diff1 [of "free_blocks contents fs" "unat v"] by (simp add: recorded_def)
  qed
  then show thesis using that r(1) grown_trans [OF fresh(6) g2] leaves data by blast
qed

text \<open>A new block of zeros in place of a hole.\<close>

lemma record_new_block:
  assumes ok: "fs_ok valid contents fs" "inode_ok contents fs n" and fb: "fb < max_file_blocks (bs_of fs div 4)"
    and hole: "node contents fs n (file_path (bs_of fs div 4) fb) = 0" and some: "free_blocks contents fs \<noteq> {}"
  obtains v fs1 r bl fs2 where "alloc_zeroed bd fs = Some (Inr v, fs1)" "set_block_number bd fb v n fs1 = Some (r, n\<lparr>i_block := bl\<rparr>, fs2)"
    "v \<noteq> 0" "unat v \<in> free_blocks contents fs" "kept contents {unat v} fs fs1" "unat v \<notin> index_blocks contents fs n"
    "grown valid contents fs n fs2 (n\<lparr>i_block := bl\<rparr>)"
    "\<And>\<mu>. is_leaf (bs_of fs div 4) \<mu> \<Longrightarrow> node contents fs2 (n\<lparr>i_block := bl\<rparr>) \<mu> =
      (if \<mu> = file_path (bs_of fs div 4) fb \<and> \<not> isl r then v else node contents fs n \<mu>)"
    "\<And>q. q < max_file_size fs \<Longrightarrow> file_byte contents fs2 (n\<lparr>i_block := bl\<rparr>) q = file_byte contents fs n q"
    "case r of Inl e \<Rightarrow> e = NoSpace \<and> free_blocks contents fs2 = {} \<and> card (free_blocks contents fs) < 4
     | Inr meta \<Rightarrow> unat meta \<le> 3 \<and> 1 + unat meta + card (free_blocks contents fs2) = card (free_blocks contents fs)"
proof -
  let ?p = "bs_of fs div 4" and ?leaf = "file_path (bs_of fs div 4) fb"
  have bs: "0 < bs_of fs" using fs_ok_facts(4) [OF ok(1)] by simp
  obtain v fs1 where v: "alloc_zeroed bd fs = Some (Inr v, fs1)" "unat v \<in> free_blocks contents fs"
    "free_blocks contents fs1 = free_blocks contents fs - {unat v}" "free_inodes contents fs1 = free_inodes contents fs"
    "fs_ok valid contents fs1" "kept contents {unat v} fs fs1"
    "blk (contents (e_dev fs1)) (bs_of fs) (unat v) = replicate (bs_of fs) 0"
    using alloc_zeroed_run [OF ok(1)] some by auto
  note fresh = fresh_block [OF ok v(2-6)]
  obtain r bl fs2 where r: "set_block_number bd fb v n fs1 = Some (r, n\<lparr>i_block := bl\<rparr>, fs2)"
    and g: "grown valid contents fs n fs2 (n\<lparr>i_block := bl\<rparr>)"
    and leaves: "\<And>\<mu>. is_leaf ?p \<mu> \<Longrightarrow> node contents fs2 (n\<lparr>i_block := bl\<rparr>) \<mu> = (if \<mu> = ?leaf \<and> \<not> isl r then v else node contents fs n \<mu>)"
    and zero: "blk (contents (e_dev fs2)) (bs_of fs) (unat v) = blk (contents (e_dev fs1)) (bs_of fs) (unat v)"
    and count: "case r of Inl e \<Rightarrow> e = NoSpace \<and> free_blocks contents fs2 = {} \<and> card (free_blocks contents fs) < 4
      | Inr meta \<Rightarrow> unat meta \<le> 3 \<and> 1 + unat meta + card (free_blocks contents fs2) = card (free_blocks contents fs)"
    by (rule record_leaf [OF ok fb v(2-6)]) (rule that)
  let ?n = "n\<lparr>i_block := bl\<rparr>"
  have bs2: "bs_of fs2 = bs_of fs" using g kept_facts(1) by (auto simp: grown_def)
  have bytes: "file_byte contents fs2 ?n q = file_byte contents fs n q" if q: "q < max_file_size fs" for q
  proof (cases "file_path ?p (q div bs_of fs) = ?leaf \<and> \<not> isl r")
    case True
    then show ?thesis
      using leaves [OF file_leaf [OF q bs]] hole fresh(1) zero v(7) bs2 bs by (simp add: file_byte_def)
  next
    case False
    then show ?thesis using leaves [OF file_leaf [OF q bs]] by (intro grown_file_byte [OF g ok(2) file_leaf [OF q bs]]) auto
  qed
  show thesis using that v(1,2,6) r fresh(1,4) g leaves bytes count by blast
qed

lemma fill_hole_run:
  assumes ok: "file_ok valid contents fs f" and c: "cache_ok contents fs f" and fb: "fb < max_file_blocks (bs_of fs div 4)"
    and hole: "node contents fs (f_inode f) (file_path (bs_of fs div 4) fb) = 0"
  shows "\<exists>r f' fs'. fill_hole bd fb f fs = Some (r, f', fs') \<and> touched valid contents fs f fs' f' \<and> f_pos f' = f_pos f \<and> f_size f' = f_size f
    \<and> (\<forall>q < max_file_size fs. file_byte contents fs' (f_inode f') q = file_byte contents fs (f_inode f) q)
    \<and> (case r of Inl e \<Rightarrow> e = NoSpace \<and> free_blocks contents fs' = {} \<and> card (free_blocks contents fs) < 4
       | Inr b \<Rightarrow> b \<noteq> 0 \<and> node contents fs' (f_inode f') (file_path (bs_of fs div 4) fb) = b \<and> cache_ok contents fs' f'
           \<and> card (free_blocks contents fs) \<le> card (free_blocks contents fs') + 4)"
proof (cases "free_blocks contents fs = {}")
  case True
  then have "fill_hole bd fb f fs = Some (Inl NoSpace, f, fs)"
    using alloc_zeroed_run [OF file_okD(1) [OF ok]] by (simp add: fill_hole_def)
  then show ?thesis using True touched_refl [OF ok] by simp
next
  case False
  let ?p = "bs_of fs div 4" and ?n = "f_inode f" and ?leaf = "file_path (bs_of fs div 4) fb"
  note n = file_okD [OF ok]
  obtain v fs1 r bl fs2 where run: "alloc_zeroed bd fs = Some (Inr v, fs1)" "set_block_number bd fb v ?n fs1 = Some (r, ?n\<lparr>i_block := bl\<rparr>, fs2)"
    and v: "v \<noteq> 0" "unat v \<in> free_blocks contents fs" "kept contents {unat v} fs fs1" "unat v \<notin> index_blocks contents fs ?n"
    and g: "grown valid contents fs ?n fs2 (?n\<lparr>i_block := bl\<rparr>)"
    and leaves: "\<And>\<mu>. is_leaf ?p \<mu> \<Longrightarrow> node contents fs2 (?n\<lparr>i_block := bl\<rparr>) \<mu> = (if \<mu> = ?leaf \<and> \<not> isl r then v else node contents fs ?n \<mu>)"
    and bytes: "\<And>q. q < max_file_size fs \<Longrightarrow> file_byte contents fs2 (?n\<lparr>i_block := bl\<rparr>) q = file_byte contents fs ?n q"
    and count: "case r of Inl e \<Rightarrow> e = NoSpace \<and> free_blocks contents fs2 = {} \<and> card (free_blocks contents fs) < 4
     | Inr meta \<Rightarrow> unat meta \<le> 3 \<and> 1 + unat meta + card (free_blocks contents fs2) = card (free_blocks contents fs)"
    by (rule record_new_block [OF n(1,2) fb hole False]) (rule that)
  let ?n' = "?n\<lparr>i_block := bl\<rparr>"
  note own = grown_owned [OF g n(2)]
  have ok2: "fs_ok valid contents fs2" "inode_ok contents fs2 ?n'" "bs_of fs2 = bs_of fs" "length bl = 15"
    using g kept_facts(1) by (auto simp: grown_def inode_ok_def)
  have touched: "touched valid contents fs f fs2 (f\<lparr>f_inode := n', f_cache := c'\<rparr>)"
    if "i_block n' = bl" "i_osd2 n' = i_osd2 ?n" "inode_size n' = inode_size ?n"
      "unat (i_blocks n') + card (free_blocks contents fs2) * (bs_of fs div 512) < 2 ^ 32" for n' c'
    using g own leaves v(2) ok ok2 that inode_ok_cong [of n' ?n' contents fs2] owned_cong [of n' ?n' contents fs2]
    by (auto simp: touched_def file_ok_def grown_def inode_wf_def split: if_splits)
  show ?thesis
  proof (cases r)
    case (Inl e)
    have "unat (i_blocks ?n) < 2 ^ 32" using unsigned_less [of "i_blocks ?n"] by simp
    then have "touched valid contents fs f fs2 (f\<lparr>f_inode := ?n', f_cache := f_cache f\<rparr>)"
      using Inl count by (intro touched) (simp_all add: inode_size_def)
    then show ?thesis using run Inl count bytes by (simp add: fill_hole_def)
  next
    case (Inr meta)
    let ?k = "bs_of fs div 512"
    obtain blocks where blocks: "unat (i_blocks ?n') + (1 + unat meta) * ?k = blocks" by blast
    let ?n'' = "?n'\<lparr>i_blocks := of_nat blocks\<rparr>" and ?c = "if fb \<ge> 12 then None else f_cache f"
    have "(1 + unat meta + card (free_blocks contents fs2)) * ?k = card (free_blocks contents fs) * ?k" using count Inr by simp
    then have "(1 + unat meta) * ?k + card (free_blocks contents fs2) * ?k = card (free_blocks contents fs) * ?k"
      by (simp only: add_mult_distrib)
    then have room: "blocks + card (free_blocks contents fs2) * ?k < 2 ^ 32" using ok blocks by (simp add: file_ok_def)
    then have lt: "blocks < 2 ^ 32" by linarith
    then have ub: "unat (of_nat blocks :: u32) = blocks" by (simp add: unat_of_nat_small)
    have t: "touched valid contents fs f fs2 (f\<lparr>f_inode := ?n'', f_cache := ?c\<rparr>)"
      using room ub by (intro touched) (simp_all add: inode_size_def)
    have "node contents fs2 ?n'' ?leaf = v"
      using leaves [OF file_path_leaf [OF fb]] Inr node_cong [of ?n'' ?n' contents fs2] by simp
    moreover have "file_byte contents fs2 ?n'' q = file_byte contents fs ?n q" if "q < max_file_size fs" for q
      using bytes [OF that] file_byte_cong [of ?n'' ?n' contents fs2] by simp
    moreover have "cache_ok contents fs2 (f\<lparr>f_inode := ?n'', f_cache := ?c\<rparr>)"
    proof (cases "fb < 12")
      case True
      then have "fs2 = fs1" and eq: "?n' = ?n\<lparr>i_block := (i_block ?n)[fb := v]\<rparr>" using run(2) by (simp_all add: set_block_number_def)
      moreover from arg_cong [OF eq, of i_block] have "bl = (i_block ?n)[fb := v]" by simp
      ultimately show ?thesis using True fill_hole_cache [OF n(2) True c refl v(3,4)] by simp
    qed (simp add: cache_ok_def)
    moreover have "fill_hole bd fb f fs = Some (Inr v, f\<lparr>f_inode := ?n'', f_cache := ?c\<rparr>, fs2)"
      using lt by (simp only: fill_hole_def run Inr option.case prod.case sum.case Let_def blocks) simp
    moreover have "card (free_blocks contents fs) \<le> card (free_blocks contents fs2) + 4" using count Inr by simp
    ultimately show ?thesis using t v(1) by (intro exI [of _ "Inr v"]) auto
  qed
qed

end

section \<open>Writing a chunk\<close>

text \<open>The number of blocks that a range of positions touches.\<close>

definition span :: "nat \<Rightarrow> nat \<Rightarrow> nat \<Rightarrow> nat" where
  "span bs pos k = (pos + k - 1) div bs - pos div bs + 1"

lemma span_step:
  fixes pos k c bs :: nat
  assumes "0 < bs" "c = bs - pos mod bs" "c < k"
  shows "span bs pos k = Suc (span bs (pos + c) (k - c))"
proof -
  have "pos + c = pos div bs * bs + bs" using assms(2) div_mult_mod_eq [of pos bs] mod_less_divisor [OF assms(1), of pos] by linarith
  then have d: "(pos + c) div bs = pos div bs + 1" using assms(1) by simp
  moreover have "pos + c + (k - c) - 1 = pos + k - 1" "pos + c \<le> pos + k - 1" using assms(3) by simp_all
  moreover have "(pos + c) div bs \<le> (pos + k - 1) div bs" using assms(3) by (intro div_le_mono) simp
  ultimately show ?thesis unfolding span_def by simp
qed

text \<open>The bytes of the file from the position on are replaced, and the position moves behind them.\<close>

definition written :: "('d \<Rightarrow> bool) \<Rightarrow> ('d \<Rightarrow> bytes) \<Rightarrow> bytes \<Rightarrow> 'd ext2 \<Rightarrow> ext2_file \<Rightarrow> 'd ext2 \<Rightarrow> ext2_file \<Rightarrow> bool" where
  "written valid contents data fs f fs' f' \<longleftrightarrow> touched valid contents fs f fs' f'
     \<and> unat (f_pos f') = unat (f_pos f) + length data
     \<and> unat (f_size f') = (if data = [] then unat (f_size f) else max (unat (f_size f)) (unat (f_pos f) + length data))
     \<and> (\<forall>q < max_file_size fs. file_byte contents fs' (f_inode f') q =
          (if unat (f_pos f) \<le> q \<and> q < unat (f_pos f) + length data then data ! (q - unat (f_pos f))
           else file_byte contents fs (f_inode f) q))"

lemma touched_shape: "touched valid contents fs f fs' f' \<Longrightarrow> shape fs' = shape fs"
  by (simp add: touched_def kept_def)

lemma max_file_size_shape: "shape fs' = shape fs \<Longrightarrow> max_file_size fs' = max_file_size fs"
  using shape_facts(1) [of fs' fs] by (simp add: max_file_size_def)

lemma written_append:
  assumes "written valid contents a fs f fs1 f1" "written valid contents b fs1 f1 fs2 f2"
  shows "written valid contents (a @ b) fs f fs2 f2"
proof -
  have m: "max_file_size fs1 = max_file_size fs" using assms(1) max_file_size_shape touched_shape by (metis written_def)
  have "file_byte contents fs2 (f_inode f2) q =
      (if unat (f_pos f) \<le> q \<and> q < unat (f_pos f) + length (a @ b) then (a @ b) ! (q - unat (f_pos f)) else file_byte contents fs (f_inode f) q)"
    if "q < max_file_size fs" for q
    using assms that m by (auto simp: written_def nth_append)
  then show ?thesis using assms touched_trans by (auto simp: written_def)
qed

lemma written_same:
  assumes "touched valid contents fs f fs' f'" "f_pos f' = f_pos f" "f_size f' = f_size f"
    and "\<forall>q < max_file_size fs. file_byte contents fs' (f_inode f') q = file_byte contents fs (f_inode f) q"
  shows "written valid contents [] fs f fs' f'"
  using assms by (auto simp: written_def)

lemma sub_slice_append: "i \<le> j \<Longrightarrow> j \<le> k \<Longrightarrow> sub_slice i j xs @ sub_slice j k xs = sub_slice i k xs"
  using take_add [of "j - i" "k - j" "drop i xs"] by (simp add: sub_slice_def)

lemma nth_copy_at:
  "off + length d \<le> length xs \<Longrightarrow> i < length xs \<Longrightarrow> copy_at off d xs ! i = (if off \<le> i \<and> i < off + length d then d ! (i - off) else xs ! i)"
  by (auto simp: copy_at_def nth_append)

lemma in_chunk:
  fixes pos q k bs :: nat
  assumes "pos mod bs + k \<le> bs" "0 < bs"
  shows "(pos \<le> q \<and> q < pos + k) \<longleftrightarrow> (q div bs = pos div bs \<and> pos mod bs \<le> q mod bs \<and> q mod bs < pos mod bs + k)"
    and "pos \<le> q \<Longrightarrow> q < pos + k \<Longrightarrow> q mod bs - pos mod bs = q - pos"
proof -
  have in_block: "q div bs = pos div bs \<and> q mod bs = pos mod bs + (q - pos)" if "pos \<le> q" "q < pos + k"
    using within_block [of pos bs "q - pos"] that assms(1) by simp
  show "(pos \<le> q \<and> q < pos + k) \<longleftrightarrow> (q div bs = pos div bs \<and> pos mod bs \<le> q mod bs \<and> q mod bs < pos mod bs + k)"
  proof
    assume *: "q div bs = pos div bs \<and> pos mod bs \<le> q mod bs \<and> q mod bs < pos mod bs + k"
    have "q = pos div bs * bs + q mod bs" "pos = pos div bs * bs + pos mod bs"
      using * div_mult_mod_eq [of q bs] div_mult_mod_eq [of pos bs] by simp_all
    then show "pos \<le> q \<and> q < pos + k" using * by linarith
  qed (use in_block in auto)
  show "q mod bs - pos mod bs = q - pos" if "pos \<le> q" "q < pos + k" using in_block [OF that] by simp
qed

lemma i_blocks_set_size [simp]: "i_blocks (inode_set_size sz n) = i_blocks n"
  by (simp add: inode_set_size_def)

lemma advance_facts:
  assumes "unat (f_pos f) + k < 2 ^ 64" "0 < k"
  shows "unat (f_pos (fst (advance k f d))) = unat (f_pos f) + k"
    and "unat (f_size (fst (advance k f d))) = max (unat (f_size f)) (unat (f_pos f) + k)"
    and "i_block (f_inode (fst (advance k f d))) = i_block (f_inode f)" "i_osd2 (f_inode (fst (advance k f d))) = i_osd2 (f_inode f)"
    and "i_blocks (f_inode (fst (advance k f d))) = i_blocks (f_inode f)"
    and "f_ino (fst (advance k f d)) = f_ino f" "f_cache (fst (advance k f d)) = f_cache f"
    and "inode_size (f_inode f) = f_size f \<Longrightarrow> inode_size (f_inode (fst (advance k f d))) = f_size (fst (advance k f d))"
    and "\<not> snd (advance k f d) \<Longrightarrow> \<not> d \<and> f_inode (fst (advance k f d)) = f_inode f"
proof -
  have "unat (f_pos f + of_nat k) = unat (f_pos f) + k" using assms(1) by (simp add: unat_word_ariths unat_of_nat)
  then show "unat (f_pos (fst (advance k f d))) = unat (f_pos f) + k"
    "unat (f_size (fst (advance k f d))) = max (unat (f_size f)) (unat (f_pos f) + k)"
    by (auto simp: advance_def Let_def word_less_nat_alt)
qed (auto simp: advance_def Let_def split: if_splits)

context disk
begin

lemma store_chunk_run:
  fixes b :: u32
  assumes ok: "fs_ok valid contents fs" and b: "data_block fs (unat b)" and fit: "off + length data \<le> bs_of fs"
  obtains fs' where "store_chunk bd b off data fs = Some (Inr (), fs')" "fs_ok valid contents fs'"
    "free_blocks contents fs' = free_blocks contents fs" "free_inodes contents fs' = free_inodes contents fs"
    "kept contents {unat b} fs fs'"
    "blk (contents (e_dev fs')) (bs_of fs) (unat b) = copy_at off data (blk (contents (e_dev fs)) (bs_of fs) (unat b))"
proof -
  let ?B = "blk (contents (e_dev fs)) (bs_of fs) (unat b)" and ?new = "copy_at off data (blk (contents (e_dev fs)) (bs_of fs) (unat b))"
  have len: "length ?B = bs_of fs" by (rule length_data_block [OF ok b])
  then have new: "length ?new = bs_of fs" using fit by simp
  note lt = data_block_less [OF b] and lay = fs_ok_facts(1) [OF ok]
  note w = data_write [OF ok data_block_plain [OF b], of 0 ?new, simplified, OF eq_imp_le [OF new]]
  have whole: "data = ?new" if "length data = bs_of fs" using that fit len by (simp add: copy_at_def)
  have "store_chunk bd b off data fs = Some (Inr (), put_dev bd (unat b * bs_of fs) ?new fs)"
  proof (cases "length data = bs_of fs")
    case True
    then show ?thesis using whole write_block_run(1) [OF lay lt new] by (simp add: store_chunk_def)
  next
    case False
    then show ?thesis
      using read_block_run [OF lay lt, of "replicate (bs_of fs) 0"] write_block_run(1) [OF lay lt new]
      by (simp add: store_chunk_def ebind_Some)
  qed
  moreover have "copy_at 0 ?new ?B = ?new" using len new by (simp add: copy_at_def)
  ultimately show thesis using that w by simp
qed

text \<open>One chunk, into a block the file has.\<close>

lemma chunk_run:
  assumes ok: "file_ok valid contents fs f" "cache_ok contents fs f" and data: "data \<noteq> []" "unat (f_pos f) + length data < 2 ^ 64"
    and pos: "unat (f_pos f) < max_file_size fs" "unat (f_pos f) mod bs_of fs + length data \<le> bs_of fs"
    and b: "b = node contents fs (f_inode f) (file_path (bs_of fs div 4) (unat (f_pos f) div bs_of fs))" "b \<noteq> 0"
  shows "\<exists>fs'. store_chunk bd b (unat (f_pos f) mod bs_of fs) data fs = Some (Inr (), fs')
    \<and> written valid contents data fs f fs' (fst (advance (length data) f d)) \<and> cache_ok contents fs' (fst (advance (length data) f d))
    \<and> free_blocks contents fs' = free_blocks contents fs"
proof -
  let ?n = "f_inode f" and ?pos = "unat (f_pos f)" and ?bs = "bs_of fs" and ?p = "bs_of fs div 4"
  let ?f = "fst (advance (length data) f d)"
  note n = file_okD [OF ok(1)]
  have len: "0 < length data" using data(1) by simp
  note adv = advance_facts [OF data(2) len, of d]
  have leaf: "is_leaf ?p (file_path ?p (?pos div ?bs))" by (rule file_leaf [OF pos(1) n(3)])
  then have node: "is_node ?p (file_path ?p (?pos div ?bs))" by (simp add: is_leaf_def)
  have db: "data_block fs (unat b)" "unat b \<notin> index_blocks contents fs ?n" "unat b \<in> owned contents fs ?n"
    using inode_okD(1) [OF n(2) node] leaf_not_index [OF n(2) leaf] ownedI [OF node, of contents ?n] b by simp_all
  obtain fs' where w: "store_chunk bd b (?pos mod ?bs) data fs = Some (Inr (), fs')" "fs_ok valid contents fs'"
    "free_blocks contents fs' = free_blocks contents fs" "free_inodes contents fs' = free_inodes contents fs" "kept contents {unat b} fs fs'"
    "blk (contents (e_dev fs')) ?bs (unat b) = copy_at (?pos mod ?bs) data (blk (contents (e_dev fs)) ?bs (unat b))"
    by (rule store_chunk_run [OF n(1) db(1) pos(2)])
  note k = kept_facts [OF w(5)]
  have free: "free_blocks contents fs' \<inter> owned contents fs ?n = {}" using owned_data(2) [OF n(2)] w(3) by auto
  have W: "{unat b} \<inter> index_blocks contents fs ?n = {}" using db(2) by simp
  note fr = index_frame [OF n(2) w(5) W free] and nodes = index_frame(1) [OF n(2) w(5) W free]
  have bytes: "file_byte contents fs' ?n q = (if ?pos \<le> q \<and> q < ?pos + length data then data ! (q - ?pos) else file_byte contents fs ?n q)"
    if q: "q < max_file_size fs" for q
  proof (cases "q div ?bs = ?pos div ?bs")
    case True
    have "q mod ?bs < length (blk (contents (e_dev fs)) ?bs (unat b))" using n(3) length_data_block [OF n(1) db(1)] by simp
    then show ?thesis
      using True nodes [OF node] b w(6) k(1) in_chunk [OF pos(2) n(3), of q] pos(2) length_data_block [OF n(1) db(1)]
      by (auto simp: file_byte_def nth_copy_at)
  next
    case False
    note lq = file_leaf [OF q n(3)]
    then have nq: "is_node ?p (file_path ?p (q div ?bs))" by (simp add: is_leaf_def)
    have "node contents fs ?n (file_path ?p (q div ?bs)) \<noteq> b"
      using inode_okD(3) [OF n(2) node _ nq] b False file_path_inj by metis
    then have "file_byte contents fs' ?n q = file_byte contents fs ?n q"
      by (intro file_byte_kept [OF w(5) n(2) nq nodes [OF nq]]) (simp flip: word_unat_eq_iff)
    then show ?thesis using False in_chunk(1) [OF pos(2) n(3), of q] by auto
  qed
  have "kept contents (owned contents fs ?n \<union> free_blocks contents fs) fs fs'" using w(5) db(3) by (elim kept_mono) auto
  then have "touched valid contents fs f fs' ?f"
    using ok(1) fr w(2-4) k(1) data(1) adv inode_ok_cong [OF adv(3), of contents fs'] owned_cong [OF adv(3), of contents fs']
    by (auto simp: touched_def file_ok_def inode_wf_def)
  then have "written valid contents data fs f fs' ?f"
    using bytes data(1) adv(1,2) file_byte_cong [OF adv(3), of contents fs'] by (simp add: written_def)
  moreover have "cache_ok contents fs' ?f"
    using cache_ok_kept [OF ok(2) n(2) w(5)] W fr(4) data(1) adv(7) index_blocks_cong [OF adv(3), of contents fs'] by simp
  ultimately show ?thesis using w(1,3) by blast
qed

text \<open>The block of the position, which is allocated for a hole.\<close>

lemma block_for_run:
  assumes ok: "file_ok valid contents fs f" "cache_ok contents fs f" and pos: "unat (f_pos f) < max_file_size fs"
  obtains b f1 r f2 fs2 where "file_get_block bd (unat (f_pos f) div bs_of fs mod 2 ^ 32) f fs = Some (Inr b, f1, fs)"
    "(if b = 0 then fill_hole bd (unat (f_pos f) div bs_of fs mod 2 ^ 32) f1 fs else Some (Inr b, f1, fs)) = Some (r, f2, fs2)"
    "written valid contents [] fs f fs2 f2" "b \<noteq> 0 \<Longrightarrow> f_inode f2 = f_inode f"
    "case r of Inl e \<Rightarrow> e = NoSpace \<and> free_blocks contents fs2 = {} \<and> card (free_blocks contents fs) < 4
     | Inr b' \<Rightarrow> b' \<noteq> 0 \<and> b' = node contents fs2 (f_inode f2) (file_path (bs_of fs div 4) (unat (f_pos f) div bs_of fs)) \<and> cache_ok contents fs2 f2
         \<and> card (free_blocks contents fs) \<le> card (free_blocks contents fs2) + 4"
proof -
  let ?fb = "unat (f_pos f) div bs_of fs" and ?n = "f_inode f"
  note n = file_okD [OF ok(1)]
  note fb = max_file_size_block [OF pos n(3)]
  obtain c where get: "file_get_block bd ?fb f fs = Some (Inr (node contents fs ?n (file_path (bs_of fs div 4) ?fb)), f\<lparr>f_cache := c\<rparr>, fs)"
    "cache_ok contents fs (f\<lparr>f_cache := c\<rparr>)"
    using file_get_block_run [OF n(1,2) fb(2) ok(2)] by blast
  let ?f1 = "f\<lparr>f_cache := c\<rparr>" and ?b = "node contents fs ?n (file_path (bs_of fs div 4) ?fb)"
  have ok1: "file_ok valid contents fs ?f1" using ok(1) by (simp add: file_ok_def)
  have t1: "touched valid contents fs f fs ?f1" using touched_refl [OF ok(1)] ok1 by (simp add: touched_def)
  show thesis
  proof (cases "?b = 0")
    case False
    then show thesis
      using that [of ?b ?f1 "Inr ?b" ?f1 fs] get fb(1) written_same [OF t1] by simp
  next
    case True
    from fill_hole_run [OF ok1 get(2) fb(2)] True obtain r f2 fs2 where fill: "fill_hole bd ?fb ?f1 fs = Some (r, f2, fs2)"
      "touched valid contents fs ?f1 fs2 f2" "f_pos f2 = f_pos f" "f_size f2 = f_size f"
      "\<forall>q < max_file_size fs. file_byte contents fs2 (f_inode f2) q = file_byte contents fs ?n q"
      "case r of Inl e \<Rightarrow> e = NoSpace \<and> free_blocks contents fs2 = {} \<and> card (free_blocks contents fs) < 4
       | Inr b \<Rightarrow> b \<noteq> 0 \<and> node contents fs2 (f_inode f2) (file_path (bs_of fs div 4) ?fb) = b \<and> cache_ok contents fs2 f2
           \<and> card (free_blocks contents fs) \<le> card (free_blocks contents fs2) + 4"
      by auto
    have "written valid contents [] fs f fs2 f2"
      using touched_trans [OF t1 fill(2)] fill(3-5) by (intro written_same) simp_all
    then show thesis using that [of ?b ?f1 r f2 fs2] get fill True fb(1) by (auto split: sum.splits)
  qed
qed

lemma write_loop_run:
  assumes "file_ok valid contents fs f" "cache_ok contents fs f" "filled \<le> length buf"
    and "unat (f_pos f) + (length buf - filled) \<le> max_file_size fs" "unat (f_pos f) + (length buf - filled) < 2 ^ 64"
  shows "\<exists>r f' fs' k. write_loop bd buf filled dirty f fs = Some (r, f', fs') \<and> filled + k \<le> length buf
    \<and> written valid contents (sub_slice filled (filled + k) buf) fs f fs' f'
    \<and> (case r of Inl e \<Rightarrow> e = NoSpace \<and> free_blocks contents fs' = {} \<and> filled + k < length buf
           \<and> card (free_blocks contents fs) < 4 * span (bs_of fs) (unat (f_pos f)) (length buf - filled)
       | Inr (amount, d) \<Rightarrow> amount = length buf \<and> filled + k = length buf \<and> cache_ok contents fs' f'
           \<and> (\<not> d \<longrightarrow> \<not> dirty \<and> f_inode f' = f_inode f))"
  using assms
proof (induction "length buf - filled" arbitrary: filled dirty f fs rule: less_induct)
  case less
  note ok = less.prems(1,2)
  let ?bs = "bs_of fs" and ?pos = "unat (f_pos f)"
  have bs: "0 < ?bs" using file_okD(3) [OF ok(1)] .
  show ?case
  proof (cases "filled < length buf")
    case False
    then have "filled = length buf" using less.prems(3) by simp
    then show ?thesis
      using ok written_same [OF touched_refl [OF ok(1)]] write_loop.simps [of bd buf filled dirty f fs]
      by (intro exI [of _ "Inr (length buf, dirty)"] exI [of _ f] exI [of _ fs] exI [of _ 0]) (simp add: sub_slice_def)
  next
    case True
    obtain off chunk data where defs: "off = ?pos mod ?bs" "chunk = min (?bs - off) (length buf - filled)"
      "data = sub_slice filled (filled + chunk) buf" by blast
    have chunk: "0 < chunk" "chunk \<le> length buf - filled" "off + chunk \<le> ?bs"
      using True bs mod_less_divisor [OF bs, of ?pos] unfolding defs by linarith+
    have data: "length data = chunk" using chunk(2) True by (simp add: defs(3))
    have pos: "?pos < max_file_size fs" "?pos + chunk < 2 ^ 64" using True chunk(2) less.prems(4,5) by linarith+
    obtain b f1 r f2 fs2 where step: "file_get_block bd (?pos div ?bs mod 2 ^ 32) f fs = Some (Inr b, f1, fs)"
      "(if b = 0 then fill_hole bd (?pos div ?bs mod 2 ^ 32) f1 fs else Some (Inr b, f1, fs)) = Some (r, f2, fs2)"
      and w2: "written valid contents [] fs f fs2 f2" and same: "b \<noteq> 0 \<Longrightarrow> f_inode f2 = f_inode f"
      and r: "case r of Inl e \<Rightarrow> e = NoSpace \<and> free_blocks contents fs2 = {} \<and> card (free_blocks contents fs) < 4
        | Inr b' \<Rightarrow> b' \<noteq> 0 \<and> b' = node contents fs2 (f_inode f2) (file_path (?bs div 4) (?pos div ?bs)) \<and> cache_ok contents fs2 f2
            \<and> card (free_blocks contents fs) \<le> card (free_blocks contents fs2) + 4"
      by (rule block_for_run [OF ok pos(1)]) (rule that)
    have bs0: "?bs \<noteq> 0" using bs by simp
    note run_simps = Let_def step True bs0 not_True_eq_False if_False defs(1) [symmetric] defs(2) [symmetric] defs(3) [symmetric]
    have sh: "shape fs2 = shape fs" using w2 touched_shape by (auto simp: written_def)
    note sh2 = shape_facts(1) [OF sh] max_file_size_shape [OF sh]
    have f2: "file_ok valid contents fs2 f2" "unat (f_pos f2) = ?pos" using w2 by (simp_all add: written_def touched_def)
    show ?thesis
    proof (cases r)
      case (Inl e)
      then have "write_loop bd buf filled dirty f fs = Some (Inl e, f2, fs2)"
        by (simp only: write_loop.simps [of bd buf filled dirty f fs] run_simps Inl option.case prod.case sum.case)
      then show ?thesis
        using Inl r w2 True by (intro exI [of _ "Inl e"] exI [of _ f2] exI [of _ fs2] exI [of _ 0]) (simp add: sub_slice_def span_def)
    next
      case (Inr b')
      let ?f3 = "fst (advance chunk f2 (dirty \<or> b = 0))" and ?d3 = "snd (advance chunk f2 (dirty \<or> b = 0))"
      have "\<exists>fs3. store_chunk bd b' (unat (f_pos f2) mod bs_of fs2) data fs2 = Some (Inr (), fs3)
          \<and> written valid contents data fs2 f2 fs3 (fst (advance (length data) f2 (dirty \<or> b = 0)))
          \<and> cache_ok contents fs3 (fst (advance (length data) f2 (dirty \<or> b = 0))) \<and> free_blocks contents fs3 = free_blocks contents fs2"
        using Inr r f2 sh2 chunk pos data defs(1) by (intro chunk_run) auto
      then obtain fs3 where st: "store_chunk bd b' off data fs2 = Some (Inr (), fs3)"
        "written valid contents data fs2 f2 fs3 ?f3" "cache_ok contents fs3 ?f3" "free_blocks contents fs3 = free_blocks contents fs2"
        using f2(2) sh2(1) data defs(1) by auto
      have run: "write_loop bd buf filled dirty f fs = write_loop bd buf (filled + chunk) ?d3 ?f3 fs3"
        by (simp only: write_loop.simps [of bd buf filled dirty f fs] run_simps Inr st(1) f2(2) pos(2) option.case prod.case sum.case if_True)
      have w3: "written valid contents data fs f fs3 ?f3" using written_append [OF w2 st(2)] by simp
      have f3: "file_ok valid contents fs3 ?f3" "unat (f_pos ?f3) = ?pos + chunk" "max_file_size fs3 = max_file_size fs" "bs_of fs3 = ?bs"
        using w3 data max_file_size_shape [of fs3 fs] shape_facts(1) [of fs3 fs] by (auto simp: written_def touched_def kept_def)
      have "\<exists>r f' fs' k. write_loop bd buf (filled + chunk) ?d3 ?f3 fs3 = Some (r, f', fs') \<and> filled + chunk + k \<le> length buf
        \<and> written valid contents (sub_slice (filled + chunk) (filled + chunk + k) buf) fs3 ?f3 fs' f'
        \<and> (case r of Inl e \<Rightarrow> e = NoSpace \<and> free_blocks contents fs' = {} \<and> filled + chunk + k < length buf
               \<and> card (free_blocks contents fs3) < 4 * span (bs_of fs3) (unat (f_pos ?f3)) (length buf - (filled + chunk))
           | Inr (amount, d) \<Rightarrow> amount = length buf \<and> filled + chunk + k = length buf \<and> cache_ok contents fs' f'
               \<and> (\<not> d \<longrightarrow> \<not> ?d3 \<and> f_inode f' = f_inode ?f3))"
        using chunk True f3 st(3) less.prems(4,5) by (intro less.hyps) auto
      then obtain r' f' fs' k where IH: "write_loop bd buf filled dirty f fs = Some (r', f', fs')" "filled + chunk + k \<le> length buf"
        "written valid contents (sub_slice (filled + chunk) (filled + chunk + k) buf) fs3 ?f3 fs' f'"
        "case r' of Inl e \<Rightarrow> e = NoSpace \<and> free_blocks contents fs' = {} \<and> filled + chunk + k < length buf
            \<and> card (free_blocks contents fs3) < 4 * span (bs_of fs3) (unat (f_pos ?f3)) (length buf - (filled + chunk))
         | Inr (amount, d) \<Rightarrow> amount = length buf \<and> filled + chunk + k = length buf \<and> cache_ok contents fs' f'
             \<and> (\<not> d \<longrightarrow> \<not> ?d3 \<and> f_inode f' = f_inode ?f3)"
        unfolding run by blast
      have "written valid contents (sub_slice filled (filled + (chunk + k)) buf) fs f fs' f'"
        using written_append [OF w3 IH(3)] sub_slice_append [of filled "filled + chunk" "filled + chunk + k" buf] by (simp add: defs(3) add.assoc)
      moreover have "\<not> ?d3 \<Longrightarrow> \<not> dirty \<and> f_inode ?f3 = f_inode f"
        using advance_facts(9) [of f2 chunk "dirty \<or> b = 0"] f2(2) pos(2) chunk(1) same by auto
      moreover have "card (free_blocks contents fs) < 4 * span ?bs ?pos (length buf - filled)"
        if "card (free_blocks contents fs3) < 4 * span (bs_of fs3) (unat (f_pos ?f3)) (length buf - (filled + chunk))" "filled + chunk + k < length buf"
      proof -
        have "span ?bs ?pos (length buf - filled) = Suc (span ?bs (?pos + chunk) (length buf - filled - chunk))"
          using that(2) bs by (intro span_step) (auto simp: defs(1,2))
        then show ?thesis using that(1) f3(2,4) st(4) r Inr by simp
      qed
      ultimately show ?thesis
        using IH(1,2,4) by (intro exI [of _ r'] exI [of _ f'] exI [of _ fs'] exI [of _ "chunk + k"]) (auto simp: add.assoc split: sum.splits)
    qed
  qed
qed

end

section \<open>Files that are not written\<close>

text \<open>A file none of whose blocks is written stays as it is.\<close>

lemma file_frame:
  assumes ok: "inode_ok contents fs n" and k: "kept contents W fs fs'" and W: "W \<inter> owned contents fs n = {}"
    and free: "free_blocks contents fs' \<inter> owned contents fs n = {}"
  shows "inode_ok contents fs' n" "index_blocks contents fs' n = index_blocks contents fs n"
    "\<And>q. 0 < bs_of fs \<Longrightarrow> q < max_file_size fs \<Longrightarrow> file_byte contents fs' n q = file_byte contents fs n q"
proof -
  have idx: "W \<inter> index_blocks contents fs n = {}" using W index_owned by blast
  note fr = index_frame [OF ok k idx free]
  show "inode_ok contents fs' n" "index_blocks contents fs' n = index_blocks contents fs n" by (rule fr)+
  show "file_byte contents fs' n q = file_byte contents fs n q" if "0 < bs_of fs" "q < max_file_size fs" for q
  proof -
    have nq: "is_node (bs_of fs div 4) (file_path (bs_of fs div 4) (q div bs_of fs))"
      using file_leaf [OF that(2,1)] by (simp add: is_leaf_def)
    show ?thesis
    proof (cases "node contents fs n (file_path (bs_of fs div 4) (q div bs_of fs)) = 0")
      case True
      then show ?thesis using fr(1) [OF nq] kept_facts(1) [OF k] by (simp add: file_byte_def)
    next
      case False
      then show ?thesis using ownedI [OF nq, of contents n] W by (intro file_byte_kept [OF k ok nq fr(1) [OF nq]]) auto
    qed
  qed
qed

lemma owned_not_slot:
  assumes "fs_ok valid contents fs" "inodes_aligned fs" "valid_ino fs ino" "inode_ok contents fs n"
  shows "fst (ino_slot fs ino) \<notin> owned contents fs n" "fst (ino_slot fs ino) \<notin> free_blocks contents fs"
proof -
  note s = ino_slot_facts(5) [OF assms(1-3)]
  show "fst (ino_slot fs ino) \<notin> owned contents fs n" using s owned_data(1) [OF assms(4)] by blast
  show "fst (ino_slot fs ino) \<notin> free_blocks contents fs" using s assms(1) by (auto simp: fs_ok_def)
qed

lemma touched_inodes:
  assumes t: "touched valid contents fs f fs' f'" and ok: "file_ok valid contents fs f" "inodes_aligned fs" "valid_ino fs ino"
  shows "disk_inode contents fs' ino = disk_inode contents fs ino"
proof -
  have "kept contents (owned contents fs (f_inode f) \<union> free_blocks contents fs) fs fs'" using t by (simp add: touched_def)
  moreover have "\<forall>b \<in> owned contents fs (f_inode f) \<union> free_blocks contents fs. data_block fs b"
    using owned_data(1) [OF file_okD(2) [OF ok(1)]] file_okD(1) [OF ok(1)] by (auto simp: fs_ok_def)
  ultimately show ?thesis using disk_inode_kept_data [OF _ file_okD(1) [OF ok(1)] ok(2,3)] by simp
qed

section \<open>A whole write\<close>

text \<open>What a write does: the bytes written, the blocks it may change, and the inodes on disk, of which it changes only its own.\<close>

definition write_effect :: "('d \<Rightarrow> bool) \<Rightarrow> ('d \<Rightarrow> bytes) \<Rightarrow> bytes \<Rightarrow> 'd ext2 \<Rightarrow> ext2_file \<Rightarrow> 'd ext2 \<Rightarrow> ext2_file \<Rightarrow> bool" where
  "write_effect valid contents data fs f fs' f' \<longleftrightarrow> file_ok valid contents fs' f' \<and> inode_size (f_inode f') = f_size f'
     \<and> unat (f_pos f') = unat (f_pos f) + length data
     \<and> unat (f_size f') = (if data = [] then unat (f_size f) else max (unat (f_size f)) (unat (f_pos f) + length data))
     \<and> (\<forall>q < max_file_size fs. file_byte contents fs' (f_inode f') q =
          (if unat (f_pos f) \<le> q \<and> q < unat (f_pos f) + length data then data ! (q - unat (f_pos f))
           else file_byte contents fs (f_inode f) q))
     \<and> free_blocks contents fs' \<subseteq> free_blocks contents fs \<and> free_inodes contents fs' = free_inodes contents fs
     \<and> kept contents (owned contents fs (f_inode f) \<union> free_blocks contents fs \<union> {fst (ino_slot fs (f_ino f))}) fs fs'
     \<and> (\<forall>ino. valid_ino fs ino \<and> ino \<noteq> f_ino f \<longrightarrow> disk_inode contents fs' ino = disk_inode contents fs ino)"

lemma written_effect:
  assumes w: "written valid contents data fs f fs' f'" and ok: "file_ok valid contents fs f" "inodes_aligned fs"
    and sz: "inode_size (f_inode f) = f_size f"
  shows "write_effect valid contents data fs f fs' f'"
proof -
  have t: "touched valid contents fs f fs' f'" using w by (simp add: written_def)
  have "kept contents (owned contents fs (f_inode f) \<union> free_blocks contents fs \<union> {fst (ino_slot fs (f_ino f))}) fs fs'"
    by (rule kept_mono [of _ "owned contents fs (f_inode f) \<union> free_blocks contents fs"]) (use t in \<open>auto simp: touched_def\<close>)
  then show ?thesis
    using w t touched_inodes [OF t ok] sz unfolding write_effect_def written_def touched_def by blast
qed

context disk
begin

lemma persist_run:
  assumes w: "written valid contents data fs f fs1 f1" and ok: "file_ok valid contents fs f" "inodes_aligned fs"
    and sz: "inode_size (f_inode f) = f_size f" and ino: "valid_ino fs (f_ino f)" and c: "cache_ok contents fs1 f1"
  obtains fs2 where "write_inode bd (f_ino f1) (f_inode f1) fs1 = Some (Inr (), fs2)" "write_effect valid contents data fs f fs2 f1"
    "cache_ok contents fs2 f1" "disk_inode contents fs2 (f_ino f) = f_inode f1"
proof -
  have t: "touched valid contents fs f fs1 f1" and sh: "shape fs1 = shape fs" and i: "f_ino f1 = f_ino f"
    using w by (auto simp: written_def touched_def kept_def)
  have ok1: "file_ok valid contents fs1 f1" "inodes_aligned fs1" "valid_ino fs1 (f_ino f)"
    using t ok(2) ino inodes_aligned_shape [OF sh] valid_ino_shape [OF sh] by (simp_all add: touched_def)
  note n1 = file_okD [OF ok1(1)]
  have wf: "inode_wf (f_inode f1)" using ok1(1) by (simp add: file_ok_def)
  have slot: "ino_slot fs1 (f_ino f) = ino_slot fs (f_ino f)" by (rule ino_slot_shape [OF sh ino])
  let ?s = "fst (ino_slot fs (f_ino f))"
  obtain fs2 where p: "write_inode bd (f_ino f) (f_inode f1) fs1 = Some (Inr (), fs2)" "fs_ok valid contents fs2"
    "free_blocks contents fs2 = free_blocks contents fs1" "free_inodes contents fs2 = free_inodes contents fs1" "kept contents {?s} fs1 fs2"
    "\<And>jno. valid_ino fs1 jno \<Longrightarrow> disk_inode contents fs2 jno = (if jno = f_ino f then f_inode f1 else disk_inode contents fs1 jno)"
    by (rule write_inode_run [OF n1(1) ok1(2,3) wf, unfolded slot]) (rule that)
  have out: "?s \<notin> owned contents fs1 (f_inode f1)" using owned_not_slot(1) [OF n1(1) ok1(2,3) n1(2)] slot by simp
  have free: "free_blocks contents fs2 \<inter> owned contents fs1 (f_inode f1) = {}" using owned_data(2) [OF n1(2)] p(3) by auto
  note fr = file_frame [OF n1(2) p(5) _ free]
  note k = kept_facts [OF p(5)]
  have "file_ok valid contents fs2 f1" using ok1(1) p(2,3) fr(1) out k(1) by (simp add: file_ok_def)
  moreover have "file_byte contents fs2 (f_inode f1) q = file_byte contents fs1 (f_inode f1) q" if "q < max_file_size fs" for q
    using fr(3) out n1(3) that max_file_size_shape [OF sh] by simp
  moreover have "kept contents (owned contents fs (f_inode f) \<union> free_blocks contents fs \<union> {?s}) fs fs2"
    using kept_trans [OF _ p(5)] t by (auto simp: touched_def)
  moreover have "disk_inode contents fs2 jno = (if jno = f_ino f then f_inode f1 else disk_inode contents fs jno)" if "valid_ino fs jno" for jno
    using p(6) [of jno] that valid_ino_shape [OF sh] touched_inodes [OF t ok that] by simp
  ultimately have "write_effect valid contents data fs f fs2 f1" "disk_inode contents fs2 (f_ino f) = f_inode f1"
    using w t sz p(3,4) ino by (auto simp: write_effect_def written_def touched_def)
  moreover have "cache_ok contents fs2 f1"
    using cache_ok_kept [OF c n1(2) p(5)] out index_owned fr(2) by fastforce
  ultimately show thesis using that p(1) i by simp
qed

lemma file_write_run:
  assumes ok: "file_ok valid contents fs f" "cache_ok contents fs f" "inodes_aligned fs"
    and ino: "valid_ino fs (f_ino f)" "disk_inode contents fs (f_ino f) = f_inode f" "inode_size (f_inode f) = f_size f"
    and fit: "unat (f_pos f) + length buf \<le> max_file_size fs" "unat (f_pos f) + length buf < 2 ^ 64"
  shows "\<exists>r f' fs' k. file_write bd buf f fs = Some (r, f', fs') \<and> write_effect valid contents (take k buf) fs f fs' f'
    \<and> (case r of
         Inr amount \<Rightarrow> amount = length buf \<and> k = length buf \<and> cache_ok contents fs' f' \<and> disk_inode contents fs' (f_ino f) = f_inode f'
       | Inl e \<Rightarrow> e = NoSpace \<and> free_blocks contents fs' = {} \<and> k < length buf \<and> disk_inode contents fs' (f_ino f) = f_inode f
           \<and> card (free_blocks contents fs) < 4 * span (bs_of fs) (unat (f_pos f)) (length buf))"
proof (cases "buf = []")
  case True
  then show ?thesis
    using ok written_effect [OF written_same [OF touched_refl [OF ok(1)]] ok(1,3) ino(3)] ino
    by (intro exI [of _ "Inr 0"] exI [of _ f] exI [of _ fs] exI [of _ 0]) (simp add: file_write_def)
next
  case False
  obtain r f1 fs1 k where run: "write_loop bd buf 0 False f fs = Some (r, f1, fs1)" "k \<le> length buf"
    "written valid contents (take k buf) fs f fs1 f1"
    "case r of Inl e \<Rightarrow> e = NoSpace \<and> free_blocks contents fs1 = {} \<and> k < length buf
         \<and> card (free_blocks contents fs) < 4 * span (bs_of fs) (unat (f_pos f)) (length buf)
     | Inr (amount, d) \<Rightarrow> amount = length buf \<and> k = length buf \<and> cache_ok contents fs1 f1 \<and> (\<not> d \<longrightarrow> f_inode f1 = f_inode f)"
    using write_loop_run [OF ok(1,2), of 0 buf False, unfolded sub_slice_def add_0 diff_zero drop_0 not_False_eq_True simp_thms] fit by auto
  note eff = written_effect [OF run(3) ok(1,3) ino(3)]
  have disk: "disk_inode contents fs1 (f_ino f) = f_inode f"
    using run(3) touched_inodes [OF _ ok(1,3) ino(1)] ino(2) by (auto simp: written_def)
  show ?thesis
  proof (cases r)
    case (Inl e)
    then show ?thesis using run False eff disk by (auto simp: file_write_def)
  next
    case (Inr x)
    obtain amount d where x: "x = (amount, d)" by (cases x)
    have c: "cache_ok contents fs1 f1" using run(4) Inr x by simp
    show ?thesis
    proof (cases d)
      case True
      obtain fs2 where p: "write_inode bd (f_ino f1) (f_inode f1) fs1 = Some (Inr (), fs2)" "write_effect valid contents (take k buf) fs f fs2 f1"
        "cache_ok contents fs2 f1" "disk_inode contents fs2 (f_ino f) = f_inode f1"
        by (rule persist_run [OF run(3) ok(1,3) ino(3,1) c])
      then show ?thesis
        using run Inr x True False by (intro exI [of _ "Inr amount"] exI [of _ f1] exI [of _ fs2] exI [of _ k]) (simp add: file_write_def)
    next
      case clean: False
      then show ?thesis
        using run Inr x False eff disk by (intro exI [of _ "Inr amount"] exI [of _ f1] exI [of _ fs1] exI [of _ k]) (simp add: file_write_def)
    qed
  qed
qed

end

text \<open>C3: Writing an open file, on a consistent file system with the inode of the open file on disk. The write either stores all bytes or runs
  out of free blocks after some of them, which needs fewer than four free blocks for every block of the range. In both cases exactly the bytes from the position on are replaced by the stored ones, holes before and between them
  still read as zeros, position and size are what they must be, every block outside the file and the free blocks and every other inode is unchanged, and
  all tables stay consistent. After a success the new inode is on disk; after a failure the disk still has the old one, whatever was stored.\<close>

theorem file_write_updates:
  assumes "device_contract bd valid contents False" "file_ok valid contents fs f" "cache_ok contents fs f" "inodes_aligned fs"
    and "valid_ino fs (f_ino f)" "disk_inode contents fs (f_ino f) = f_inode f" "inode_size (f_inode f) = f_size f"
    and "unat (f_pos f) + length buf \<le> max_file_size fs" "unat (f_pos f) + length buf < 2 ^ 64"
  shows "\<exists>r f' fs' k. file_write bd buf f fs = Some (r, f', fs') \<and> write_effect valid contents (take k buf) fs f fs' f'
    \<and> (case r of
         Inr amount \<Rightarrow> amount = length buf \<and> k = length buf \<and> cache_ok contents fs' f' \<and> disk_inode contents fs' (f_ino f) = f_inode f'
       | Inl e \<Rightarrow> e = NoSpace \<and> free_blocks contents fs' = {} \<and> k < length buf \<and> disk_inode contents fs' (f_ino f) = f_inode f
           \<and> card (free_blocks contents fs) < 4 * span (bs_of fs) (unat (f_pos f)) (length buf))"
  by (rule disk.file_write_run [OF disk.intro [OF assms(1)] assms(2-9)])

theorem file_write_updates_witness:
  "\<exists>f' fs'. file_write (virtio_device ram_transfers) [5, 6, 7, 8, 9] (demo_file\<lparr>f_pos := 1100\<rparr>) demo_disk = Some (Inr 5, f', fs')
     \<and> f_pos f' = 1105 \<and> f_size f' = 1500 \<and> file_byte vbi_device fs' (f_inode f') 1104 = 9 \<and> file_byte vbi_device fs' (f_inode f') 1105 = 0
     \<and> disk_inode vbi_device fs' 4 = f_inode f'"
proof -
  let ?fs = demo_disk and ?buf = "[5, 6, 7, 8, 9] :: bytes" and ?f = "demo_file\<lparr>f_pos := 1100\<rparr>"
  have ino: "f_ino ?f = 4" "inode_size (f_inode ?f) = f_size ?f"
    by (simp_all add: demo_file_def ext2_file_new_def)
  have sectors: "i_blocks demo_inode = 0" by code_simp
  have ok: "file_ok demo_valid vbi_device ?fs ?f"
    using demo_facts demo_inode_ok demo_table(2) sectors by (simp add: file_ok_def)
  have c: "cache_ok vbi_device ?fs ?f" by (simp add: cache_ok_def demo_facts)
  have al: "inodes_aligned ?fs" by (simp add: inodes_aligned_def demo_disk_def demo_fs_def dvd_def exI [of _ 8])
  have val: "valid_ino ?fs (f_ino ?f)" by (simp add: ino valid_ino_def demo_disk_def demo_fs_def)
  have slot: "ino_slot ?fs 4 = (5, 384)" by (simp add: ino_slot_def demo_disk_def demo_fs_def)
  have "blk (vbi_device (e_dev ?fs)) 1024 5 = replicate 384 0 @ inode_to_bytes demo_inode @ replicate 512 0"
    by (simp add: demo_disk_def demo_fs_def blk_def demo_image_def sub_slice_def demo_table(1))
  then have disk: "disk_inode vbi_device ?fs (f_ino ?f) = f_inode ?f"
    using slot demo_facts(2,4) demo_table by (simp add: ino disk_inode_def sub_slice_def inode_read_to_bytes inode_wf_def)
  have fit: "unat (f_pos ?f) + length ?buf \<le> max_file_size ?fs" "unat (f_pos ?f) + length ?buf < 2 ^ 64"
    by (simp_all add: demo_facts max_file_size_def max_file_blocks_def)
  obtain r f' fs' k where run: "file_write (virtio_device ram_transfers) ?buf ?f ?fs = Some (r, f', fs')"
    and eff: "write_effect demo_valid vbi_device (take k ?buf) ?fs ?f fs' f'"
    and r: "case r of
         Inr amount \<Rightarrow> amount = length ?buf \<and> k = length ?buf \<and> cache_ok vbi_device fs' f' \<and> disk_inode vbi_device fs' (f_ino ?f) = f_inode f'
       | Inl e \<Rightarrow> e = NoSpace \<and> free_blocks vbi_device fs' = {} \<and> k < length ?buf \<and> disk_inode vbi_device fs' (f_ino ?f) = f_inode ?f
           \<and> card (free_blocks vbi_device ?fs) < 4 * span (bs_of ?fs) (unat (f_pos ?f)) (length ?buf)"
    using file_write_updates [OF demo_contract ok c al val disk ino(2) fit] by blast
  have "span (bs_of ?fs) (unat (f_pos ?f)) (length ?buf) = 1" by (simp add: span_def demo_facts)
  then obtain amount where inr: "r = Inr amount" "amount = 5" "k = 5" "disk_inode vbi_device fs' 4 = f_inode f'"
    using r by (cases r) (simp_all add: demo_facts ino)
  have e: "unat (f_pos f') = 1105" "unat (f_size f') = 1500" "file_byte vbi_device fs' (f_inode f') 1104 = 9"
    "file_byte vbi_device fs' (f_inode f') 1105 = file_byte vbi_device ?fs demo_inode 1105"
    using eff inr(3) by (simp_all add: write_effect_def demo_facts max_file_size_def max_file_blocks_def)
  have "file_byte vbi_device ?fs demo_inode 1105 = 0"
    by (simp add: file_byte_def demo_facts(2) file_path_def node_def demo_facts(7))
  then show ?thesis using run inr e by (auto simp: word_unat_eq_iff)
qed

end
