(* ===== verification/Ext2_Dir_Map.thy ===== *)
theory Ext2_Dir_Map
  imports Ext2_Dir Ext2_Write
begin

text \<open>
  Directories as lists of entries: what looking up, adding and removing an entry do on a
  consistent disk.
\<close>

section \<open>The entries of a directory\<close>

definition collect_visitor :: "((bytes \<times> u32 \<times> u8) list, unit) visitor" where
  "collect_visitor entry name s = (None, s @ [(name, dr_inode entry, dr_file_type entry)])"

definition block_entries :: "bytes \<Rightarrow> (bytes \<times> u32 \<times> u8) list" where
  "block_entries buf = snd (walk_block collect_visitor buf 0 [])"

definition dir_blocks :: "'d ext2 \<Rightarrow> inode \<Rightarrow> nat" where
  "dir_blocks fs dir = div_ceil (unat (inode_size dir)) (bs_of fs)"

definition dir_block :: "('d \<Rightarrow> bytes) \<Rightarrow> 'd ext2 \<Rightarrow> inode \<Rightarrow> nat \<Rightarrow> u32" where
  "dir_block contents fs dir fb = node contents fs dir (file_path (bs_of fs div 4) fb)"

definition entries_at :: "('d \<Rightarrow> bytes) \<Rightarrow> 'd ext2 \<Rightarrow> inode \<Rightarrow> nat \<Rightarrow> (bytes \<times> u32 \<times> u8) list" where
  "entries_at contents fs dir fb = (let b = dir_block contents fs dir fb in
     if b = 0 then [] else block_entries (blk (contents (e_dev fs)) (bs_of fs) (unat b)))"

definition dir_entries :: "('d \<Rightarrow> bytes) \<Rightarrow> 'd ext2 \<Rightarrow> inode \<Rightarrow> (bytes \<times> u32 \<times> u8) list" where
  "dir_entries contents fs dir = concat (map (entries_at contents fs dir) [0..<dir_blocks fs dir])"

text \<open>A block that is a list of well-formed records, and a directory of such blocks.\<close>

definition records_block :: "bytes \<Rightarrow> bool" where
  "records_block buf \<longleftrightarrow> (\<exists>rs. list_all rec_ok rs \<and> buf = block_of rs)"

definition dir_ok :: "('d \<Rightarrow> bytes) \<Rightarrow> 'd ext2 \<Rightarrow> inode \<Rightarrow> bool" where
  "dir_ok contents fs dir \<longleftrightarrow> inode_ok contents fs dir \<and> bs_of fs < 65536
     \<and> dir_blocks fs dir \<le> max_file_blocks (bs_of fs div 4) \<and> dir_blocks fs dir < 2 ^ 32
     \<and> (\<forall>fb < dir_blocks fs dir. dir_block contents fs dir fb \<noteq> 0 \<longrightarrow>
          records_block (blk (contents (e_dev fs)) (bs_of fs) (unat (dir_block contents fs dir fb))))"

lemma upt_prefix: "[0..<n] = pre @ x # post \<Longrightarrow> pre = [0..<x]"
proof -
  assume eq: "[0..<n] = pre @ x # post"
  have len: "length pre < n" using arg_cong [OF eq, of length] by simp
  have "x = length pre" using arg_cong [OF eq, of "\<lambda>xs. xs ! length pre"] len by simp
  moreover have "pre = take (length pre) [0..<n]" using eq by simp
  ultimately show ?thesis using len by (simp add: take_upt)
qed

lemma div_ceil_alt: "0 < b \<Longrightarrow> (a + b - 1) div b = div_ceil a b"
proof -
  assume b: "0 < b"
  have "a + b - 1 = (a mod b + b - 1) + a div b * b" using b div_mult_mod_eq [of a b] by linarith
  then have eq: "(a + b - 1) div b = (a mod b + b - 1) div b + a div b" using b by (metis add.commute div_mult_self1 less_not_refl)
  show ?thesis
  proof (cases "a mod b = 0")
    case True
    then show ?thesis using eq b by (simp add: div_ceil_def)
  next
    case False
    have "(a mod b + b - 1) div b = 1"
      using False mod_less_divisor [OF b, of a] by (intro div_nat_eqI) simp_all
    then show ?thesis using eq False by (simp add: div_ceil_def)
  qed
qed

lemma le_div_ceil:
  assumes "0 < b"
  shows "a \<le> div_ceil a b * b"
proof -
  have "a \<le> a div b * b + b" "a mod b = 0 \<Longrightarrow> a \<le> a div b * b"
    using div_mult_mod_eq [of a b] mod_less_divisor [OF assms, of a] by linarith+
  then show ?thesis by (simp add: div_ceil_def add_mult_distrib)
qed

lemma div_ceil_Suc: "0 < b \<Longrightarrow> div_ceil (a + b) b = div_ceil a b + 1"
  using div_add_self2 [of b a] by (auto simp: div_ceil_def)

lemma dir_size:
  assumes "dir_ok contents fs dir" "0 < bs_of fs"
  shows "unat (inode_size dir) + 2 * bs_of fs < 2 ^ 64"
proof -
  have "unat (inode_size dir) \<le> dir_blocks fs dir * bs_of fs" using le_div_ceil [OF assms(2)] by (simp add: dir_blocks_def)
  also have "\<dots> \<le> 2 ^ 32 * 65536" using assms(1) by (intro mult_le_mono) (simp_all add: dir_ok_def)
  finally show ?thesis using assms(1) by (simp add: dir_ok_def)
qed

lemma visit_collect: "visit collect_visitor rs s = (None, s @ live rs)"
  by (induction rs arbitrary: s) (auto simp: collect_visitor_def)

lemma visit_append:
  "visit f (rs @ ss) s = (case visit f rs s of (Some v, s') \<Rightarrow> (Some v, s') | (None, s') \<Rightarrow> visit f ss s')"
  by (induction rs arbitrary: s) (auto split: prod.splits option.splits)

lemma visit_find: "visit (find_visitor name) rs () = (map_option fst (map_of (live rs) name), ())"
  by (induction rs) (auto simp: find_visitor_def)

lemma block_entries_records: "list_all rec_ok rs \<Longrightarrow> block_entries (block_of rs) = live rs"
  using walk_block_records [of rs collect_visitor "[]" "[]"] by (simp add: block_entries_def visit_collect)

text \<open>A walk over a well-formed block sees its entries and nothing else.\<close>

lemma walk_entries:
  assumes "records_block buf" and same: "\<And>rs s. visit f rs s = g (live rs) s"
  shows "walk_block f buf 0 s = g (block_entries buf) s"
proof -
  obtain rs where rs: "list_all rec_ok rs" "buf = block_of rs" using assms(1) by (auto simp: records_block_def)
  then show ?thesis using walk_block_records [OF rs(1), of f "[]" s] same by (simp add: block_entries_records)
qed

lemma dir_okD:
  assumes "dir_ok contents fs dir" "fb < dir_blocks fs dir"
  shows "fb < max_file_blocks (bs_of fs div 4)"
    "dir_block contents fs dir fb \<noteq> 0 \<Longrightarrow> records_block (blk (contents (e_dev fs)) (bs_of fs) (unat (dir_block contents fs dir fb)))"
    "dir_block contents fs dir fb \<noteq> 0 \<Longrightarrow> data_block fs (unat (dir_block contents fs dir fb))"
    "is_leaf (bs_of fs div 4) (file_path (bs_of fs div 4) fb)"
proof -
  show fb: "fb < max_file_blocks (bs_of fs div 4)" using assms by (simp add: dir_ok_def)
  then show leaf: "is_leaf (bs_of fs div 4) (file_path (bs_of fs div 4) fb)" by (rule file_path_leaf)
  show "dir_block contents fs dir fb \<noteq> 0 \<Longrightarrow> records_block (blk (contents (e_dev fs)) (bs_of fs) (unat (dir_block contents fs dir fb)))"
    using assms by (simp add: dir_ok_def)
  show "dir_block contents fs dir fb \<noteq> 0 \<Longrightarrow> data_block fs (unat (dir_block contents fs dir fb))"
    using assms(1) leaf inode_okD(1) [of contents fs dir] by (simp add: dir_ok_def dir_block_def is_leaf_def)
qed

section \<open>Looking up\<close>

context disk
begin

lemma dir_get_block:
  assumes "fs_ok valid contents fs" "dir_ok contents fs dir" "fb < dir_blocks fs dir"
  shows "get_block bd dir fb fs = Some (Inr (dir_block contents fs dir fb), fs)"
  using get_block_run [OF assms(1) _ dir_okD(1) [OF assms(2,3)]] assms(2) by (simp add: dir_ok_def dir_block_def)

lemma dir_read_block:
  assumes "fs_ok valid contents fs" "dir_ok contents fs dir" "fb < dir_blocks fs dir" "dir_block contents fs dir fb \<noteq> 0" "length buf = bs_of fs"
  shows "read_block bd (dir_block contents fs dir fb) buf fs =
    Some (Inr (blk (contents (e_dev fs)) (bs_of fs) (unat (dir_block contents fs dir fb))), fs)"
  using read_block_run [OF fs_ok_facts(1) [OF assms(1)] data_block_less [OF dir_okD(3) [OF assms(2-4)]] assms(5)] .

lemma walk_blocks_run:
  assumes ok: "fs_ok valid contents fs" "dir_ok contents fs dir" and fbs: "\<forall>fb \<in> set fbs. fb < dir_blocks fs dir"
    and len: "length buf = bs_of fs"
    and g: "\<And>rs s. visit f rs s = g (live rs) s" "\<And>s. g [] s = (None, s)"
      "\<And>xs ys s. g (xs @ ys) s = (case g xs s of (Some v, s') \<Rightarrow> (Some v, s') | (None, s') \<Rightarrow> g ys s')"
  shows "walk_blocks bd dir f fbs buf s fs = Some (Inr (g (concat (map (entries_at contents fs dir) fbs)) s), fs)"
  using fbs len
proof (induction fbs arbitrary: buf s)
  case Nil
  then show ?case by (simp add: g)
next
  case (Cons fb fbs)
  let ?b = "dir_block contents fs dir fb"
  have fb: "fb < dir_blocks fs dir" using Cons.prems(1) by simp
  note get = dir_get_block [OF ok fb]
  show ?case
  proof (cases "?b = 0")
    case True
    then show ?thesis using get Cons by (simp add: ebind_Some entries_at_def)
  next
    case False
    let ?buf = "blk (contents (e_dev fs)) (bs_of fs) (unat ?b)"
    have "length ?buf = bs_of fs" by (rule length_data_block [OF ok(1) dir_okD(3) [OF ok(2) fb False]])
    moreover have "walk_block f ?buf 0 s = g (entries_at contents fs dir fb) s"
      using walk_entries [OF dir_okD(2) [OF ok(2) fb False] g(1)] False by (simp add: entries_at_def)
    ultimately show ?thesis
      using get dir_read_block [OF ok fb False Cons.prems(2)] False Cons.IH Cons.prems(1)
      by (auto simp: ebind_Some g(3) split: prod.split option.split)
  qed
qed

lemma find_entry_run:
  assumes ok: "fs_ok valid contents fs" "dir_ok contents fs dir"
  shows "find_entry bd dir name fs =
    Some (case map_of (dir_entries contents fs dir) name of None \<Rightarrow> Inl NotFound | Some (ino, ft) \<Rightarrow> Inr ino, fs)"
proof -
  let ?g = "\<lambda>xs (s :: unit). (map_option fst (map_of xs name), ())"
  have "walk_blocks bd dir (find_visitor name) [0..<dir_blocks fs dir] (replicate (bs_of fs) 0) () fs =
      Some (Inr (?g (concat (map (entries_at contents fs dir) [0..<dir_blocks fs dir])) ()), fs)"
    by (rule walk_blocks_run [OF ok]) (auto simp: visit_find map_add_def split: option.split)
  then show ?thesis
    using ok(2) by (auto simp: find_entry_def for_each_dir_entry_def ebind_Some dir_ok_def dir_blocks_def dir_entries_def split: option.split)
qed

end

section \<open>Replacing a block of a directory\<close>

definition block_replaced :: "('d \<Rightarrow> bool) \<Rightarrow> ('d \<Rightarrow> bytes) \<Rightarrow> u32 \<Rightarrow> bytes \<Rightarrow> 'd ext2 \<Rightarrow> 'd ext2 \<Rightarrow> bool" where
  "block_replaced valid contents b new fs fs' \<longleftrightarrow> fs_ok valid contents fs' \<and> kept contents {unat b} fs fs'
     \<and> free_blocks contents fs' = free_blocks contents fs \<and> free_inodes contents fs' = free_inodes contents fs
     \<and> blk (contents (e_dev fs')) (bs_of fs) (unat b) = new"

context disk
begin

lemma write_block_replaced:
  assumes ok: "fs_ok valid contents fs" and b: "data_block fs (unat b)" and new: "length new = bs_of fs"
  obtains fs' where "write_block bd b new fs = Some (Inr (), fs')" "block_replaced valid contents b new fs fs'"
proof -
  note w = data_write [OF ok data_block_plain [OF b], of 0 new, simplified, OF eq_imp_le [OF new]]
  have "copy_at 0 new (blk (contents (e_dev fs)) (bs_of fs) (unat b)) = new"
    using length_data_block [OF ok b] new by (simp add: copy_at_def)
  then show thesis
    using that w write_block_run(1) [OF fs_ok_facts(1) [OF ok] data_block_less [OF b] new] by (simp add: block_replaced_def)
qed

end

lemma dir_replace:
  assumes ok: "fs_ok valid contents fs" "dir_ok contents fs dir" and fb: "fb < dir_blocks fs dir" "dir_block contents fs dir fb \<noteq> 0"
    and r: "block_replaced valid contents (dir_block contents fs dir fb) new fs fs'" and new: "records_block new"
  shows "dir_ok contents fs' dir" "dir_blocks fs' dir = dir_blocks fs dir"
    and "\<And>fb'. fb' < dir_blocks fs dir \<Longrightarrow> entries_at contents fs' dir fb' = (if fb' = fb then block_entries new else entries_at contents fs dir fb')"
proof -
  let ?b = "dir_block contents fs dir fb"
  have n: "inode_ok contents fs dir" using ok(2) by (simp add: dir_ok_def)
  have k: "kept contents {unat ?b} fs fs'" and free: "free_blocks contents fs' = free_blocks contents fs"
    using r by (simp_all add: block_replaced_def)
  note sh = kept_facts [OF k]
  note leaf = dir_okD(4) [OF ok(2)]
  have W: "{unat ?b} \<inter> index_blocks contents fs dir = {}"
    using leaf_not_index [OF n leaf [OF fb(1)]] fb(2) by (simp add: dir_block_def)
  have F: "free_blocks contents fs' \<inter> owned contents fs dir = {}" using owned_data(2) [OF n] free by auto
  note fr = index_frame [OF n k W F]
  show blocks: "dir_blocks fs' dir = dir_blocks fs dir" using sh(1) by (simp add: dir_blocks_def)
  have same: "dir_block contents fs' dir fb' = dir_block contents fs dir fb'" if "fb' < dir_blocks fs dir" for fb'
    using fr(1) leaf [OF that] sh(1) by (simp add: dir_block_def is_leaf_def)
  have other: "blk (contents (e_dev fs')) (bs_of fs) (unat (dir_block contents fs dir fb')) =
      (if fb' = fb then new else blk (contents (e_dev fs)) (bs_of fs) (unat (dir_block contents fs dir fb')))"
    if fb': "fb' < dir_blocks fs dir" "dir_block contents fs dir fb' \<noteq> 0" for fb'
  proof (cases "fb' = fb")
    case True
    then show ?thesis using r by (simp add: block_replaced_def)
  next
    case False
    then have "dir_block contents fs dir fb' \<noteq> ?b"
      using inode_okD(3) [OF n _ _ _ ] leaf [OF fb(1)] leaf [OF fb'(1)] fb(2) file_path_inj
      unfolding dir_block_def is_leaf_def by metis
    then have "unat (dir_block contents fs dir fb') \<notin> {unat ?b}" by (simp flip: word_unat_eq_iff)
    then show ?thesis using False k dir_okD(3) [OF ok(2) fb'] by (simp add: kept_def data_block_plain)
  qed
  show "entries_at contents fs' dir fb' = (if fb' = fb then block_entries new else entries_at contents fs dir fb')"
    if "fb' < dir_blocks fs dir" for fb'
    using same [OF that] other [OF that] fb(2) sh(1) by (auto simp: entries_at_def Let_def)
  show "dir_ok contents fs' dir"
    using ok(2) fr(2) same other new blocks sh(1) by (auto simp: dir_ok_def)
qed

lemma concat_entries:
  assumes "fb < dir_blocks fs dir"
  shows "dir_entries contents fs dir = concat (map (entries_at contents fs dir) [0..<fb]) @ entries_at contents fs dir fb
    @ concat (map (entries_at contents fs dir) [Suc fb..<dir_blocks fs dir])"
proof -
  have "[0..<dir_blocks fs dir] = [0..<fb] @ fb # [Suc fb..<dir_blocks fs dir]"
    using assms by (metis upt_add_eq_append upt_conv_Cons less_imp_le_nat le_add_diff_inverse zero_le)
  then show ?thesis by (simp add: dir_entries_def)
qed

text \<open>One block replaced by a well-formed one: the other entries stay, in order.\<close>

lemma dir_replace_entries:
  assumes "fs_ok valid contents fs" "dir_ok contents fs dir" "fb < dir_blocks fs dir" "dir_block contents fs dir fb \<noteq> 0"
    "block_replaced valid contents (dir_block contents fs dir fb) new fs fs'" "records_block new"
  shows "dir_entries contents fs' dir = concat (map (entries_at contents fs dir) [0..<fb]) @ block_entries new
    @ concat (map (entries_at contents fs dir) [Suc fb..<dir_blocks fs dir])"
proof -
  note r = dir_replace [OF assms]
  have a: "map (entries_at contents fs' dir) [0..<fb] = map (entries_at contents fs dir) [0..<fb]"
    using r(3) assms(3) by (intro map_cong refl) simp
  have b: "map (entries_at contents fs' dir) [Suc fb..<dir_blocks fs dir] = map (entries_at contents fs dir) [Suc fb..<dir_blocks fs dir]"
    using r(3) assms(3) by (intro map_cong refl) simp
  have "fb < dir_blocks fs' dir" using assms(3) r(2) by simp
  from concat_entries [OF this, of contents] show ?thesis using a b r(2) r(3) [OF assms(3)] by simp
qed

section \<open>Removing\<close>

lemma remove_entry_block:
  assumes "records_block buf" "length buf < 65536"
  shows "case remove_entry buf 0 None name of
      None \<Rightarrow> name \<notin> fst ` set (block_entries buf)
    | Some (ino, new) \<Rightarrow> records_block new \<and> length new = length buf
        \<and> (\<exists>xs ft ys. block_entries buf = xs @ (name, ino, ft) # ys \<and> name \<notin> fst ` set xs \<and> block_entries new = xs @ ys)"
proof -
  obtain rs where rs: "list_all rec_ok rs" "buf = block_of rs" using assms(1) by (auto simp: records_block_def)
  have e: "block_entries buf = live rs" using rs by (simp add: block_entries_records)
  have run: "remove_entry buf 0 None name = map_option (map_prod id block_of) (remove_rec None rs name)"
    using remove_entry_records [OF rs(1), of "[]" None name] assms(2) rs(2) by (auto simp: id_def map_prod_def)
  show ?thesis
  proof (cases "remove_rec None rs name")
    case None
    then show ?thesis using remove_rec_live [OF rs(1), of None name] assms(2) rs(2) run e by simp
  next
    case (Some x)
    then obtain ino rs' where x: "x = (ino, rs')" by (cases x)
    have l: "list_all rec_ok rs'" "length (block_of rs') = length buf"
      "\<exists>xs ft ys. live rs = xs @ (name, ino, ft) # ys \<and> name \<notin> fst ` set xs \<and> live rs' = xs @ ys"
      using remove_rec_live [OF rs(1), of None name] assms(2) rs(2) Some x by auto
    then have "records_block (block_of rs')" "block_entries (block_of rs') = live rs'"
      by (auto simp: records_block_def block_entries_records)
    then show ?thesis using run e l Some x by simp
  qed
qed

text \<open>The outcome of a removal in some blocks of a directory.\<close>

definition removed_in ::
  "('d \<Rightarrow> bool) \<Rightarrow> ('d \<Rightarrow> bytes) \<Rightarrow> 'd ext2 \<Rightarrow> inode \<Rightarrow> bytes \<Rightarrow> nat list \<Rightarrow> fs_error + u32 \<times> inode \<Rightarrow> 'd ext2 \<Rightarrow> bool" where
  "removed_in valid contents fs dir name fbs r fs' \<longleftrightarrow> (case r of
      Inl e \<Rightarrow> e = NotFound \<and> fs' = fs \<and> (\<forall>fb \<in> set fbs. name \<notin> fst ` set (entries_at contents fs dir fb))
    | Inr (ino, dir') \<Rightarrow> dir' = dir \<and> (\<exists>pre fb post new xs ft ys. fbs = pre @ fb # post
        \<and> (\<forall>p \<in> set pre. name \<notin> fst ` set (entries_at contents fs dir p)) \<and> dir_block contents fs dir fb \<noteq> 0
        \<and> block_replaced valid contents (dir_block contents fs dir fb) new fs fs' \<and> records_block new
        \<and> entries_at contents fs dir fb = xs @ (name, ino, ft) # ys \<and> name \<notin> fst ` set xs \<and> block_entries new = xs @ ys))"

lemma removed_in_skip:
  assumes "name \<notin> fst ` set (entries_at contents fs dir fb)" "removed_in valid contents fs dir name fbs r fs'"
  shows "removed_in valid contents fs dir name (fb # fbs) r fs'"
proof (cases r)
  case (Inr x)
  obtain ino dir' where x: "x = (ino, dir')" by (cases x)
  obtain pre fb' post new xs ft ys where *: "dir' = dir" "fbs = pre @ fb' # post"
    "\<forall>p \<in> set pre. name \<notin> fst ` set (entries_at contents fs dir p)" "dir_block contents fs dir fb' \<noteq> 0"
    "block_replaced valid contents (dir_block contents fs dir fb') new fs fs'" "records_block new"
    "entries_at contents fs dir fb' = xs @ (name, ino, ft) # ys" "name \<notin> fst ` set xs" "block_entries new = xs @ ys"
    using assms(2) [unfolded Inr x removed_in_def sum.case prod.case] by blast
  have "fb # fbs = (fb # pre) @ fb' # post" "\<forall>p \<in> set (fb # pre). name \<notin> fst ` set (entries_at contents fs dir p)"
    using assms(1) * by simp_all
  then show ?thesis unfolding Inr x removed_in_def sum.case prod.case using * by blast
qed (use assms in \<open>simp add: removed_in_def\<close>)

lemma removed_in_here:
  assumes "dir_block contents fs dir fb \<noteq> 0" "block_replaced valid contents (dir_block contents fs dir fb) new fs fs'" "records_block new"
    "\<exists>xs ft ys. entries_at contents fs dir fb = xs @ (name, ino, ft) # ys \<and> name \<notin> fst ` set xs \<and> block_entries new = xs @ ys"
  shows "removed_in valid contents fs dir name (fb # fbs) (Inr (ino, dir)) fs'"
proof -
  have "fb # fbs = [] @ fb # fbs" by simp
  then show ?thesis using assms unfolding removed_in_def sum.case prod.case by (metis empty_iff list.set(1))
qed

context disk
begin

lemma remove_in_blocks_run:
  assumes ok: "fs_ok valid contents fs" "dir_ok contents fs dir" and fbs: "\<forall>fb \<in> set fbs. fb < dir_blocks fs dir"
    and len: "length buf = bs_of fs"
  shows "\<exists>r fs'. remove_in_blocks bd dir name fbs buf fs = Some (r, fs') \<and> removed_in valid contents fs dir name fbs r fs'"
  using fbs len
proof (induction fbs arbitrary: buf)
  case (Cons fb fbs)
  let ?b = "dir_block contents fs dir fb"
  have fb: "fb < dir_blocks fs dir" using Cons.prems(1) by simp
  note get = dir_get_block [OF ok fb]
  have skip: ?case if "name \<notin> fst ` set (entries_at contents fs dir fb)" "length buf' = bs_of fs"
    "remove_in_blocks bd dir name (fb # fbs) buf fs = remove_in_blocks bd dir name fbs buf' fs" for buf'
    using Cons.IH [of buf'] Cons.prems(1) that removed_in_skip [of name contents fs dir fb valid fbs] by auto
  show ?case
  proof (cases "?b = 0")
    case True
    then show ?thesis using get Cons.prems(2) by (intro skip [of buf]) (simp_all add: ebind_Some entries_at_def)
  next
    case False
    let ?buf = "blk (contents (e_dev fs)) (bs_of fs) (unat ?b)"
    note db = dir_okD(3) [OF ok(2) fb False]
    have lenb: "length ?buf = bs_of fs" by (rule length_data_block [OF ok(1) db])
    have e: "entries_at contents fs dir fb = block_entries ?buf" using False by (simp add: entries_at_def)
    have small: "length ?buf < 65536" using lenb ok(2) by (simp add: dir_ok_def)
    note rem = remove_entry_block [OF dir_okD(2) [OF ok(2) fb False] small, of name]
    note read = dir_read_block [OF ok fb False Cons.prems(2)]
    show ?thesis
    proof (cases "remove_entry ?buf 0 None name")
      case None
      then show ?thesis using get read rem False lenb e by (intro skip [of ?buf]) (simp_all add: ebind_Some)
    next
      case (Some x)
      then obtain ino new where x: "x = (ino, new)" by (cases x)
      then have new: "records_block new" "length new = bs_of fs"
        "\<exists>xs ft ys. block_entries ?buf = xs @ (name, ino, ft) # ys \<and> name \<notin> fst ` set xs \<and> block_entries new = xs @ ys"
        using rem Some lenb by auto
      obtain fs' where "write_block bd ?b new fs = Some (Inr (), fs')" "block_replaced valid contents ?b new fs fs'"
        by (rule write_block_replaced [OF ok(1) db new(2)])
      then have "remove_in_blocks bd dir name (fb # fbs) buf fs = Some (Inr (ino, dir), fs')" "block_replaced valid contents ?b new fs fs'"
        using get read False Some x by (simp_all add: ebind_Some)
      then show ?thesis
        using removed_in_here [of contents fs dir fb valid new fs' name ino fbs] new e False by auto
    qed
  qed
qed (simp add: removed_in_def)

lemma remove_dir_entry_run:
  assumes ok: "fs_ok valid contents fs" "dir_ok contents fs dir"
  shows "\<exists>r fs'. remove_dir_entry bd dir name fs = Some (r, fs') \<and> fs_ok valid contents fs' \<and> dir_ok contents fs' dir
    \<and> kept contents (owned contents fs dir) fs fs'
    \<and> free_blocks contents fs' = free_blocks contents fs \<and> free_inodes contents fs' = free_inodes contents fs
    \<and> (case r of
         Inl e \<Rightarrow> e = NotFound \<and> fs' = fs \<and> name \<notin> fst ` set (dir_entries contents fs dir)
       | Inr (ino, dir') \<Rightarrow> dir' = dir \<and> (\<exists>xs ft ys. dir_entries contents fs dir = xs @ (name, ino, ft) # ys
           \<and> name \<notin> fst ` set xs \<and> dir_entries contents fs' dir = xs @ ys))"
proof -
  have bs: "0 < bs_of fs" using fs_ok_facts(4) [OF ok(1)] by simp
  let ?n = "dir_blocks fs dir"
  have num: "(unat (inode_size dir) + bs_of fs - 1) div bs_of fs mod 2 ^ 32 = ?n"
    using ok(2) unfolding div_ceil_alt [OF bs] by (simp add: dir_ok_def dir_blocks_def)
  obtain r fs' where r: "remove_in_blocks bd dir name [0..<?n] (replicate (bs_of fs) 0) fs = Some (r, fs')"
    "removed_in valid contents fs dir name [0..<?n] r fs'"
    using remove_in_blocks_run [OF ok, of "[0..<?n]" "replicate (bs_of fs) 0" name] by auto
  have run: "remove_dir_entry bd dir name fs = Some (r, fs')"
    using r(1) num dir_size [OF ok(2) bs] by (simp add: remove_dir_entry_def ebind_Some Let_def)
  show ?thesis
  proof (cases r)
    case (Inl e)
    then show ?thesis using run r(2) ok by (auto simp: removed_in_def dir_entries_def kept_def)
  next
    case (Inr x)
    obtain ino dir' where x: "x = (ino, dir')" by (cases x)
    obtain pre fb post new xs ft ys where *: "dir' = dir" "[0..<?n] = pre @ fb # post"
      "\<forall>p \<in> set pre. name \<notin> fst ` set (entries_at contents fs dir p)" "dir_block contents fs dir fb \<noteq> 0"
      "block_replaced valid contents (dir_block contents fs dir fb) new fs fs'" "records_block new"
      "entries_at contents fs dir fb = xs @ (name, ino, ft) # ys" "name \<notin> fst ` set xs" "block_entries new = xs @ ys"
      using r(2) [unfolded Inr x removed_in_def sum.case prod.case] by blast
    have "fb \<in> set [0..<?n]" using *(2) by (simp only: set_append set_simps) simp
    then have fb: "fb < ?n" by simp
    have pre: "pre = [0..<fb]" by (rule upt_prefix [OF *(2)])
    note rep = dir_replace [OF ok fb *(4-6)]
    let ?pre = "concat (map (entries_at contents fs dir) [0..<fb])" and ?post = "concat (map (entries_at contents fs dir) [Suc fb..<?n])"
    have "dir_entries contents fs dir = (?pre @ xs) @ (name, ino, ft) # (ys @ ?post)" "name \<notin> fst ` set (?pre @ xs)"
      "dir_entries contents fs' dir = (?pre @ xs) @ (ys @ ?post)"
      using concat_entries [OF fb, of contents] dir_replace_entries [OF ok fb *(4-6)] *(3,7-9) pre by auto
    then have ex: "\<exists>xs ft ys. dir_entries contents fs dir = xs @ (name, ino, ft) # ys \<and> name \<notin> fst ` set xs \<and> dir_entries contents fs' dir = xs @ ys"
      by blast
    have "unat (dir_block contents fs dir fb) \<in> owned contents fs dir"
      using ownedI [of fs "file_path (bs_of fs div 4) fb" contents dir] dir_okD(4) [OF ok(2) fb] *(4) by (simp add: dir_block_def is_leaf_def)
    then have "kept contents (owned contents fs dir) fs fs'"
      using *(5) by (auto simp: block_replaced_def elim: kept_mono)
    then show ?thesis using run Inr x *(1,5) rep(1) ex by (simp add: block_replaced_def)
  qed
qed

end

section \<open>Adding\<close>

lemma place_entry_block:
  assumes "records_block buf" "length name < 256" "ino \<noteq> 0" "name \<notin> fst ` set (block_entries buf)"
  shows "\<exists>r. place_entry buf 0 name ino ft = Some r \<and> (case r of Duplicate \<Rightarrow> False | NoRoom \<Rightarrow> True
    | Placed new \<Rightarrow> records_block new \<and> length new = length buf \<and> inserted (name, ino, ft) (block_entries buf) (block_entries new))"
proof -
  obtain rs where rs: "list_all rec_ok rs" "buf = block_of rs" using assms(1) by (auto simp: records_block_def)
  have e: "block_entries buf = live rs" using rs by (simp add: block_entries_records)
  have run: "place_entry buf 0 name ino ft = Some (slot_of [] (place_rec rs name ino ft))"
    using place_entry_records [OF rs(1) assms(2), of "[]"] rs(2) by simp
  obtain r where r: "place_rec rs name ino ft = Some r" "case r of None \<Rightarrow> \<forall>r \<in> set rs. r_slack r < entry_size (length name)
      | Some rs' \<Rightarrow> list_all rec_ok rs' \<and> length (block_of rs') = length (block_of rs) \<and> inserted (name, ino, ft) (live rs) (live rs')"
    using place_rec_live [OF rs(1) assms(2,3)] assms(4) e by auto
  then show ?thesis
    using run rs e by (cases r) (auto simp: slot_of_def records_block_def block_entries_records)
qed

lemma inserted_middle: "inserted x ys zs \<Longrightarrow> inserted x (a @ ys @ b) (a @ zs @ b)"
  unfolding inserted_def by (metis append.assoc append_Cons)

context disk
begin

text \<open>The scan for room: it either reaches the end, with nothing changed, or places the entry in one block.\<close>

lemma add_in_blocks_run:
  assumes ok: "fs_ok valid contents fs" "dir_ok contents fs dir" and fbs: "\<forall>fb \<in> set fbs. fb < dir_blocks fs dir"
    and len: "length buf = bs_of fs" and name: "length name < 256" "ino \<noteq> 0" "\<forall>fb \<in> set fbs. name \<notin> fst ` set (entries_at contents fs dir fb)"
  shows "add_in_blocks bd dir name ino ft num fbs buf fs = extend_dir bd dir num name ino ft fs
    \<or> (\<exists>fs' fb new. fb \<in> set fbs \<and> add_in_blocks bd dir name ino ft num fbs buf fs = Some (Inr (ino, dir), fs')
        \<and> dir_block contents fs dir fb \<noteq> 0 \<and> block_replaced valid contents (dir_block contents fs dir fb) new fs fs'
        \<and> records_block new \<and> inserted (name, ino, ft) (entries_at contents fs dir fb) (block_entries new))"
  using fbs len name(3)
proof (induction fbs arbitrary: buf)
  case (Cons fb fbs)
  let ?b = "dir_block contents fs dir fb"
  have fb: "fb < dir_blocks fs dir" using Cons.prems(1) by simp
  have get: "guarding (drop_inode_guard ino) (get_block bd dir fb) fs = Some (Inr ?b, fs)"
    using dir_get_block [OF ok fb] by (simp add: guarding_def)
  have skip: ?case
    if eq: "add_in_blocks bd dir name ino ft num (fb # fbs) buf fs = add_in_blocks bd dir name ino ft num fbs buf' fs" and l: "length buf' = bs_of fs" for buf'
  proof -
    have "\<forall>fb \<in> set fbs. fb < dir_blocks fs dir" "\<forall>fb \<in> set fbs. name \<notin> fst ` set (entries_at contents fs dir fb)"
      using Cons.prems(1,3) by simp_all
    from Cons.IH [OF this(1) l this(2)] show ?thesis unfolding eq by (meson list.set_intros(2))
  qed
  show ?case
  proof (cases "?b = 0")
    case True
    then show ?thesis using get Cons.prems(2) by (intro skip [of buf]) (simp_all add: ebind_Some)
  next
    case False
    let ?buf = "blk (contents (e_dev fs)) (bs_of fs) (unat ?b)"
    note db = dir_okD(3) [OF ok(2) fb False]
    have lenb: "length ?buf = bs_of fs" by (rule length_data_block [OF ok(1) db])
    have e: "entries_at contents fs dir fb = block_entries ?buf" using False by (simp add: entries_at_def)
    have read: "guarding (drop_inode_guard ino) (read_block bd ?b buf) fs = Some (Inr ?buf, fs)"
      using dir_read_block [OF ok fb False Cons.prems(2)] by (simp add: guarding_def)
    have fresh: "name \<notin> fst ` set (block_entries ?buf)" using Cons.prems(3) e by simp
    obtain r where r: "place_entry ?buf 0 name ino ft = Some r" "case r of Duplicate \<Rightarrow> False | NoRoom \<Rightarrow> True
      | Placed new \<Rightarrow> records_block new \<and> length new = length ?buf \<and> inserted (name, ino, ft) (block_entries ?buf) (block_entries new)"
      using place_entry_block [OF dir_okD(2) [OF ok(2) fb False] name(1,2), of ft] fresh by blast
    note run = get read r(1) False ebind_Some
    show ?thesis
    proof (cases r)
      case NoRoom
      then show ?thesis using lenb by (intro skip [of ?buf]) (simp_all add: run eopt_def)
    next
      case (Placed new)
      then have new: "records_block new" "length new = bs_of fs" "inserted (name, ino, ft) (entries_at contents fs dir fb) (block_entries new)"
        using r(2) lenb e by simp_all
      obtain fs' where w: "write_block bd ?b new fs = Some (Inr (), fs')" "block_replaced valid contents ?b new fs fs'"
        by (rule write_block_replaced [OF ok(1) db new(2)])
      then have "add_in_blocks bd dir name ino ft num (fb # fbs) buf fs = Some (Inr (ino, dir), fs')"
        using Placed by (simp add: run eopt_def)
      then show ?thesis using w(2) new(1,3) False by (meson list.set_intros(1))
    qed (use r(2) in simp)
  qed
qed simp

end

lemma spawned_same:
  "free_blocks contents (fs\<lparr>e_spawned := c\<rparr>) = free_blocks contents fs" "free_inodes contents (fs\<lparr>e_spawned := c\<rparr>) = free_inodes contents fs"
  "shape (fs\<lparr>e_spawned := c\<rparr>) = shape fs" "fs_ok valid contents (fs\<lparr>e_spawned := c\<rparr>) = fs_ok valid contents fs"
proof -
  let ?fs = "fs\<lparr>e_spawned := c\<rparr>"
  have g: "group_blocks ?fs = group_blocks fs" "group_inodes ?fs = group_inodes fs" "block_at ?fs = block_at fs" "inode_at ?fs = inode_at fs"
    by (simp_all add: fun_eq_iff group_blocks_def group_inodes_def block_at_def inode_at_def Let_def)
  have cl: "clear_in bm bits contents ?fs = clear_in bm (\<lambda>_. bits ?fs) contents fs" for bm bits
    by (rule ext) (simp add: clear_in_def group_bitmap_def)
  show free: "free_blocks contents ?fs = free_blocks contents fs" "free_inodes contents ?fs = free_inodes contents fs"
    by (simp_all add: free_blocks_def free_inodes_def cl g clear_in_def)
  show sh: "shape ?fs = shape fs" by (simp add: shape_def)
  have "layout valid contents ?fs = layout valid contents fs"
    by (simp add: layout_def sound_def geometry_def tables_end_def)
  moreover have "pool_ok bg_block_bitmap bg_free_blocks_count s_free_blocks_count group_blocks contents ?fs =
      pool_ok bg_block_bitmap bg_free_blocks_count s_free_blocks_count group_blocks contents fs"
    "pool_ok bg_inode_bitmap bg_free_inodes_count s_free_inodes_count group_inodes contents ?fs =
      pool_ok bg_inode_bitmap bg_free_inodes_count s_free_inodes_count group_inodes contents fs"
    by (simp_all add: pool_ok_def cl g clear_in_def tables_end_def)
  ultimately show "fs_ok valid contents ?fs = fs_ok valid contents fs"
    using shape_facts(3,5) [OF sh] free by (simp add: fs_ok_def alloc_ok_def)
qed

lemma single_record:
  assumes "entry_size (length name) \<le> bs" "bs < 65536" "length name < 256" "ino \<noteq> 0"
  obtains new where "write_dir_entry (replicate bs 0) 0 ino (of_nat bs) name ft = Some new" "length new = bs" "records_block new"
    "block_entries new = [(name, ino, ft)]"
proof -
  let ?r = "new_rec ino name ft (replicate bs 0)"
  have "write_dir_entry (replicate bs 0) 0 ino (of_nat bs) name ft = Some (block_of [?r])"
    using write_dir_entry_at [of 0 "[]" "replicate bs 0" name "[]" ino ft] assms by simp
  moreover have ok: "list_all rec_ok [?r]" using new_rec_ok [of name "replicate bs 0"] assms by simp
  moreover have "records_block (block_of [?r])" using ok unfolding records_block_def by blast
  ultimately show thesis
    using that [of "block_of [?r]"] block_entries_records [of "[?r]"] assms by simp
qed

lemma dir_extended:
  assumes ok: "fs_ok valid contents fs" "dir_ok contents fs dir" and g: "grown valid contents fs dir fs' n"
    and dir': "i_block dir' = i_block n" "unat (inode_size dir') = unat (inode_size dir) + bs_of fs"
    and leaves: "\<And>\<mu>. is_leaf (bs_of fs div 4) \<mu> \<Longrightarrow>
      node contents fs' n \<mu> = (if \<mu> = file_path (bs_of fs div 4) (dir_blocks fs dir) then v else node contents fs dir \<mu>)"
    and v: "v \<noteq> 0" "blk (contents (e_dev fs')) (bs_of fs) (unat v) = new" "records_block new"
    and room: "dir_blocks fs dir < max_file_blocks (bs_of fs div 4)" "dir_blocks fs dir + 1 < 2 ^ 32"
  shows "dir_ok contents fs' dir'" "dir_entries contents fs' dir' = dir_entries contents fs dir @ block_entries new"
proof -
  let ?n = "dir_blocks fs dir" and ?p = "bs_of fs div 4"
  have bs: "0 < bs_of fs" using fs_ok_facts(4) [OF ok(1)] by simp
  have n: "inode_ok contents fs dir" using ok(2) by (simp add: dir_ok_def)
  have k: "kept contents (index_blocks contents fs dir \<union> (free_blocks contents fs - free_blocks contents fs')) fs fs'"
    and ok': "inode_ok contents fs' dir'"
    using g inode_ok_cong [OF dir'(1), of contents fs'] by (simp_all add: grown_def)
  note sh = kept_facts [OF k]
  have blocks: "dir_blocks fs' dir' = ?n + 1" using sh(1) dir'(2) div_ceil_Suc [OF bs] by (simp add: dir_blocks_def)
  have old: "dir_block contents fs' dir' fb = dir_block contents fs dir fb" if "fb < ?n" for fb
    using leaves [OF dir_okD(4) [OF ok(2) that]] that file_path_inj [of ?p fb ?n] sh(1) node_cong [OF dir'(1), of contents fs']
    by (auto simp: dir_block_def)
  have last: "dir_block contents fs' dir' ?n = v"
    using leaves [OF file_path_leaf [OF room(1)]] sh(1) node_cong [OF dir'(1), of contents fs'] by (simp add: dir_block_def)
  have same: "blk (contents (e_dev fs')) (bs_of fs) (unat (dir_block contents fs dir fb)) =
      blk (contents (e_dev fs)) (bs_of fs) (unat (dir_block contents fs dir fb))"
    if fb: "fb < ?n" "dir_block contents fs dir fb \<noteq> 0" for fb
  proof -
    note leaf = dir_okD(4) [OF ok(2) fb(1)]
    have "unat (dir_block contents fs dir fb) \<notin> index_blocks contents fs dir" "unat (dir_block contents fs dir fb) \<notin> free_blocks contents fs"
      using leaf_not_index [OF n leaf] inode_okD(2) [OF n] leaf fb(2) by (simp_all add: dir_block_def is_leaf_def)
    then show ?thesis using k dir_okD(3) [OF ok(2) fb] by (simp add: kept_def data_block_plain)
  qed
  have "entries_at contents fs' dir' fb = entries_at contents fs dir fb" if "fb < ?n" for fb
    using old [OF that] same [OF that] sh(1) by (auto simp: entries_at_def Let_def)
  then have "concat (map (entries_at contents fs' dir') [0..<?n]) = concat (map (entries_at contents fs dir) [0..<?n])"
    by (intro arg_cong [of _ _ concat] map_cong refl) simp
  moreover have "entries_at contents fs' dir' ?n = block_entries new" using last v sh(1) by (simp add: entries_at_def)
  ultimately show "dir_entries contents fs' dir' = dir_entries contents fs dir @ block_entries new"
    by (simp add: dir_entries_def blocks)
  have "records_block (blk (contents (e_dev fs')) (bs_of fs') (unat (dir_block contents fs' dir' fb)))"
    if "fb < ?n + 1" "dir_block contents fs' dir' fb \<noteq> 0" for fb
  proof (cases "fb = ?n")
    case False
    then have "fb < ?n" using that(1) by simp
    then show ?thesis using old same that(2) dir_okD(2) [OF ok(2)] sh(1) by simp
  qed (use last v sh(1) in simp)
  then show "dir_ok contents fs' dir'" using ok(2) ok' blocks room sh(1) by (simp add: dir_ok_def)
qed

text \<open>A directory that has grown: well-formed, with blocks that were its own or free, and the same attributes.\<close>

definition dir_grown :: "('d \<Rightarrow> bytes) \<Rightarrow> 'd ext2 \<Rightarrow> inode \<Rightarrow> 'd ext2 \<Rightarrow> inode \<Rightarrow> bool" where
  "dir_grown contents fs dir fs' dir' \<longleftrightarrow> dir_ok contents fs' dir'
     \<and> owned contents fs' dir' \<subseteq> owned contents fs dir \<union> free_blocks contents fs
     \<and> i_mode dir' = i_mode dir \<and> i_osd2 dir' = i_osd2 dir"

context disk
begin

lemma extend_dir_run:
  assumes ok: "fs_ok valid contents fs" "dir_ok contents fs dir" and name: "length name < 256" "ino \<noteq> 0"
    and room: "unat (i_blocks dir) + 4 * (bs_of fs div 512) < 2 ^ 32" "dir_blocks fs dir < max_file_blocks (bs_of fs div 4)"
      "dir_blocks fs dir + 1 < 2 ^ 32"
  shows "\<exists>r fs'. extend_dir bd dir (dir_blocks fs dir) name ino ft fs = Some (r, fs') \<and> fs_ok valid contents fs'
    \<and> kept contents (owned contents fs dir \<union> free_blocks contents fs) fs fs'
    \<and> free_blocks contents fs' \<subseteq> free_blocks contents fs \<and> free_inodes contents fs' = free_inodes contents fs
    \<and> (case r of Inl e \<Rightarrow> e = NoSpace \<and> card (free_blocks contents fs) < 4
       | Inr (ino', dir') \<Rightarrow> ino' = ino \<and> dir_grown contents fs dir fs' dir' \<and> dir_entries contents fs' dir' = dir_entries contents fs dir @ [(name, ino, ft)])"
proof (cases "free_blocks contents fs = {}")
  case True
  then have "alloc_block bd fs = Some (Inl NoSpace, fs)" using alloc_filled_run [OF ok(1), of "replicate (bs_of fs) 0"] by simp
  then have "extend_dir bd dir (dir_blocks fs dir) name ino ft fs = Some (Inl NoSpace, drop_inode_guard ino fs)"
    by (simp add: extend_dir_def guarding_def ebind_def)
  then show ?thesis
    using ok(1) True by (simp add: drop_inode_guard_def spawned_same kept_def)
next
  case False
  let ?p = "bs_of fs div 4" and ?n = "dir_blocks fs dir" and ?leaf = "file_path (bs_of fs div 4) (dir_blocks fs dir)"
  have bs: "1024 \<le> bs_of fs" "bs_of fs < 65536" using fs_ok_facts(4) [OF ok(1)] ok(2) by (simp_all add: dir_ok_def)
  have n: "inode_ok contents fs dir" using ok(2) by (simp add: dir_ok_def)
  have "entry_size (length name) \<le> bs_of fs" using entry_size_bounds(2) [of "length name"] name(1) bs(1) by linarith
  then obtain new where new: "write_dir_entry (replicate (bs_of fs) 0) 0 ino (of_nat (bs_of fs)) name ft = Some new" "length new = bs_of fs"
    "records_block new" "block_entries new = [(name, ino, ft)]"
    by (rule single_record [OF _ bs(2) name])
  obtain v fs1 fs2 where v: "alloc_block bd fs = Some (Inr v, fs1)" "bs_of fs1 = bs_of fs" "write_block bd v new fs1 = Some (Inr (), fs2)"
    "unat v \<in> free_blocks contents fs" "free_blocks contents fs2 = free_blocks contents fs - {unat v}"
    "free_inodes contents fs2 = free_inodes contents fs" "fs_ok valid contents fs2" "kept contents {unat v} fs fs2"
    "blk (contents (e_dev fs2)) (bs_of fs) (unat v) = new"
    using alloc_filled_run [OF ok(1) new(2)] False by auto
  have v0: "v \<noteq> 0" by (rule fresh_block(1) [OF ok(1) n v(4-8)])
  obtain r bl fs3 where r: "set_block_number bd ?n v dir fs2 = Some (r, dir\<lparr>i_block := bl\<rparr>, fs3)"
    and g: "grown valid contents fs dir fs3 (dir\<lparr>i_block := bl\<rparr>)"
    and leaves: "\<And>\<mu>. is_leaf ?p \<mu> \<Longrightarrow> node contents fs3 (dir\<lparr>i_block := bl\<rparr>) \<mu> = (if \<mu> = ?leaf \<and> \<not> isl r then v else node contents fs dir \<mu>)"
    and data: "blk (contents (e_dev fs3)) (bs_of fs) (unat v) = blk (contents (e_dev fs2)) (bs_of fs) (unat v)"
    and count: "case r of Inl e \<Rightarrow> e = NoSpace \<and> free_blocks contents fs3 = {} \<and> card (free_blocks contents fs) < 4
      | Inr meta \<Rightarrow> unat meta \<le> 3 \<and> 1 + unat meta + card (free_blocks contents fs3) = card (free_blocks contents fs)"
    by (rule record_leaf [OF ok(1) n room(2) v(4-8)]) (rule that)
  have bs2: "bs_of fs2 = bs_of fs" "bs_of fs3 = bs_of fs" using kept_facts(1) [OF v(8)] g kept_facts(1) by (auto simp: grown_def)
  have own: "kept contents (owned contents fs dir \<union> free_blocks contents fs) fs fs3"
    "owned contents fs3 (dir\<lparr>i_block := bl\<rparr>) \<subseteq> owned contents fs dir \<union> free_blocks contents fs"
    using leaves v(4) grown_owned [OF g n] by auto
  have ok3: "fs_ok valid contents fs3" "free_blocks contents fs3 \<subseteq> free_blocks contents fs" "free_inodes contents fs3 = free_inodes contents fs"
    using g by (simp_all add: grown_def)
  let ?run = "extend_dir bd dir ?n name ino ft fs"
  show ?thesis
  proof (cases r)
    case (Inl e)
    then have "?run = Some (Inl e, fs3)"
      using v(1-3) new(1) r bs2 by (simp add: extend_dir_def guarding_def ebind_Some eopt_def)
    then show ?thesis using Inl count own ok3 by simp
  next
    case (Inr meta)
    obtain blocks sz where defs: "unat (i_blocks (dir\<lparr>i_block := bl\<rparr>)) + (1 + unat meta) * (bs_of fs div 512) = blocks"
      "unat (inode_size (dir\<lparr>i_block := bl\<rparr>)) + bs_of fs = sz" by blast
    let ?dir = "inode_set_size (of_nat sz) (dir\<lparr>i_block := bl, i_blocks := of_nat blocks\<rparr>)"
    have "(1 + unat meta) * (bs_of fs div 512) \<le> 4 * (bs_of fs div 512)" using count Inr by (intro mult_le_mono1) simp
    moreover have i: "i_blocks (dir\<lparr>i_block := bl\<rparr>) = i_blocks dir" and size: "inode_size (dir\<lparr>i_block := bl\<rparr>) = inode_size dir"
      by (simp_all add: inode_size_def)
    ultimately have fit: "blocks < 2 ^ 32" "sz < 2 ^ 64"
      using room(1) defs dir_size [OF ok(2)] bs(1) unfolding i size by linarith+
    have "?run = Some (Inr (ino, ?dir), fs3)"
      using fit
      by (simp only: extend_dir_def guarding_def ebind_def egets_def eopt_def echeck_def eret_def Let_def v(1-3) new(1) r Inr bs2 defs
          option.case sum.case prod.case if_True)
    moreover have "dir_ok contents fs3 ?dir" "dir_entries contents fs3 ?dir = dir_entries contents fs dir @ block_entries new"
      using dir_extended [OF ok(1,2) g _ _ _ v0, of ?dir new] leaves Inr fit(2) defs(2) size data v(9) new(3) room by (simp_all add: unat_of_nat_small)
    moreover have "owned contents fs3 ?dir = owned contents fs3 (dir\<lparr>i_block := bl\<rparr>)" by (rule owned_cong) simp
    moreover have "i_mode ?dir = i_mode dir" "i_osd2 ?dir = i_osd2 dir" by (simp_all add: inode_set_size_def)
    ultimately show ?thesis using Inr own ok3 new(4) by (simp add: dir_grown_def)
  qed
qed

lemma add_dir_entry_run:
  assumes ok: "fs_ok valid contents fs" "dir_ok contents fs dir" and name: "name \<noteq> []" "length name < 256" "ino \<noteq> 0"
      "name \<notin> fst ` set (dir_entries contents fs dir)"
    and room: "unat (i_blocks dir) + 4 * (bs_of fs div 512) < 2 ^ 32" "dir_blocks fs dir < max_file_blocks (bs_of fs div 4)"
      "dir_blocks fs dir + 1 < 2 ^ 32"
  shows "\<exists>r fs'. add_dir_entry bd dir name ino ft fs = Some (r, fs') \<and> fs_ok valid contents fs'
    \<and> kept contents (owned contents fs dir \<union> free_blocks contents fs) fs fs'
    \<and> free_blocks contents fs' \<subseteq> free_blocks contents fs \<and> free_inodes contents fs' = free_inodes contents fs
    \<and> (case r of Inl e \<Rightarrow> e = NoSpace \<and> card (free_blocks contents fs) < 4
       | Inr (ino', dir') \<Rightarrow> ino' = ino \<and> dir_grown contents fs dir fs' dir'
           \<and> inserted (name, ino, ft) (dir_entries contents fs dir) (dir_entries contents fs' dir'))"
proof -
  have bs: "0 < bs_of fs" using fs_ok_facts(4) [OF ok(1)] by simp
  let ?n = "dir_blocks fs dir"
  have num: "(unat (inode_size dir) + bs_of fs - 1) div bs_of fs mod 2 ^ 32 = ?n"
    using ok(2) unfolding div_ceil_alt [OF bs] by (simp add: dir_ok_def dir_blocks_def)
  let ?scan = "add_in_blocks bd dir name ino ft ?n [0..<?n] (replicate (bs_of fs) 0)"
  have run: "add_dir_entry bd dir name ino ft fs = ?scan fs"
    using name(1,2) num dir_size [OF ok(2) bs] by (simp add: add_dir_entry_def ebind_Some Let_def)
  have "\<forall>fb \<in> set [0..<?n]. name \<notin> fst ` set (entries_at contents fs dir fb)" using name(4) by (auto simp: dir_entries_def)
  from add_in_blocks_run [OF ok _ _ name(2,3) this, of "replicate (bs_of fs) 0" ft ?n]
  consider "?scan fs = extend_dir bd dir ?n name ino ft fs"
    | fs' fb new where "fb < ?n" "?scan fs = Some (Inr (ino, dir), fs')" "dir_block contents fs dir fb \<noteq> 0"
      "block_replaced valid contents (dir_block contents fs dir fb) new fs fs'" "records_block new"
      "inserted (name, ino, ft) (entries_at contents fs dir fb) (block_entries new)"
    by auto
  then show ?thesis
  proof cases
    case 1
    from extend_dir_run [OF ok name(2,3) room, of ft] obtain r fs' where e: "extend_dir bd dir ?n name ino ft fs = Some (r, fs')"
      "fs_ok valid contents fs'" "kept contents (owned contents fs dir \<union> free_blocks contents fs) fs fs'"
      "free_blocks contents fs' \<subseteq> free_blocks contents fs \<and> free_inodes contents fs' = free_inodes contents fs"
      "case r of Inl e \<Rightarrow> e = NoSpace \<and> card (free_blocks contents fs) < 4
       | Inr (ino', dir') \<Rightarrow> ino' = ino \<and> dir_grown contents fs dir fs' dir' \<and> dir_entries contents fs' dir' = dir_entries contents fs dir @ [(name, ino, ft)]"
      by blast
    have "inserted (name, ino, ft) xs (xs @ [(name, ino, ft)])" for xs unfolding inserted_def by (metis append_Nil2)
    then show ?thesis using e run 1 by (auto split: sum.splits)
  next
    case 2
    have "inserted (name, ino, ft) (dir_entries contents fs dir) (dir_entries contents fs' dir)"
      unfolding concat_entries [OF 2(1), of contents] dir_replace_entries [OF ok 2(1) 2(3-5)] by (rule inserted_middle [OF 2(6)])
    moreover have "unat (dir_block contents fs dir fb) \<in> owned contents fs dir"
      using ownedI [of fs "file_path (bs_of fs div 4) fb" contents dir] dir_okD(4) [OF ok(2) 2(1)] 2(3) by (simp add: dir_block_def is_leaf_def)
    then have "kept contents (owned contents fs dir \<union> free_blocks contents fs) fs fs'"
      using 2(4) by (auto simp: block_replaced_def elim: kept_mono)
    moreover have "dir_grown contents fs dir fs' dir"
    proof -
      have n: "inode_ok contents fs dir" using ok(2) by (simp add: dir_ok_def)
      have "{unat (dir_block contents fs dir fb)} \<inter> index_blocks contents fs dir = {}"
        using leaf_not_index [OF n dir_okD(4) [OF ok(2) 2(1)]] 2(3) by (simp add: dir_block_def)
      moreover have "free_blocks contents fs' \<inter> owned contents fs dir = {}" using owned_data(2) [OF n] 2(4) by (auto simp: block_replaced_def)
      ultimately have "owned contents fs' dir = owned contents fs dir"
        using 2(4) by (intro index_frame(3) [OF n, where W = "{unat (dir_block contents fs dir fb)}"]) (simp_all add: block_replaced_def)
      then show ?thesis using dir_replace(1) [OF ok 2(1) 2(3-5)] by (simp add: dir_grown_def)
    qed
    ultimately show ?thesis using run 2(2,4) by (simp add: block_replaced_def)
  qed
qed

end

section \<open>Properties\<close>

lemma inserted_map_of:
  assumes "inserted (k, v) zs zs'" "k \<notin> fst ` set zs"
  shows "map_of zs' = (map_of zs)(k \<mapsto> v)"
proof -
  obtain xs ys where e: "zs = xs @ ys" "zs' = xs @ (k, v) # ys" using assms(1) by (auto simp: inserted_def)
  have "map_of xs k = None" using assms(2) e(1) by (auto simp: map_of_eq_None_iff)
  then show ?thesis using e by (auto simp: map_add_def fun_eq_iff split: option.split)
qed

text \<open>C4: Adding an entry to a directory. For a well-formed directory that has no entry of that name, of any number of blocks, the operation
  either fails for lack of free blocks, or puts the entry into the first place with room, in a block of the directory or in a new one; then looking up
  that name finds the new inode and looking up any other name gives what it gave before, the directory is well-formed again, the tables are consistent and nothing outside
  the directory and the free blocks has changed.\<close>

theorem add_dir_entry_map:
  assumes "device_contract bd valid contents False" "fs_ok valid contents fs" "dir_ok contents fs dir"
    and "name \<noteq> []" "length name < 256" "ino \<noteq> 0" "name \<notin> fst ` set (dir_entries contents fs dir)"
    and "unat (i_blocks dir) + 4 * (bs_of fs div 512) < 2 ^ 32" "dir_blocks fs dir < max_file_blocks (bs_of fs div 4)" "dir_blocks fs dir + 1 < 2 ^ 32"
  shows "\<exists>r fs'. add_dir_entry bd dir name ino ft fs = Some (r, fs') \<and> fs_ok valid contents fs'
    \<and> kept contents (owned contents fs dir \<union> free_blocks contents fs) fs fs'
    \<and> (case r of Inl e \<Rightarrow> e = NoSpace \<and> card (free_blocks contents fs) < 4
       | Inr (ino', dir') \<Rightarrow> ino' = ino \<and> dir_ok contents fs' dir'
           \<and> (\<forall>nm. \<exists>found. find_entry bd dir nm fs = Some (found, fs)
                \<and> find_entry bd dir' nm fs' = Some (if nm = name then Inr ino else found, fs')))"
proof -
  note d = disk.intro [OF assms(1)]
  obtain r fs' where r: "add_dir_entry bd dir name ino ft fs = Some (r, fs')" "fs_ok valid contents fs'"
    "kept contents (owned contents fs dir \<union> free_blocks contents fs) fs fs'"
    "case r of Inl e \<Rightarrow> e = NoSpace \<and> card (free_blocks contents fs) < 4
     | Inr (ino', dir') \<Rightarrow> ino' = ino \<and> dir_grown contents fs dir fs' dir'
         \<and> inserted (name, ino, ft) (dir_entries contents fs dir) (dir_entries contents fs' dir')"
    using disk.add_dir_entry_run [OF d assms(2-10)] by blast
  have "\<exists>found. find_entry bd dir nm fs = Some (found, fs) \<and> find_entry bd dir' nm fs' = Some (if nm = name then Inr ino else found, fs')"
    if "dir_ok contents fs' dir'" "inserted (name, ino, ft) (dir_entries contents fs dir) (dir_entries contents fs' dir')" for dir' nm
    using disk.find_entry_run [OF d assms(2,3), of nm] disk.find_entry_run [OF d r(2) that(1), of nm] inserted_map_of [OF that(2) assms(7)] by simp
  then show ?thesis using r by (cases r) (auto simp: dir_grown_def split del: if_split)
qed

text \<open>C5: Removing an entry from a directory with distinct names. The operation fails exactly when there is no entry of that name, and then changes nothing;
  otherwise it returns the inode that a lookup found, a lookup of the name then fails and every other lookup gives what it gave before, the
  directory stays well-formed, whether the record was merged into the one before it or was the first of its block, and nothing outside the directory changes.\<close>

theorem remove_dir_entry_map:
  assumes "device_contract bd valid contents False" "fs_ok valid contents fs" "dir_ok contents fs dir"
    and "distinct (map fst (dir_entries contents fs dir))"
  shows "\<exists>r fs'. remove_dir_entry bd dir name fs = Some (r, fs') \<and> fs_ok valid contents fs' \<and> dir_ok contents fs' dir
    \<and> kept contents (owned contents fs dir) fs fs' \<and> free_blocks contents fs' = free_blocks contents fs
    \<and> (case r of
         Inl e \<Rightarrow> e = NotFound \<and> fs' = fs \<and> find_entry bd dir name fs = Some (Inl NotFound, fs)
       | Inr (ino, dir') \<Rightarrow> dir' = dir \<and> find_entry bd dir name fs = Some (Inr ino, fs)
           \<and> (\<forall>nm. \<exists>found. find_entry bd dir nm fs = Some (found, fs)
                \<and> find_entry bd dir nm fs' = Some (if nm = name then Inl NotFound else found, fs')))"
proof -
  note d = disk.intro [OF assms(1)]
  obtain r fs' where r: "remove_dir_entry bd dir name fs = Some (r, fs')" "fs_ok valid contents fs'" "dir_ok contents fs' dir"
    "kept contents (owned contents fs dir) fs fs'" "free_blocks contents fs' = free_blocks contents fs"
    "case r of
       Inl e \<Rightarrow> e = NotFound \<and> fs' = fs \<and> name \<notin> fst ` set (dir_entries contents fs dir)
     | Inr (ino, dir') \<Rightarrow> dir' = dir \<and> (\<exists>xs ft ys. dir_entries contents fs dir = xs @ (name, ino, ft) # ys
         \<and> name \<notin> fst ` set xs \<and> dir_entries contents fs' dir = xs @ ys)"
    using disk.remove_dir_entry_run [OF d assms(2,3), of name] by blast
  note find = disk.find_entry_run [OF d assms(2,3)] and find' = disk.find_entry_run [OF d r(2,3)]
  show ?thesis
  proof (cases r)
    case (Inl e)
    then show ?thesis using r find by (auto simp: map_of_eq_None_iff [symmetric])
  next
    case (Inr x)
    then obtain ino xs ft ys where x: "x = (ino, dir)" "dir_entries contents fs dir = xs @ (name, ino, ft) # ys"
      "dir_entries contents fs' dir = xs @ ys"
      using r(6) by (cases x) auto
    have "name \<notin> fst ` set xs" "name \<notin> fst ` set ys" using assms(4) x(2) by auto
    then have "map_of xs name = None" "map_of ys name = None" by (simp_all add: map_of_eq_None_iff)
    then have "map_of (dir_entries contents fs dir) name = Some (ino, ft)"
      "map_of (dir_entries contents fs' dir) = (map_of (dir_entries contents fs dir))(name := None)"
      unfolding x(2,3) by (auto simp: map_add_def fun_eq_iff split: option.split)
    then show ?thesis using r Inr x(1) find find' by auto
  qed
qed

text \<open>A root directory of one block, with its two entries.\<close>

definition demo_records :: "dir_rec list" where
  "demo_records = [new_rec 2 (str_bytes ''.'') FT_DIR (replicate 12 0), new_rec 2 (str_bytes ''..'') FT_DIR (replicate 1012 0)]"

definition demo_dir :: inode where
  "demo_dir = inode_set_size 1024 demo_inode"

definition demo_dir_fs :: "bytes virtio_block_inner ext2" where
  "demo_dir_fs = demo_fs (replicate 1024 0) (block_of demo_records)"

lemma demo_records:
  "list_all rec_ok demo_records" "length (block_of demo_records) = 1024"
  "live demo_records = [(str_bytes ''.'', 2, FT_DIR), (str_bytes ''..'', 2, FT_DIR)]"
proof -
  have s: "entry_size (length (str_bytes ''.'')) = 12" "entry_size (length (str_bytes ''..'')) = 12"
    "length (str_bytes ''.'') < 256" "length (str_bytes ''..'') < 256"
    by (simp_all add: entry_size_def align4_def DIR_ENTRY_HEADER_SIZE_def str_bytes_def)
  then show "list_all rec_ok demo_records" "length (block_of demo_records) = 1024"
    "live demo_records = [(str_bytes ''.'', 2, FT_DIR), (str_bytes ''..'', 2, FT_DIR)]"
    by (simp_all add: demo_records_def new_rec_ok)
qed

lemma demo_dir_at:
  fixes table dir
  assumes "length table = 1024" and i: "i_block dir = i_block demo_inode" "inode_size dir = 1024"
  defines "fs \<equiv> demo_fs table (block_of demo_records)"
  shows "fs_ok demo_valid vbi_device fs" "bs_of fs = 1024" "free_blocks vbi_device fs = {7, 8, 9, 10, 11}"
    "dir_blocks fs dir = 1" "dir_ok vbi_device fs dir"
    "dir_entries vbi_device fs dir = [(str_bytes ''.'', 2, FT_DIR), (str_bytes ''..'', 2, FT_DIR)]"
proof -
  show "fs_ok demo_valid vbi_device fs" unfolding fs_def by (rule demo_fs_ok) (simp_all add: demo_records assms)
  show bs: "bs_of fs = 1024" by (simp add: fs_def demo_fs_def)
  show free: "free_blocks vbi_device fs = {7, 8, 9, 10, 11}" by (simp add: fs_def demo_free)
  show blocks: "dir_blocks fs dir = 1" by (simp add: dir_blocks_def bs i div_ceil_def)
  have nodes: "node vbi_device fs dir \<nu> = (if \<nu> = (0, []) then 6 else 0)" if "is_node p \<nu>" for \<nu> p
    using demo_node [OF that bs] node_cong [OF i(1), of vbi_device fs] by simp
  have "data_block fs 6"
    by (auto simp: fs_def demo_fs_def tables_end_def bgdt_offset_def table_blocks_def div_ceil_def data_block_def plain_block_def)
  then have ok: "inode_ok vbi_device fs dir"
    using nodes demo_facts(7) i(1) by (auto simp: inode_ok_def bs free split: if_splits)
  have b: "dir_block vbi_device fs dir 0 = 6" by (simp add: dir_block_def bs file_path_def node_def i demo_facts(7))
  have blk6: "blk (vbi_device (e_dev fs)) 1024 6 = block_of demo_records"
    using demo_records(2) assms(1) by (simp add: fs_def demo_fs_def blk_def demo_image_def sub_slice_def)
  have "records_block (block_of demo_records)" using demo_records(1) unfolding records_block_def by blast
  then show "dir_ok vbi_device fs dir" using ok b blk6 by (simp add: dir_ok_def blocks bs max_file_blocks_def)
  show "dir_entries vbi_device fs dir = [(str_bytes ''.'', 2, FT_DIR), (str_bytes ''..'', 2, FT_DIR)]"
    using b blk6 demo_records block_entries_records [OF demo_records(1)] by (simp add: dir_entries_def blocks entries_at_def bs)
qed

lemma demo_dir: "i_block demo_dir = i_block demo_inode" "inode_size demo_dir = 1024" "i_blocks demo_dir = 0"
  by (simp_all add: demo_dir_def) code_simp

lemmas demo_dir_facts = demo_dir_at [of "replicate 1024 0" demo_dir, OF _ demo_dir(1,2), simplified, folded demo_dir_fs_def] demo_dir(3)

theorem add_dir_entry_map_witness:
  "\<exists>dir' fs'. add_dir_entry (virtio_device ram_transfers) demo_dir (str_bytes ''a'') 4 FT_REG_FILE demo_dir_fs = Some (Inr (4, dir'), fs')
     \<and> find_entry (virtio_device ram_transfers) dir' (str_bytes ''a'') fs' = Some (Inr 4, fs')"
proof -
  let ?bd = "virtio_device ram_transfers" and ?nm = "str_bytes ''a''"
  have nm: "?nm \<noteq> []" "length ?nm < 256" "?nm \<notin> fst ` set (dir_entries vbi_device demo_dir_fs demo_dir)"
    by (simp_all add: demo_dir_facts str_bytes_def)
  have room: "unat (i_blocks demo_dir) + 4 * (bs_of demo_dir_fs div 512) < 2 ^ 32"
    "dir_blocks demo_dir_fs demo_dir < max_file_blocks (bs_of demo_dir_fs div 4)" "dir_blocks demo_dir_fs demo_dir + 1 < 2 ^ 32"
    by (simp_all add: demo_dir_facts max_file_blocks_def)
  obtain r fs' where r: "add_dir_entry ?bd demo_dir ?nm 4 FT_REG_FILE demo_dir_fs = Some (r, fs')"
    "case r of Inl e \<Rightarrow> e = NoSpace \<and> card (free_blocks vbi_device demo_dir_fs) < 4
     | Inr (ino', dir') \<Rightarrow> ino' = 4 \<and> dir_ok vbi_device fs' dir'
         \<and> (\<forall>nm. \<exists>found. find_entry ?bd demo_dir nm demo_dir_fs = Some (found, demo_dir_fs)
              \<and> find_entry ?bd dir' nm fs' = Some (if nm = ?nm then Inr 4 else found, fs'))"
    using add_dir_entry_map [OF demo_contract demo_dir_facts(1,5) nm(1,2) _ nm(3) room, of 4 FT_REG_FILE] by auto
  then show ?thesis by (cases r) (auto simp: demo_dir_facts dest: spec [of _ ?nm])
qed

theorem remove_dir_entry_map_witness:
  "\<exists>fs'. remove_dir_entry (virtio_device ram_transfers) demo_dir (str_bytes ''..'') demo_dir_fs = Some (Inr (2, demo_dir), fs')
     \<and> find_entry (virtio_device ram_transfers) demo_dir (str_bytes ''..'') fs' = Some (Inl NotFound, fs')"
proof -
  let ?bd = "virtio_device ram_transfers" and ?nm = "str_bytes ''..''"
  have d: "distinct (map fst (dir_entries vbi_device demo_dir_fs demo_dir))" by (simp add: demo_dir_facts str_bytes_def)
  have f: "find_entry ?bd demo_dir ?nm demo_dir_fs = Some (Inr 2, demo_dir_fs)"
    using disk.find_entry_run [OF disk.intro [OF demo_contract] demo_dir_facts(1,5), of ?nm] by (simp add: demo_dir_facts str_bytes_def)
  obtain r fs' where r: "remove_dir_entry ?bd demo_dir ?nm demo_dir_fs = Some (r, fs')"
    "case r of
       Inl e \<Rightarrow> e = NotFound \<and> fs' = demo_dir_fs \<and> find_entry ?bd demo_dir ?nm demo_dir_fs = Some (Inl NotFound, demo_dir_fs)
     | Inr (ino, dir') \<Rightarrow> dir' = demo_dir \<and> find_entry ?bd demo_dir ?nm demo_dir_fs = Some (Inr ino, demo_dir_fs)
         \<and> (\<forall>nm. \<exists>found. find_entry ?bd demo_dir nm demo_dir_fs = Some (found, demo_dir_fs)
              \<and> find_entry ?bd demo_dir nm fs' = Some (if nm = ?nm then Inl NotFound else found, fs'))"
    using remove_dir_entry_map [OF demo_contract demo_dir_facts(1,5) d, of ?nm] by blast
  then show ?thesis using f by (cases r) (auto dest: spec [of _ ?nm])
qed

end
