(* ===== verification/Ext2_Ops.thy ===== *)
theory Ext2_Ops
  imports Ext2_Dir_Map
begin

text \<open>
  The operations of \<^verbatim>\<open>impl Filesystem for Ext2Fs\<close>: resolving a path, opening, describing, listing, creating and removing.
  The weak self reference of a mounted file system is alive for as long as an operation runs, so upgrading it
  succeeds. What an operation allocated and did not commit goes to the cleanup list when it fails.
\<close>

section \<open>Paths\<close>

text \<open>\<^verbatim>\<open>trim_matches('/')\<close> and \<^verbatim>\<open>rfind('/')\<close>.\<close>

definition trim_slashes :: "string \<Rightarrow> string" where
  "trim_slashes p = rev (dropWhile (\<lambda>c. c = CHR ''/'') (rev (dropWhile (\<lambda>c. c = CHR ''/'') p)))"

definition rfind_slash :: "string \<Rightarrow> nat option" where
  "rfind_slash p = (let tail = takeWhile (\<lambda>c. c \<noteq> CHR ''/'') (rev p) in
     if length tail = length p then None else Some (length p - length tail - 1))"

definition split_parent_name :: "string \<Rightarrow> fs_error + string \<times> string" where
  "split_parent_name p0 = (let p = trim_slashes p0 in
     if p = [] then Inl NotFound
     else case rfind_slash p of
       Some idx \<Rightarrow> Inr (take idx p, drop (idx + 1) p)
     | None \<Rightarrow> Inr ('''', p))"

fun lookup_components :: "'d block_device \<Rightarrow> string list \<Rightarrow> u32 \<Rightarrow> ('d, u32) ext2_io" where
  "lookup_components bd [] current = eret current"
| "lookup_components bd (component # rest) current =
     (if component = ''.'' \<or> component = ''..'' then efail NotFound
      else ebind (read_inode bd current) (\<lambda>inode.
        if \<not> inode_is_dir inode then efail NotFound
        else ebind (find_entry bd inode (str_bytes component)) (\<lambda>ino. lookup_components bd rest ino)))"

definition ext2_lookup :: "'d block_device \<Rightarrow> string \<Rightarrow> ('d, u32) ext2_io" where
  "ext2_lookup bd p0 = (let p = trim_slashes p0 in
     if p = [] then eret EXT2_ROOT_INO
     else lookup_components bd (filter (\<lambda>s. s \<noteq> []) (split_on p)) EXT2_ROOT_INO)"

section \<open>Opening, describing and listing\<close>

definition ext2_open :: "'d block_device \<Rightarrow> string \<Rightarrow> ('d, ext2_file) ext2_io" where
  "ext2_open bd p = ebind (ext2_lookup bd p) (\<lambda>ino. ebind (read_inode bd ino) (\<lambda>inode.
     if \<not> inode_is_file inode then efail NotFound else eret (ext2_file_new inode ino)))"

definition ext2_stat :: "'d block_device \<Rightarrow> string \<Rightarrow> ('d, file_stat) ext2_io" where
  "ext2_stat bd p = ebind (ext2_lookup bd p) (\<lambda>ino. ebind (read_inode bd ino) (\<lambda>inode.
     eret \<lparr>st_size = inode_size inode, st_is_dir = inode_is_dir inode, st_mode = i_mode inode, st_inode = ucast ino,
       st_nlinks = ucast (i_links_count inode), st_mtime = ucast (i_mtime inode), st_ctime = ucast (i_ctime inode),
       st_atime = ucast (i_atime inode)\<rparr>))"

definition ext2_readdir :: "'d block_device \<Rightarrow> string \<Rightarrow> ('d, dir_entry list) ext2_io" where
  "ext2_readdir bd p = ebind (ext2_lookup bd p) (\<lambda>ino. ebind (read_inode bd ino) (\<lambda>inode.
     if \<not> inode_is_dir inode then efail NotFound else list_dir bd inode))"

section \<open>Creating and removing\<close>

text \<open>\<^verbatim>\<open>is_ok()\<close> of a fallible operation.\<close>

definition eis_ok :: "('d, 'a) ext2_io \<Rightarrow> ('d, bool) ext2_io" where
  "eis_ok m fs = map_option (\<lambda>(r, fs'). (Inr (\<not> isl r), fs')) (m fs)"

text \<open>The prologue that the four operations share: the directory that the last component lies in.\<close>

definition parent_of :: "'d block_device \<Rightarrow> string \<Rightarrow> ('d, u32 \<times> inode) ext2_io" where
  "parent_of bd parent_path = ebind (ext2_lookup bd parent_path) (\<lambda>parent_ino.
     ebind (read_inode bd parent_ino) (\<lambda>parent_inode.
     if \<not> inode_is_dir parent_inode then efail NotFound else eret (parent_ino, parent_inode)))"

definition new_inode :: "u16 \<Rightarrow> u32 \<Rightarrow> u16 \<Rightarrow> u32 \<Rightarrow> u32 list \<Rightarrow> inode" where
  "new_inode mode sz links blocks block = \<lparr>i_mode = mode, i_uid = 0, i_size_low = sz, i_atime = 0, i_ctime = 0, i_mtime = 0, i_dtime = 0,
     i_gid = 0, i_links_count = links, i_blocks = blocks, i_flags = 0, i_osd1 = 0, i_block = block, i_generation = 0, i_file_acl = 0,
     i_size_high = 0, i_faddr = 0, i_osd2 = replicate 12 0\<rparr>"

definition ext2_create :: "'d block_device \<Rightarrow> string \<Rightarrow> u16 \<Rightarrow> ('d, ext2_file) ext2_io" where
  "ext2_create bd p mode = (case split_parent_name p of
      Inl e \<Rightarrow> efail e
    | Inr (parent_path, file_name) \<Rightarrow>
        ebind (parent_of bd parent_path) (\<lambda>(parent_ino, parent_inode).
        ebind (eis_ok (find_entry bd parent_inode (str_bytes file_name))) (\<lambda>there.
        if there then efail AlreadyExists
        else ebind (alloc_inode bd) (\<lambda>ino.
          let new = new_inode (S_IFREG OR (mode AND 0xFFF)) 0 1 0 (replicate 15 0) in
          ebind (add_dir_entry bd parent_inode (str_bytes file_name) ino FT_REG_FILE) (\<lambda>(new_ino, updated_parent).
          ebind (write_inode bd new_ino new) (\<lambda>_.
          ebind (write_inode bd parent_ino updated_parent) (\<lambda>_.
          eret (ext2_file_new new new_ino))))))))"

definition deleted_inode :: "inode \<Rightarrow> inode" where
  "deleted_inode n = (inode_set_size 0 (n\<lparr>i_dtime := 1\<rparr>))\<lparr>i_blocks := 0\<rparr>"

definition saturating_dec :: "u16 \<Rightarrow> u16" where
  "saturating_dec n = (if n = 0 then 0 else n - 1)"

definition ext2_unlink :: "'d block_device \<Rightarrow> string \<Rightarrow> ('d, unit) ext2_io" where
  "ext2_unlink bd p = (case split_parent_name p of
      Inl e \<Rightarrow> efail e
    | Inr (parent_path, file_name) \<Rightarrow>
        ebind (parent_of bd parent_path) (\<lambda>(parent_ino, parent_inode).
        ebind (remove_dir_entry bd parent_inode (str_bytes file_name)) (\<lambda>(target_ino, updated_parent).
        ebind (write_inode bd parent_ino updated_parent) (\<lambda>_.
        ebind (read_inode bd target_ino) (\<lambda>t.
        let target_inode = t\<lparr>i_links_count := saturating_dec (i_links_count t)\<rparr> in
        if i_links_count target_inode = 0 then
          ebind (free_inode_blocks bd target_inode) (\<lambda>_.
          ebind (write_inode bd target_ino (deleted_inode target_inode)) (\<lambda>_.
          free_inode bd target_ino))
        else write_inode bd target_ino target_inode)))))"

text \<open>The block guard of \<^verbatim>\<open>mkdir\<close> lives until the new inode is written.\<close>

definition ext2_mkdir :: "'d block_device \<Rightarrow> string \<Rightarrow> u16 \<Rightarrow> ('d, unit) ext2_io" where
  "ext2_mkdir bd p mode = (case split_parent_name p of
      Inl e \<Rightarrow> efail e
    | Inr (parent_path, dir_name) \<Rightarrow>
        ebind (parent_of bd parent_path) (\<lambda>(parent_ino, parent_inode).
        ebind (eis_ok (find_entry bd parent_inode (str_bytes dir_name))) (\<lambda>there.
        if there then efail AlreadyExists
        else ebind (alloc_inode bd) (\<lambda>ino.
          ebind (guarding (drop_inode_guard ino) (alloc_block bd)) (\<lambda>initial_block.
          ebind (egets e_block_size) (\<lambda>block_size.
          ebind (guarding (drop_block_guard initial_block)
            (ebind (add_dir_entry bd parent_inode (str_bytes dir_name) ino FT_DIR) (\<lambda>(new_ino, updated_parent).
             let new = new_inode (S_IFDIR OR (mode AND 0xFFF)) block_size 2 (block_size div 512) ((replicate 15 0)[0 := initial_block]) in
             ebind (eopt (init_dir_block (unat block_size) new_ino parent_ino)) (\<lambda>init_buf.
             ebind (write_block bd initial_block init_buf) (\<lambda>_.
             ebind (write_inode bd new_ino new) (\<lambda>_.
             eret (new_ino, updated_parent))))))) (\<lambda>(new_ino, updated_parent).
          ebind (echeck (i_links_count updated_parent \<noteq> 0xFFFF)) (\<lambda>_.
          ebind (write_inode bd parent_ino (updated_parent\<lparr>i_links_count := i_links_count updated_parent + 1\<rparr>)) (\<lambda>_.
          inc_used_dirs_count bd new_ino)))))))))"

definition ext2_rmdir :: "'d block_device \<Rightarrow> string \<Rightarrow> ('d, unit) ext2_io" where
  "ext2_rmdir bd p = (case split_parent_name p of
      Inl e \<Rightarrow> efail e
    | Inr (parent_path, dir_name) \<Rightarrow>
        if dir_name = [] \<or> trim_slashes p = [] then efail IoError
        else ebind (parent_of bd parent_path) (\<lambda>(parent_ino, parent_inode).
        ebind (find_entry bd parent_inode (str_bytes dir_name)) (\<lambda>target_ino.
        ebind (read_inode bd target_ino) (\<lambda>target_inode.
        if \<not> inode_is_dir target_inode then efail NotDirectory
        else ebind (is_dir_empty bd target_inode) (\<lambda>empty.
        if \<not> empty then efail NotEmpty
        else
          ebind (remove_dir_entry bd parent_inode (str_bytes dir_name)) (\<lambda>(_, updated_parent).
          ebind (free_inode_blocks bd target_inode) (\<lambda>_.
          ebind (write_inode bd target_ino ((deleted_inode target_inode)\<lparr>i_links_count := 0\<rparr>)) (\<lambda>_.
          ebind (free_inode bd target_ino) (\<lambda>_.
          ebind (write_inode bd parent_ino (updated_parent\<lparr>i_links_count := saturating_dec (i_links_count updated_parent)\<rparr>)) (\<lambda>_.
          dec_used_dirs_count bd target_ino))))))))))"

end
