(* ===== verification/Ext2_Inode_Alloc.thy ===== *)
theory Ext2_Inode_Alloc
  imports Ext2_Inodes
begin

text \<open>
  Allocation of inodes on a consistent disk: the second instance of the scheme of bitmaps and counters.
\<close>

section \<open>Inode numbers\<close>

lemma inode_at_inj:
  assumes "i < group_inodes fs g" "j < group_inodes fs k" "inode_at fs g i = inode_at fs k j"
  shows "g = k \<and> i = j"
  using grouped_inj [of i "unat (e_inodes_per_group fs)" j g k] assms by (simp add: inode_at_def group_inodes_def)

lemma inode_at_bound:
  assumes "alloc_ok valid contents fs" "g < length (e_block_groups fs)" "i < group_inodes fs g"
  shows "inode_at fs g i < 2 ^ 32"
proof -
  have "(g + 1) * unat (e_inodes_per_group fs) \<le> length (e_block_groups fs) * unat (e_inodes_per_group fs)"
    using assms(2) by (intro mult_le_mono1) simp
  then show ?thesis using assms(1,3) by (simp add: alloc_ok_def inode_at_def group_inodes_def)
qed

lemma finite_free_inodes [simp]: "finite (free_inodes contents fs)"
  by (simp add: free_inodes_def)

text \<open>A step that changes the set of free inodes of one group to that of the new bitmap.\<close>

lemma inode_step:
  assumes ok: "alloc_ok valid contents fs" and l: "layout valid contents fs'"
    and step: "pool_step (unat (bg_inode_bitmap (e_block_groups fs ! g))) new g f h contents fs fs'"
    and g: "g < length (e_block_groups fs)"
    and f: "\<And>x. bg_block_bitmap (f x) = bg_block_bitmap x" "\<And>x. bg_inode_bitmap (f x) = bg_inode_bitmap x"
      "\<And>x. bg_free_blocks_count (f x) = bg_free_blocks_count x"
      "unat (bg_free_inodes_count (f (e_block_groups fs ! g))) = card (clear_bits new (group_inodes fs g))"
    and h: "\<And>s. s_first_data_block (h s) = s_first_data_block s" "\<And>s. s_blocks_per_group (h s) = s_blocks_per_group s"
      "\<And>s. s_free_blocks_count (h s) = s_free_blocks_count s"
      "unat (s_free_inodes_count (h (e_superblock fs))) + unat (bg_free_inodes_count (e_block_groups fs ! g)) =
       unat (s_free_inodes_count (e_superblock fs)) + unat (bg_free_inodes_count (f (e_block_groups fs ! g)))"
  shows "alloc_ok valid contents fs'"
    and "free_blocks contents fs' = free_blocks contents fs"
    and "k < length (e_block_groups fs) \<Longrightarrow>
      clear_inodes contents fs' k = (if k = g then clear_bits new (group_inodes fs g) else clear_inodes contents fs k)"
proof -
  have pools: "pool_ok bg_block_bitmap bg_free_blocks_count s_free_blocks_count group_blocks contents fs"
    "pool_ok bg_inode_bitmap bg_free_inodes_count s_free_inodes_count group_inodes contents fs"
    using ok by (simp_all add: alloc_ok_def)
  note num = pool_step_numbers [OF step h(1,2)]
  note same = pool_same [where bm = bg_inode_bitmap and cnt = bg_free_inodes_count and tot = s_free_inodes_count
      and bits = group_inodes, OF pools(2) step g refl f(2) f(4) h(4) num(4)]
  note other = pool_other [where bm = bg_block_bitmap and cnt = bg_free_blocks_count and tot = s_free_blocks_count
      and bits = group_blocks, OF pools(1) step disjoint_bitmaps(2) [OF ok g] f(1,3) h(3) num(3)]
  have eq: "length (e_block_groups fs') = length (e_block_groups fs)" "e_blocks_count fs' = e_blocks_count fs"
    "e_inodes_per_group fs' = e_inodes_per_group fs"
    using step by (simp_all add: pool_step_def)
  show "clear_inodes contents fs' k = (if k = g then clear_bits new (group_inodes fs g) else clear_inodes contents fs k)"
    if "k < length (e_block_groups fs)" for k
    using same(2) [OF that] .
  show free: "free_blocks contents fs' = free_blocks contents fs"
    by (simp add: free_blocks_def num(1) eq(1) other(2))
  have "bg_block_bitmap ` set (e_block_groups fs') = bg_block_bitmap ` set (e_block_groups fs)"
    "bg_inode_bitmap ` set (e_block_groups fs') = bg_inode_bitmap ` set (e_block_groups fs)"
    using step images_update_same [of bg_block_bitmap f, OF f(1)] images_update_same [of bg_inode_bitmap f, OF f(2)]
    by (simp_all add: pool_step_def)
  then show "alloc_ok valid contents fs'"
    using ok l same(1) other(1) eq free by (simp add: alloc_ok_def)
qed

lemma free_inodes_step:
  assumes "length (e_block_groups fs') = length (e_block_groups fs)" "inode_at fs' = inode_at fs"
    and g: "g < length (e_block_groups fs)" "i < group_inodes fs g"
    and clear: "\<And>k. k < length (e_block_groups fs) \<Longrightarrow>
      clear_inodes contents fs' k = (if k = g then C else clear_inodes contents fs k)"
  shows "C = clear_inodes contents fs g - {i} \<Longrightarrow> free_inodes contents fs' = free_inodes contents fs - {inode_at fs g i}"
    and "C = insert i (clear_inodes contents fs g) \<Longrightarrow> free_inodes contents fs' = insert (inode_at fs g i) (free_inodes contents fs)"
proof -
  let ?n = "length (e_block_groups fs)"
  have inj: "inode_at fs k j = inode_at fs g i \<longleftrightarrow> k = g \<and> j = i" if "j \<in> clear_inodes contents fs k" for k j
    using inode_at_inj [OF clear_bound [OF that] g(2)] by blast
  have free': "free_inodes contents fs' = (\<Union>k < ?n. inode_at fs k ` (if k = g then C else clear_inodes contents fs k))"
    using clear by (simp add: free_inodes_def assms(1,2))
  show "free_inodes contents fs' = free_inodes contents fs - {inode_at fs g i}" if "C = clear_inodes contents fs g - {i}"
  proof -
    have "inode_at fs k ` (if k = g then C else clear_inodes contents fs k)
        = inode_at fs k ` clear_inodes contents fs k - {inode_at fs g i}" for k
      using inj \<open>C = _\<close> by auto
    then show ?thesis unfolding free' free_inodes_def [of contents fs] by auto
  qed
  show "free_inodes contents fs' = insert (inode_at fs g i) (free_inodes contents fs)" if "C = insert i (clear_inodes contents fs g)"
  proof -
    have "inode_at fs k ` (if k = g then C else clear_inodes contents fs k)
        = (if k = g then insert (inode_at fs g i) (inode_at fs k ` clear_inodes contents fs k)
           else inode_at fs k ` clear_inodes contents fs k)" for k
      using \<open>C = _\<close> by auto
    then have "free_inodes contents fs' = (\<Union>k < ?n. if k = g then insert (inode_at fs g i) (inode_at fs k ` clear_inodes contents fs k)
        else inode_at fs k ` clear_inodes contents fs k)"
      by (simp only: free')
    then show ?thesis using g(1) unfolding free_inodes_def [of contents fs] by (auto split: if_splits)
  qed
qed

section \<open>Allocating\<close>

abbreviation dec_free_inodes :: "block_group_descriptor \<Rightarrow> block_group_descriptor" where
  "dec_free_inodes g \<equiv> g\<lparr>bg_free_inodes_count := bg_free_inodes_count g - 1\<rparr>"

abbreviation dec_total_inodes :: "superblock \<Rightarrow> superblock" where
  "dec_total_inodes s \<equiv> s\<lparr>s_free_inodes_count := s_free_inodes_count s - 1\<rparr>"

context disk
begin

lemma alloc_inode_in_run:
  fixes fs
  defines "n \<equiv> length (e_block_groups fs)" and "C \<equiv> clear_inodes contents fs"
  assumes ok: "alloc_ok valid contents fs" and k: "k \<le> n" "\<forall>g < k. C g = {}"
  shows "(\<forall>g < n. C g = {}) \<and> alloc_inode_in bd [k..<n] fs = Some (Inl NoSpace, fs) \<or>
    (\<exists>g new fs'. g < n \<and> C g \<noteq> {}
       \<and> alloc_inode_in bd [k..<n] fs = Some (Inr (of_nat (inode_at fs g (Min (C g)))), fs')
       \<and> layout valid contents fs'
       \<and> pool_step (unat (bg_inode_bitmap (e_block_groups fs ! g))) new g dec_free_inodes dec_total_inodes contents fs fs'
       \<and> clear_bits new (group_inodes fs g) = C g - {Min (C g)})"
  using k
proof (induction "n - k" arbitrary: k)
  case 0
  then show ?case by simp
next
  case (Suc m)
  then have kn: "k < n" by simp
  then have up: "[k..<n] = k # [Suc k..<n]" by (simp add: upt_conv_Cons)
  let ?bgd = "e_block_groups fs ! k"
  have l: "layout valid contents fs" "geometry fs"
    and pool: "pool_ok bg_inode_bitmap bg_free_inodes_count s_free_inodes_count group_inodes contents fs"
    using ok by (auto simp: alloc_ok_def layout_def sound_def)
  have len: "length (group_bitmap bg_inode_bitmap contents fs k) = bs_of fs"
    using length_group_bitmap [OF l(1) pool] kn by (simp add: n_def)
  note cnt = pool_counts [OF pool _ len, folded C_def n_def, OF kn]
  have bm: "bg_inode_bitmap ?bgd < e_blocks_count fs" "tables_end fs \<le> unat (bg_inode_bitmap ?bgd) * bs_of fs"
    "group_inodes fs k \<le> 8 * bs_of fs"
    using pool kn by (simp_all add: pool_ok_def n_def)
  show ?case
  proof (cases "C k = {}")
    case True
    then have "\<forall>g < Suc k. C g = {}" using Suc.prems(2) by (simp add: less_Suc_eq)
    from Suc.hyps(1) [of "Suc k", OF _ _ this] Suc.hyps(2) kn True cnt(1) show ?thesis
      by (simp add: up Let_def)
  next
    case False
    let ?i = "Min (C k)"
    have i: "?i \<in> C k" using False by (simp add: C_def)
    then obtain new where new: "set_bit (group_bitmap bg_inode_bitmap contents fs k) ?i = Some new"
      "length new = bs_of fs" "clear_bits new (group_inodes fs k) = C k - {?i}"
      using clear_bits_set [of ?i "group_bitmap bg_inode_bitmap contents fs k" "group_inodes fs k"] bm(3) len
      by (auto simp: C_def clear_in_def)
    have num: "inode_at fs k ?i < 4294967296"
      using inode_at_bound [OF ok _ clear_bound [OF i [unfolded C_def]]] kn by (simp add: n_def C_def)
    have find: "find_first_clear_bit (group_bitmap bg_inode_bitmap contents fs k) (unat (e_inodes_per_group fs)) = Some ?i"
      using cnt(3) False by (simp add: group_inodes_def)
    note c = commit_run [OF l(1) _ bm(1,2) new(2), of k dec_free_inodes dec_total_inodes, simplified, folded n_def, OF kn]
    have "alloc_inode_in bd [k..<n] fs =
      Some (Inr (of_nat (inode_at fs k ?i)), put_super bd (put_group bd k
        (update_super dec_total_inodes (update_group k dec_free_inodes (put_bitmap bd (bg_inode_bitmap ?bgd) new fs)))))"
      using False cnt(1,2) find bm num kn
      by (simp add: up Let_def new(1) c(1-3) inode_at_def
          read_block_run [OF l(1) bm(1), folded group_bitmap_def] ebind_def [of "read_block bd b buf" for b buf]
          ebind_def [of "write_block bd b buf" for b buf] ebind_def [of "write_superblock bd"]
          ebind_def [of "write_block_group_descriptor bd g" for g])
    then show ?thesis
      using False kn c new(3) by blast
  qed
qed

lemma alloc_inode_run:
  assumes ok: "fs_ok valid contents fs"
  shows "if free_inodes contents fs = {} then alloc_inode bd fs = Some (Inl NoSpace, fs)
    else \<exists>ino fs'. alloc_inode bd fs = Some (Inr ino, fs') \<and> unat ino \<in> free_inodes contents fs
      \<and> free_inodes contents fs' = free_inodes contents fs - {unat ino} \<and> valid_ino fs ino
      \<and> free_blocks contents fs' = free_blocks contents fs \<and> fs_ok valid contents fs' \<and> kept contents {} fs fs'"
proof -
  let ?C = "clear_inodes contents fs" and ?n = "length (e_block_groups fs)"
  have al: "alloc_ok valid contents fs" using ok by (simp add: fs_ok_def)
  then have pool: "pool_ok bg_inode_bitmap bg_free_inodes_count s_free_inodes_count group_inodes contents fs"
    and l: "layout valid contents fs"
    by (auto simp: alloc_ok_def)
  consider (full) "\<forall>g < ?n. ?C g = {}" "alloc_inode bd fs = Some (Inl NoSpace, fs)"
    | (found) g new fs' where "g < ?n" "?C g \<noteq> {}"
      "alloc_inode bd fs = Some (Inr (of_nat (inode_at fs g (Min (?C g)))), fs')" "layout valid contents fs'"
      "pool_step (unat (bg_inode_bitmap (e_block_groups fs ! g))) new g dec_free_inodes dec_total_inodes contents fs fs'"
      "clear_bits new (group_inodes fs g) = ?C g - {Min (?C g)}"
    using alloc_inode_in_run [OF al, of 0] by (simp add: alloc_inode_def) blast
  then show ?thesis
  proof cases
    case full
    then show ?thesis by (simp add: free_inodes_def)
  next
    case found
    let ?i = "Min (?C g)"
    have i: "?i \<in> ?C g" using found(2) by simp
    have free: "inode_at fs g ?i \<in> free_inodes contents fs" using i found(1) by (auto simp: free_inodes_def)
    have b: "unat (of_nat (inode_at fs g ?i) :: u32) = inode_at fs g ?i"
      using inode_at_bound [OF al found(1) clear_bound [OF i]] by (intro unat_of_nat_small) simp
    have count: "unat (bg_free_inodes_count (e_block_groups fs ! g)) = card (?C g)"
      using pool found(1) by (simp add: pool_ok_def)
    note dec = card_remove_count [OF count i finite_clear_in]
    have tot: "s_free_inodes_count (e_superblock fs) \<noteq> 0"
      using pool_counts(2) [OF pool found(1) length_group_bitmap [OF l pool found(1)]] found(2) by simp
    have step: "alloc_ok valid contents fs'" "free_blocks contents fs' = free_blocks contents fs"
      "\<And>k. k < ?n \<Longrightarrow> clear_inodes contents fs' k = (if k = g then ?C g - {?i} else ?C k)"
      using inode_step [OF al found(4,5,1)] dec unat_dec [OF tot] found(6) by simp_all
    have num: "inode_at fs' = inode_at fs" using pool_step_numbers(2) [OF found(5)] by simp
    have len: "length (e_block_groups fs') = ?n" using found(5) by (simp add: pool_step_def)
    have minus: "free_inodes contents fs' = free_inodes contents fs - {inode_at fs g ?i}"
      using free_inodes_step(1) [OF len num found(1) clear_bound [OF i] step(3)] by simp
    have sh: "shape fs' = shape fs" using pool_step_shape [OF found(5)] by simp
    have dk: "data_kept contents fs fs'" using pool_step_data_kept [where bm = bg_inode_bitmap, OF found(5,1)] by simp
    have ok': "fs_ok valid contents fs'" using ok step(1,2) shape_facts(3,5) [OF sh] by (simp add: fs_ok_def)
    have k: "kept contents {} fs fs'" using dk sh by (auto simp: kept_def data_kept_def plain_block_def)
    have "valid_ino fs (of_nat (inode_at fs g ?i))"
    proof -
      have "0 < inode_at fs g ?i" "(inode_at fs g ?i - 1) div unat (e_inodes_per_group fs) = g"
        using clear_bound [OF i] by (simp_all add: inode_at_def group_inodes_def)
      then show ?thesis using b found(1) by (metis less_not_refl unat_0 valid_ino_def)
    qed
    then show ?thesis using free found(3) b step(2) minus ok' k by auto
  qed
qed

end

end
