(* ===== verification/Ext2_Tree.thy ===== *)
theory Ext2_Tree
  imports Ext2_Ops Ext2_Inode_Alloc
begin

text \<open>
  The file system as a tree of names: looking up a path walks the tree, and creating a file adds one name
  to one directory and leaves every other name and every file as it was.
\<close>

section \<open>Paths and components\<close>

definition path_components :: "string \<Rightarrow> string list" where
  "path_components p = filter (\<lambda>s. s \<noteq> []) (split_on p)"

lemma path_components_slash: "path_components (a @ CHR ''/'' # b) = path_components a @ path_components b"
  by (simp add: path_components_def split_on_append_slash)

lemma path_components_single: "CHR ''/'' \<notin> set c \<Longrightarrow> c \<noteq> [] \<Longrightarrow> path_components c = [c]"
  by (simp add: path_components_def split_on_single)

lemma path_components_Nil [simp]: "path_components [] = []"
  by (simp add: path_components_def)

lemma path_components_trim: "path_components (trim_slashes p) = path_components p"
proof -
  let ?slash = "\<lambda>c. c = CHR ''/''"
  have front: "path_components (dropWhile ?slash p) = path_components p" for p
    by (induction p) (simp_all add: path_components_def)
  have rear: "path_components (rev (dropWhile ?slash p)) = path_components (rev p)" for p
    by (induction p) (simp_all add: path_components_slash [of _ "[]", simplified])
  show ?thesis unfolding trim_slashes_def rear rev_rev_ident by (rule front)
qed

lemma rfind_slash_cases:
  assumes "q \<noteq> []" "last q \<noteq> CHR ''/''"
  obtains "rfind_slash q = None" "CHR ''/'' \<notin> set q"
  | e u where "rfind_slash q = Some (length e)" "q = e @ CHR ''/'' # u" "CHR ''/'' \<notin> set u" "u \<noteq> []"
proof (cases "CHR ''/'' \<in> set q")
  case False
  then have t: "takeWhile (\<lambda>c. c \<noteq> CHR ''/'') (rev q) = rev q" by (auto simp: takeWhile_eq_all_conv)
  have "rfind_slash q = None" unfolding rfind_slash_def t by simp
  then show thesis using that(1) False by simp
next
  case True
  then obtain e u where q: "q = e @ CHR ''/'' # u" "CHR ''/'' \<notin> set u" by (meson split_list_last)
  have "takeWhile (\<lambda>c. c \<noteq> CHR ''/'') (rev q) = rev u"
    using takeWhile_append2 [of "rev u" "\<lambda>c. c \<noteq> CHR ''/''" "CHR ''/'' # rev e"] q(2) unfolding q(1) by auto
  then have "rfind_slash q = Some (length e)" using q(1) by (simp add: rfind_slash_def)
  moreover have "u \<noteq> []" using assms(2) q(1) by auto
  ultimately show thesis using that(2) q by blast
qed

lemma split_parent_name_Inr:
  assumes "split_parent_name p = Inr (pp, nm)"
  shows "nm \<noteq> []" "path_components p = path_components pp @ [nm]"
proof -
  let ?p = "trim_slashes p"
  have ne: "?p \<noteq> []" using assms by (auto simp: split_parent_name_def Let_def)
  have last: "last ?p \<noteq> CHR ''/''"
    using ne hd_dropWhile [of "\<lambda>c. c = CHR ''/''" "rev (dropWhile (\<lambda>c. c = CHR ''/'') p)"] by (simp add: trim_slashes_def last_rev)
  have "nm \<noteq> [] \<and> path_components ?p = path_components pp @ [nm]"
    using ne assms by (cases rule: rfind_slash_cases [OF ne last])
      (auto simp: split_parent_name_def Let_def path_components_single path_components_slash)
  then show "nm \<noteq> []" "path_components p = path_components pp @ [nm]" by (simp_all add: path_components_trim)
qed

lemma ext2_lookup_components: "ext2_lookup bd p = lookup_components bd (path_components p) EXT2_ROOT_INO"
proof (cases "trim_slashes p = []")
  case True
  then have "path_components p = []" using path_components_trim [of p] by simp
  then show ?thesis using True by (simp add: ext2_lookup_def)
next
  case False
  then show ?thesis using path_components_trim [of p] by (simp add: ext2_lookup_def path_components_def)
qed

section \<open>The tree of names\<close>

type_synonym name_tree = "u32 \<Rightarrow> (bytes \<Rightarrow> u32 option) option"

fun walk_path :: "name_tree \<Rightarrow> u32 \<Rightarrow> string list \<Rightarrow> fs_error + u32" where
  "walk_path tree ino [] = Inr ino"
| "walk_path tree ino (c # cs) =
     (if c = ''.'' \<or> c = ''..'' then Inl NotFound
      else case tree ino of
        None \<Rightarrow> Inl NotFound
      | Some dir \<Rightarrow> (case dir (str_bytes c) of None \<Rightarrow> Inl NotFound | Some i \<Rightarrow> walk_path tree i cs))"

definition names :: "('d \<Rightarrow> bytes) \<Rightarrow> 'd ext2 \<Rightarrow> name_tree" where
  "names contents fs ino = (let n = disk_inode contents fs ino in
     if inode_is_dir n then Some (map_option fst \<circ> map_of (dir_entries contents fs n)) else None)"

inductive reachable :: "name_tree \<Rightarrow> u32 \<Rightarrow> bool" for tree where
  root: "reachable tree EXT2_ROOT_INO"
| entry: "reachable tree d \<Longrightarrow> tree d = Some dir \<Longrightarrow> dir nm = Some i \<Longrightarrow> reachable tree i"

text \<open>
  Every inode that the tree reaches is allocated, the files and directories among them have sound block maps that share
  no block, and the directories have well-formed entries.
\<close>

definition has_blocks :: "inode \<Rightarrow> bool" where
  "has_blocks n \<longleftrightarrow> inode_is_dir n \<or> inode_is_file n"

definition node_ok :: "('d \<Rightarrow> bytes) \<Rightarrow> 'd ext2 \<Rightarrow> u32 \<Rightarrow> bool" where
  "node_ok contents fs ino \<longleftrightarrow> valid_ino fs ino \<and> unat ino \<notin> free_inodes contents fs
     \<and> (has_blocks (disk_inode contents fs ino) \<longrightarrow> inode_ok contents fs (disk_inode contents fs ino))
     \<and> (inode_is_dir (disk_inode contents fs ino) \<longrightarrow> dir_ok contents fs (disk_inode contents fs ino))"

definition tree_ok :: "('d \<Rightarrow> bool) \<Rightarrow> ('d \<Rightarrow> bytes) \<Rightarrow> 'd ext2 \<Rightarrow> bool" where
  "tree_ok valid contents fs \<longleftrightarrow> fs_ok valid contents fs \<and> inodes_aligned fs
     \<and> (\<forall>ino. reachable (names contents fs) ino \<longrightarrow> node_ok contents fs ino)
     \<and> (\<forall>ino jno. reachable (names contents fs) ino \<and> reachable (names contents fs) jno \<and> ino \<noteq> jno
          \<and> has_blocks (disk_inode contents fs ino) \<and> has_blocks (disk_inode contents fs jno) \<longrightarrow>
          owned contents fs (disk_inode contents fs ino) \<inter> owned contents fs (disk_inode contents fs jno) = {})"

lemma tree_okD:
  assumes "tree_ok valid contents fs"
  shows "fs_ok valid contents fs" "inodes_aligned fs"
    "\<And>ino. reachable (names contents fs) ino \<Longrightarrow> valid_ino fs ino"
    "\<And>ino. reachable (names contents fs) ino \<Longrightarrow> unat ino \<notin> free_inodes contents fs"
    "\<And>ino. reachable (names contents fs) ino \<Longrightarrow> has_blocks (disk_inode contents fs ino) \<Longrightarrow> inode_ok contents fs (disk_inode contents fs ino)"
    "\<And>ino. reachable (names contents fs) ino \<Longrightarrow> inode_is_dir (disk_inode contents fs ino) \<Longrightarrow> dir_ok contents fs (disk_inode contents fs ino)"
    "\<And>ino jno. reachable (names contents fs) ino \<Longrightarrow> reachable (names contents fs) jno \<Longrightarrow> ino \<noteq> jno \<Longrightarrow>
       has_blocks (disk_inode contents fs ino) \<Longrightarrow> has_blocks (disk_inode contents fs jno) \<Longrightarrow>
       owned contents fs (disk_inode contents fs ino) \<inter> owned contents fs (disk_inode contents fs jno) = {}"
  using assms by (simp_all add: tree_ok_def node_ok_def)

lemma names_Some:
  assumes "names contents fs ino = Some dir"
  shows "inode_is_dir (disk_inode contents fs ino)" "dir = map_option fst \<circ> map_of (dir_entries contents fs (disk_inode contents fs ino))"
  using assms by (auto simp: names_def Let_def split: if_splits)

context disk
begin

lemma lookup_components_run:
  assumes ok: "tree_ok valid contents fs" and "reachable (names contents fs) ino"
  shows "lookup_components bd cs ino fs = Some (walk_path (names contents fs) ino cs, fs)"
  using assms(2)
proof (induction cs arbitrary: ino)
  case (Cons c cs)
  let ?n = "disk_inode contents fs ino"
  note rd = read_inode_run [OF tree_okD(1,2) [OF ok] tree_okD(3) [OF ok Cons.prems]]
  show ?case
  proof (cases "c = ''.'' \<or> c = ''..'' \<or> \<not> inode_is_dir ?n")
    case True
    then show ?thesis using rd by (auto simp: ebind_Some names_def Let_def)
  next
    case False
    then have d: "names contents fs ino = Some (map_option fst \<circ> map_of (dir_entries contents fs ?n))"
      by (simp add: names_def Let_def)
    note f = find_entry_run [OF tree_okD(1) [OF ok] tree_okD(6) [OF ok Cons.prems], of "str_bytes c"]
    show ?thesis
    proof (cases "map_of (dir_entries contents fs ?n) (str_bytes c)")
      case None
      then show ?thesis using False rd f d by (simp add: ebind_Some)
    next
      case (Some e)
      obtain i ft where e: "e = (i, ft)" by force
      have "reachable (names contents fs) i" using reachable.entry [OF Cons.prems d, of "str_bytes c" i] Some e by simp
      then show ?thesis using False rd f d Some e Cons.IH [of i] by (simp add: ebind_Some)
    qed
  qed
qed simp

lemma ext2_lookup_run:
  assumes "tree_ok valid contents fs"
  shows "ext2_lookup bd p fs = Some (walk_path (names contents fs) EXT2_ROOT_INO (path_components p), fs)"
  unfolding ext2_lookup_components by (rule lookup_components_run [OF assms reachable.root])

end

lemma walk_path_reachable:
  "walk_path tree ino cs = Inr i \<Longrightarrow> reachable tree ino \<Longrightarrow> reachable tree i"
proof (induction cs arbitrary: ino)
  case (Cons c cs)
  then show ?case by (auto split: if_splits option.splits intro: reachable.entry)
qed simp

lemma walk_path_append:
  "walk_path tree ino (as @ bs) = (case walk_path tree ino as of Inl e \<Rightarrow> Inl e | Inr i \<Rightarrow> walk_path tree i bs)"
  by (induction as arbitrary: ino) (auto split: option.splits)

text \<open>One name added to one directory of a tree.\<close>

lemma reachable_added:
  assumes same: "\<And>ino. reachable tree ino \<Longrightarrow> tree' ino = (if ino = d then Some (m(k \<mapsto> new)) else tree ino)"
    and d: "tree d = Some m" and new: "tree' new = None"
  shows "reachable tree' j \<Longrightarrow> j = new \<or> reachable tree j"
proof (induction rule: reachable.induct)
  case (entry a dir nm i)
  then have a: "reachable tree a" using new by auto
  show ?case
  proof (cases "a = d \<and> nm = k")
    case True
    then show ?thesis using entry same [OF a] by simp
  next
    case False
    then have "tree a = Some dir \<or> a = d \<and> m nm = Some i" using entry same [OF a] by (auto split: if_splits)
    then show ?thesis using a d entry(3) by (auto intro: reachable.entry)
  qed
qed (simp add: reachable.root)

lemma walk_path_added:
  assumes same: "\<And>ino. reachable tree ino \<Longrightarrow> tree' ino = (if ino = d then Some (m(k \<mapsto> new)) else tree ino)"
    and d: "tree d = Some m" "m k = None" and new: "tree' new = None" and "reachable tree ino"
  shows "case walk_path tree ino cs of
      Inr i \<Rightarrow> walk_path tree' ino cs = Inr i
    | Inl e \<Rightarrow> walk_path tree' ino cs \<in> {Inl e, Inr new}"
  using assms(5)
proof (induction cs arbitrary: ino)
  case (Cons c cs)
  show ?case
  proof (cases "c = ''.'' \<or> c = ''..'' \<or> tree ino = None")
    case True
    then show ?thesis using same [OF Cons.prems] d by auto
  next
    case False
    then obtain dir where dir: "tree ino = Some dir" by auto
    show ?thesis
    proof (cases "dir (str_bytes c)")
      case (Some i)
      then have "reachable tree i" using Cons.prems dir by (auto intro: reachable.entry)
      moreover have "tree' ino = Some (if ino = d then dir(k \<mapsto> new) else dir)" "ino = d \<Longrightarrow> str_bytes c \<noteq> k"
        using same [OF Cons.prems] d dir Some by auto
      ultimately show ?thesis using Cons.IH [of i] False dir Some by (auto split: sum.splits)
    next
      case None
      have "walk_path tree' new cs \<in> {Inl NotFound, Inr new}" using new by (cases cs) simp_all
      moreover have "tree' ino = Some (if ino = d then dir(k \<mapsto> new) else dir)" using same [OF Cons.prems] d dir by auto
      ultimately show ?thesis using None False dir by auto
    qed
  qed
qed simp

section \<open>Frames\<close>

lemma dir_frame:
  assumes d: "dir_ok contents fs n" and k: "kept contents W fs fs'" and W: "W \<inter> owned contents fs n = {}"
    and free: "free_blocks contents fs' \<inter> owned contents fs n = {}"
  shows "dir_ok contents fs' n" "dir_entries contents fs' n = dir_entries contents fs n"
proof -
  have n: "inode_ok contents fs n" using d by (simp add: dir_ok_def)
  have idx: "W \<inter> index_blocks contents fs n = {}" using W index_owned by blast
  note fr = index_frame [OF n k idx free] and bs = kept_facts [OF k]
  have blocks: "dir_blocks fs' n = dir_blocks fs n" using bs(1) by (simp add: dir_blocks_def)
  have node: "is_node (bs_of fs div 4) (file_path (bs_of fs div 4) fb)" if "fb < dir_blocks fs n" for fb
    using dir_okD(4) [OF d that] by (simp add: is_leaf_def)
  have same: "dir_block contents fs' n fb = dir_block contents fs n fb" if "fb < dir_blocks fs n" for fb
    using fr(1) [OF node [OF that]] bs(1) by (simp add: dir_block_def)
  have data: "blk (contents (e_dev fs')) (bs_of fs) (unat (dir_block contents fs n fb)) = blk (contents (e_dev fs)) (bs_of fs) (unat (dir_block contents fs n fb))"
    if "fb < dir_blocks fs n" "dir_block contents fs n fb \<noteq> 0" for fb
  proof -
    have "unat (dir_block contents fs n fb) \<notin> W" using ownedI [OF node [OF that(1)], of contents n] that(2) W by (auto simp: dir_block_def)
    then show ?thesis using k dir_okD(3) [OF d that] by (simp add: kept_def data_block_plain)
  qed
  show "dir_ok contents fs' n" using d fr(2) same data blocks bs(1) by (simp add: dir_ok_def)
  have "entries_at contents fs' n fb = entries_at contents fs n fb" if "fb < dir_blocks fs n" for fb
    using same [OF that] data [OF that] bs(1) by (simp add: entries_at_def Let_def)
  then show "dir_entries contents fs' n = dir_entries contents fs n" unfolding dir_entries_def blocks by (intro arg_cong [of _ _ concat] map_cong refl) simp
qed

lemma empty_inode:
  assumes "i_block n = replicate 15 0"
  shows "inode_ok contents fs n" "owned contents fs n = {}"
proof -
  have z: "node contents fs n \<nu> = 0" if "is_node (bs_of fs div 4) \<nu>" for \<nu>
    using that assms by (cases \<nu>) (auto simp: node_def is_node_def follow_zero)
  show "inode_ok contents fs n" unfolding inode_ok_def using assms z by (metis length_replicate)
  show "owned contents fs n = {}" using z unfolding owned_def by blast
qed

section \<open>Creating a file\<close>

text \<open>
  What a new entry, the write of its inode and the write of the inode of the directory leave, seen from the state before.
\<close>

definition entry_added :: "('d \<Rightarrow> bool) \<Rightarrow> ('d \<Rightarrow> bytes) \<Rightarrow> u32 \<Rightarrow> bytes \<Rightarrow> u32 \<Rightarrow> u8 \<Rightarrow> inode \<Rightarrow> 'd ext2 \<Rightarrow> 'd ext2 \<Rightarrow> bool" where
  "entry_added valid contents d name ino ft new fs fs' \<longleftrightarrow> fs_ok valid contents fs'
     \<and> kept contents (owned contents fs (disk_inode contents fs d) \<union> free_blocks contents fs \<union> {fst (ino_slot fs ino), fst (ino_slot fs d)}) fs fs'
     \<and> free_blocks contents fs' \<subseteq> free_blocks contents fs \<and> free_inodes contents fs' = free_inodes contents fs - {unat ino}
     \<and> dir_grown contents fs (disk_inode contents fs d) fs' (disk_inode contents fs' d)
     \<and> inserted (name, ino, ft) (dir_entries contents fs (disk_inode contents fs d)) (dir_entries contents fs' (disk_inode contents fs' d))
     \<and> (\<forall>j. valid_ino fs j \<and> j \<noteq> d \<longrightarrow> disk_inode contents fs' j = (if j = ino then new else disk_inode contents fs j))"

context disk
begin

text \<open>The two writes of inodes after the entry is in place.\<close>

lemma write_both_run:
  assumes ok: "fs_ok valid contents fs" "inodes_aligned fs" "valid_ino fs ino" "valid_ino fs d" "ino \<noteq> d"
    and n: "inode_wf new" "inode_wf dir" "dir_ok contents fs dir"
  obtains fs2 fs' where "write_inode bd ino new fs = Some (Inr (), fs2)" "write_inode bd d dir fs2 = Some (Inr (), fs')"
    "fs_ok valid contents fs'" "free_blocks contents fs' = free_blocks contents fs" "free_inodes contents fs' = free_inodes contents fs"
    "kept contents {fst (ino_slot fs ino), fst (ino_slot fs d)} fs fs'"
    "\<And>j. valid_ino fs j \<Longrightarrow> disk_inode contents fs' j = (if j = d then dir else if j = ino then new else disk_inode contents fs j)"
    "dir_ok contents fs' dir" "dir_entries contents fs' dir = dir_entries contents fs dir" "owned contents fs' dir = owned contents fs dir"
proof -
  obtain fs2 where w1: "write_inode bd ino new fs = Some (Inr (), fs2)" "fs_ok valid contents fs2"
    "free_blocks contents fs2 = free_blocks contents fs" "free_inodes contents fs2 = free_inodes contents fs"
    "kept contents {fst (ino_slot fs ino)} fs fs2"
    "\<And>j. valid_ino fs j \<Longrightarrow> disk_inode contents fs2 j = (if j = ino then new else disk_inode contents fs j)"
    by (rule write_inode_run [OF ok(1-3) n(1)]) (rule that)
  have sh: "shape fs2 = shape fs" using w1(5) by (simp add: kept_def)
  note v = valid_ino_shape [OF sh] inodes_aligned_shape [OF sh] ino_slot_shape [OF sh ok(4)]
  obtain fs' where w2: "write_inode bd d dir fs2 = Some (Inr (), fs')" "fs_ok valid contents fs'"
    "free_blocks contents fs' = free_blocks contents fs2" "free_inodes contents fs' = free_inodes contents fs2"
    "kept contents {fst (ino_slot fs2 d)} fs2 fs'"
    "\<And>j. valid_ino fs2 j \<Longrightarrow> disk_inode contents fs' j = (if j = d then dir else disk_inode contents fs2 j)"
    using write_inode_run [OF w1(2) _ _ n(2), of d] v ok by metis
  have k: "kept contents {fst (ino_slot fs ino), fst (ino_slot fs d)} fs fs'"
    using kept_trans [OF w1(5) w2(5)] v(3) by (simp add: insert_commute)
  have i: "inode_ok contents fs dir" using n(3) by (simp add: dir_ok_def)
  have W: "{fst (ino_slot fs ino), fst (ino_slot fs d)} \<inter> owned contents fs dir = {}"
    using owned_not_slot(1) [OF ok(1-3) i] owned_not_slot(1) [OF ok(1,2,4) i] by auto
  have free: "free_blocks contents fs' \<inter> owned contents fs dir = {}" using owned_data(2) [OF i] w1(3) w2(3) by auto
  have idx: "{fst (ino_slot fs ino), fst (ino_slot fs d)} \<inter> index_blocks contents fs dir = {}" using W index_owned by blast
  have "disk_inode contents fs' j = (if j = d then dir else if j = ino then new else disk_inode contents fs j)" if "valid_ino fs j" for j
    using w1(6) [OF that] w2(6) [of j] that v(1) by simp
  then show thesis
    using that [of fs2 fs'] w1(1,3,4) w2(1-4) k dir_frame [OF n(3) k W free] index_frame(3) [OF i k idx free] by simp
qed

lemma create_entry_run:
  fixes fs d
  defines "n \<equiv> disk_inode contents fs d"
  assumes ok: "fs_ok valid contents fs" "inodes_aligned fs" "valid_ino fs d" "unat d \<notin> free_inodes contents fs" and dir: "dir_ok contents fs n"
    and name: "name \<noteq> []" "length name < 256" "name \<notin> fst ` set (dir_entries contents fs n)" and new: "inode_wf new"
    and room: "unat (i_blocks n) + 4 * (bs_of fs div 512) < 2 ^ 32" "dir_blocks fs n < max_file_blocks (bs_of fs div 4)" "dir_blocks fs n + 1 < 2 ^ 32"
  shows "\<exists>r fs'. ebind (alloc_inode bd) (\<lambda>ino. ebind (add_dir_entry bd n name ino ft) (\<lambda>(new_ino, updated_parent).
      ebind (write_inode bd new_ino new) (\<lambda>_. ebind (write_inode bd d updated_parent) (\<lambda>_. eret (h new_ino))))) fs = Some (r, fs')
    \<and> (case r of Inl e \<Rightarrow> e = NoSpace \<and> (free_inodes contents fs = {} \<or> card (free_blocks contents fs) < 4)
       | Inr x \<Rightarrow> \<exists>ino. x = h ino \<and> unat ino \<in> free_inodes contents fs \<and> valid_ino fs ino \<and> entry_added valid contents d name ino ft new fs fs')"
proof (cases "free_inodes contents fs = {}")
  case True
  then show ?thesis using alloc_inode_run [OF ok(1)] by (simp add: ebind_Some)
next
  case False
  then obtain ino fs1 where a: "alloc_inode bd fs = Some (Inr ino, fs1)" "unat ino \<in> free_inodes contents fs"
    "free_inodes contents fs1 = free_inodes contents fs - {unat ino}" "valid_ino fs ino"
    "free_blocks contents fs1 = free_blocks contents fs" "fs_ok valid contents fs1" "kept contents {} fs fs1"
    using alloc_inode_run [OF ok(1)] by auto
  have ino: "ino \<noteq> 0" "ino \<noteq> d" using a(2,4) ok(4) by (auto simp: valid_ino_def)
  have i: "inode_ok contents fs n" using dir by (simp add: dir_ok_def)
  have free: "free_blocks contents fs1 \<inter> owned contents fs n = {}" using owned_data(2) [OF i] a(5) by auto
  note d1 = dir_frame [OF dir a(7) _ free, simplified] and o1 = index_frame(3) [OF i a(7) _ free, simplified]
  have bs: "bs_of fs1 = bs_of fs" and sh1: "shape fs1 = shape fs" using a(7) kept_facts(1) [OF a(7)] by (simp_all add: kept_def)
  have room1: "unat (i_blocks n) + 4 * (bs_of fs1 div 512) < 2 ^ 32" "dir_blocks fs1 n < max_file_blocks (bs_of fs1 div 4)" "dir_blocks fs1 n + 1 < 2 ^ 32"
    using room bs by (simp_all add: dir_blocks_def)
  have name1: "name \<notin> fst ` set (dir_entries contents fs1 n)" using name(3) d1(2) by simp
  obtain r fs2 where b: "add_dir_entry bd n name ino ft fs1 = Some (r, fs2)" "fs_ok valid contents fs2"
    "kept contents (owned contents fs n \<union> free_blocks contents fs) fs1 fs2"
    "free_blocks contents fs2 \<subseteq> free_blocks contents fs" "free_inodes contents fs2 = free_inodes contents fs1"
    "case r of Inl e \<Rightarrow> e = NoSpace \<and> card (free_blocks contents fs) < 4
     | Inr (ino', dir') \<Rightarrow> ino' = ino \<and> dir_grown contents fs1 n fs2 dir'
         \<and> inserted (name, ino, ft) (dir_entries contents fs n) (dir_entries contents fs2 dir')"
    using add_dir_entry_run [OF a(6) d1(1) name(1,2) ino(1) name1 room1, of ft] unfolding a(5) o1 d1(2) by blast
  show ?thesis
  proof (cases r)
    case (Inl e)
    then show ?thesis using a(1) b(1,6) by (simp add: ebind_Some)
  next
    case (Inr x)
    then obtain dir' where x: "r = Inr (ino, dir')" "dir_grown contents fs1 n fs2 dir'"
      "inserted (name, ino, ft) (dir_entries contents fs n) (dir_entries contents fs2 dir')"
      using b(6) by (cases x) simp
    note k2 = kept_trans [OF a(7) b(3)]
    have sh: "shape fs2 = shape fs" using k2 by (simp add: kept_def)
    have data: "\<forall>c \<in> {} \<union> (owned contents fs n \<union> free_blocks contents fs). data_block fs c"
      using owned_data(1) [OF i] ok(1) by (auto simp: fs_ok_def)
    have inodes: "disk_inode contents fs2 j = disk_inode contents fs j" if "valid_ino fs j" for j
      by (rule disk_inode_kept_data [OF k2 ok(1,2) that data])
    have wf: "inode_wf dir'"
      using x(2) inode_wf_disk_inode [OF ok(1-3)] by (simp add: dir_grown_def dir_ok_def inode_ok_def inode_wf_def n_def)
    obtain fs3 fs4 where w: "write_inode bd ino new fs2 = Some (Inr (), fs3)" "write_inode bd d dir' fs3 = Some (Inr (), fs4)"
      "fs_ok valid contents fs4" "free_blocks contents fs4 = free_blocks contents fs2" "free_inodes contents fs4 = free_inodes contents fs2"
      "kept contents {fst (ino_slot fs2 ino), fst (ino_slot fs2 d)} fs2 fs4"
      "\<And>j. valid_ino fs2 j \<Longrightarrow> disk_inode contents fs4 j = (if j = d then dir' else if j = ino then new else disk_inode contents fs2 j)"
      "dir_ok contents fs4 dir'" "dir_entries contents fs4 dir' = dir_entries contents fs2 dir'" "owned contents fs4 dir' = owned contents fs2 dir'"
      by (rule write_both_run [OF b(2) _ _ _ ino(2) new wf])
        (use ok a(4) x(2) in \<open>simp_all add: valid_ino_shape [OF sh] inodes_aligned_shape [OF sh] dir_grown_def\<close>)
    have slots: "ino_slot fs2 ino = ino_slot fs ino" "ino_slot fs2 d = ino_slot fs d"
      using ino_slot_shape [OF sh] a(4) ok(3) by simp_all
    have "kept contents (owned contents fs n \<union> free_blocks contents fs \<union> {fst (ino_slot fs ino), fst (ino_slot fs d)}) fs fs4"
      using kept_trans [OF k2 w(6)] slots by simp
    moreover have d4: "disk_inode contents fs4 d = dir'" using w(7) [of d] ok(3) valid_ino_shape [OF sh] by simp
    moreover have "dir_grown contents fs n fs4 dir'" using x(2) w(8,10) o1 a(5) by (simp add: dir_grown_def)
    moreover have "disk_inode contents fs4 j = (if j = ino then new else disk_inode contents fs j)" if "valid_ino fs j" "j \<noteq> d" for j
      using w(7) [of j] inodes [OF that(1)] that valid_ino_shape [OF sh] by simp
    ultimately have "entry_added valid contents d name ino ft new fs fs4"
      using w(3-5,9) b(4,5) a(3) x(3) unfolding entry_added_def n_def by simp
    then show ?thesis using a(1,2,4) b(1) x(1) w(1,2) by (auto simp: ebind_Some)
  qed
qed

end

text \<open>The other files and directories after an entry was added.\<close>

lemma added_other:
  assumes ok: "tree_ok valid contents fs" and d: "reachable (names contents fs) d" "inode_is_dir (disk_inode contents fs d)"
    and ino: "unat ino \<in> free_inodes contents fs" "valid_ino fs ino"
    and add: "entry_added valid contents d name ino ft new fs fs'"
    and j: "reachable (names contents fs) j" "j \<noteq> d"
  shows "disk_inode contents fs' j = disk_inode contents fs j"
    "has_blocks (disk_inode contents fs j) \<Longrightarrow> inode_ok contents fs' (disk_inode contents fs j)
       \<and> owned contents fs' (disk_inode contents fs j) = owned contents fs (disk_inode contents fs j)"
    "inode_is_dir (disk_inode contents fs j) \<Longrightarrow> dir_ok contents fs' (disk_inode contents fs j)
       \<and> dir_entries contents fs' (disk_inode contents fs j) = dir_entries contents fs (disk_inode contents fs j)"
    "inode_is_file (disk_inode contents fs j) \<Longrightarrow> q < max_file_size fs \<Longrightarrow>
       file_byte contents fs' (disk_inode contents fs j) q = file_byte contents fs (disk_inode contents fs j) q"
proof -
  let ?n = "disk_inode contents fs j" and ?W = "owned contents fs (disk_inode contents fs d) \<union> free_blocks contents fs \<union> {fst (ino_slot fs ino), fst (ino_slot fs d)}"
  note t = tree_okD [OF ok]
  have "j \<noteq> ino" using t(4) [OF j(1)] ino(1) by auto
  then show "disk_inode contents fs' j = ?n" using add j(2) t(3) [OF j(1)] by (simp add: entry_added_def)
  have k: "kept contents ?W fs fs'" and sub: "free_blocks contents fs' \<subseteq> free_blocks contents fs"
    using add by (simp_all add: entry_added_def)
  have frame: "inode_ok contents fs ?n" "?W \<inter> owned contents fs ?n = {}" "free_blocks contents fs' \<inter> owned contents fs ?n = {}"
    if hb: "has_blocks ?n"
  proof -
    show i: "inode_ok contents fs ?n" using t(5) [OF j(1) hb] .
    have "owned contents fs (disk_inode contents fs d) \<inter> owned contents fs ?n = {}"
      using t(7) [OF d(1) j(1) j(2) [symmetric] _ hb] d(2) by (simp add: has_blocks_def)
    moreover have "free_blocks contents fs \<inter> owned contents fs ?n = {}" using owned_data(2) [OF i] by auto
    ultimately show "?W \<inter> owned contents fs ?n = {}" "free_blocks contents fs' \<inter> owned contents fs ?n = {}"
      using owned_not_slot(1) [OF t(1,2) ino(2) i] owned_not_slot(1) [OF t(1,2) t(3) [OF d(1)] i] sub by auto
  qed
  show "inode_ok contents fs' ?n \<and> owned contents fs' ?n = owned contents fs ?n" if hb: "has_blocks ?n"
  proof -
    have "?W \<inter> index_blocks contents fs ?n = {}" using frame(2) [OF hb] index_owned by blast
    then show ?thesis using index_frame(2,3) [OF frame(1) [OF hb] k _ frame(3) [OF hb]] by simp
  qed
  show "dir_ok contents fs' ?n \<and> dir_entries contents fs' ?n = dir_entries contents fs ?n" if dj: "inode_is_dir ?n"
  proof -
    have hb: "has_blocks ?n" using dj by (simp add: has_blocks_def)
    show ?thesis using dir_frame [OF t(6) [OF j(1) dj] k frame(2,3) [OF hb]] by simp
  qed
  show "file_byte contents fs' ?n q = file_byte contents fs ?n q" if f: "inode_is_file ?n" "q < max_file_size fs"
  proof -
    have hb: "has_blocks ?n" using f(1) by (simp add: has_blocks_def)
    show ?thesis using file_frame(3) [OF frame(1) [OF hb] k frame(2,3) [OF hb]] fs_ok_facts(4) [OF t(1)] f(2) by simp
  qed
qed

lemma added_names:
  assumes ok: "tree_ok valid contents fs" and d: "reachable (names contents fs) d" "names contents fs d = Some m" "m name = None"
    and ino: "unat ino \<in> free_inodes contents fs" "valid_ino fs ino"
    and add: "entry_added valid contents d name ino ft new fs fs'" and new: "\<not> inode_is_dir new"
  shows "names contents fs' ino = None"
    "reachable (names contents fs) j \<Longrightarrow> names contents fs' j = (if j = d then Some (m(name \<mapsto> ino)) else names contents fs j)"
proof -
  note t = tree_okD [OF ok] and nd = names_Some [OF d(2)]
  have ne: "ino \<noteq> d" using t(4) [OF d(1)] ino(1) by auto
  have "disk_inode contents fs' ino = new" using add ino(2) ne by (simp add: entry_added_def)
  then show "names contents fs' ino = None" using new by (simp add: names_def)
  show "names contents fs' j = (if j = d then Some (m(name \<mapsto> ino)) else names contents fs j)" if j: "reachable (names contents fs) j"
  proof (cases "j = d")
    case False
    note o = added_other [OF ok d(1) nd(1) ino add j False]
    show ?thesis using o(1,3) False by (simp add: names_def Let_def)
  next
    case True
    have g: "i_mode (disk_inode contents fs' d) = i_mode (disk_inode contents fs d)"
      and ins: "inserted (name, ino, ft) (dir_entries contents fs (disk_inode contents fs d)) (dir_entries contents fs' (disk_inode contents fs' d))"
      using add by (simp_all add: entry_added_def dir_grown_def)
    have "name \<notin> fst ` set (dir_entries contents fs (disk_inode contents fs d))"
      using d(3) nd(2) by (simp add: map_of_eq_None_iff)
    from inserted_map_of [OF ins this] show ?thesis
      using True g nd by (auto simp: names_def Let_def inode_is_dir_def fun_eq_iff)
  qed
qed

lemma added_tree_ok:
  assumes ok: "tree_ok valid contents fs" and d: "reachable (names contents fs) d" "names contents fs d = Some m" "m name = None"
    and ino: "unat ino \<in> free_inodes contents fs" "valid_ino fs ino"
    and add: "entry_added valid contents d name ino ft new fs fs'" and new: "\<not> inode_is_dir new" "i_block new = replicate 15 0"
  shows "tree_ok valid contents fs'"
proof -
  note t = tree_okD [OF ok] and nd = names_Some [OF d(2)]
  note o = added_other [OF ok d(1) nd(1) ino add]
  have ne: "ino \<noteq> d" using t(4) [OF d(1)] ino(1) by auto
  have n_ino: "disk_inode contents fs' ino = new" using add ino(2) ne by (simp add: entry_added_def)
  let ?n = "disk_inode contents fs d" and ?n' = "disk_inode contents fs' d"
  have g: "dir_grown contents fs ?n fs' ?n'" and sh: "shape fs' = shape fs" and ok': "fs_ok valid contents fs'"
    and fi: "free_inodes contents fs' = free_inodes contents fs - {unat ino}"
    using add by (simp_all add: entry_added_def kept_def)
  have reach: "reachable (names contents fs') j \<Longrightarrow> j = ino \<or> reachable (names contents fs) j" for j
    using reachable_added [where tree = "names contents fs" and tree' = "names contents fs'" and d = d and m = m and k = name and new = ino]
      added_names [OF ok d ino add new(1)] d(2) by blast
  have dir': "inode_is_dir ?n'" "inode_ok contents fs' ?n'" using g nd(1) by (auto simp: dir_grown_def dir_ok_def inode_is_dir_def)
  have node: "node_ok contents fs' j" if rj: "reachable (names contents fs') j" for j
  proof -
    consider "j = ino" | "j = d" | "reachable (names contents fs) j" "j \<noteq> d" using reach [OF rj] by blast
    then show ?thesis
    proof cases
      case 1
      then show ?thesis using n_ino new empty_inode(1) [OF new(2), of contents fs'] ino(2) fi valid_ino_shape [OF sh] by (simp add: node_ok_def)
    next
      case 2
      then show ?thesis
        using g dir'(2) t(3,4) [OF d(1)] fi valid_ino_shape [OF sh] by (simp add: node_ok_def dir_grown_def)
    next
      case 3
      then show ?thesis
        using o [OF 3] t(3,4) [OF 3(1)] fi valid_ino_shape [OF sh] by (simp add: node_ok_def)
    qed
  qed
  have own: "owned contents fs' (disk_inode contents fs' j) \<subseteq>
      (if j = ino then {} else owned contents fs (disk_inode contents fs j) \<union> (if j = d then free_blocks contents fs else {}))"
    "j \<noteq> ino \<Longrightarrow> has_blocks (disk_inode contents fs j) \<and> reachable (names contents fs) j"
    if rj: "reachable (names contents fs') j" "has_blocks (disk_inode contents fs' j)" for j
  proof -
    consider "j = ino" | "j = d" | "reachable (names contents fs) j" "j \<noteq> d" "j \<noteq> ino" using reach [OF rj(1)] by blast
    then have "owned contents fs' (disk_inode contents fs' j) \<subseteq>
      (if j = ino then {} else owned contents fs (disk_inode contents fs j) \<union> (if j = d then free_blocks contents fs else {}))
      \<and> (j \<noteq> ino \<longrightarrow> has_blocks (disk_inode contents fs j) \<and> reachable (names contents fs) j)"
    proof cases
      case 1
      then show ?thesis using n_ino empty_inode(2) [OF new(2)] by simp
    next
      case 2
      then show ?thesis using g ne d(1) nd(1) by (simp add: dir_grown_def has_blocks_def)
    next
      case 3
      then show ?thesis using o(1,2) [OF 3(1,2)] rj(2) by simp
    qed
    then show "owned contents fs' (disk_inode contents fs' j) \<subseteq>
        (if j = ino then {} else owned contents fs (disk_inode contents fs j) \<union> (if j = d then free_blocks contents fs else {}))"
      "j \<noteq> ino \<Longrightarrow> has_blocks (disk_inode contents fs j) \<and> reachable (names contents fs) j" by simp_all
  qed
  have "owned contents fs' (disk_inode contents fs' i) \<inter> owned contents fs' (disk_inode contents fs' j) = {}"
    if "reachable (names contents fs') i" "reachable (names contents fs') j" "i \<noteq> j"
      "has_blocks (disk_inode contents fs' i)" "has_blocks (disk_inode contents fs' j)" for i j
  proof (cases "i = ino \<or> j = ino")
    case True
    then show ?thesis using own(1) [OF that(1,4)] own(1) [OF that(2,5)] by auto
  next
    case False
    then have hb: "has_blocks (disk_inode contents fs i)" "reachable (names contents fs) i"
      "has_blocks (disk_inode contents fs j)" "reachable (names contents fs) j"
      using own(2) [OF that(1,4)] own(2) [OF that(2,5)] that by auto
    have "free_blocks contents fs \<inter> owned contents fs (disk_inode contents fs i) = {}"
      "free_blocks contents fs \<inter> owned contents fs (disk_inode contents fs j) = {}"
      using owned_data(2) [OF t(5)] hb by auto
    moreover have "owned contents fs' (disk_inode contents fs' i) \<subseteq> owned contents fs (disk_inode contents fs i) \<union> (if i = d then free_blocks contents fs else {})"
      "owned contents fs' (disk_inode contents fs' j) \<subseteq> owned contents fs (disk_inode contents fs j) \<union> (if j = d then free_blocks contents fs else {})"
      using own(1) [OF that(1,4)] own(1) [OF that(2,5)] False by simp_all
    moreover have "i = d \<Longrightarrow> j \<noteq> d" using that(3) by blast
    ultimately show ?thesis using t(7) [OF hb(2,4) that(3) hb(1,3)] by (cases "i = d"; cases "j = d") (simp_all, blast+)
  qed
  then show ?thesis using ok' t(2) node inodes_aligned_shape [OF sh] unfolding tree_ok_def by blast
qed

lemma new_inode_facts:
  "inode_wf (new_inode mode sz links blocks (replicate 15 b))" "i_block (new_inode mode sz links blocks block) = block"
  "inode_is_file (new_inode (S_IFREG OR (mode AND 0xFFF)) sz links blocks block)"
  "\<not> inode_is_dir (new_inode (S_IFREG OR (mode AND 0xFFF)) sz links blocks block)"
proof -
  show "inode_wf (new_inode mode sz links blocks (replicate 15 b))" "i_block (new_inode mode sz links blocks block) = block"
    by (simp_all add: inode_wf_def new_inode_def)
  have "(S_IFREG OR (mode AND 0xFFF)) AND S_IFMT = (S_IFREG AND S_IFMT) OR (mode AND (0xFFF AND S_IFMT))"
    by (simp add: bit.conj_disj_distrib2 and.assoc)
  then have "(S_IFREG OR (mode AND 0xFFF)) AND S_IFMT = S_IFREG" by (simp add: S_IFREG_def S_IFMT_def)
  then show "inode_is_file (new_inode (S_IFREG OR (mode AND 0xFFF)) sz links blocks block)"
    "\<not> inode_is_dir (new_inode (S_IFREG OR (mode AND 0xFFF)) sz links blocks block)"
    by (simp_all add: inode_is_file_def inode_is_dir_def new_inode_def S_IFREG_def S_IFDIR_def)
qed

context disk
begin

lemma parent_of_run:
  assumes ok: "tree_ok valid contents fs" and w: "walk_path (names contents fs) EXT2_ROOT_INO (path_components pp) = Inr d"
    and dir: "names contents fs d = Some m"
  shows "reachable (names contents fs) d" "parent_of bd pp fs = Some (Inr (d, disk_inode contents fs d), fs)"
proof -
  show r: "reachable (names contents fs) d" by (rule walk_path_reachable [OF w reachable.root])
  show "parent_of bd pp fs = Some (Inr (d, disk_inode contents fs d), fs)"
    using ext2_lookup_run [OF ok, of pp] w read_inode_run [OF tree_okD(1,2) [OF ok] tree_okD(3) [OF ok r]] names_Some(1) [OF dir]
    by (simp add: parent_of_def ebind_Some)
qed

lemma find_name_run:
  assumes ok: "tree_ok valid contents fs" and r: "reachable (names contents fs) d" and dir: "names contents fs d = Some m"
  shows "find_entry bd (disk_inode contents fs d) nm fs = Some (case m nm of None \<Rightarrow> Inl NotFound | Some i \<Rightarrow> Inr i, fs)"
  using find_entry_run [OF tree_okD(1) [OF ok] tree_okD(6) [OF ok r names_Some(1) [OF dir]], of nm] names_Some(2) [OF dir]
  by (auto split: option.split)

lemma create_run:
  fixes fs d m nm
  defines "n \<equiv> disk_inode contents fs d"
  assumes ok: "tree_ok valid contents fs" and p: "split_parent_name p = Inr (pp, nm)" "nm \<notin> {''.'', ''..''}" "length nm < 256"
    and d: "walk_path (names contents fs) EXT2_ROOT_INO (path_components pp) = Inr d" "names contents fs d = Some m"
    and room: "unat (i_blocks n) + 4 * (bs_of fs div 512) < 2 ^ 32" "dir_blocks fs n < max_file_blocks (bs_of fs div 4)" "dir_blocks fs n + 1 < 2 ^ 32"
  shows "\<exists>r fs'. ext2_create bd p mode fs = Some (r, fs')
    \<and> (case r of
        Inl e \<Rightarrow> (case m (str_bytes nm) of Some _ \<Rightarrow> e = AlreadyExists \<and> fs' = fs
          | None \<Rightarrow> e = NoSpace \<and> (free_inodes contents fs = {} \<or> card (free_blocks contents fs) < 4))
      | Inr f \<Rightarrow> m (str_bytes nm) = None \<and> unat (f_ino f) \<in> free_inodes contents fs \<and> f_size f = 0
          \<and> tree_ok valid contents fs' \<and> disk_inode contents fs' (f_ino f) = f_inode f
          \<and> ext2_lookup bd p fs' = Some (Inr (f_ino f), fs')
          \<and> (\<forall>q. \<exists>x. ext2_lookup bd q fs = Some (x, fs)
               \<and> (ext2_lookup bd q fs' = Some (x, fs') \<or> isl x \<and> ext2_lookup bd q fs' = Some (Inr (f_ino f), fs')))
          \<and> (\<forall>j. reachable (names contents fs) j \<and> inode_is_file (disk_inode contents fs j) \<longrightarrow>
               disk_inode contents fs' j = disk_inode contents fs j
               \<and> (\<forall>q < max_file_size fs. file_byte contents fs' (disk_inode contents fs j) q = file_byte contents fs (disk_inode contents fs j) q)))"
proof -
  note r = parent_of_run [OF ok d] and t = tree_okD [OF ok] and nd = names_Some [OF d(2)]
  have f: "eis_ok (find_entry bd (disk_inode contents fs d) (str_bytes nm)) fs = Some (Inr (m (str_bytes nm) \<noteq> None), fs)"
    using find_name_run [OF ok r(1) d(2), of "str_bytes nm"] by (simp add: eis_ok_def split: option.split)
  note path = split_parent_name_Inr [OF p(1)]
  let ?new = "new_inode (S_IFREG OR (mode AND 0xFFF)) 0 1 0 (replicate 15 0)"
  show ?thesis
  proof (cases "m (str_bytes nm)")
    case (Some i)
    have "ext2_create bd p mode fs = Some (Inl AlreadyExists, fs)"
      using p(1) r(2) f Some by (simp add: ext2_create_def ebind_Some)
    then show ?thesis using Some by simp
  next
    case None
    let ?ops = "ebind (alloc_inode bd) (\<lambda>ino. ebind (add_dir_entry bd n (str_bytes nm) ino FT_REG_FILE) (\<lambda>(new_ino, updated_parent).
      ebind (write_inode bd new_ino ?new) (\<lambda>_. ebind (write_inode bd d updated_parent) (\<lambda>_. eret (ext2_file_new ?new new_ino)))))"
    have run: "ext2_create bd p mode fs = ?ops fs"
      using p(1) r(2) None by (simp add: ext2_create_def ebind_Some(1) [where m = "parent_of bd pp", OF r(2)] ebind_Some(1) [where m = "eis_ok e" and fs = fs for e, OF f] n_def Let_def)
    have "str_bytes nm \<notin> fst ` set (dir_entries contents fs n)" "str_bytes nm \<noteq> []" "length (str_bytes nm) < 256"
      using None nd(2) path(1) p(3) by (simp_all add: n_def map_of_eq_None_iff str_bytes_def)
    from create_entry_run [where ft = FT_REG_FILE and h = "ext2_file_new ?new" and new = ?new, OF t(1,2) t(3,4) [OF r(1)] _ this(2,3) _ new_inode_facts(1)] t(6) [OF r(1) nd(1)] this(1) room
    obtain r' fs' where x: "?ops fs = Some (r', fs')"
      "case r' of Inl e \<Rightarrow> e = NoSpace \<and> (free_inodes contents fs = {} \<or> card (free_blocks contents fs) < 4)
       | Inr x \<Rightarrow> \<exists>ino. x = ext2_file_new ?new ino \<and> unat ino \<in> free_inodes contents fs \<and> valid_ino fs ino
           \<and> entry_added valid contents d (str_bytes nm) ino FT_REG_FILE ?new fs fs'"
      unfolding n_def by blast
    show ?thesis
    proof (cases r')
      case (Inl e)
      then show ?thesis using x run None by simp
    next
      case (Inr fl)
      then obtain ino where i: "fl = ext2_file_new ?new ino" "unat ino \<in> free_inodes contents fs" "valid_ino fs ino"
        "entry_added valid contents d (str_bytes nm) ino FT_REG_FILE ?new fs fs'"
        using x(2) by auto
      note names' = added_names [OF ok r(1) d(2) None i(2-4) new_inode_facts(4)]
      have ok': "tree_ok valid contents fs'"
        by (rule added_tree_ok [OF ok r(1) d(2) None i(2-4) new_inode_facts(4,2)])
      note walk = walk_path_added [where tree = "names contents fs" and tree' = "names contents fs'", OF names'(2) d(2) None names'(1) reachable.root]
      have "walk_path (names contents fs') EXT2_ROOT_INO (path_components p) = Inr ino"
        using walk [of "path_components pp"] d(1) path(2) names'(2) [OF r(1)] p(2) by (simp add: walk_path_append)
      then have own: "ext2_lookup bd p fs' = Some (Inr ino, fs')" using ext2_lookup_run [OF ok', of p] by simp
      have others: "\<exists>x. ext2_lookup bd q fs = Some (x, fs)
          \<and> (ext2_lookup bd q fs' = Some (x, fs') \<or> isl x \<and> ext2_lookup bd q fs' = Some (Inr ino, fs'))" for q
        using walk [of "path_components q"] ext2_lookup_run [OF ok, of q] ext2_lookup_run [OF ok', of q] by (auto split: sum.splits)
      have ne: "ino \<noteq> d" using t(4) [OF r(1)] i(2) by auto
      then have "disk_inode contents fs' ino = ?new" using i(3,4) by (simp add: entry_added_def)
      moreover have "disk_inode contents fs' j = disk_inode contents fs j \<and> (\<forall>q < max_file_size fs.
          file_byte contents fs' (disk_inode contents fs j) q = file_byte contents fs (disk_inode contents fs j) q)"
        if j: "reachable (names contents fs) j" "inode_is_file (disk_inode contents fs j)" for j
      proof -
        have "j \<noteq> d" using j(2) nd(1) by (auto simp: inode_is_file_def inode_is_dir_def S_IFREG_def S_IFDIR_def)
        then show ?thesis using added_other(1,4) [OF ok r(1) nd(1) i(2-4) j(1)] j(2) by blast
      qed
      moreover have "f_ino fl = ino" "f_inode fl = ?new" "f_size fl = 0"
        using i(1) by (simp_all add: ext2_file_new_def new_inode_def inode_size_def)
      ultimately show ?thesis using run x(1) Inr None i(2) ok' own others by simp
    qed
  qed
qed

end

section \<open>Properties\<close>



text \<open>A file system with nothing but its root directory.\<close>

definition demo_root_inode :: inode where
  "demo_root_inode = demo_dir\<lparr>i_mode := S_IFDIR\<rparr>"

definition demo_tree :: "bytes virtio_block_inner ext2" where
  "demo_tree = demo_fs (replicate 128 0 @ inode_to_bytes demo_root_inode @ replicate 768 0) (block_of demo_records)"

lemma demo_root_wf: "inode_wf demo_root_inode" "i_block demo_root_inode = i_block demo_inode" "inode_size demo_root_inode = 1024"
proof -
  have "i_osd2 demo_root_inode = i_osd2 demo_inode" by (simp add: demo_root_inode_def demo_dir_def inode_set_size_def)
  then show "inode_wf demo_root_inode" "i_block demo_root_inode = i_block demo_inode" "inode_size demo_root_inode = 1024"
    using demo_dir demo_table(2) by (simp_all add: demo_root_inode_def inode_size_def inode_wf_def)
qed

lemma demo_tree_facts:
  "disk_inode vbi_device demo_tree 2 = demo_root_inode" "tree_ok demo_valid vbi_device demo_tree"
  "names vbi_device demo_tree 2 = Some (map_of [(str_bytes ''.'', 2), (str_bytes ''..'', 2)])"
  "free_blocks vbi_device demo_tree = {7, 8, 9, 10, 11}" "bs_of demo_tree = 1024" "dir_blocks demo_tree demo_root_inode = 1"
  "free_inodes vbi_device demo_tree = {4, 5, 6, 7, 8}"
proof -
  let ?n = demo_root_inode and ?fs = demo_tree
  note wf = demo_root_wf
  have len: "length (inode_to_bytes ?n) = 128" using wf(1) by (simp add: inode_wf_def length_inode_to_bytes)
  have "length (replicate 128 0 @ inode_to_bytes ?n @ replicate 768 0) = 1024" by (simp add: len)
  note at = demo_dir_at [OF this wf(2,3), folded demo_tree_def]
  show "free_blocks vbi_device ?fs = {7, 8, 9, 10, 11}" "bs_of ?fs = 1024" "dir_blocks ?fs ?n = 1" by (rule at)+
  have slot: "ino_slot ?fs 2 = (5, 128)" by (simp add: ino_slot_def demo_tree_def demo_fs_def)
  have "blk (vbi_device (e_dev ?fs)) 1024 5 = replicate 128 0 @ inode_to_bytes ?n @ replicate 768 0"
    by (simp add: demo_tree_def demo_fs_def blk_def demo_image_def sub_slice_def len)
  then show n: "disk_inode vbi_device ?fs 2 = ?n"
    using slot at(2) wf(1) len by (simp add: disk_inode_def sub_slice_def inode_read_to_bytes inode_wf_def)
  have dir: "inode_is_dir ?n" by (simp add: inode_is_dir_def demo_root_inode_def S_IFDIR_def S_IFMT_def)
  show names: "names vbi_device ?fs 2 = Some (map_of [(str_bytes ''.'', 2), (str_bytes ''..'', 2)])"
    using n dir at(6) by (auto simp: names_def fun_eq_iff)
  have reach: "reachable (names vbi_device ?fs) j \<Longrightarrow> j = 2" for j
    by (induction rule: reachable.induct) (auto simp: EXT2_ROOT_INO_def names split: if_splits)
  show free: "free_inodes vbi_device ?fs = {4, 5, 6, 7, 8}"
  proof -
    have "length (e_block_groups ?fs) = 1" by (simp add: demo_tree_def demo_fs_def)
    then have "free_inodes vbi_device ?fs = inode_at ?fs 0 ` {3, 4, 5, 6, 7}"
      by (simp add: free_inodes_def demo_tree_def demo_clear lessThan_Suc)
    then show ?thesis by (simp add: inode_at_def)
  qed
  have "valid_ino ?fs 2" "inodes_aligned ?fs"
    by (simp_all add: valid_ino_def inodes_aligned_def demo_tree_def demo_fs_def dvd_def exI [of _ 8])
  then show "tree_ok demo_valid vbi_device ?fs"
    using n at(1,5) free unfolding tree_ok_def node_ok_def by (auto dest!: reach simp: dir_ok_def)
qed



end
